(* ===== verification/Nachos_Prelude.thy ===== *)
theory Nachos_Prelude
  imports Main "HOL-Library.Word" "HOL-Library.Signed_Division"
begin

text \<open>
  What every component shares.  A Nachos run dies on a failed \<open>ASSERT\<close> (utility.h prints and
  calls \<open>Abort\<close>), and C++ leaves some accesses undefined; both end a run, so an operation that
  can do either returns a sum, \<open>Inl\<close> of the fault or \<open>Inr\<close> of the result.  The section on
  integers fixes the C readings: \<open>int\<close> division truncates (\<open>sdiv\<close>, \<open>smod\<close>), machine words are
  \<open>32 word\<close>, and the host is the 32-bit little-endian i386 that the build files select.
\<close>

section \<open>Faults and sequencing\<close>

datatype fault =
    AssertFail    \<comment> \<open>a failed \<open>ASSERT\<close>\<close>
  | BadAccess     \<comment> \<open>an access outside an array, or a read of memory that was never written\<close>
  | HostTrap      \<comment> \<open>the host's divide instruction overflows\<close>
  | MachineHalt   \<comment> \<open>\<open>Interrupt::Halt\<close>, the orderly end of a run\<close>

type_synonym 'a res = "fault + 'a"

definition bindR :: "'a res \<Rightarrow> ('a \<Rightarrow> 'b res) \<Rightarrow> 'b res" where
  "bindR m f = (case m of Inl e \<Rightarrow> Inl e | Inr x \<Rightarrow> f x)"

lemma bindR_simps [simp]:
  "bindR (Inl e) f = Inl e"
  "bindR (Inr x) f = f x"
  by (simp_all add: bindR_def)

lemma bindR_eq_Inr [simp]: "bindR m f = Inr y \<longleftrightarrow> (\<exists>x. m = Inr x \<and> f x = Inr y)"
  by (cases m) simp_all

lemma bindR_assoc: "bindR (bindR m f) g = bindR m (\<lambda>x. bindR (f x) g)"
  by (cases m) simp_all

lemma bindR_cong [fundef_cong]:
  "m = m' \<Longrightarrow> (\<And>x. m' = Inr x \<Longrightarrow> f x = f' x) \<Longrightarrow> bindR m f = bindR m' f'"
  by (cases m') simp_all

section \<open>C integers (threads/utility.h)\<close>

definition divRoundDown :: "int \<Rightarrow> int \<Rightarrow> int" where
  "divRoundDown n s = n sdiv s"

definition divRoundUp :: "int \<Rightarrow> int \<Rightarrow> int" where
  "divRoundUp n s = n sdiv s + (if n smod s > 0 then 1 else 0)"

lemma sdiv_nonneg_eq: "0 \<le> a \<Longrightarrow> 0 < b \<Longrightarrow> a sdiv b = a div (b :: int)"
  by (simp add: signed_divide_int_def sgn_if)

lemma smod_nonneg_eq: "0 \<le> a \<Longrightarrow> 0 < b \<Longrightarrow> a smod b = a mod (b :: int)"
  by (simp add: signed_modulo_int_def sgn_if)

lemma divRoundDown_nonneg: "0 \<le> n \<Longrightarrow> 0 < s \<Longrightarrow> divRoundDown n s = n div s"
  by (simp add: divRoundDown_def sdiv_nonneg_eq)

lemma divRoundUp_nonneg: "0 \<le> n \<Longrightarrow> 0 < s \<Longrightarrow> divRoundUp n s = (n + s - 1) div s"
proof -
  assume n: "0 \<le> n" and s: "0 < s"
  have eq: "n = s * (n div s) + n mod s" by simp
  have lt: "0 \<le> n mod s" "n mod s < s" using s by simp_all
  have "(n + s - 1) div s = n div s + (n mod s + s - 1) div s"
  proof -
    have "n + s - 1 = (n mod s + s - 1) + s * (n div s)" using eq by linarith
    then show ?thesis
      using s div_mult_self2 [of s "n mod s + s - 1" "n div s"] by (simp add: algebra_simps)
  qed
  moreover have "(n mod s + s - 1) div s = (if n mod s > 0 then 1 else 0)"
  proof (cases "n mod s > 0")
    case True
    then have "(n mod s + s - 1) div s = ((n mod s - 1) + s * 1) div s" by (simp add: algebra_simps)
    also have "\<dots> = (n mod s - 1) div s + 1" using s div_add_self2 [of s "n mod s - 1"] by simp
    finally show ?thesis using True lt s by (simp add: div_pos_pos_trivial)
  next
    case False
    with lt have "n mod s = 0" by linarith
    with s show ?thesis by (simp add: div_pos_pos_trivial)
  qed
  ultimately show ?thesis
    using n s by (simp add: divRoundUp_def sdiv_nonneg_eq smod_nonneg_eq)
qed

text \<open>An \<open>int\<close> compared with a \<open>size_t\<close> is converted to 32-bit unsigned first.\<close>

definition to_unsigned :: "int \<Rightarrow> int" where
  "to_unsigned n = n mod 4294967296"

lemma to_unsigned_id: "0 \<le> n \<Longrightarrow> n < 4294967296 \<Longrightarrow> to_unsigned n = n"
  by (simp add: to_unsigned_def)

section \<open>Bytes\<close>

type_synonym u8 = "8 word"
type_synonym u32 = "32 word"

definition word_bytes :: "u32 \<Rightarrow> u8 list" where
  "word_bytes w = [ucast w, ucast (drop_bit 8 w), ucast (drop_bit 16 w), ucast (drop_bit 24 w)]"

fun bytes_word :: "u8 list \<Rightarrow> u32" where
  "bytes_word [a, b, c, d] =
     or (ucast a) (or (push_bit 8 (ucast b)) (or (push_bit 16 (ucast c)) (push_bit 24 (ucast d))))"
| "bytes_word _ = 0"

lemma length_word_bytes [simp]: "length (word_bytes w) = 4"
  by (simp add: word_bytes_def)

lemma bytes_word_word_bytes [simp]: "bytes_word (word_bytes w) = w"
proof (rule bit_word_eqI)
  fix n assume "n < LENGTH(32)"
  then consider "n < 8" | "8 \<le> n" "n < 16" | "16 \<le> n" "n < 24" | "24 \<le> n" "n < 32"
    by (simp; linarith)
  then show "bit (bytes_word (word_bytes w)) n \<longleftrightarrow> bit w n"
    by cases (simp_all add: word_bytes_def bit_simps less_diff_conv2)
qed

text \<open>An \<open>int\<close> array written as raw bytes, and read back: 4 bytes each, least significant first.\<close>

definition encode_ints :: "int list \<Rightarrow> u8 list" where
  "encode_ints xs = concat (map (\<lambda>x. word_bytes (word_of_int x)) xs)"

fun decode_ints :: "u8 list \<Rightarrow> int list" where
  "decode_ints (a # b # c # d # bs) = sint (bytes_word [a, b, c, d]) # decode_ints bs"
| "decode_ints _ = []"

definition is_int32 :: "int \<Rightarrow> bool" where
  "is_int32 x \<longleftrightarrow> - 2147483648 \<le> x \<and> x < 2147483648"

lemma encode_ints_simps [simp]:
  "encode_ints [] = []"
  "encode_ints (x # xs) = word_bytes (word_of_int x) @ encode_ints xs"
  "encode_ints (xs @ ys) = encode_ints xs @ encode_ints ys"
  by (simp_all add: encode_ints_def)

lemma length_encode_ints [simp]: "length (encode_ints xs) = 4 * length xs"
  by (induction xs) simp_all

lemma decode_ints_word_bytes:
  "decode_ints (word_bytes w @ bs) = sint w # decode_ints bs"
proof -
  obtain a b c d where w: "word_bytes w = [a, b, c, d]" by (simp add: word_bytes_def)
  then have "bytes_word [a, b, c, d] = w" by (metis bytes_word_word_bytes)
  with w show ?thesis by simp
qed

lemma sint_of_int32: "is_int32 x \<Longrightarrow> sint (word_of_int x :: u32) = x"
  by (simp add: is_int32_def signed_take_bit_int_eq_self sint_sbintrunc')

lemma decode_encode_ints: "list_all is_int32 xs \<Longrightarrow> decode_ints (encode_ints xs @ bs) = xs @ decode_ints bs"
  by (induction xs) (simp_all add: decode_ints_word_bytes sint_of_int32)

text \<open>An array of unsigned words as raw bytes.\<close>

definition encode_words :: "u32 list \<Rightarrow> u8 list" where
  "encode_words ws = concat (map word_bytes ws)"

fun decode_words :: "u8 list \<Rightarrow> u32 list" where
  "decode_words (a # b # c # d # bs) = bytes_word [a, b, c, d] # decode_words bs"
| "decode_words _ = []"

lemma length_encode_words [simp]: "length (encode_words ws) = 4 * length ws"
  by (induction ws) (simp_all add: encode_words_def)

lemma decode_encode_words [simp]: "decode_words (encode_words ws) = ws"
proof (induction ws)
  case (Cons w ws)
  obtain a b c d where w: "word_bytes w = [a, b, c, d]" by (simp add: word_bytes_def)
  then have "bytes_word [a, b, c, d] = w" by (metis bytes_word_word_bytes)
  with w Cons show ?case by (simp add: encode_words_def)
qed (simp add: encode_words_def)

text \<open>\<open>bcopy(src, &dst[k], n)\<close> where \<open>xs\<close> are the n bytes copied.\<close>

definition overlay :: "nat \<Rightarrow> 'a list \<Rightarrow> 'a list \<Rightarrow> 'a list" where
  "overlay k xs ys = take k ys @ xs @ drop (k + length xs) ys"

lemma nth_overlay:
  "k + length xs \<le> length ys \<Longrightarrow> i < length ys \<Longrightarrow>
     overlay k xs ys ! i = (if k \<le> i \<and> i < k + length xs then xs ! (i - k) else ys ! i)"
  by (auto simp: overlay_def nth_append min_def)

lemma length_overlay [simp]: "k + length xs \<le> length ys \<Longrightarrow> length (overlay k xs ys) = length ys"
  by (simp add: overlay_def)

lemma overlay_all: "length xs = length ys \<Longrightarrow> overlay 0 xs ys = xs"
  by (simp add: overlay_def)

section \<open>C strings\<close>

text \<open>The characters \<open>strncmp\<close> looks at: at most n, and none after a NUL.\<close>

definition cstr :: "nat \<Rightarrow> u8 list \<Rightarrow> u8 list" where
  "cstr n s = takeWhile (\<lambda>c. c \<noteq> 0) (take n s)"

definition strncmp_eq :: "u8 list \<Rightarrow> u8 list \<Rightarrow> nat \<Rightarrow> bool" where
  "strncmp_eq s t n \<longleftrightarrow> cstr n s = cstr n t"

text \<open>\<open>strncpy(dst, src, n)\<close>: copy at most n characters, pad with NUL up to n.\<close>

definition strncpy :: "u8 list \<Rightarrow> u8 list \<Rightarrow> nat \<Rightarrow> u8 list" where
  "strncpy dst src n = (let s = takeWhile (\<lambda>c. c \<noteq> 0) (take n src)
     in overlay 0 (s @ replicate (n - length s) 0) dst)"

lemma takeWhile_again: "takeWhile P (takeWhile P xs) = takeWhile P xs"
  by (auto dest: set_takeWhileD)

lemma takeWhile_stop: "\<not> P z \<Longrightarrow> takeWhile P (takeWhile P xs @ z # zs) = takeWhile P xs"
  by (induction xs) simp_all

lemma cstr_idem [simp]: "cstr n (cstr n s) = cstr n s"
proof -
  have "length (cstr n s) \<le> n"
    unfolding cstr_def by (rule le_trans [OF length_takeWhile_le]) simp
  then have "cstr n (cstr n s) = takeWhile (\<lambda>c. c \<noteq> 0) (cstr n s)" by (simp add: cstr_def [of n "cstr n s"])
  also have "\<dots> = cstr n s" unfolding cstr_def by (rule takeWhile_again)
  finally show ?thesis .
qed

lemma cstr_strncpy: "n \<le> length dst \<Longrightarrow> cstr n (strncpy dst src n) = cstr n src"
proof -
  let ?s = "takeWhile (\<lambda>c. c \<noteq> 0) (take n src)"
  have len: "length ?s \<le> n" by (rule le_trans [OF length_takeWhile_le]) simp
  have "takeWhile (\<lambda>c. c \<noteq> 0) (?s @ replicate k 0) = ?s" for k
    by (cases k) (simp_all add: takeWhile_again takeWhile_stop del: takeWhile_eq_all_conv)
  then show ?thesis using len by (simp add: cstr_def strncpy_def overlay_def Let_def)
qed

lemma length_strncpy [simp]: "n \<le> length dst \<Longrightarrow> length (strncpy dst src n) = length dst"
proof -
  assume n: "n \<le> length dst"
  have "length (takeWhile (\<lambda>c. c \<noteq> 0) (take n src)) \<le> n" by (rule le_trans [OF length_takeWhile_le]) simp
  then show ?thesis using n by (simp add: strncpy_def Let_def)
qed

section \<open>Systems with steps\<close>

text \<open>An invariant of the initial states that every step keeps holds in every reachable state.\<close>

locale step_system =
  fixes init :: "'s \<Rightarrow> bool" and step :: "'s \<Rightarrow> 's \<Rightarrow> bool" and inv :: "'s \<Rightarrow> bool"
  assumes inv_init: "init s \<Longrightarrow> inv s"
    and inv_step: "inv s \<Longrightarrow> step s s' \<Longrightarrow> inv s'"
begin

lemma inv_steps: "step\<^sup>*\<^sup>* s s' \<Longrightarrow> inv s \<Longrightarrow> inv s'"
  by (induction rule: rtranclp_induct) (auto intro: inv_step)

lemma inv_reachable: "init s \<Longrightarrow> step\<^sup>*\<^sup>* s s' \<Longrightarrow> inv s'"
  using inv_steps inv_init by blast

end

end
