(* ===== verification/Bitmap.thy ===== *)
theory Bitmap
  imports Nachos_Prelude
begin

text \<open>
  userprog/bitmap.cc: an array of bits stored in 32-bit words, with a first-fit allocator
  (\<open>Find\<close>).  The file system allocates disk sectors from it and the address space allocates
  physical pages.  \<open>marked\<close> is the abstract view (the set of bits that are on); the locale
  \<open>bit_allocator\<close> is the contract the clients use, and the loop "call \<open>Find\<close> n times" that
  \<open>FileHeader::Allocate\<close> runs is proved once inside it.
\<close>

unbundle bit_operations_syntax

section \<open>State and operations\<close>

record BitMap =
  numBits :: int
  numWords :: int
  bits :: "u32 list"   \<comment> \<open>the member \<open>map\<close>\<close>

definition bit_mask :: "int \<Rightarrow> u32" where
  "bit_mask which = push_bit (nat (which smod 32)) 1"

definition word_index :: "int \<Rightarrow> nat" where
  "word_index which = nat (which sdiv 32)"

definition Mark :: "BitMap \<Rightarrow> int \<Rightarrow> BitMap res" where
  "Mark b which =
     (if 0 \<le> which \<and> which < numBits b
      then Inr (b\<lparr>bits := (bits b)[word_index which := (bits b ! word_index which) OR bit_mask which]\<rparr>)
      else Inl AssertFail)"

definition Clear :: "BitMap \<Rightarrow> int \<Rightarrow> BitMap res" where
  "Clear b which =
     (if 0 \<le> which \<and> which < numBits b
      then Inr (b\<lparr>bits := (bits b)[word_index which := (bits b ! word_index which) AND NOT (bit_mask which)]\<rparr>)
      else Inl AssertFail)"

definition Test :: "BitMap \<Rightarrow> int \<Rightarrow> bool res" where
  "Test b which =
     (if 0 \<le> which \<and> which < numBits b
      then Inr ((bits b ! word_index which) AND bit_mask which \<noteq> 0)
      else Inl AssertFail)"

text \<open>\<open>for (i = 0; i < numBits; i++) Clear(i)\<close> over a fresh array, whose contents \<open>raw\<close> are arbitrary.\<close>

fun clear_upto :: "nat \<Rightarrow> BitMap \<Rightarrow> BitMap res" where
  "clear_upto 0 b = Inr b"
| "clear_upto (Suc n) b = bindR (clear_upto n b) (\<lambda>b1. Clear b1 (int n))"

definition new_BitMap :: "int \<Rightarrow> u32 list \<Rightarrow> BitMap res" where
  "new_BitMap nitems raw =
     (let b = \<lparr>numBits = nitems, numWords = divRoundUp nitems 32,
               bits = take (nat (divRoundUp nitems 32)) raw\<rparr>
      in clear_upto (nat nitems) b)"

function Find_from :: "BitMap \<Rightarrow> int \<Rightarrow> (int \<times> BitMap) res" where
  "Find_from b i =
     (if i < numBits b
      then bindR (Test b i) (\<lambda>t. if t then Find_from b (i + 1)
                                  else bindR (Mark b i) (\<lambda>b1. Inr (i, b1)))
      else Inr (-1, b))"
  by pat_completeness auto
termination
  by (relation "measure (\<lambda>(b, i). nat (numBits b - i))") auto

declare Find_from.simps [simp del]

definition Find :: "BitMap \<Rightarrow> (int \<times> BitMap) res" where
  "Find b = Find_from b 0"

function NumClear_from :: "BitMap \<Rightarrow> int \<Rightarrow> int \<Rightarrow> int res" where
  "NumClear_from b i count =
     (if i < numBits b
      then bindR (Test b i) (\<lambda>t. NumClear_from b (i + 1) (if t then count else count + 1))
      else Inr count)"
  by pat_completeness auto
termination
  by (relation "measure (\<lambda>(b, i, c). nat (numBits b - i))") auto

declare NumClear_from.simps [simp del]

definition NumClear :: "BitMap \<Rightarrow> int res" where
  "NumClear b = NumClear_from b 0 0"

section \<open>Well-formedness and the abstract view\<close>

definition wf_bitmap :: "BitMap \<Rightarrow> bool" where
  "wf_bitmap b \<longleftrightarrow> 0 \<le> numBits b \<and> numWords b = divRoundUp (numBits b) 32
     \<and> int (length (bits b)) = numWords b"

definition is_marked :: "BitMap \<Rightarrow> int \<Rightarrow> bool" where
  "is_marked b i \<longleftrightarrow> bit (bits b ! nat (i div 32)) (nat (i mod 32))"

definition marked :: "BitMap \<Rightarrow> int set" where
  "marked b = {i. 0 \<le> i \<and> i < numBits b \<and> is_marked b i}"

definition free_bits :: "BitMap \<Rightarrow> int set" where
  "free_bits b = {0 ..< numBits b} - marked b"

lemma word_index_nonneg: "0 \<le> i \<Longrightarrow> word_index i = nat (i div 32)"
  by (simp add: word_index_def sdiv_nonneg_eq)

lemma bit_mask_nonneg: "0 \<le> i \<Longrightarrow> bit_mask i = push_bit (nat (i mod 32)) 1"
  by (simp add: bit_mask_def smod_nonneg_eq)

lemma word_index_in_range:
  assumes "wf_bitmap b" "0 \<le> i" "i < numBits b"
  shows "nat (i div 32) < length (bits b)"
proof -
  have "int (length (bits b)) = (numBits b + 31) div 32"
    using assms by (simp add: wf_bitmap_def divRoundUp_nonneg)
  moreover have "i div 32 < (numBits b + 31) div 32"
    using assms(3) by linarith
  ultimately show ?thesis using assms(2) by simp
qed

lemma bit_of_mask: "bit (2 ^ k :: u32) n \<longleftrightarrow> n = k \<and> k < 32"
  by (auto simp: bit_exp_iff)

lemma and_mask_zero: "k < 32 \<Longrightarrow> (w AND 2 ^ k) = 0 \<longleftrightarrow> \<not> bit (w :: u32) k"
  by (simp add: bit_iff_and_push_bit_not_eq_0)

lemma bit_or_mask: "k < 32 \<Longrightarrow> bit (w OR push_bit k 1) n \<longleftrightarrow> n = k \<or> bit (w :: u32) n"
  by (auto simp: bit_or_iff bit_of_mask)

lemma bit_andnot_mask: "n < 32 \<Longrightarrow> bit (w AND NOT (push_bit k 1)) n \<longleftrightarrow> n \<noteq> k \<and> bit (w :: u32) n"
  by (auto simp: bit_and_iff bit_not_iff bit_of_mask)

lemma div_mod_same: "(i div 32 = j div 32 \<and> i mod 32 = j mod 32) \<longleftrightarrow> i = (j :: int)"
  by (metis mult_div_mod_eq)

lemma nat_split_eq:
  assumes "0 \<le> i" "0 \<le> (j :: int)"
  shows "(nat (i div 32) = nat (j div 32) \<and> nat (i mod 32) = nat (j mod 32)) \<longleftrightarrow> i = j"
proof -
  have "nat (i div 32) = nat (j div 32) \<longleftrightarrow> i div 32 = j div 32"
    using assms by (simp add: eq_nat_nat_iff pos_imp_zdiv_nonneg_iff)
  moreover have "nat (i mod 32) = nat (j mod 32) \<longleftrightarrow> i mod 32 = j mod 32"
    by (simp add: eq_nat_nat_iff)
  ultimately show ?thesis using div_mod_same by blast
qed

section \<open>The operations over the abstract view\<close>

lemma Test_spec:
  assumes "0 \<le> i" "i < numBits b"
  shows "Test b i = Inr (is_marked b i)"
proof -
  have "nat (i mod 32) < 32" by (simp add: nat_less_iff)
  then show ?thesis
    using assms
    by (simp add: Test_def is_marked_def word_index_nonneg bit_mask_nonneg and_mask_zero)
qed

lemma is_marked_update:
  assumes wf: "wf_bitmap b" and i: "0 \<le> i" "i < numBits b" and j: "0 \<le> j"
  shows "is_marked (b\<lparr>bits := (bits b)[nat (i div 32) := w]\<rparr>) j =
    (if nat (j div 32) = nat (i div 32) then bit w (nat (j mod 32)) else is_marked b j)"
  using word_index_in_range [OF wf i] by (simp add: is_marked_def nth_list_update)

lemma is_marked_Mark:
  assumes wf: "wf_bitmap b" and i: "0 \<le> i" "i < numBits b"
    and m: "Mark b i = Inr b'" and j: "0 \<le> j"
  shows "is_marked b' j \<longleftrightarrow> j = i \<or> is_marked b j"
proof -
  have b': "b' = b\<lparr>bits := (bits b)[nat (i div 32) :=
      (bits b ! nat (i div 32)) OR push_bit (nat (i mod 32)) 1]\<rparr>"
    using m i by (simp add: Mark_def word_index_nonneg bit_mask_nonneg)
  have lt: "nat (i mod 32) < 32" by (simp add: nat_less_iff)
  show ?thesis
    unfolding b' is_marked_update [OF wf i j] bit_or_mask [OF lt]
    unfolding is_marked_def
    using nat_split_eq [OF i(1) j] by metis
qed

lemma is_marked_Clear:
  assumes wf: "wf_bitmap b" and i: "0 \<le> i" "i < numBits b"
    and m: "Clear b i = Inr b'" and j: "0 \<le> j"
  shows "is_marked b' j \<longleftrightarrow> j \<noteq> i \<and> is_marked b j"
proof -
  have b': "b' = b\<lparr>bits := (bits b)[nat (i div 32) :=
      (bits b ! nat (i div 32)) AND NOT (push_bit (nat (i mod 32)) 1)]\<rparr>"
    using m i by (simp add: Clear_def word_index_nonneg bit_mask_nonneg)
  have lt: "nat (i mod 32) < 32" by (simp add: nat_less_iff)
  have ltj: "nat (j mod 32) < 32" by (simp add: nat_less_iff)
  show ?thesis
    unfolding b' is_marked_update [OF wf i j] bit_andnot_mask [OF ltj]
    unfolding is_marked_def
    using nat_split_eq [OF i(1) j] by metis
qed

lemma Mark_ok: "0 \<le> i \<Longrightarrow> i < numBits b \<Longrightarrow> \<exists>b'. Mark b i = Inr b'"
  by (simp add: Mark_def)

lemma Clear_ok: "0 \<le> i \<Longrightarrow> i < numBits b \<Longrightarrow> \<exists>b'. Clear b i = Inr b'"
  by (simp add: Clear_def)

lemma Mark_frame: "Mark b i = Inr b' \<Longrightarrow> 0 \<le> i \<and> i < numBits b \<and> numBits b' = numBits b"
  by (auto simp: Mark_def split: if_splits)

lemma Clear_frame: "Clear b i = Inr b' \<Longrightarrow> 0 \<le> i \<and> i < numBits b \<and> numBits b' = numBits b"
  by (auto simp: Clear_def split: if_splits)

lemma Mark_wf: "wf_bitmap b \<Longrightarrow> Mark b i = Inr b' \<Longrightarrow> wf_bitmap b'"
  by (auto simp: Mark_def wf_bitmap_def split: if_splits)

lemma Clear_wf: "wf_bitmap b \<Longrightarrow> Clear b i = Inr b' \<Longrightarrow> wf_bitmap b'"
  by (auto simp: Clear_def wf_bitmap_def split: if_splits)

lemma marked_Mark: "wf_bitmap b \<Longrightarrow> Mark b i = Inr b' \<Longrightarrow> marked b' = insert i (marked b)"
  using Mark_frame [of b i b'] by (auto simp: marked_def is_marked_Mark)

lemma marked_Clear: "wf_bitmap b \<Longrightarrow> Clear b i = Inr b' \<Longrightarrow> marked b' = marked b - {i}"
  using Clear_frame [of b i b'] by (auto simp: marked_def is_marked_Clear)

lemmas bitmap_steps = Mark_wf Clear_wf marked_Mark marked_Clear

lemma marked_range: "marked b \<subseteq> {0 ..< numBits b}"
  by (auto simp: marked_def)

lemma finite_free_bits [simp]: "finite (free_bits b)"
  by (simp add: free_bits_def)

lemma mem_free_bits: "i \<in> free_bits b \<longleftrightarrow> 0 \<le> i \<and> i < numBits b \<and> \<not> is_marked b i"
  by (auto simp: free_bits_def marked_def)

subsection \<open>First fit and counting\<close>

lemma free_from_step:
  "0 \<le> i \<Longrightarrow> i < numBits b \<Longrightarrow> {j \<in> free_bits b. i \<le> j} =
     (if is_marked b i then {j \<in> free_bits b. i + 1 \<le> j}
      else insert i {j \<in> free_bits b. i + 1 \<le> j})"
  by (auto simp: mem_free_bits order_le_less)

lemma Find_from_none:
  "0 \<le> i \<Longrightarrow> {j \<in> free_bits b. i \<le> j} = {} \<Longrightarrow> Find_from b i = Inr (-1, b)"
proof (induction b i rule: Find_from.induct)
  case (1 b i)
  show ?case
  proof (cases "i < numBits b")
    case True
    with 1(2,3) have m: "is_marked b i" "{j \<in> free_bits b. i + 1 \<le> j} = {}"
      using free_from_step [of i b] by (auto split: if_splits)
    then show ?thesis
      using 1(1,2) True by (subst Find_from.simps) (simp add: Test_spec)
  qed (simp add: Find_from.simps)
qed

lemma Find_from_some:
  "0 \<le> i \<Longrightarrow> {j \<in> free_bits b. i \<le> j} \<noteq> {} \<Longrightarrow>
     \<exists>b'. Find_from b i = Inr (Min {j \<in> free_bits b. i \<le> j}, b')
        \<and> Mark b (Min {j \<in> free_bits b. i \<le> j}) = Inr b'"
proof (induction b i rule: Find_from.induct)
  case (1 b i)
  have lt: "i < numBits b" using 1(3) by (auto simp: mem_free_bits)
  note step = free_from_step [OF 1(2) lt]
  show ?case
  proof (cases "is_marked b i")
    case True
    with 1 lt step show ?thesis
      by (subst Find_from.simps) (simp add: Test_spec)
  next
    case False
    have "Min (insert i {j \<in> free_bits b. i + 1 \<le> j}) = i"
      by (intro Min_eqI) auto
    with False step have m: "Min {j \<in> free_bits b. i \<le> j} = i" by simp
    obtain b' where "Mark b i = Inr b'" using Mark_ok 1(2) lt by blast
    then show ?thesis
      unfolding m using False 1(2) lt by (subst Find_from.simps) (simp add: Test_spec)
  qed
qed

lemma NumClear_from_spec:
  "0 \<le> i \<Longrightarrow> NumClear_from b i c = Inr (c + int (card {j \<in> free_bits b. i \<le> j}))"
proof (induction b i c rule: NumClear_from.induct)
  case (1 b i c)
  show ?case
  proof (cases "i < numBits b")
    case True
    note step = free_from_step [OF 1(2) True]
    have "i \<notin> {j \<in> free_bits b. i + 1 \<le> j}" by simp
    then have "int (card {j \<in> free_bits b. i \<le> j}) =
        (if is_marked b i then 0 else 1) + int (card {j \<in> free_bits b. i + 1 \<le> j})"
      unfolding step by simp
    then show ?thesis
      using 1(1) [OF True Test_spec [OF 1(2) True]] 1(2) True
      by (subst NumClear_from.simps) (simp add: Test_spec)
  next
    case False
    then have none: "{j \<in> free_bits b. i \<le> j} = {}" by (auto simp: mem_free_bits)
    show ?thesis unfolding none by (subst NumClear_from.simps) (simp add: False)
  qed
qed

lemma free_from_0: "{j \<in> free_bits b. 0 \<le> j} = free_bits b"
  by (auto simp: mem_free_bits)

lemma NumClear_spec: "NumClear b = Inr (int (card (free_bits b)))"
  by (simp add: NumClear_def NumClear_from_spec free_from_0)

lemma Find_spec:
  "Find b = (if free_bits b = {} then Inr (-1, b)
             else bindR (Mark b (Min (free_bits b))) (\<lambda>b'. Inr (Min (free_bits b), b')))"
proof (cases "free_bits b = {}")
  case True
  then show ?thesis using Find_from_none [of 0 b] by (simp add: Find_def free_from_0)
next
  case False
  then obtain b' where "Find_from b 0 = Inr (Min (free_bits b), b')" "Mark b (Min (free_bits b)) = Inr b'"
    using Find_from_some [of 0 b] by (auto simp: free_from_0)
  with False show ?thesis by (simp add: Find_def)
qed

section \<open>The allocator contract\<close>

text \<open>\<open>for (i = 0; i < n; i++) get[i] = map->Find()\<close>, and clearing every bit of a list.\<close>

fun repeat_find :: "('b \<Rightarrow> (int \<times> 'b) res) \<Rightarrow> nat \<Rightarrow> 'b \<Rightarrow> (int list \<times> 'b) res" where
  "repeat_find f 0 b = Inr ([], b)"
| "repeat_find f (Suc n) b =
     bindR (f b) (\<lambda>(i, b1). bindR (repeat_find f n b1) (\<lambda>(js, b2). Inr (i # js, b2)))"

fun repeat_clear :: "('b \<Rightarrow> int \<Rightarrow> 'b res) \<Rightarrow> int list \<Rightarrow> 'b \<Rightarrow> 'b res" where
  "repeat_clear c [] b = Inr b"
| "repeat_clear c (i # js) b = bindR (c b i) (repeat_clear c js)"

locale bit_allocator =
  fixes size_of :: "'b \<Rightarrow> int"
    and used :: "'b \<Rightarrow> int set"
    and clear :: "'b \<Rightarrow> int \<Rightarrow> 'b res"
    and find :: "'b \<Rightarrow> (int \<times> 'b) res"
    and num_clear :: "'b \<Rightarrow> int res"
    and invar :: "'b \<Rightarrow> bool"
  assumes used_range: "invar b \<Longrightarrow> used b \<subseteq> {0 ..< size_of b}"
    and clear_law: "invar b \<Longrightarrow> 0 \<le> i \<Longrightarrow> i < size_of b \<Longrightarrow>
       \<exists>b'. clear b i = Inr b' \<and> invar b' \<and> size_of b' = size_of b \<and> used b' = used b - {i}"
    and find_law: "invar b \<Longrightarrow> used b \<noteq> {0 ..< size_of b} \<Longrightarrow>
       \<exists>i b'. find b = Inr (i, b') \<and> invar b' \<and> size_of b' = size_of b
          \<and> i \<in> {0 ..< size_of b} - used b \<and> used b' = insert i (used b)"
    and find_full_law: "invar b \<Longrightarrow> used b = {0 ..< size_of b} \<Longrightarrow> find b = Inr (-1, b)"
    and num_clear_law: "invar b \<Longrightarrow> num_clear b = Inr (int (card ({0 ..< size_of b} - used b)))"
begin

text \<open>With enough clear bits, n calls of \<open>find\<close> hand out n different bits, all of them clear before.\<close>

lemma repeat_find_fresh:
  "invar b \<Longrightarrow> n \<le> card ({0 ..< size_of b} - used b) \<Longrightarrow>
     \<exists>js b'. repeat_find find n b = Inr (js, b') \<and> invar b' \<and> size_of b' = size_of b
        \<and> length js = n \<and> distinct js \<and> set js \<subseteq> {0 ..< size_of b} - used b
        \<and> used b' = used b \<union> set js"
proof (induction n arbitrary: b)
  case 0
  then show ?case by simp
next
  case (Suc n)
  from Suc.prems(2) have "used b \<noteq> {0 ..< size_of b}" by auto
  with Suc.prems(1) obtain i b1 where 1: "find b = Inr (i, b1)" "invar b1" "size_of b1 = size_of b"
    "i \<in> {0 ..< size_of b} - used b" "used b1 = insert i (used b)"
    using find_law by blast
  have "{0 ..< size_of b1} - used b1 = ({0 ..< size_of b} - used b) - {i}"
    using 1(3,5) by auto
  then have "n \<le> card ({0 ..< size_of b1} - used b1)"
    using 1(4) Suc.prems(2) by simp
  with Suc.IH 1(2) obtain js b2 where 2: "repeat_find find n b1 = Inr (js, b2)" "invar b2"
    "size_of b2 = size_of b1" "length js = n" "distinct js"
    "set js \<subseteq> {0 ..< size_of b1} - used b1" "used b2 = used b1 \<union> set js"
    by blast
  show ?case
    by (rule exI [of _ "i # js"], rule exI [of _ b2]) (use 1 2 in auto)
qed

text \<open>Once every bit js taken, each further call answers -1.\<close>

lemma repeat_find_full:
  "invar b \<Longrightarrow> used b = {0 ..< size_of b} \<Longrightarrow> repeat_find find n b = Inr (replicate n (-1), b)"
  by (induction n) (simp_all add: find_full_law)

lemma repeat_find_split:
  "repeat_find find (m + n) b =
     bindR (repeat_find find m b) (\<lambda>(xs, b1). bindR (repeat_find find n b1) (\<lambda>(ys, b2). Inr (xs @ ys, b2)))"
  by (induction m arbitrary: b)
    (simp_all add: bindR_assoc bindR_def split: sum.splits prod.splits)

lemma repeat_find_exhausted:
  assumes "invar b" "card ({0 ..< size_of b} - used b) < n"
  shows "\<exists>js b'. repeat_find find n b = Inr (js, b') \<and> length js = n \<and> -1 \<in> set js
     \<and> invar b' \<and> size_of b' = size_of b"
proof -
  let ?k = "card ({0 ..< size_of b} - used b)"
  obtain js b1 where 1: "repeat_find find ?k b = Inr (js, b1)" "invar b1" "size_of b1 = size_of b"
    "length js = ?k" "distinct js" "set js \<subseteq> {0 ..< size_of b} - used b" "used b1 = used b \<union> set js"
    using repeat_find_fresh [OF assms(1) order_refl] by blast
  have "card (set js) = ?k" using 1(4,5) by (simp add: distinct_card)
  then have "set js = {0 ..< size_of b} - used b"
    using 1(6) by (intro card_subset_eq) auto
  then have full: "used b1 = {0 ..< size_of b1}"
    using 1(3,7) used_range [OF assms(1)] by auto
  have n: "n = ?k + (n - ?k)" and pos: "n - ?k \<noteq> 0" using assms(2) by simp_all
  have "repeat_find find n b = Inr (js @ replicate (n - ?k) (-1), b1)"
    by (subst n, subst repeat_find_split) (simp add: 1(1) repeat_find_full [OF 1(2) full])
  then show ?thesis using 1(2-4) pos n by auto
qed

lemma repeat_clear_used:
  "invar b \<Longrightarrow> set js \<subseteq> {0 ..< size_of b} \<Longrightarrow>
     \<exists>b'. repeat_clear clear js b = Inr b' \<and> invar b' \<and> size_of b' = size_of b \<and> used b' = used b - set js"
proof (induction js arbitrary: b)
  case Nil
  then show ?case by simp
next
  case (Cons i js)
  then obtain b1 where 1: "clear b i = Inr b1" "invar b1" "size_of b1 = size_of b" "used b1 = used b - {i}"
    using clear_law [of b i] by auto
  have "set js \<subseteq> {0 ..< size_of b1}" using 1(3) Cons.prems(2) by simp
  then obtain b2 where "repeat_clear clear js b1 = Inr b2" "invar b2" "size_of b2 = size_of b1"
    and u: "used b2 = used b1 - set js"
    using Cons.IH [OF 1(2)] by blast
  moreover have "used b2 = used b - set (i # js)" using u 1(4) by auto
  ultimately show ?case using 1(1,3) by simp
qed

end

interpretation bm: bit_allocator numBits marked Clear Find NumClear wf_bitmap
proof unfold_locales
  fix b assume wf: "wf_bitmap b"
  show "marked b \<subseteq> {0 ..< numBits b}" by (rule marked_range)
  show "NumClear b = Inr (int (card ({0 ..< numBits b} - marked b)))"
    by (simp add: NumClear_spec free_bits_def)
  show "\<exists>b'. Clear b i = Inr b' \<and> wf_bitmap b' \<and> numBits b' = numBits b \<and> marked b' = marked b - {i}"
    if "0 \<le> i" "i < numBits b" for i
  proof -
    note i = that
    obtain b1 where b': "Clear b i = Inr b1" using Clear_ok [OF i] by blast
    show ?thesis
      using b' Clear_wf [OF wf b'] Clear_frame [OF b'] marked_Clear [OF wf b'] by simp
  qed
  show "Find b = Inr (-1, b)" if "marked b = {0 ..< numBits b}"
    using that by (simp add: Find_spec free_bits_def)
  show "\<exists>i b'. Find b = Inr (i, b') \<and> wf_bitmap b' \<and> numBits b' = numBits b
      \<and> i \<in> {0 ..< numBits b} - marked b \<and> marked b' = insert i (marked b)"
    if "marked b \<noteq> {0 ..< numBits b}"
  proof -
    have ne: "free_bits b \<noteq> {}" using that marked_range [of b] by (auto simp: free_bits_def)
    then have i: "Min (free_bits b) \<in> free_bits b" by (intro Min_in) simp_all
    then obtain b' where b': "Mark b (Min (free_bits b)) = Inr b'"
      using Mark_ok [of "Min (free_bits b)" b] by (auto simp: mem_free_bits)
    have "Find b = Inr (Min (free_bits b), b')" using ne b' by (simp add: Find_spec)
    then show ?thesis
      using i Mark_wf [OF wf b'] Mark_frame [OF b'] marked_Mark [OF wf b']
      unfolding free_bits_def by blast
  qed
qed

section \<open>A fresh bitmap\<close>

lemma clear_upto_spec:
  "wf_bitmap b \<Longrightarrow> int n \<le> numBits b \<Longrightarrow>
     \<exists>b'. clear_upto n b = Inr b' \<and> wf_bitmap b' \<and> numBits b' = numBits b
        \<and> marked b' = marked b - {0 ..< int n}"
proof (induction n)
  case 0
  then show ?case by simp
next
  case (Suc n)
  then obtain b1 where 1: "clear_upto n b = Inr b1" "wf_bitmap b1" "numBits b1 = numBits b"
    "marked b1 = marked b - {0 ..< int n}" by auto
  obtain b2 where 2: "Clear b1 (int n) = Inr b2"
    using Clear_ok [of "int n" b1] 1(3) Suc.prems(2) by auto
  have "{0 ..< int (Suc n)} = insert (int n) {0 ..< int n}" by auto
  then have "marked b2 = marked b - {0 ..< int (Suc n)}"
    using marked_Clear [OF 1(2) 2] 1(4) by auto
  then show ?case
    using 1 2 Clear_wf [OF 1(2) 2] Clear_frame [OF 2] by simp
qed

lemma new_BitMap_spec:
  assumes "0 \<le> n" "divRoundUp n 32 \<le> int (length raw)"
  shows "\<exists>b. new_BitMap n raw = Inr b \<and> wf_bitmap b \<and> numBits b = n \<and> marked b = {}"
proof -
  let ?b = "\<lparr>numBits = n, numWords = divRoundUp n 32, bits = take (nat (divRoundUp n 32)) raw\<rparr>"
  have "0 \<le> divRoundUp n 32" using assms(1) by (simp add: divRoundUp_nonneg)
  then have wf: "wf_bitmap ?b" using assms by (auto simp: wf_bitmap_def min_def le_nat_iff)
  have sub: "marked ?b - {0 ..< int (nat n)} = {}"
    using marked_range [of ?b] assms(1) by auto
  show ?thesis
    using clear_upto_spec [OF wf, of "nat n"] assms(1) unfolding sub
    by (auto simp: new_BitMap_def Let_def)
qed

lemma fresh_BitMap:
  assumes "0 \<le> n" "divRoundUp n 32 \<le> int (length raw)"
  shows "\<exists>b. new_BitMap n raw = Inr b \<and> wf_bitmap b \<and> numBits b = n \<and> marked b = {} \<and> NumClear b = Inr n"
  using new_BitMap_spec [OF assms] assms(1) by (auto simp: NumClear_spec free_bits_def)

section \<open>Properties\<close>

text \<open>C10: \<open>BitMap::Find\<close> is a first-fit allocator.  It answers -1 and changes nothing exactly when
  every bit is on; otherwise it answers the least clear bit and turns on that bit and no other.\<close>

theorem Find_first_fit:
  assumes "wf_bitmap b"
  shows "(free_bits b = {} \<longrightarrow> Find b = Inr (-1, b)) \<and>
    (free_bits b \<noteq> {} \<longrightarrow> (\<exists>b'. Find b = Inr (Min (free_bits b), b') \<and> wf_bitmap b'
       \<and> numBits b' = numBits b \<and> Min (free_bits b) \<notin> marked b
       \<and> marked b' = insert (Min (free_bits b)) (marked b)))"
proof (intro conjI impI)
  show "Find b = Inr (-1, b)" if "free_bits b = {}"
    using that by (simp add: Find_spec)
  assume ne: "free_bits b \<noteq> {}"
  then have i: "Min (free_bits b) \<in> free_bits b" by (intro Min_in) simp_all
  then obtain b' where b': "Mark b (Min (free_bits b)) = Inr b'"
    using Mark_ok [of "Min (free_bits b)" b] by (auto simp: mem_free_bits)
  have "Min (free_bits b) \<notin> marked b" using i unfolding free_bits_def by blast
  then show "\<exists>b'. Find b = Inr (Min (free_bits b), b') \<and> wf_bitmap b'
       \<and> numBits b' = numBits b \<and> Min (free_bits b) \<notin> marked b
       \<and> marked b' = insert (Min (free_bits b)) (marked b)"
    using ne b' Mark_wf [OF assms b'] Mark_frame [OF b'] marked_Mark [OF assms b']
    by (simp add: Find_spec)
qed

theorem Find_first_fit_witness:
  "\<exists>b'. Find \<lparr>numBits = 3, numWords = 1, bits = [5]\<rparr> = Inr (1, b')
      \<and> marked b' = insert 1 (marked \<lparr>numBits = 3, numWords = 1, bits = [5]\<rparr>)"
proof -
  let ?b = "\<lparr>numBits = 3, numWords = 1, bits = [5]\<rparr>"
  have wf: "wf_bitmap ?b" by (simp add: wf_bitmap_def divRoundUp_def)
  have "free_bits ?b = {1}"
  proof (rule set_eqI)
    fix i :: int
    have "i \<in> {0, 1, 2} \<or> i < 0 \<or> 3 \<le> i" by auto
    then show "i \<in> free_bits ?b \<longleftrightarrow> i \<in> {1}"
      by (auto simp: mem_free_bits is_marked_def)
  qed
  then show ?thesis using Find_first_fit [OF wf] by auto
qed

text \<open>On the set of bits that are on, \<open>Mark\<close> inserts, \<open>Clear\<close> removes and \<open>Test\<close> asks membership,
  for any position inside the map, and each of the three aborts for any position outside it.\<close>

theorem bitmap_ops_refine_sets:
  assumes "wf_bitmap b"
  shows "if 0 \<le> i \<and> i < numBits b
    then Test b i = Inr (i \<in> marked b)
      \<and> map_sum id marked (Mark b i) = Inr (insert i (marked b))
      \<and> map_sum id marked (Clear b i) = Inr (marked b - {i})
    else Test b i = Inl AssertFail \<and> Mark b i = Inl AssertFail \<and> Clear b i = Inl AssertFail"
proof (cases "0 \<le> i \<and> i < numBits b")
  case True
  then obtain b1 b2 where b: "Mark b i = Inr b1" "Clear b i = Inr b2"
    using Mark_ok Clear_ok by blast
  show ?thesis
    using True b marked_Mark [OF assms b(1)] marked_Clear [OF assms b(2)]
    by (simp add: Test_spec) (simp add: marked_def)
next
  case False
  then show ?thesis by (auto simp: Test_def Mark_def Clear_def)
qed

theorem bitmap_ops_refine_sets_witness:
  "map_sum id marked (Mark \<lparr>numBits = 40, numWords = 2, bits = [0, 0]\<rparr> 33) =
     Inr (insert 33 (marked \<lparr>numBits = 40, numWords = 2, bits = [0, 0]\<rparr>))"
proof -
  let ?b = "\<lparr>numBits = 40, numWords = 2, bits = [0, 0]\<rparr>"
  have wf: "wf_bitmap ?b" by (simp add: wf_bitmap_def divRoundUp_def)
  show ?thesis using bitmap_ops_refine_sets [OF wf, of 33] by simp
qed

text \<open>The allocation loop of \<open>FileHeader::Allocate\<close>, n successive calls of \<open>Find\<close>, with at least n
  clear bits hands out n different bits that were all clear, and turns on exactly these.\<close>

theorem repeat_find_allocates:
  assumes "wf_bitmap b" and "NumClear b = Inr c" and "int n \<le> c"
  shows "\<exists>js b'. repeat_find Find n b = Inr (js, b') \<and> wf_bitmap b' \<and> numBits b' = numBits b
    \<and> length js = n \<and> distinct js \<and> set js \<subseteq> {0 ..< numBits b} - marked b
    \<and> marked b' = marked b \<union> set js"
proof (rule bm.repeat_find_fresh [OF assms(1)])
  show "n \<le> card ({0 ..< numBits b} - marked b)"
    using assms(2,3) by (simp add: NumClear_spec free_bits_def)
qed

theorem repeat_find_allocates_witness:
  "\<exists>js b'. repeat_find Find 2 \<lparr>numBits = 3, numWords = 1, bits = [2]\<rparr> = Inr (js, b')
     \<and> length js = 2 \<and> distinct js"
proof -
  let ?b = "\<lparr>numBits = 3, numWords = 1, bits = [2]\<rparr>"
  have wf: "wf_bitmap ?b" by (simp add: wf_bitmap_def divRoundUp_def)
  have n: "NumClear ?b = Inr 2"
    by (simp add: NumClear_def NumClear_from.simps Test_spec is_marked_def)
  show ?thesis using repeat_find_allocates [OF wf n, of 2] by auto
qed

end
