(* ===== verification/Disk.thy ===== *)
theory Disk
  imports Nachos_Prelude
begin

text \<open>
  machine/stats.cc, machine/disk.cc and filesys/synchdisk.cc: the counters, the simulated disk
  device with its seek, rotation and track-buffer timing, and the synchronous disk the file
  system calls.  The bytes of the UNIX file behind the device are \<open>contents\<close>, one 128-byte block
  per sector.  A request returns the number of ticks after which its interrupt is scheduled.
  The last section is the contract the file system relies on: the locale \<open>sector_device\<close>, with
  the plain store of sectors (\<open>ReadSector\<close>, \<open>WriteSector\<close>) as its specification.
\<close>

section \<open>Counters (machine/stats.h)\<close>

record Statistics =
  totalTicks :: int
  idleTicks :: int
  systemTicks :: int
  userTicks :: int
  numDiskReads :: int
  numDiskWrites :: int
  numConsoleCharsRead :: int
  numConsoleCharsWritten :: int
  numPageFaults :: int
  numPacketsSent :: int
  numPacketsRecvd :: int

definition new_Statistics :: Statistics where
  "new_Statistics = \<lparr>totalTicks = 0, idleTicks = 0, systemTicks = 0, userTicks = 0,
     numDiskReads = 0, numDiskWrites = 0, numConsoleCharsRead = 0, numConsoleCharsWritten = 0,
     numPageFaults = 0, numPacketsSent = 0, numPacketsRecvd = 0\<rparr>"

definition UserTick :: int where "UserTick = 1"
definition SystemTick :: int where "SystemTick = 10"
definition RotationTime :: int where "RotationTime = 500"
definition SeekTime :: int where "SeekTime = 500"

lemmas tick_defs = UserTick_def SystemTick_def RotationTime_def SeekTime_def

section \<open>The device (machine/disk.cc)\<close>

definition SectorSize :: int where "SectorSize = 128"
definition SectorsPerTrack :: int where "SectorsPerTrack = 32"
definition NumTracks :: int where "NumTracks = 32"
definition NumSectors :: int where "NumSectors = SectorsPerTrack * NumTracks"

lemmas disk_consts = SectorSize_def SectorsPerTrack_def NumTracks_def NumSectors_def

type_synonym store = "int \<Rightarrow> u8 list"

record Disk =
  contents :: store
  active :: bool
  lastSector :: int
  bufferInit :: int

definition new_Disk :: "store \<Rightarrow> Disk" where
  "new_Disk file = \<lparr>contents = file, active = False, lastSector = 0, bufferInit = 0\<rparr>"

definition TimeToSeek :: "Disk \<Rightarrow> Statistics \<Rightarrow> int \<Rightarrow> int \<times> int" where
  "TimeToSeek d st newSector =
     (let newTrack = newSector sdiv SectorsPerTrack;
          oldTrack = lastSector d sdiv SectorsPerTrack;
          seek = \<bar>newTrack - oldTrack\<bar> * SeekTime;
          over = (totalTicks st + seek) smod RotationTime;
          rotation = (if over > 0 then RotationTime - over else 0)
      in (seek, rotation))"

definition ModuloDiff :: "int \<Rightarrow> int \<Rightarrow> int" where
  "ModuloDiff to from =
     (let toOffset = to smod SectorsPerTrack; fromOffset = from smod SectorsPerTrack
      in ((toOffset - fromOffset) + SectorsPerTrack) smod SectorsPerTrack)"

definition ComputeLatency :: "Disk \<Rightarrow> Statistics \<Rightarrow> int \<Rightarrow> bool \<Rightarrow> int" where
  "ComputeLatency d st newSector writing =
     (let (seek, rotation) = TimeToSeek d st newSector;
          timeAfter = totalTicks st + seek + rotation
      in if \<not> writing \<and> seek = 0 \<and>
            (timeAfter - bufferInit d) sdiv RotationTime
              > ModuloDiff newSector (bufferInit d sdiv RotationTime)
         then RotationTime
         else seek + (rotation + ModuloDiff newSector (timeAfter sdiv RotationTime) * RotationTime)
              + RotationTime)"

definition UpdateLast :: "Disk \<Rightarrow> Statistics \<Rightarrow> int \<Rightarrow> Disk" where
  "UpdateLast d st newSector =
     (let (seek, rotate) = TimeToSeek d st newSector;
          d1 = (if seek \<noteq> 0 then d\<lparr>bufferInit := totalTicks st + seek + rotate\<rparr> else d)
      in d1\<lparr>lastSector := newSector\<rparr>)"

text \<open>A request yields the data (for a read), the delay of its interrupt, and the new state.\<close>

definition ReadRequest :: "Disk \<Rightarrow> Statistics \<Rightarrow> int \<Rightarrow> (u8 list \<times> int \<times> Disk \<times> Statistics) res" where
  "ReadRequest d st sectorNumber =
     (let ticks = ComputeLatency d st sectorNumber False
      in if active d then Inl AssertFail
         else if \<not> (0 \<le> sectorNumber \<and> sectorNumber < NumSectors) then Inl AssertFail
         else Inr (contents d sectorNumber, ticks,
                   UpdateLast (d\<lparr>active := True\<rparr>) st sectorNumber,
                   st\<lparr>numDiskReads := numDiskReads st + 1\<rparr>))"

definition WriteRequest :: "Disk \<Rightarrow> Statistics \<Rightarrow> int \<Rightarrow> u8 list \<Rightarrow> (int \<times> Disk \<times> Statistics) res" where
  "WriteRequest d st sectorNumber data =
     (let ticks = ComputeLatency d st sectorNumber True
      in if active d then Inl AssertFail
         else if \<not> (0 \<le> sectorNumber \<and> sectorNumber < NumSectors) then Inl AssertFail
         else if int (length data) < SectorSize then Inl BadAccess
         else Inr (ticks,
                   UpdateLast (d\<lparr>contents := (contents d)(sectorNumber := take (nat SectorSize) data),
                                 active := True\<rparr>) st sectorNumber,
                   st\<lparr>numDiskWrites := numDiskWrites st + 1\<rparr>))"

definition HandleInterrupt :: "Disk \<Rightarrow> Disk" where
  "HandleInterrupt d = d\<lparr>active := False\<rparr>"

section \<open>The synchronous disk (filesys/synchdisk.cc)\<close>

text \<open>
  \<open>lock\<close> admits one request at a time, and \<open>semaphore->P()\<close> returns only after the handler
  \<open>RequestDone\<close>, that is after \<open>Disk::HandleInterrupt\<close>; the delay of that interrupt is the
  business of the interrupt machine.
\<close>

definition SynchDisk_ReadSector :: "Disk \<Rightarrow> Statistics \<Rightarrow> int \<Rightarrow> (u8 list \<times> Disk \<times> Statistics) res" where
  "SynchDisk_ReadSector d st sectorNumber =
     bindR (ReadRequest d st sectorNumber) (\<lambda>(data, ticks, d1, st1). Inr (data, HandleInterrupt d1, st1))"

definition SynchDisk_WriteSector :: "Disk \<Rightarrow> Statistics \<Rightarrow> int \<Rightarrow> u8 list \<Rightarrow> (Disk \<times> Statistics) res" where
  "SynchDisk_WriteSector d st sectorNumber data =
     bindR (WriteRequest d st sectorNumber data) (\<lambda>(ticks, d1, st1). Inr (HandleInterrupt d1, st1))"

section \<open>The store of sectors the file system sees\<close>

definition ReadSector :: "store \<Rightarrow> int \<Rightarrow> u8 list res" where
  "ReadSector d n = (if 0 \<le> n \<and> n < NumSectors then Inr (d n) else Inl AssertFail)"

definition WriteSector :: "store \<Rightarrow> int \<Rightarrow> u8 list \<Rightarrow> store res" where
  "WriteSector d n data =
     (if \<not> (0 \<le> n \<and> n < NumSectors) then Inl AssertFail
      else if int (length data) < SectorSize then Inl BadAccess
      else Inr (d(n := take (nat SectorSize) data)))"

definition wf_store :: "store \<Rightarrow> bool" where
  "wf_store d \<longleftrightarrow> (\<forall>n. 0 \<le> n \<and> n < NumSectors \<longrightarrow> length (d n) = 128)"

locale sector_device =
  fixes rd :: "'d \<Rightarrow> int \<Rightarrow> (u8 list \<times> 'd) res"
    and wr :: "'d \<Rightarrow> int \<Rightarrow> u8 list \<Rightarrow> 'd res"
    and sectors :: "'d \<Rightarrow> store"
    and ready :: "'d \<Rightarrow> bool"
  assumes read_law: "ready d \<Longrightarrow> (case ReadSector (sectors d) n of
       Inl e \<Rightarrow> rd d n = Inl e
     | Inr x \<Rightarrow> \<exists>d'. rd d n = Inr (x, d') \<and> sectors d' = sectors d \<and> ready d')"
    and write_law: "ready d \<Longrightarrow> (case WriteSector (sectors d) n x of
       Inl e \<Rightarrow> wr d n x = Inl e
     | Inr s \<Rightarrow> \<exists>d'. wr d n x = Inr d' \<and> sectors d' = s \<and> ready d')"
begin

lemma read_after_write:
  assumes "ready d" "wr d n x = Inr d1"
  shows "ready d1 \<and> (\<exists>d2. rd d1 n = Inr (take 128 x, d2))
     \<and> (\<forall>m. 0 \<le> m \<and> m < NumSectors \<and> m \<noteq> n \<longrightarrow> (\<exists>d2. rd d1 m = Inr (sectors d m, d2)))"
proof -
  have n: "0 \<le> n" "n < NumSectors" and s: "sectors d1 = (sectors d)(n := take 128 x)" "ready d1"
    using write_law [OF assms(1), of n x] assms(2)
    by (auto simp: WriteSector_def SectorSize_def split: if_splits)
  have "\<exists>d2. rd d1 m = Inr (sectors d1 m, d2)" if "0 \<le> m" "m < NumSectors" for m
    using read_law [OF s(2), of m] that by (auto simp: ReadSector_def)
  then show ?thesis using s n by force
qed

end

text \<open>The timed device with its idle flag down provides the contract.\<close>

lemma ready_after:
  "active (HandleInterrupt d) = False"
  "contents (HandleInterrupt d) = contents d"
  "contents (UpdateLast d st n) = contents d"
  by (simp_all add: HandleInterrupt_def UpdateLast_def Let_def split: prod.split)

interpretation sd: sector_device
  "\<lambda>(d, st) n. SynchDisk_ReadSector d st n"
  "\<lambda>(d, st) n x. SynchDisk_WriteSector d st n x"
  "\<lambda>(d, st). contents d" "\<lambda>(d, st). \<not> active d"
  by unfold_locales
    (auto simp: ReadSector_def WriteSector_def SynchDisk_ReadSector_def SynchDisk_WriteSector_def
      ReadRequest_def WriteRequest_def Let_def ready_after)

section \<open>Timing\<close>

lemma rotation_bounds:
  "0 \<le> totalTicks st \<Longrightarrow> TimeToSeek d st n = (seek, rotation) \<Longrightarrow>
     0 \<le> seek \<and> 0 \<le> rotation \<and> rotation < 500 \<and> (totalTicks st + seek + rotation) mod 500 = 0"
proof -
  assume t: "0 \<le> totalTicks st" and r: "TimeToSeek d st n = (seek, rotation)"
  have seek: "0 \<le> seek" using r by (auto simp: TimeToSeek_def Let_def SeekTime_def)
  define over where "over = (totalTicks st + seek) mod 500"
  have over: "0 \<le> over" "over < 500" by (simp_all add: over_def)
  have "rotation = (if over > 0 then 500 - over else 0)"
    using r t seek by (auto simp: TimeToSeek_def Let_def RotationTime_def smod_nonneg_eq over_def)
  moreover have "(totalTicks st + seek - over) mod 500 = 0"
    by (simp add: over_def minus_mod_eq_mult_div)
  then have "(totalTicks st + seek + (500 - over)) mod 500 = 0"
    by (metis add_diff_eq diff_add_eq mod_add_self2)
  ultimately show ?thesis using seek over by (auto split: if_splits)
qed

lemma ModuloDiff_spec:
  "0 \<le> a \<Longrightarrow> 0 \<le> b \<Longrightarrow> 0 \<le> ModuloDiff a b \<and> ModuloDiff a b < 32 \<and> (b + ModuloDiff a b) mod 32 = a mod 32"
proof -
  assume ab: "0 \<le> a" "0 \<le> b"
  have "0 \<le> (a mod 32 - b mod 32) + 32"
    using pos_mod_bound [of 32 b] pos_mod_sign [of 32 a] by linarith
  then have eq: "ModuloDiff a b = (a mod 32 - b mod 32 + 32) mod 32"
    using ab by (simp add: ModuloDiff_def Let_def SectorsPerTrack_def smod_nonneg_eq)
  have "(b + (a mod 32 - b mod 32 + 32) mod 32) mod 32 = (b + (a - b)) mod 32"
    by (metis mod_add_right_eq mod_add_self2 mod_diff_eq)
  then show ?thesis by (simp add: eq)
qed

text \<open>The time a request takes when the track buffer does not help.\<close>

lemma full_latency:
  assumes t: "0 \<le> totalTicks st" and n: "0 \<le> n"
    and r: "TimeToSeek d st n = (seek, rotation)"
    and L: "L = seek + (rotation + ModuloDiff n ((totalTicks st + seek + rotation) sdiv 500) * 500) + 500"
  shows "(totalTicks st + L) mod 16000 = (n + 1) mod 32 * 500"
    and "seek + 500 \<le> L" and "L \<le> seek + 16499"
proof -
  note b = rotation_bounds [OF t r]
  define k where "k = (totalTicks st + seek + rotation) div 500"
  have k: "totalTicks st + seek + rotation = 500 * k" "0 \<le> k"
    using b t by (auto simp: k_def)
  have div: "(totalTicks st + seek + rotation) sdiv 500 = k"
    using b t by (simp add: k_def sdiv_nonneg_eq)
  note m = ModuloDiff_spec [OF n k(2)]
  have "totalTicks st + L = 500 * (k + ModuloDiff n k + 1)"
    using k(1) unfolding L div by (simp add: algebra_simps)
  moreover have "(k + ModuloDiff n k + 1) mod 32 = (n + 1) mod 32"
    using m by (metis mod_add_left_eq)
  moreover have "(500 * (k + ModuloDiff n k + 1)) mod (500 * 32) = 500 * ((k + ModuloDiff n k + 1) mod 32)"
    by (rule mult_mod_right [symmetric])
  ultimately show "(totalTicks st + L) mod 16000 = (n + 1) mod 32 * 500" by simp
  show "seek + 500 \<le> L" "L \<le> seek + 16499" using b m unfolding L div by simp_all
qed

lemma seek_bound:
  assumes "0 \<le> n" "n < NumSectors" "0 \<le> lastSector d" "lastSector d < NumSectors"
    and "TimeToSeek d st n = (seek, rotation)"
  shows "seek \<le> 15500"
proof -
  have "seek = \<bar>n div 32 - lastSector d div 32\<bar> * 500"
    using assms by (auto simp: TimeToSeek_def Let_def disk_consts SeekTime_def sdiv_nonneg_eq)
  moreover have "0 \<le> n div 32" "n div 32 \<le> 31" "0 \<le> lastSector d div 32" "lastSector d div 32 \<le> 31"
    using assms by (simp_all add: disk_consts)
  then have "\<bar>n div 32 - lastSector d div 32\<bar> \<le> 31" by linarith
  ultimately show ?thesis by simp
qed

section \<open>Properties\<close>

text \<open>\<open>Disk::ComputeLatency\<close>, for sectors of the disk.  Every request takes at least one sector time
  and less than 32000 ticks, so the delay handed to \<open>Interrupt::Schedule\<close> is positive as that
  routine demands; and a write ends exactly when the head has rotated past the end of the sector,
  the (n + 1)-th sector boundary of the track.\<close>

theorem ComputeLatency_bounds:
  assumes "0 \<le> totalTicks st" "0 \<le> n" "n < NumSectors"
    and "0 \<le> lastSector d" "lastSector d < NumSectors"
  shows "500 \<le> ComputeLatency d st n w \<and> ComputeLatency d st n w < 32000
     \<and> (w \<longrightarrow> (totalTicks st + ComputeLatency d st n w) mod 16000 = (n + 1) mod 32 * 500)"
proof -
  obtain seek rotation where r: "TimeToSeek d st n = (seek, rotation)" by fastforce
  define L where "L = seek + (rotation + ModuloDiff n ((totalTicks st + seek + rotation) sdiv 500) * 500) + 500"
  note f = full_latency [OF assms(1,2) r L_def]
  have "0 \<le> seek" "seek \<le> 15500"
    using rotation_bounds [OF assms(1) r] seek_bound [OF assms(2-5) r] by simp_all
  moreover have "ComputeLatency d st n w = L \<or> \<not> w \<and> ComputeLatency d st n w = 500"
    by (auto simp: ComputeLatency_def r L_def Let_def RotationTime_def)
  ultimately show ?thesis using f by auto
qed

theorem ComputeLatency_bounds_witness:
  "(10 + ComputeLatency (new_Disk (\<lambda>_. [])) (new_Statistics\<lparr>totalTicks := 10\<rparr>) 40 True) mod 16000
      = (41 :: int) mod 32 * 500"
  using ComputeLatency_bounds [of "new_Statistics\<lparr>totalTicks := 10\<rparr>" 40 "new_Disk (\<lambda>_. [])" True]
  by (simp add: new_Statistics_def new_Disk_def disk_consts)

text \<open>A synchronous write followed by reads, on the timed device.  For a sector of the disk and a
  full buffer the write succeeds, a later read of the same sector returns the 128 bytes written,
  every other sector reads as before, and the device is idle again; a sector number outside the
  disk aborts both operations.\<close>

theorem SynchDisk_read_after_write:
  assumes "\<not> active d" "128 \<le> length x"
  shows "if 0 \<le> n \<and> n < NumSectors
    then \<exists>d1 st1. SynchDisk_WriteSector d st n x = Inr (d1, st1) \<and> \<not> active d1
       \<and> (\<exists>d2. SynchDisk_ReadSector d1 st1 n = Inr (take 128 x, d2))
       \<and> (\<forall>m. 0 \<le> m \<and> m < NumSectors \<and> m \<noteq> n \<longrightarrow>
            (\<exists>d2. SynchDisk_ReadSector d1 st1 m = Inr (contents d m, d2)))
    else SynchDisk_WriteSector d st n x = Inl AssertFail \<and> SynchDisk_ReadSector d st n = Inl AssertFail"
proof (cases "0 \<le> n \<and> n < NumSectors")
  case True
  then obtain d1 st1 where w: "SynchDisk_WriteSector d st n x = Inr (d1, st1)"
    using assms by (auto simp: SynchDisk_WriteSector_def WriteRequest_def Let_def SectorSize_def)
  have "\<not> (case (d1, st1) of (d, st) \<Rightarrow> active d) \<and>
      (\<exists>d2. SynchDisk_ReadSector d1 st1 n = Inr (take 128 x, d2)) \<and>
      (\<forall>m. 0 \<le> m \<and> m < NumSectors \<and> m \<noteq> n \<longrightarrow>
         (\<exists>d2. SynchDisk_ReadSector d1 st1 m = Inr (contents d m, d2)))"
    using sd.read_after_write [of "(d, st)" n x "(d1, st1)"] assms(1) w by simp
  then show ?thesis using True w by simp
next
  case False
  then show ?thesis
    using assms by (auto simp: SynchDisk_WriteSector_def SynchDisk_ReadSector_def
      WriteRequest_def ReadRequest_def Let_def)
qed

theorem SynchDisk_read_after_write_witness:
  "\<exists>d1 st1. SynchDisk_WriteSector (new_Disk (\<lambda>_. [])) new_Statistics 7 (replicate 128 9) = Inr (d1, st1)
     \<and> (\<exists>d2. SynchDisk_ReadSector d1 st1 7 = Inr (replicate 128 9, d2))"
  using SynchDisk_read_after_write [of "new_Disk (\<lambda>_. [])" "replicate 128 9" 7 new_Statistics]
  by (auto simp: new_Disk_def disk_consts)

end
