(* ===== verification/FileHdr.thy ===== *)
theory FileHdr
  imports Bitmap Disk "HOL-Library.Multiset"
begin

text \<open>
  filesys/filehdr.cc: the file header (i-node) with 30 direct pointers, one single-indirect and one
  double-indirect block.  Allocation takes sectors from the free map in a fixed order and writes
  zeroed data sectors and index blocks; \<open>ByteToSector\<close> walks the same structure.  \<open>file_layout\<close>
  is the abstract view, the list of data sectors in file order; \<open>Allocate\<close> establishes it,
  \<open>ByteToSector\<close> indexes it and \<open>Deallocate\<close> returns its sectors.  Interrupt levels, which
  the routines raise and restore, do not change any value here.
\<close>

section \<open>The header\<close>

definition NumDirect :: int where "NumDirect = 30"     \<comment> \<open>(SectorSize - 2 * sizeof(int)) / sizeof(int)\<close>
definition L1_INDEX_NUM :: int where "L1_INDEX_NUM = 32"

lemmas hdr_consts = NumDirect_def L1_INDEX_NUM_def

record FileHeader =
  numBytes :: int
  numSectors :: int
  dataSectors :: "int list"
  CreateTime :: int
  lastmodifytime :: int
  lastusetime :: int
  L1Index :: int
  L2Index :: int

text \<open>The object as the compiler lays it out: 37 consecutive \<open>int\<close>s, 148 bytes.\<close>

definition header_bytes :: "FileHeader \<Rightarrow> u8 list" where
  "header_bytes h = encode_ints (numBytes h # numSectors h # dataSectors h
     @ [CreateTime h, lastmodifytime h, lastusetime h, L1Index h, L2Index h])"

text \<open>Both transfers move one sector, the first 128 bytes of the object.\<close>

definition hdr_WriteBack :: "FileHeader \<Rightarrow> int \<Rightarrow> store \<Rightarrow> store res" where
  "hdr_WriteBack h sector d = WriteSector d sector (header_bytes h)"

definition hdr_FetchFrom :: "FileHeader \<Rightarrow> int \<Rightarrow> store \<Rightarrow> FileHeader res" where
  "hdr_FetchFrom h sector d = bindR (ReadSector d sector) (\<lambda>x.
     let ws = decode_ints x
     in Inr (h\<lparr>numBytes := ws ! 0, numSectors := ws ! 1, dataSectors := drop 2 ws\<rparr>))"

definition FileLength :: "FileHeader \<Rightarrow> int" where
  "FileLength h = numBytes h"

definition ClearSector :: "int \<Rightarrow> store \<Rightarrow> store res" where
  "ClearSector sectorNum d = WriteSector d sectorNum (replicate 128 0)"

section \<open>Allocate\<close>

text \<open>\<open>sectorsGet\<close> has 30 + 32 * 32 elements; filling it further writes outside the array.\<close>

definition get_sectors :: "int \<Rightarrow> BitMap \<Rightarrow> (int list \<times> BitMap) res" where
  "get_sectors n b = (if n \<le> NumDirect + L1_INDEX_NUM * L1_INDEX_NUM
     then repeat_find Find (nat n) b else Inl BadAccess)"

text \<open>
  The first half of \<open>Allocate\<close>: decide from the number of sectors and the number of clear bits,
  then reserve.  \<open>numSectors\<close> is compared with unsigned constants, hence \<open>to_unsigned\<close>.  The
  answer is \<open>None\<close> where the code sets \<open>result = false\<close>, and else \<open>adSector\<close> with \<open>sectorsGet\<close>.
  The inner tests that repeat the negation of the test before them are dropped.
\<close>

definition reserve :: "BitMap \<Rightarrow> int \<Rightarrow> ((int \<times> int list) option \<times> BitMap) res" where
  "reserve b ns =
     (if to_unsigned ns > NumDirect then
        if to_unsigned ns > NumDirect + L1_INDEX_NUM then
          if to_unsigned ns > NumDirect + L1_INDEX_NUM + L1_INDEX_NUM * L1_INDEX_NUM then Inr (None, b)
          else (let ad = divRoundUp (ns - NumDirect - L1_INDEX_NUM) L1_INDEX_NUM in
            bindR (NumClear b) (\<lambda>nc.
              if nc \<le> NumDirect + ad + 1 then Inr (None, b)
              else if nc \<le> NumDirect + L1_INDEX_NUM + 1 then Inr (None, b)
              else bindR (get_sectors (ns + ad + 2) b) (\<lambda>(sg, b1). Inr (Some (ad, sg), b1))))
        else bindR (NumClear b) (\<lambda>nc.
          if nc < ns + 1 then Inr (None, b)
          else bindR (get_sectors (ns + 1) b) (\<lambda>(sg, b1). Inr (Some (0, sg), b1)))
      else bindR (NumClear b) (\<lambda>nc.
        if nc < ns then Inr (None, b)
        else bindR (get_sectors ns b) (\<lambda>(sg, b1). Inr (Some (0, sg), b1))))"

text \<open>
  \<open>for (i = 0; i < slots && curSector < numSectors; ++i, ++curSector)
    { arr[i] = sectorsGet[getNum++]; ClearSector(arr[i]); }\<close>
  with \<open>rem\<close> for \<open>numSectors - curSector\<close> and \<open>sg\<close> for the sectors not yet used: the entries
  stored, and what remains.
\<close>

fun fill :: "nat \<Rightarrow> nat \<Rightarrow> int list \<Rightarrow> store \<Rightarrow> (int list \<times> nat \<times> int list \<times> store) res" where
  "fill 0 rem sg d = Inr ([], rem, sg, d)"
| "fill (Suc slots) 0 sg d = Inr ([], 0, sg, d)"
| "fill (Suc slots) (Suc rem) [] d = Inl BadAccess"
| "fill (Suc slots) (Suc rem) (s # sg) d =
     bindR (ClearSector s d) (\<lambda>d1. bindR (fill slots rem sg d1) (\<lambda>(xs, r). Inr (s # xs, r)))"

fun next_sector :: "int list \<Rightarrow> (int \<times> int list) res" where
  "next_sector [] = Inl BadAccess"
| "next_sector (s # sg) = Inr (s, sg)"

text \<open>An index block of 32 pointers, the unused ones -1.\<close>

definition index_block :: "int list \<Rightarrow> u8 list" where
  "index_block xs = encode_ints (xs @ replicate (32 - length xs) (-1))"

fun fill_l2 :: "nat \<Rightarrow> nat \<Rightarrow> int list \<Rightarrow> store \<Rightarrow> (int list \<times> store) res" where
  "fill_l2 0 rem sg d = Inr ([], d)"
| "fill_l2 (Suc ad) rem sg d =
     bindR (next_sector sg) (\<lambda>(e, sg1).
     bindR (ClearSector e d) (\<lambda>d1.
     bindR (fill 32 rem sg1 d1) (\<lambda>(xs, rem1, sg2, d2).
     bindR (WriteSector d2 e (index_block xs)) (\<lambda>d3.
     bindR (fill_l2 ad rem1 sg2 d3) (\<lambda>(es, d4). Inr (e # es, d4))))))"

definition place :: "FileHeader \<Rightarrow> int \<Rightarrow> int list \<Rightarrow> store \<Rightarrow> (FileHeader \<times> store) res" where
  "place h ad sg d =
     bindR (fill 30 (nat (numSectors h)) sg d) (\<lambda>(xs, rem, sg1, d1).
     let h1 = h\<lparr>dataSectors := xs @ drop (length xs) (dataSectors h)\<rparr> in
     if rem = 0 then Inr (h1, d1)
     else bindR (next_sector sg1) (\<lambda>(l1, sg2).
       bindR (ClearSector l1 d1) (\<lambda>d2.
       bindR (fill 32 rem sg2 d2) (\<lambda>(ys, rem2, sg3, d3).
       bindR (WriteSector d3 l1 (index_block ys)) (\<lambda>d4.
       let h2 = h1\<lparr>L1Index := l1\<rparr> in
       if rem2 = 0 then Inr (h2, d4)
       else bindR (next_sector sg3) (\<lambda>(l2, sg4).
         bindR (ClearSector l2 d4) (\<lambda>d5.
         bindR (fill_l2 (nat ad) rem2 sg4 d5) (\<lambda>(zs, d6).
         bindR (WriteSector d6 l2 (index_block zs)) (\<lambda>d7.
         Inr (h2\<lparr>L2Index := l2\<rparr>, d7))))))))))"

definition Allocate :: "FileHeader \<Rightarrow> BitMap \<Rightarrow> int \<Rightarrow> store \<Rightarrow> (bool \<times> FileHeader \<times> BitMap \<times> store) res" where
  "Allocate h freeMap fileSize d =
     (let h1 = h\<lparr>numBytes := fileSize, numSectors := divRoundUp fileSize SectorSize,
                 L1Index := -1, L2Index := -1\<rparr>
      in bindR (reserve freeMap (numSectors h1)) (\<lambda>(r, b1).
         case r of None \<Rightarrow> Inr (False, h1, b1, d)
         | Some (ad, sg) \<Rightarrow> bindR (place h1 ad sg d) (\<lambda>(h2, d1). Inr (True, h2, b1, d1))))"

section \<open>Deallocate and ByteToSector\<close>

text \<open>\<open>ASSERT(freeMap->Test(x)); freeMap->Clear(x);\<close> over the used slots of an array.\<close>

fun release :: "nat \<Rightarrow> nat \<Rightarrow> int list \<Rightarrow> BitMap \<Rightarrow> (nat \<times> BitMap) res" where
  "release 0 rem xs b = Inr (rem, b)"
| "release (Suc slots) 0 xs b = Inr (0, b)"
| "release (Suc slots) (Suc rem) [] b = Inl BadAccess"
| "release (Suc slots) (Suc rem) (x # xs) b =
     bindR (Test b x) (\<lambda>t. if t then bindR (Clear b x) (release slots rem xs) else Inl AssertFail)"

definition assert_marked :: "BitMap \<Rightarrow> int \<Rightarrow> unit res" where
  "assert_marked b x = bindR (Test b x) (\<lambda>t. if t then Inr () else Inl AssertFail)"

fun release_l2 :: "int list \<Rightarrow> nat \<Rightarrow> BitMap \<Rightarrow> store \<Rightarrow> BitMap res" where
  "release_l2 es 0 b d = Inr b"
| "release_l2 [] (Suc rem) b d = Inl BadAccess"
| "release_l2 (e # es) (Suc rem) b d =
     bindR (assert_marked b e) (\<lambda>_.
     bindR (ReadSector d e) (\<lambda>buf.
     bindR (release 32 (Suc rem) (decode_ints buf) b) (\<lambda>(rem1, b1).
     bindR (Clear b1 e) (\<lambda>b2. release_l2 es rem1 b2 d))))"

definition Deallocate :: "FileHeader \<Rightarrow> BitMap \<Rightarrow> store \<Rightarrow> BitMap res" where
  "Deallocate h freeMap d =
     bindR (release 30 (nat (numSectors h)) (dataSectors h) freeMap) (\<lambda>(rem, b1).
     if rem = 0 then Inr b1
     else bindR (assert_marked b1 (L1Index h)) (\<lambda>_.
       bindR (ReadSector d (L1Index h)) (\<lambda>buf1.
       bindR (release 32 rem (decode_ints buf1) b1) (\<lambda>(rem2, b2).
       bindR (if rem2 = 0 then Inr b2
              else bindR (assert_marked b2 (L2Index h)) (\<lambda>_.
                bindR (ReadSector d (L2Index h)) (\<lambda>buf2.
                bindR (release_l2 (decode_ints buf2) rem2 b2 d) (\<lambda>b3.
                Clear b3 (L2Index h))))) (\<lambda>b4.
       Clear b4 (L1Index h))))))"

definition ByteToSector :: "FileHeader \<Rightarrow> int \<Rightarrow> store \<Rightarrow> int res" where
  "ByteToSector h offset d =
     (let curSector = offset sdiv SectorSize in
      if curSector < 0 then Inr (-1)
      else if curSector < NumDirect then Inr (dataSectors h ! nat curSector)
      else if curSector < NumDirect + L1_INDEX_NUM then
        bindR (ReadSector d (L1Index h)) (\<lambda>buf1.
          Inr (decode_ints buf1 ! nat (curSector - NumDirect)))
      else if curSector < NumDirect + L1_INDEX_NUM + L1_INDEX_NUM * L1_INDEX_NUM then
        (let adSector = (curSector - NumDirect - L1_INDEX_NUM) sdiv L1_INDEX_NUM;
             offSector = (curSector - NumDirect - L1_INDEX_NUM) - adSector * L1_INDEX_NUM in
         bindR (ReadSector d (L2Index h)) (\<lambda>buf2.
         bindR (ReadSector d (decode_ints buf2 ! nat adSector)) (\<lambda>buf1.
           Inr (decode_ints buf1 ! nat offSector))))
      else Inr (-1))"

section \<open>Sectors taken by the loops\<close>

definition valid_sectors :: "int list \<Rightarrow> bool" where
  "valid_sectors js \<longleftrightarrow> (\<forall>s \<in> set js. 0 \<le> s \<and> s < NumSectors)"

lemma valid_sectors_simps [simp]:
  "valid_sectors []"
  "valid_sectors (s # js) \<longleftrightarrow> 0 \<le> s \<and> s < NumSectors \<and> valid_sectors js"
  "valid_sectors (xs @ ys) \<longleftrightarrow> valid_sectors xs \<and> valid_sectors ys"
  by (auto simp: valid_sectors_def)

lemma valid_sectors_take_drop: "valid_sectors js \<Longrightarrow> valid_sectors (take n js) \<and> valid_sectors (drop n js)"
  by (auto simp: valid_sectors_def dest: in_set_takeD in_set_dropD)

lemma valid_sectors_int32: "valid_sectors js \<Longrightarrow> list_all is_int32 js"
  by (auto simp: valid_sectors_def list_all_iff is_int32_def disk_consts)

text \<open>The effect of \<open>ClearSector\<close> on each sector of a list.\<close>

definition zap :: "int list \<Rightarrow> store \<Rightarrow> store" where
  "zap js d = (\<lambda>n. if n \<in> set js then replicate 128 0 else d n)"

lemma zap_simps [simp]: "zap [] d = d" "zap xs (zap ys d) = zap (ys @ xs) d"
  by (auto simp: zap_def)

lemma zap_in [simp]: "n \<in> set js \<Longrightarrow> zap js d n = replicate 128 0"
  and zap_out [simp]: "n \<notin> set js \<Longrightarrow> zap js d n = d n"
  by (simp_all add: zap_def)

lemma ClearSector_eq:
  "ClearSector s d = (if 0 \<le> s \<and> s < NumSectors then Inr (zap [s] d) else Inl AssertFail)"
  by (auto simp: ClearSector_def WriteSector_def SectorSize_def zap_def fun_eq_iff)

lemma zap_Cons: "zap xs (zap [s] d) = zap (s # xs) d"
  by (simp add: zap_def fun_eq_iff)

lemma fill_eq:
  "min slots rem \<le> length sg \<Longrightarrow> valid_sectors (take (min slots rem) sg) \<Longrightarrow>
     fill slots rem sg d = Inr (take (min slots rem) sg, rem - min slots rem,
        drop (min slots rem) sg, zap (take (min slots rem) sg) d)"
  by (induction slots rem sg d rule: fill.induct) (simp_all add: ClearSector_eq zap_Cons)

lemma fill_abort:
  "min slots rem \<le> length sg \<Longrightarrow> \<not> valid_sectors (take (min slots rem) sg) \<Longrightarrow>
     fill slots rem sg d = Inl AssertFail"
  by (induction slots rem sg d rule: fill.induct) (auto simp: ClearSector_eq)

lemma length_index_block: "length xs \<le> 32 \<Longrightarrow> length (index_block xs) = 128"
  by (simp add: index_block_def)

lemma decode_index_block:
  "valid_sectors xs \<Longrightarrow> decode_ints (index_block xs) = xs @ replicate (32 - length xs) (-1)"
proof -
  assume v: "valid_sectors xs"
  have "list_all is_int32 (xs @ replicate (32 - length xs) (-1))"
    using valid_sectors_int32 [OF v] by (auto simp: list_all_iff is_int32_def)
  from decode_encode_ints [OF this, of "[]"] show ?thesis by (simp add: index_block_def)
qed

lemma WriteSector_index_block:
  "0 \<le> e \<Longrightarrow> e < NumSectors \<Longrightarrow> length xs \<le> 32 \<Longrightarrow> WriteSector d e (index_block xs) = Inr (d(e := index_block xs))"
  by (simp add: WriteSector_def SectorSize_def length_index_block)

text \<open>How \<open>fill_l2\<close> cuts the supply: one entry sector, then up to 32 data sectors, for each entry.\<close>

fun l2_layout :: "nat \<Rightarrow> nat \<Rightarrow> int list \<Rightarrow> (int \<times> int list) list" where
  "l2_layout 0 rem sg = []"
| "l2_layout (Suc ad) rem sg =
     (hd sg, take (min 32 rem) (tl sg)) # l2_layout ad (rem - min 32 rem) (drop (min 32 rem) (tl sg))"

definition l2_flat :: "(int \<times> int list) list \<Rightarrow> int list" where
  "l2_flat lay = concat (map (\<lambda>(e, xs). e # xs) lay)"

fun l2_store :: "(int \<times> int list) list \<Rightarrow> store \<Rightarrow> store" where
  "l2_store [] d = d"
| "l2_store ((e, xs) # lay) d = l2_store lay ((zap (e # xs) d)(e := index_block xs))"

lemma l2_flat_simps [simp]: "l2_flat [] = []" "l2_flat ((e, xs) # lay) = e # xs @ l2_flat lay"
  by (simp_all add: l2_flat_def)

lemma l2_flat_layout:
  "ad + rem \<le> length sg \<Longrightarrow> rem \<le> 32 * ad \<Longrightarrow> l2_flat (l2_layout ad rem sg) = take (ad + rem) sg"
proof (induction ad rem sg rule: l2_layout.induct)
  case (2 ad rem sg)
  then obtain e sg' where sg: "sg = e # sg'" by (cases sg) auto
  let ?m = "min 32 rem"
  have "l2_flat (l2_layout ad (rem - ?m) (drop ?m sg')) = take (ad + (rem - ?m)) (drop ?m sg')"
    using 2 sg by simp
  moreover have "take (ad + rem) sg' = take ?m sg' @ take (ad + (rem - ?m)) (drop ?m sg')"
  proof -
    have "ad + rem = ?m + (ad + (rem - ?m))" by simp
    then show ?thesis by (metis take_add)
  qed
  ultimately show ?case by (simp add: sg)
qed simp

lemma fill_l2_eq:
  "ad + rem \<le> length sg \<Longrightarrow> rem \<le> 32 * ad \<Longrightarrow> valid_sectors (take (ad + rem) sg) \<Longrightarrow>
     fill_l2 ad rem sg d = Inr (map fst (l2_layout ad rem sg), l2_store (l2_layout ad rem sg) d)"
proof (induction ad arbitrary: rem sg d)
  case 0
  then show ?case by simp
next
  case (Suc ad)
  then obtain e sg' where sg: "sg = e # sg'" by (cases sg) auto
  let ?m = "min 32 rem"
  have split: "take (ad + rem) sg' = take ?m sg' @ take (ad + (rem - ?m)) (drop ?m sg')"
  proof -
    have "ad + rem = ?m + (ad + (rem - ?m))" by simp
    then show ?thesis by (metis take_add)
  qed
  have v: "0 \<le> e" "e < NumSectors" "valid_sectors (take ?m sg')"
      "valid_sectors (take (ad + (rem - ?m)) (drop ?m sg'))"
    using Suc.prems(3) split by (simp_all add: sg)
  have f: "fill 32 rem sg' (zap [e] d) = Inr (take ?m sg', rem - ?m, drop ?m sg', zap (take ?m sg') (zap [e] d))"
    using Suc.prems sg v(3) by (intro fill_eq) simp_all
  have w: "WriteSector d' e (index_block (take ?m sg')) = Inr (d'(e := index_block (take ?m sg')))" for d'
    using v by (intro WriteSector_index_block) simp_all
  have ih: "fill_l2 ad (rem - ?m) (drop ?m sg') d' = Inr (map fst (l2_layout ad (rem - ?m) (drop ?m sg')),
      l2_store (l2_layout ad (rem - ?m) (drop ?m sg')) d')" for d'
    using Suc.prems sg v(4) by (intro Suc.IH) simp_all
  show ?case
    using v(1,2) by (simp add: sg ClearSector_eq f w ih zap_Cons)
qed

lemma fill_l2_abort:
  "ad + rem \<le> length sg \<Longrightarrow> rem \<le> 32 * ad \<Longrightarrow> \<not> valid_sectors (take (ad + rem) sg) \<Longrightarrow>
     fill_l2 ad rem sg d = Inl AssertFail"
proof (induction ad arbitrary: rem sg d)
  case 0
  then show ?case by simp
next
  case (Suc ad)
  then obtain e sg' where sg: "sg = e # sg'" by (cases sg) auto
  let ?m = "min 32 rem"
  have "ad + rem = ?m + (ad + (rem - ?m))" by simp
  then have split: "take (ad + rem) sg' = take ?m sg' @ take (ad + (rem - ?m)) (drop ?m sg')"
    by (metis take_add)
  consider (entry) "\<not> (0 \<le> e \<and> e < NumSectors)"
    | (data) "0 \<le> e \<and> e < NumSectors" "\<not> valid_sectors (take ?m sg')"
    | (rest) "0 \<le> e \<and> e < NumSectors" "valid_sectors (take ?m sg')"
        "\<not> valid_sectors (take (ad + (rem - ?m)) (drop ?m sg'))"
    using Suc.prems(3) split by (auto simp: sg)
  then show ?case
  proof cases
    case entry
    then show ?thesis by (auto simp: sg ClearSector_eq)
  next
    case data
    then have "fill 32 rem sg' (zap [e] d) = Inl AssertFail"
      using Suc.prems sg by (intro fill_abort) simp_all
    then show ?thesis using data(1) by (simp add: sg ClearSector_eq)
  next
    case rest
    have f: "fill 32 rem sg' (zap [e] d) = Inr (take ?m sg', rem - ?m, drop ?m sg', zap (take ?m sg') (zap [e] d))"
      using Suc.prems sg rest(2) by (intro fill_eq) simp_all
    have "fill_l2 ad (rem - ?m) (drop ?m sg') d' = Inl AssertFail" for d'
      using Suc.prems sg rest(3) by (intro Suc.IH) simp_all
    then show ?thesis
      using rest(1) by (simp add: sg ClearSector_eq f WriteSector_index_block)
  qed
qed


section \<open>The file as a list of data sectors\<close>

text \<open>\<open>js\<close> are the data sectors of the file in order.  Sector \<open>s\<close> is an index block that begins
  with \<open>xs\<close> if it is on the disk and its first words are \<open>xs\<close>.\<close>

definition points_to :: "store \<Rightarrow> int \<Rightarrow> int list \<Rightarrow> bool" where
  "points_to d s xs \<longleftrightarrow> 0 \<le> s \<and> s < NumSectors \<and> take (length xs) (decode_ints (d s)) = xs"

definition l2_entries :: "nat \<Rightarrow> nat" where
  "l2_entries n = (n - 62 + 31) div 32"

definition l2_sectors :: "FileHeader \<Rightarrow> store \<Rightarrow> nat \<Rightarrow> int list" where
  "l2_sectors h d n = take (l2_entries n) (decode_ints (d (L2Index h)))"

definition index_sectors :: "FileHeader \<Rightarrow> store \<Rightarrow> nat \<Rightarrow> int list" where
  "index_sectors h d n =
     (if n \<le> 30 then [] else if n \<le> 62 then [L1Index h]
      else L1Index h # L2Index h # l2_sectors h d n)"

definition file_layout :: "FileHeader \<Rightarrow> store \<Rightarrow> int list \<Rightarrow> bool" where
  "file_layout h d js \<longleftrightarrow>
     numSectors h = int (length js) \<and> length js \<le> 1086 \<and> length (dataSectors h) = 30
     \<and> take (length js) (dataSectors h) = take 30 js
     \<and> (30 < length js \<longrightarrow> points_to d (L1Index h) (take 32 (drop 30 js)))
     \<and> (62 < length js \<longrightarrow> points_to d (L2Index h) (l2_sectors h d (length js))
          \<and> length (l2_sectors h d (length js)) = l2_entries (length js)
          \<and> (\<forall>k < l2_entries (length js).
               points_to d (l2_sectors h d (length js) ! k) (take 32 (drop (62 + 32 * k) js))))"

text \<open>The number of sectors a file of n data sectors takes.\<close>

definition sectors_needed :: "nat \<Rightarrow> nat" where
  "sectors_needed n = (if n \<le> 30 then n else if n \<le> 62 then n + 1 else n + l2_entries n + 2)"

lemma l2_entries_bounds: "62 < n \<Longrightarrow> n \<le> 1086 \<Longrightarrow> 1 \<le> l2_entries n \<and> l2_entries n \<le> 32 \<and> n \<le> 62 + 32 * l2_entries n"
  by (simp add: l2_entries_def) linarith

lemma l2_store_out: "s \<notin> set (l2_flat lay) \<Longrightarrow> l2_store lay d s = d s"
  by (induction lay d rule: l2_store.induct) auto

lemma l2_store_entry:
  "distinct (l2_flat lay) \<Longrightarrow> (e, xs) \<in> set lay \<Longrightarrow> l2_store lay d e = index_block xs"
  by (induction lay d rule: l2_store.induct) (auto simp: l2_store_out)

lemma set_l2_flat: "set (l2_flat lay) = (\<Union>(e, xs) \<in> set lay. insert e (set xs))"
  by (induction lay) auto

lemma l2_store_data:
  "distinct (l2_flat lay) \<Longrightarrow> (e, xs) \<in> set lay \<Longrightarrow> s \<in> set xs \<Longrightarrow> l2_store lay d s = replicate 128 0"
proof (induction lay d rule: l2_store.induct)
  case (2 e' xs' lay d)
  show ?case
  proof (cases "(e, xs) = (e', xs')")
    case True
    with 2 have "s \<notin> set (l2_flat lay)" "s \<noteq> e'" by auto
    with True 2 show ?thesis by (simp add: l2_store_out)
  next
    case False
    with 2 show ?thesis by (auto simp del: fun_upd_apply)
  qed
qed simp

lemma length_l2_layout [simp]: "length (l2_layout ad rem sg) = ad"
  by (induction ad rem sg rule: l2_layout.induct) simp_all

lemma l2_layout_nil: "map snd (l2_layout ad 0 sg) = replicate ad []"
  by (induction ad arbitrary: sg) simp_all

lemma l2_layout_nth:
  "ad + rem \<le> length sg \<Longrightarrow> k < ad \<Longrightarrow>
     snd (l2_layout ad rem sg ! k) = take 32 (drop (32 * k) (concat (map snd (l2_layout ad rem sg))))"
proof (induction ad arbitrary: rem sg k)
  case (Suc ad)
  then obtain e sg' where sg: "sg = e # sg'" by (cases sg) auto
  show ?case
  proof (cases "32 \<le> rem")
    case True
    then have len: "length (take 32 sg') = 32" using Suc.prems sg by simp
    show ?thesis
    proof (cases k)
      case 0
      then show ?thesis using True len by (simp add: sg min_def)
    next
      case (Suc k')
      have "snd (l2_layout ad (rem - 32) (drop 32 sg') ! k')
          = take 32 (drop (32 * k') (concat (map snd (l2_layout ad (rem - 32) (drop 32 sg')))))"
        using Suc.prems Suc True sg by (intro Suc.IH) simp_all
      then show ?thesis using Suc True len by (simp add: sg min_def)
    qed
  next
    case False
    then have rest: "concat (map snd (l2_layout ad (rem - min 32 rem) (drop (min 32 rem) sg'))) = []"
      by (simp add: l2_layout_nil)
    show ?thesis
    proof (cases k)
      case 0
      then show ?thesis using False rest by (simp add: sg min_def)
    next
      case (Suc k')
      have "k' < ad" using Suc Suc.prems by simp
      then have "snd (l2_layout ad 0 (drop rem sg') ! k') = []"
        using nth_map [of k' "l2_layout ad 0 (drop rem sg')" snd] by (simp add: l2_layout_nil)
      then show ?thesis using Suc False by (simp add: sg min_def l2_layout_nil)
    qed
  qed
qed simp


text \<open>What \<open>place\<close> promises when it is given the right number of different sectors of the disk.\<close>

definition placed :: "FileHeader \<Rightarrow> store \<Rightarrow> int list \<Rightarrow> FileHeader \<Rightarrow> store \<Rightarrow> int list \<Rightarrow> bool" where
  "placed h d sg h' d' js \<longleftrightarrow>
     file_layout h' d' js \<and> distinct (js @ index_sectors h' d' (length js))
     \<and> set (js @ index_sectors h' d' (length js)) = set sg
     \<and> (\<forall>s \<in> set js. d' s = replicate 128 0) \<and> (\<forall>s. s \<notin> set sg \<longrightarrow> d' s = d s)
     \<and> numBytes h' = numBytes h"

lemma points_to_block:
  "0 \<le> e \<Longrightarrow> e < NumSectors \<Longrightarrow> valid_sectors xs \<Longrightarrow> d e = index_block xs \<Longrightarrow> points_to d e xs"
  by (simp add: points_to_def decode_index_block)

lemma place_direct:
  assumes "numSectors h = int n" "n \<le> 30" "length (dataSectors h) = 30"
    and "valid_sectors sg" "distinct sg" "length sg = n"
  shows "\<exists>h' d'. place h ad sg d = Inr (h', d') \<and> placed h d sg h' d' sg"
proof -
  have "fill 30 n sg d = Inr (sg, 0, [], zap sg d)"
    using fill_eq [of 30 n sg d] assms by simp
  then show ?thesis
    using assms by (auto simp: place_def placed_def file_layout_def index_sectors_def)
qed

lemma place_single:
  assumes n: "numSectors h = int n" "30 < n" "n \<le> 62" "length (dataSectors h) = 30"
    and sg: "valid_sectors sg" "distinct sg" "length sg = n + 1"
  shows "\<exists>h' d'. place h ad sg d = Inr (h', d') \<and> placed h d sg h' d' (take 30 sg @ drop 31 sg)"
proof -
  define xs l1 ys where "xs = take 30 sg" and "l1 = sg ! 30" and "ys = drop 31 sg"
  have split: "sg = xs @ l1 # ys"
    unfolding xs_def l1_def ys_def using sg(3) n by (intro id_take_nth_drop [of 30, simplified]) simp
  have len: "length xs = 30" "length ys = n - 30" using sg(3) n by (simp_all add: xs_def ys_def)
  have v: "valid_sectors xs" "valid_sectors ys" "0 \<le> l1" "l1 < NumSectors" using sg(1) by (simp_all add: split)
  have 1: "fill 30 n sg d = Inr (xs, n - 30, l1 # ys, zap xs d)"
    using fill_eq [of 30 n sg d] len v n by (simp add: split)
  have 2: "fill 32 (n - 30) ys d1 = Inr (ys, 0, [], zap ys d1)" for d1
    using fill_eq [of 32 "n - 30" ys d1] len v n by simp
  have 3: "WriteSector d1 l1 (index_block ys) = Inr (d1(l1 := index_block ys))" for d1
    using v len n by (intro WriteSector_index_block) simp_all
  define d' where "d' = (zap (xs @ l1 # ys) d)(l1 := index_block ys)"
  define h' where "h' = h\<lparr>dataSectors := xs @ drop 30 (dataSectors h), L1Index := l1\<rparr>"
  have "place h ad sg d = Inr (h', d')"
    using n v by (simp add: place_def 1 2 3 ClearSector_eq len d'_def h'_def Let_def)
  moreover have "placed h d sg h' d' (xs @ ys)"
    using n v len sg(2)
    by (auto simp: placed_def file_layout_def index_sectors_def h'_def d'_def split intro!: points_to_block)
  ultimately show ?thesis by (auto simp: xs_def ys_def)
qed


lemma l2_layout_mem:
  "ad + rem \<le> length sg \<Longrightarrow> (e, xs) \<in> set (l2_layout ad rem sg) \<Longrightarrow> length xs \<le> 32"
  by (induction ad rem sg rule: l2_layout.induct) auto

lemma l2_layout_count:
  "ad + rem \<le> length sg \<Longrightarrow> rem \<le> 32 * ad \<Longrightarrow> length (concat (map snd (l2_layout ad rem sg))) = rem"
proof (induction ad rem sg rule: l2_layout.induct)
  case (2 ad rem sg)
  then show ?case by (cases sg) auto
qed simp

lemma l2_flat_split:
  "set (l2_flat lay) = set (map fst lay) \<union> set (concat (map snd lay))"
  "distinct (l2_flat lay) \<Longrightarrow> distinct (concat (map snd lay) @ map fst lay)"
proof -
  have "mset (l2_flat lay) = mset (concat (map snd lay) @ map fst lay)"
    by (induction lay) auto
  note m = this
  show "set (l2_flat lay) = set (map fst lay) \<union> set (concat (map snd lay))"
    using mset_eq_setD [OF m] by auto
  show "distinct (l2_flat lay) \<Longrightarrow> distinct (concat (map snd lay) @ map fst lay)"
    using mset_eq_imp_distinct_iff [OF m] by (simp only:)
qed

text \<open>The blocks under the double-indirect pointer, once \<open>fill_l2\<close> and the last write are done.\<close>

lemma l2_blocks:
  assumes ad: "ad \<le> 32" "ad + rem \<le> length sg" "rem \<le> 32 * ad"
    and lay: "lay = l2_layout ad rem sg" and d: "d' = (l2_store lay d)(l2 := index_block (map fst lay))"
    and v: "valid_sectors (l2 # l2_flat lay)" and dist: "distinct (l2 # l2_flat lay)"
  shows "take ad (decode_ints (d' l2)) = map fst lay"
    and "\<And>k. k < ad \<Longrightarrow> points_to d' (map fst lay ! k) (take 32 (drop (32 * k) (concat (map snd lay))))"
    and "\<And>s. s \<in> set (concat (map snd lay)) \<Longrightarrow> d' s = replicate 128 0"
    and "\<And>s. s \<notin> set (l2 # l2_flat lay) \<Longrightarrow> d' s = d s"
proof -
  have len: "length lay = ad" by (simp add: lay)
  have vf: "valid_sectors (map fst lay)" "valid_sectors (concat (map snd lay))"
    using v l2_flat_split(1) [of lay] by (simp_all add: valid_sectors_def)
  show "take ad (decode_ints (d' l2)) = map fst lay"
    using decode_index_block [OF vf(1)] len by (simp add: d)
  show "points_to d' (map fst lay ! k) (take 32 (drop (32 * k) (concat (map snd lay))))" if "k < ad" for k
  proof -
    note k = that
    have mem: "lay ! k \<in> set lay" using k len by simp
    have snd: "snd (lay ! k) = take 32 (drop (32 * k) (concat (map snd lay)))"
      unfolding lay by (rule l2_layout_nth [OF ad(2) k])
    have fst: "fst (lay ! k) \<in> set (l2_flat lay)"
      using mem by (auto simp: l2_flat_split)
    then have "d' (fst (lay ! k)) = index_block (snd (lay ! k))"
      using dist l2_store_entry [of lay "fst (lay ! k)" "snd (lay ! k)" d] mem by (auto simp: d)
    moreover have "valid_sectors (snd (lay ! k))"
      using vf(2) mem by (auto simp: valid_sectors_def)
    moreover have "0 \<le> fst (lay ! k) \<and> fst (lay ! k) < NumSectors"
      using v fst by (auto simp: valid_sectors_def)
    ultimately have "points_to d' (fst (lay ! k)) (snd (lay ! k))" by (simp add: points_to_block)
    then show ?thesis using k len by (simp add: snd)
  qed
  show "d' s = replicate 128 0" if "s \<in> set (concat (map snd lay))" for s
  proof -
    from that obtain e xs where m: "(e, xs) \<in> set lay" "s \<in> set xs" by auto
    have "s \<in> set (l2_flat lay)" using that by (simp only: l2_flat_split(1)) simp
    then have "s \<noteq> l2" using dist by auto
    then show ?thesis using l2_store_data [OF _ m] dist by (simp add: d)
  qed
  show "d' s = d s" if "s \<notin> set (l2 # l2_flat lay)" for s
    using that by (simp add: d l2_store_out)
qed

text \<open>The supply for a double-indirect file, in the order in which it is used.\<close>

lemma split_supply:
  assumes "64 \<le> length sg"
  obtains xs l1 ys l2 rest where "sg = xs @ l1 # ys @ l2 # rest" "length xs = 30" "length ys = 32" "length sg = 64 + length rest"
proof -
  define U where "U = take 63 sg"
  have A: "sg = U @ sg ! 63 # drop 64 sg"
    unfolding U_def using assms by (intro id_take_nth_drop [of 63, simplified]) simp
  have B: "U = take 30 U @ U ! 30 # drop 31 U"
    using assms by (intro id_take_nth_drop [of 30, simplified]) (simp add: U_def)
  have "sg = take 30 U @ U ! 30 # drop 31 U @ sg ! 63 # drop 64 sg"
    by (subst A, subst (1) B) (simp only: append.assoc append_Cons)
  then show ?thesis using assms by (intro that) (assumption, simp_all add: U_def)
qed

definition double_store :: "store \<Rightarrow> int list \<Rightarrow> int \<Rightarrow> int list \<Rightarrow> int \<Rightarrow> (int \<times> int list) list \<Rightarrow> store" where
  "double_store d xs l1 ys l2 lay =
     (l2_store lay (zap [l2] ((zap (xs @ l1 # ys) d)(l1 := index_block ys))))(l2 := index_block (map fst lay))"

lemma place_double_run:
  assumes n: "numSectors h = int n" "62 < n" "n \<le> 1086"
    and sg: "sg = xs @ l1 # ys @ l2 # rest" "length xs = 30" "length ys = 32" "length rest = l2_entries n + (n - 62)" "valid_sectors sg"
  shows "place h (int (l2_entries n)) sg d =
     Inr (h\<lparr>dataSectors := xs @ drop 30 (dataSectors h), L1Index := l1, L2Index := l2\<rparr>,
          double_store d xs l1 ys l2 (l2_layout (l2_entries n) (n - 62) rest))"
proof -
  note b = l2_entries_bounds [OF n(2,3)]
  define ad rem where "ad = l2_entries n" and "rem = n - 62"
  define lay where "lay = l2_layout ad rem rest"
  have r: "rem \<le> 32 * ad" "ad + rem \<le> length rest" "rem \<noteq> 0" "ad \<le> 32"
    using b sg(4) n(2) unfolding ad_def rem_def by linarith+
  have v: "valid_sectors xs" "valid_sectors ys" "valid_sectors rest" "0 \<le> l1" "l1 < NumSectors" "0 \<le> l2" "l2 < NumSectors"
    using sg(5) by (simp_all add: sg(1))
  have 1: "fill 30 n sg d = Inr (xs, n - 30, l1 # ys @ l2 # rest, zap xs d)"
    using fill_eq [of 30 n sg d] sg(2) v n by (simp add: sg(1))
  have 2: "fill 32 (n - 30) (ys @ l2 # rest) d1 = Inr (ys, rem, l2 # rest, zap ys d1)" for d1
    using fill_eq [of 32 "n - 30" "ys @ l2 # rest" d1] sg(3) v n by (simp add: rem_def)
  have 3: "WriteSector d1 l1 (index_block ys) = Inr (d1(l1 := index_block ys))" for d1
    using v sg(3) by (intro WriteSector_index_block) simp_all
  have 4: "fill_l2 ad rem rest d1 = Inr (map fst lay, l2_store lay d1)" for d1
    using fill_l2_eq [OF r(2,1)] v(3) sg(4) by (simp add: lay_def ad_def rem_def)
  have 5: "WriteSector d1 l2 (index_block (map fst lay)) = Inr (d1(l2 := index_block (map fst lay)))" for d1
    using v r by (intro WriteSector_index_block) (simp_all add: lay_def)
  show ?thesis
    unfolding ad_def [symmetric] rem_def [symmetric] lay_def [symmetric]
    using n v r(3) by (simp add: place_def 1 2 3 4 5 ClearSector_eq sg(2) double_store_def Let_def)
qed

text \<open>The supply is used up by the data sectors \<open>xs\<close>, \<open>ys\<close>, \<open>zs\<close> and the index sectors.\<close>

lemma double_placed:
  assumes n: "62 < n" "n \<le> 1086"
    and sg: "sg = xs @ l1 # ys @ l2 # rest" "length xs = 30" "length ys = 32" "length rest = l2_entries n + (n - 62)" "valid_sectors sg" "distinct sg"
    and lay: "lay = l2_layout (l2_entries n) (n - 62) rest"
    and h': "numSectors h' = int n" "dataSectors h' = xs" "L1Index h' = l1" "L2Index h' = l2" "numBytes h' = numBytes h"
  shows "placed h d sg h' (double_store d xs l1 ys l2 lay) (xs @ ys @ concat (map snd lay)) \<and> length (concat (map snd lay)) = n - 62"
proof -
  note adb = l2_entries_bounds [OF n]
  define zs d' where "zs = concat (map snd lay)" and "d' = double_store d xs l1 ys l2 lay"
  have r: "n - 62 \<le> 32 * l2_entries n" "l2_entries n + (n - 62) \<le> length rest" using adb sg(4) by linarith+
  have flat: "l2_flat lay = rest" using l2_flat_layout [OF r(2,1)] sg(4) by (simp add: lay)
  have zs: "length zs = n - 62" using l2_layout_count [OF r(2,1)] by (simp add: zs_def lay)
  have dl: "distinct (l2 # l2_flat lay)" "valid_sectors (l2 # l2_flat lay)" using sg(5,6) by (simp_all add: flat sg(1))
  note b = l2_blocks [OF _ r(2,1) lay d'_def [unfolded double_store_def] dl(2,1), folded zs_def]
  have b1: "l2_entries n \<le> 32" using adb by simp
  note b = b [OF b1]
  have l2s: "l2_sectors h' d' n = map fst lay" using b(1) by (simp add: l2_sectors_def h')
  have setr: "set rest = set (map fst lay) \<union> set zs" using l2_flat_split(1) [of lay] by (simp only: flat zs_def)
  have dist: "distinct (zs @ map fst lay)" using l2_flat_split(2) [of lay] dl unfolding zs_def by simp
  have l1: "d' l1 = index_block ys" using b(4) [of l1] sg(6) by (simp add: flat sg(1))
  have zeros: "d' s = replicate 128 0" if "s \<in> set xs \<union> set ys" for s
  proof -
    have "s \<noteq> l1" "s \<noteq> l2" "s \<notin> set rest" using that sg(6) by (auto simp: sg(1))
    then show ?thesis using b(4) [of s] that by (auto simp: flat)
  qed
  have blocks: "points_to d' l1 ys" "points_to d' l2 (map fst lay)"
    using sg(5) l1 b(1) by (simp_all add: points_to_def decode_index_block lay sg(1))
  have js: "length (xs @ ys @ zs) = n" "take n xs = xs" "take 30 (xs @ ys @ zs) = xs"
      "take 32 (drop 30 (xs @ ys @ zs)) = ys" "\<And>k. drop (62 + 32 * k) (xs @ ys @ zs) = drop (32 * k) zs"
    using n sg(2,3) zs by simp_all
  have lenl: "length (map fst lay) = l2_entries n" by (simp add: lay)
  have "file_layout h' d' (xs @ ys @ zs)"
    unfolding file_layout_def js h' l2s lenl using n sg(2) blocks b(2) by simp
  moreover have ind: "index_sectors h' d' n = l1 # l2 # map fst lay" using n by (simp add: index_sectors_def h' l2s)
  moreover have "distinct ((xs @ ys @ zs) @ l1 # l2 # map fst lay)" using sg(6) dist setr by (auto simp: sg(1))
  moreover have "set ((xs @ ys @ zs) @ l1 # l2 # map fst lay) = set sg" using setr by (auto simp: sg(1))
  moreover have "\<forall>s \<in> set (xs @ ys @ zs). d' s = replicate 128 0" using zeros b(3) by auto
  moreover have "\<forall>s. s \<notin> set sg \<longrightarrow> d' s = d s" using b(4) by (auto simp: sg(1) flat)
  ultimately have "placed h d sg h' d' (xs @ ys @ zs)" unfolding placed_def js h' ind by blast
  then show ?thesis using zs unfolding d'_def zs_def by blast
qed

lemma place_double:
  assumes n: "numSectors h = int n" "62 < n" "n \<le> 1086" "length (dataSectors h) = 30"
    and sg: "valid_sectors sg" "distinct sg" "length sg = n + l2_entries n + 2"
  shows "\<exists>h' d' js. place h (int (l2_entries n)) sg d = Inr (h', d') \<and> placed h d sg h' d' js \<and> length js = n"
proof -
  have "64 \<le> length sg" using sg(3) n(2) l2_entries_bounds [OF n(2,3)] by simp
  then obtain xs l1 ys l2 rest where split: "sg = xs @ l1 # ys @ l2 # rest" "length xs = 30" "length ys = 32" "length sg = 64 + length rest"
    by (rule split_supply)
  have r: "length rest = l2_entries n + (n - 62)" using split(4) sg(3) n(2) by simp
  let ?h = "h\<lparr>dataSectors := xs @ drop 30 (dataSectors h), L1Index := l1, L2Index := l2\<rparr>"
  have "numSectors ?h = int n" "dataSectors ?h = xs" "L1Index ?h = l1" "L2Index ?h = l2" "numBytes ?h = numBytes h"
    using n by simp_all
  from double_placed [OF n(2,3) split(1-3) r sg(1,2) refl this, of d] show ?thesis
    using place_double_run [OF n(1-3) split(1-3) r sg(1), of d] split(2,3) n(2) by auto
qed

section \<open>The outcome of Allocate\<close>

lemma to_unsigned_small: "n \<le> 1000000 \<Longrightarrow> to_unsigned (int n) = int n"
  by (simp add: to_unsigned_def)

lemma l2_entries_divRoundUp: "62 < n \<Longrightarrow> divRoundUp (int n - 62) 32 = int (l2_entries n)"
proof -
  assume n: "62 < n"
  have "divRoundUp (int n - 62) 32 = (int n - 62 + 31) div 32"
    using n by (subst divRoundUp_nonneg) simp_all
  also have "\<dots> = int ((n - 62 + 31) div 32)"
    using n by (simp add: zdiv_int of_nat_diff)
  finally show ?thesis by (simp add: l2_entries_def)
qed

lemma reserve_eq:
  assumes "n \<le> 1086" and c: "NumClear b = Inr c"
  shows "reserve b (int n) =
    (if 62 < n then
       if c \<le> 31 + int (l2_entries n) \<or> c \<le> 63 then Inr (None, b)
       else bindR (get_sectors (int (sectors_needed n)) b) (\<lambda>(sg, b1). Inr (Some (int (l2_entries n), sg), b1))
     else if c < int (sectors_needed n) then Inr (None, b)
     else bindR (get_sectors (int (sectors_needed n)) b) (\<lambda>(sg, b1). Inr (Some (0, sg), b1)))"
proof (cases "62 < n")
  case True
  have u: "to_unsigned (int n) = int n" using assms(1) by (simp add: to_unsigned_small)
  have d: "divRoundUp (int n - 30 - 32) 32 = int (l2_entries n)"
    using l2_entries_divRoundUp [OF True] by simp
  have s: "int n + int (l2_entries n) + 2 = int (sectors_needed n)"
    using True by (simp add: sectors_needed_def)
  have i: "c \<le> 30 + int (l2_entries n) + 1 \<longleftrightarrow> c \<le> 31 + int (l2_entries n)" by linarith
  have n: "30 < int n" "62 < int n" "\<not> 1086 < int n" using True assms(1) by linarith+
  show ?thesis
    unfolding reserve_def hdr_consts u d s i c Let_def bindR_simps
    using True n by (simp only: if_True if_False) simp
next
  case False
  then show ?thesis
    using assms by (simp add: reserve_def hdr_consts to_unsigned_small sectors_needed_def add.commute)
qed

lemma get_sectors_small: "n \<le> 1054 \<Longrightarrow> get_sectors (int n) b = repeat_find Find n b"
  by (simp add: get_sectors_def hdr_consts)

lemma place_all:
  assumes "numSectors h = int n" "n \<le> 1086" "length (dataSectors h) = 30"
    and "valid_sectors sg" "distinct sg" "length sg = sectors_needed n"
  shows "\<exists>h' d' js. place h (if 62 < n then int (l2_entries n) else 0) sg d = Inr (h', d')
     \<and> placed h d sg h' d' js \<and> length js = n"
proof -
  consider "n \<le> 30" | "30 < n" "n \<le> 62" | "62 < n" by linarith
  then show ?thesis
  proof cases
    case 1
    then show ?thesis using place_direct [of h n sg 0 d] assms by (auto simp: sectors_needed_def)
  next
    case 2
    moreover from this have "length sg = n + 1" using assms(6) by (simp add: sectors_needed_def)
    ultimately obtain h' d' where "place h 0 sg d = Inr (h', d')" "placed h d sg h' d' (take 30 sg @ drop 31 sg)"
      using place_single [of h n sg 0 d] assms by blast
    moreover have "length (take 30 sg @ drop 31 sg) = n" using 2 \<open>length sg = n + 1\<close> by simp
    ultimately show ?thesis using 2 by auto
  next
    case 3
    then show ?thesis using place_double [of h n sg d] assms by (simp add: sectors_needed_def)
  qed
qed

text \<open>The number of data sectors of a file of the given size.\<close>

definition data_sectors :: "int \<Rightarrow> nat" where
  "data_sectors fileSize = nat ((fileSize + 127) div 128)"

lemma divRoundUp_sectors: "0 \<le> fileSize \<Longrightarrow> divRoundUp fileSize SectorSize = int (data_sectors fileSize)"
  by (simp add: data_sectors_def SectorSize_def divRoundUp_nonneg add.commute)

lemma Allocate_reserve:
  "0 \<le> fileSize \<Longrightarrow> Allocate h b fileSize d =
     (let h1 = h\<lparr>numBytes := fileSize, numSectors := int (data_sectors fileSize), L1Index := -1, L2Index := -1\<rparr>
      in bindR (reserve b (int (data_sectors fileSize))) (\<lambda>(r, b1).
           case r of None \<Rightarrow> Inr (False, h1, b1, d)
           | Some (ad, sg) \<Rightarrow> bindR (place h1 ad sg d) (\<lambda>(h2, d1). Inr (True, h2, b1, d1))))"
  by (simp add: Allocate_def divRoundUp_sectors Let_def)

lemma repeat_find_bitmap:
  assumes "wf_bitmap b" "NumClear b = Inr c" "int n \<le> c"
  shows "\<exists>js b'. repeat_find Find n b = Inr (js, b') \<and> wf_bitmap b' \<and> numBits b' = numBits b
     \<and> length js = n \<and> distinct js \<and> set js \<subseteq> {0 ..< numBits b} - marked b \<and> marked b' = marked b \<union> set js"
  using assms bm.repeat_find_fresh [of b n] by (simp add: NumClear_spec free_bits_def)

text \<open>A sector number outside the disk in the supply stops \<open>place\<close> at its \<open>ClearSector\<close>.\<close>

lemma place_double_abort:
  assumes n: "numSectors h = int n" "62 < n" "n \<le> 1086"
    and sg: "\<not> valid_sectors sg" "length sg = n + l2_entries n + 2"
  shows "place h (int (l2_entries n)) sg d = Inl AssertFail"
proof -
  define ad rem where "ad = l2_entries n" and "rem = n - 62"
  note adb = l2_entries_bounds [OF n(2,3), folded ad_def]
  define xs l1 ys l2 rest where "xs = take 30 sg" and "l1 = sg ! 30" and "ys = take 32 (drop 31 sg)"
    and "l2 = sg ! 63" and "rest = drop 64 sg"
  have "sg = take 63 sg @ l2 # rest"
    unfolding l2_def rest_def using sg(2) n by (intro id_take_nth_drop [of 63, simplified]) simp
  moreover have "take 63 sg = take 30 (take 63 sg) @ take 63 sg ! 30 # drop 31 (take 63 sg)"
    using sg(2) n by (intro id_take_nth_drop [of 30, simplified]) simp
  ultimately have split: "sg = xs @ l1 # ys @ l2 # rest"
    using sg(2) n by (simp add: xs_def l1_def ys_def drop_take min_def)
  have len: "length xs = 30" "length ys = 32" "length rest = ad + rem"
    using sg(2) n by (simp_all add: xs_def ys_def rest_def ad_def rem_def)
  have rem: "rem \<le> 32 * ad" "ad + rem \<le> length rest" using adb len unfolding rem_def by linarith+
  have 1: "fill 30 n sg d = Inr (xs, n - 30, l1 # ys @ l2 # rest, zap xs d)" if "valid_sectors xs"
    using fill_eq [of 30 n sg d] len that n by (simp add: split)
  have f1: "fill 30 n sg d = Inl AssertFail" if "\<not> valid_sectors xs"
    using fill_abort [of 30 n sg d] len that n by (simp add: split)
  have 2: "fill 32 (n - 30) (ys @ l2 # rest) d1 = Inr (ys, rem, l2 # rest, zap ys d1)" if "valid_sectors ys" for d1
    using fill_eq [of 32 "n - 30" "ys @ l2 # rest" d1] len that n by (simp add: rem_def)
  have f2: "fill 32 (n - 30) (ys @ l2 # rest) d1 = Inl AssertFail" if "\<not> valid_sectors ys" for d1
    using fill_abort [of 32 "n - 30" "ys @ l2 # rest" d1] len that n by simp
  have 3: "WriteSector d1 l1 (index_block ys) = Inr (d1(l1 := index_block ys))" if "0 \<le> l1" "l1 < NumSectors" for d1
    using that len n by (intro WriteSector_index_block) simp_all
  have 4: "fill_l2 ad rem rest d1 = Inl AssertFail" if "\<not> valid_sectors rest" for d1
    using fill_l2_abort [OF rem(2,1)] len that by simp
  have "rem \<noteq> 0" using n by (simp add: rem_def)
  consider "\<not> valid_sectors xs" | "valid_sectors xs" "\<not> (0 \<le> l1 \<and> l1 < NumSectors)"
    | "valid_sectors xs" "0 \<le> l1" "l1 < NumSectors" "\<not> valid_sectors ys"
    | "valid_sectors xs" "0 \<le> l1" "l1 < NumSectors" "valid_sectors ys" "\<not> (0 \<le> l2 \<and> l2 < NumSectors)"
    | "valid_sectors xs" "0 \<le> l1" "l1 < NumSectors" "valid_sectors ys" "0 \<le> l2" "l2 < NumSectors" "\<not> valid_sectors rest"
    using sg(1) by (auto simp: split)
  then show ?thesis
    unfolding ad_def [symmetric] using n \<open>rem \<noteq> 0\<close>
    by cases (simp_all add: place_def 1 f1 2 f2 3 4 ClearSector_eq Let_def, blast+)
qed

section \<open>Reading and freeing a laid out file\<close>

lemma points_to_read:
  "points_to d s xs \<Longrightarrow> ReadSector d s = Inr (d s) \<and> take (length xs) (decode_ints (d s)) = xs"
  by (simp add: points_to_def ReadSector_def)

lemma points_to_nth:
  "points_to d s xs \<Longrightarrow> k < length xs \<Longrightarrow> decode_ints (d s) ! k = xs ! k"
  by (metis nth_take points_to_def)

lemma ByteToSector_layout:
  assumes f: "file_layout h d js" and k: "k < length js" and off: "0 \<le> off" "off div 128 = int k"
  shows "ByteToSector h off d = Inr (js ! k)"
proof -
  have cur: "off sdiv SectorSize = int k" using off by (simp add: SectorSize_def sdiv_nonneg_eq)
  consider "k < 30" | "30 \<le> k" "k < 62" | "62 \<le> k" by linarith
  then show ?thesis
  proof cases
    case 1
    have "take (length js) (dataSectors h) ! k = take 30 js ! k" using f by (simp add: file_layout_def)
    then have "dataSectors h ! k = js ! k" using 1 k by simp
    then show ?thesis using 1 by (simp add: ByteToSector_def cur hdr_consts)
  next
    case 2
    then have p: "points_to d (L1Index h) (take 32 (drop 30 js))" using f k by (simp add: file_layout_def)
    have "decode_ints (d (L1Index h)) ! (k - 30) = js ! k"
    proof -
      have "k - 30 < length js - 30" "k - 30 < 32" using 2 k by linarith+
      then show ?thesis using points_to_nth [OF p, of "k - 30"] 2 by simp
    qed
    moreover have "nat (int k - 30) = k - 30" by simp
    ultimately show ?thesis using 2 points_to_read [OF p] by (simp add: ByteToSector_def cur hdr_consts)
  next
    case 3
    define a where "a = (k - 62) div 32"
    define es where "es = l2_sectors h d (length js)"
    have len: "length js \<le> 1086" "length es = l2_entries (length js)" using f 3 k by (auto simp: file_layout_def es_def)
    have a: "a < l2_entries (length js)" using 3 k unfolding a_def l2_entries_def by linarith
    have p2: "points_to d (L2Index h) es" and p1: "points_to d (es ! a) (take 32 (drop (62 + 32 * a) js))"
      using f 3 k a by (auto simp: file_layout_def es_def)
    have e: "decode_ints (d (L2Index h)) ! a = es ! a" using points_to_nth [OF p2] a len(2) by simp
    have off': "k - 62 - 32 * a < 32" "62 + 32 * a \<le> k" using 3 unfolding a_def by linarith+
    then have s: "decode_ints (d (es ! a)) ! (k - 62 - 32 * a) = js ! k"
      using points_to_nth [OF p1, of "k - 62 - 32 * a"] k 3 by simp
    have ad: "(int k - 62) sdiv 32 = int a"
      using 3 unfolding a_def by (subst sdiv_nonneg_eq) (simp_all add: zdiv_int of_nat_diff)
    have "nat (int k - 62 - int a * 32) = k - 62 - 32 * a" using off' 3 by linarith
    then show ?thesis
      using 3 k len(1) points_to_read [OF p2] points_to_read [OF p1] e s
      by (simp add: ByteToSector_def cur hdr_consts Let_def ad)
  qed
qed

text \<open>The layout depends only on the index sectors.\<close>

lemma file_layout_frame:
  assumes f: "file_layout h d js" and same: "\<And>s. s \<in> set (index_sectors h d (length js)) \<Longrightarrow> d' s = d s"
  shows "file_layout h d' js \<and> index_sectors h d' (length js) = index_sectors h d (length js)"
proof -
  define n where "n = length js"
  consider "n \<le> 30" | "30 < n" "n \<le> 62" | "62 < n" by linarith
  then show ?thesis
  proof cases
    case 1
    then show ?thesis using f by (simp add: file_layout_def index_sectors_def n_def)
  next
    case 2
    then have "d' (L1Index h) = d (L1Index h)" using same by (simp add: index_sectors_def n_def)
    then show ?thesis using f 2 by (simp add: file_layout_def index_sectors_def n_def points_to_def)
  next
    case 3
    then have s: "d' (L1Index h) = d (L1Index h)" "d' (L2Index h) = d (L2Index h)"
      "\<And>s. s \<in> set (l2_sectors h d n) \<Longrightarrow> d' s = d s"
      using same by (simp_all add: index_sectors_def n_def)
    then have l2: "l2_sectors h d' n = l2_sectors h d n" by (simp add: l2_sectors_def)
    have "d' (l2_sectors h d n ! k) = d (l2_sectors h d n ! k)" if "k < l2_entries n" for k
      using f 3 that by (intro s(3) nth_mem) (simp add: file_layout_def n_def)
    then show ?thesis using f 3 s(1,2) l2 by (auto simp: file_layout_def index_sectors_def n_def points_to_def)
  qed
qed

lemma release_spec:
  "wf_bitmap b \<Longrightarrow> min slots rem \<le> length xs \<Longrightarrow> distinct (take (min slots rem) xs) \<Longrightarrow>
   set (take (min slots rem) xs) \<subseteq> marked b \<Longrightarrow>
     \<exists>b'. release slots rem xs b = Inr (rem - min slots rem, b') \<and> wf_bitmap b' \<and> numBits b' = numBits b
        \<and> marked b' = marked b - set (take (min slots rem) xs)"
proof (induction slots arbitrary: rem xs b)
  case 0
  then show ?case by simp
next
  case (Suc slots)
  show ?case
  proof (cases "rem = 0")
    case True
    then show ?thesis using Suc.prems by simp
  next
    case False
    then obtain rem' x xs' where e: "rem = Suc rem'" "xs = x # xs'"
      using Suc.prems(2) by (cases rem; cases xs) auto
    have x: "0 \<le> x" "x < numBits b" "is_marked b x" using Suc.prems(4) e by (auto simp: marked_def)
    obtain b1 where b1: "Clear b x = Inr b1" using Clear_ok [OF x(1,2)] by blast
    note w = Clear_wf [OF Suc.prems(1) b1] and m = marked_Clear [OF Suc.prems(1) b1] and n = Clear_frame [OF b1]
    have "set (take (min slots rem') xs') \<subseteq> marked b1" using Suc.prems(3,4) e m by auto
    then obtain b2 where "release slots rem' xs' b1 = Inr (rem' - min slots rem', b2)" "wf_bitmap b2"
      "numBits b2 = numBits b1" "marked b2 = marked b1 - set (take (min slots rem') xs')"
      using Suc.IH [OF w, of rem' xs'] Suc.prems(2,3) e by auto
    then show ?thesis using b1 m n Test_spec [OF x(1,2)] x(3) e by auto
  qed
qed

text \<open>The pointers of one index block.\<close>

lemma release_block:
  assumes wf: "wf_bitmap b" and p: "points_to d s ys" and len: "length ys = min 32 rem"
    and ys: "distinct ys" "set ys \<subseteq> marked b"
  shows "\<exists>b'. release 32 rem (decode_ints (d s)) b = Inr (rem - min 32 rem, b') \<and> wf_bitmap b'
     \<and> numBits b' = numBits b \<and> marked b' = marked b - set ys"
proof -
  have t: "take (min 32 rem) (decode_ints (d s)) = ys" using p len by (simp add: points_to_def)
  have "min 32 rem \<le> length (decode_ints (d s))"
    using arg_cong [OF t, of length] len by (simp split: if_splits)
  from release_spec [OF wf this] show ?thesis using ys unfolding t by blast
qed

lemma assert_marked_ok: "s \<in> marked b \<Longrightarrow> assert_marked b s = Inr ()"
  by (simp add: assert_marked_def marked_def Test_spec)

lemma Clear_marked:
  "wf_bitmap b \<Longrightarrow> s \<in> marked b \<Longrightarrow>
     \<exists>b'. Clear b s = Inr b' \<and> wf_bitmap b' \<and> numBits b' = numBits b \<and> marked b' = marked b - {s}"
  using bm.clear_law [of b s] by (auto simp: marked_def)

text \<open>The blocks under the double-indirect pointer: their data sectors, then the block itself.\<close>

lemma blocks_Suc:
  fixes L M :: nat
  assumes "1 \<le> L" "M = L - 32"
  shows "(L + 31) div 32 = Suc ((M + 31) div 32)"
proof (cases "L \<le> 32")
  case True
  then have "L + 31 = 32 + (L - 1)" "L - 1 < 32" using assms by linarith+
  then have "(L + 31) div 32 = 1" by simp
  then show ?thesis using True assms by simp
next
  case False
  then have "L + 31 = (M + 31) + 32" using assms by linarith
  then show ?thesis by (simp only: div_add_self2)
qed

text \<open>One block under the double-indirect pointer.\<close>

lemma release_l2_block:
  assumes wf: "wf_bitmap b" and p: "points_to d e (take 32 zs)" and zs: "zs \<noteq> []"
    and dist: "distinct (take 32 zs @ [e])" and sub: "set (take 32 zs @ [e]) \<subseteq> marked b"
  shows "\<exists>b2. wf_bitmap b2 \<and> numBits b2 = numBits b \<and> marked b2 = marked b - set (take 32 zs @ [e])
    \<and> (\<forall>es. release_l2 (e # es) (length zs) b d = release_l2 es (length (drop 32 zs)) b2 d)"
proof -
  obtain b1 where 1: "release 32 (length zs) (decode_ints (d e)) b = Inr (length zs - min 32 (length zs), b1)"
    "wf_bitmap b1" "numBits b1 = numBits b" "marked b1 = marked b - set (take 32 zs)"
    using release_block [OF wf p, of "length zs"] dist sub by (auto simp: min.commute)
  obtain b2 where 2: "Clear b1 e = Inr b2" "wf_bitmap b2" "numBits b2 = numBits b1" "marked b2 = marked b1 - {e}"
    using Clear_marked [OF 1(2), of e] 1(4) dist sub by auto
  have "length zs - min 32 (length zs) = length (drop 32 zs)" by simp
  moreover obtain r where "length zs = Suc r" using zs by (cases zs) auto
  moreover have "assert_marked b e = Inr ()" using sub by (intro assert_marked_ok) simp
  ultimately have "release_l2 (e # es) (length zs) b d = release_l2 es (length (drop 32 zs)) b2 d" for es
    using 1(1) 2(1) points_to_read [OF p] by simp
  then show ?thesis using 1 2 by (intro exI [of _ b2]) auto
qed

lemma release_l2_spec:
  assumes "wf_bitmap b" "(length zs + 31) div 32 \<le> length es"
    and "\<And>k. k < (length zs + 31) div 32 \<Longrightarrow> points_to d (es ! k) (take 32 (drop (32 * k) zs))"
    and "distinct (zs @ take ((length zs + 31) div 32) es)"
    and "set (zs @ take ((length zs + 31) div 32) es) \<subseteq> marked b"
  shows "\<exists>b'. release_l2 es (length zs) b d = Inr b' \<and> wf_bitmap b' \<and> numBits b' = numBits b
     \<and> marked b' = marked b - set (zs @ take ((length zs + 31) div 32) es)"
  using assms
proof (induction es arbitrary: zs b)
  case Nil
  then have "(length zs + 31) div 32 = 0" by simp
  then have "length zs = 0" by linarith
  with Nil show ?case by simp
next
  case (Cons e es)
  show ?case
  proof (cases "zs = []")
    case True
    then show ?thesis using Cons.prems by simp
  next
    case False
    define ys where "ys = drop 32 zs"
    define m where "m = (length ys + 31) div 32"
    have "1 \<le> length zs" "length ys = length zs - 32" using False by (simp_all add: ys_def Suc_le_eq)
    then have m: "(length zs + 31) div 32 = Suc m" unfolding m_def by (rule blocks_Suc)
    have zs: "zs = take 32 zs @ ys" by (simp add: ys_def)
    have dist: "distinct (take 32 zs @ ys @ e # take m es)" and sub: "set (take 32 zs @ ys @ e # take m es) \<subseteq> marked b"
      using Cons.prems(4,5) zs unfolding m by (metis append.assoc take_Suc_Cons)+
    obtain b2 where 2: "wf_bitmap b2" "numBits b2 = numBits b" "marked b2 = marked b - set (take 32 zs @ [e])"
      "release_l2 (e # es) (length zs) b d = release_l2 es (length ys) b2 d"
      using release_l2_block [OF Cons.prems(1) _ False, of d e] Cons.prems(3) [of 0] m dist sub by (auto simp: ys_def)
    have "\<exists>b'. release_l2 es (length ys) b2 d = Inr b' \<and> wf_bitmap b' \<and> numBits b' = numBits b2
        \<and> marked b' = marked b2 - set (ys @ take ((length ys + 31) div 32) es)"
    proof (rule Cons.IH [OF 2(1)])
      show "(length ys + 31) div 32 \<le> length es" using Cons.prems(2) unfolding m by (simp add: m_def)
      show "points_to d (es ! k) (take 32 (drop (32 * k) ys))" if "k < (length ys + 31) div 32" for k
        using Cons.prems(3) [of "Suc k"] that unfolding m m_def [symmetric] by (simp add: ys_def algebra_simps)
      show "distinct (ys @ take ((length ys + 31) div 32) es)" using dist by (simp add: m_def)
      show "set (ys @ take ((length ys + 31) div 32) es) \<subseteq> marked b2"
        unfolding 2(3) m_def [symmetric] using dist sub by auto
    qed
    moreover have "set zs = set (take 32 zs) \<union> set ys" by (metis zs set_append)
    ultimately show ?thesis using 2 unfolding m by (auto simp: m_def)
  qed
qed

text \<open>The three levels of pointers of a laid out file.\<close>

lemma release_direct:
  assumes f: "file_layout h d js" and wf: "wf_bitmap b" and js: "distinct js" "set js \<subseteq> marked b"
  shows "\<exists>b1. release 30 (length js) (dataSectors h) b = Inr (length js - min 30 (length js), b1) \<and> wf_bitmap b1
    \<and> numBits b1 = numBits b \<and> marked b1 = marked b - set (take 30 js)"
proof -
  have n: "length (dataSectors h) = 30" "take (length js) (dataSectors h) = take 30 js"
    using f by (simp_all add: file_layout_def)
  have "take (min 30 (length js)) (dataSectors h) = take 30 js"
    using n by (metis min.idem min.commute take_take take_all order_refl)
  then show ?thesis using release_spec [OF wf, of 30 "length js" "dataSectors h"] n(1) js
    by (auto dest: in_set_takeD)
qed

lemma release_single:
  assumes wf: "wf_bitmap b" and p: "points_to d l1 ys" and ys: "length ys = min 32 rem" "distinct (ys @ [l1])" "set (ys @ [l1]) \<subseteq> marked b"
  shows "\<exists>b2 b3. release 32 rem (decode_ints (d l1)) b = Inr (rem - min 32 rem, b2) \<and> l1 \<in> marked b2 \<and> Clear b2 l1 = Inr b3
    \<and> wf_bitmap b3 \<and> numBits b3 = numBits b \<and> marked b3 = marked b - set (ys @ [l1])"
proof -
  obtain b2 where b2: "release 32 rem (decode_ints (d l1)) b = Inr (rem - min 32 rem, b2)" "wf_bitmap b2"
    "numBits b2 = numBits b" "marked b2 = marked b - set ys"
    using release_block [OF wf p ys(1)] ys(2,3) by auto
  have "l1 \<in> marked b2" using ys b2(4) by auto
  then show ?thesis using Clear_marked [OF b2(2), of l1] b2 by fastforce
qed

lemma release_double:
  assumes wf: "wf_bitmap b" and p: "points_to d l2 es" and m: "length es = (length zs + 31) div 32"
    and pt: "\<And>k. k < length es \<Longrightarrow> points_to d (es ! k) (take 32 (drop (32 * k) zs))"
    and dist: "distinct (zs @ l1 # l2 # es)" and sub: "set (zs @ l1 # l2 # es) \<subseteq> marked b"
  shows "\<exists>b3 b4 b5. release_l2 (decode_ints (d l2)) (length zs) b d = Inr b3 \<and> l2 \<in> marked b3 \<and> Clear b3 l2 = Inr b4 \<and> l1 \<in> marked b4
    \<and> Clear b4 l1 = Inr b5 \<and> wf_bitmap b5 \<and> numBits b5 = numBits b \<and> marked b5 = marked b - set (zs @ l1 # l2 # es)"
proof -
  define rs where "rs = decode_ints (d l2)"
  have t: "take (length es) rs = es" using points_to_read [OF p] by (simp add: rs_def)
  have le: "length es \<le> length rs" using arg_cong [OF t, of length] by simp
  have pt': "\<And>k. k < length es \<Longrightarrow> points_to d (rs ! k) (take 32 (drop (32 * k) zs))"
    using pt points_to_nth [OF p] by (simp add: rs_def)
  obtain b3 where b3: "release_l2 rs (length zs) b d = Inr b3" "wf_bitmap b3" "numBits b3 = numBits b"
    "marked b3 = marked b - set (zs @ es)"
    using release_l2_spec [OF wf, of zs rs d, folded m, unfolded t, OF le pt'] dist sub by auto
  have l: "l2 \<in> marked b3" "l1 \<in> marked b3" "l1 \<noteq> l2" using dist sub unfolding b3(4) by auto
  obtain b4 where b4: "Clear b3 l2 = Inr b4" "wf_bitmap b4" "numBits b4 = numBits b3" "marked b4 = marked b3 - {l2}"
    using Clear_marked [OF b3(2) l(1)] by blast
  have l1: "l1 \<in> marked b4" using l b4(4) by simp
  obtain b5 where b5: "Clear b4 l1 = Inr b5" "wf_bitmap b5" "numBits b5 = numBits b4" "marked b5 = marked b4 - {l1}"
    using Clear_marked [OF b4(2) l1] by blast
  have "marked b5 = marked b - set (zs @ l1 # l2 # es)" unfolding b5(4) b4(4) b3(4) by auto
  then show ?thesis using b3 b4 b5 l l1 by (auto simp: rs_def)
qed

lemma Deallocate_single:
  assumes f: "file_layout h d js" and n: "n = length js"
    and dist: "distinct (js @ index_sectors h d n)" and sub: "set (js @ index_sectors h d n) \<subseteq> marked b"
    and r1: "release 30 n (dataSectors h) b = Inr (n - 30, b1)" "wf_bitmap b1" "numBits b1 = numBits b" "marked b1 = marked b - set (take 30 js)"
    and k: "30 < n" "n \<le> 62"
  shows "\<exists>b'. Deallocate h b d = Inr b' \<and> wf_bitmap b' \<and> numBits b' = numBits b
     \<and> marked b' = marked b - set (js @ index_sectors h d n)"
proof -
  have ns: "nat (numSectors h) = n" using f by (simp add: file_layout_def n)
  define l1 ys where "l1 = L1Index h" and "ys = drop 30 js"
  have js: "js = take 30 js @ ys" and ind: "index_sectors h d n = [l1]"
    using k by (simp_all add: ys_def index_sectors_def n l1_def)
  have p: "points_to d l1 ys" using f k by (simp add: file_layout_def n l1_def ys_def)
  have dist': "distinct (take 30 js @ ys @ [l1])" and sub': "set (take 30 js @ ys @ [l1]) \<subseteq> marked b"
    using dist sub unfolding ind by (metis append.assoc js)+
  have ys: "distinct (ys @ [l1])" "set (ys @ [l1]) \<subseteq> marked b1" "length ys = min 32 (n - 30)" "n - 30 - min 32 (n - 30) = 0"
    using dist' sub' r1(4) k by (auto simp: ys_def n)
  obtain b2 b3 where r: "release 32 (n - 30) (decode_ints (d l1)) b1 = Inr (0, b2)" "l1 \<in> marked b2" "Clear b2 l1 = Inr b3"
    "wf_bitmap b3" "numBits b3 = numBits b1" "marked b3 = marked b1 - set (ys @ [l1])"
    using release_single [OF r1(2) p ys(3,1,2)] unfolding ys(4) by blast
  have "Deallocate h b d = Inr b3"
    using r1(1) r(1-3) points_to_read [OF p] ys(2) k
    by (simp add: Deallocate_def ns assert_marked_ok l1_def [symmetric])
  moreover have "set js = set (take 30 js) \<union> set ys" by (metis js set_append)
  ultimately show ?thesis using r(4-6) r1(3,4) unfolding ind by auto
qed

lemma Deallocate_double:
  assumes f: "file_layout h d js" and n: "n = length js"
    and dist: "distinct (js @ index_sectors h d n)" and sub: "set (js @ index_sectors h d n) \<subseteq> marked b"
    and r1: "release 30 n (dataSectors h) b = Inr (n - 30, b1)" "wf_bitmap b1" "numBits b1 = numBits b" "marked b1 = marked b - set (take 30 js)"
    and k: "62 < n"
  shows "\<exists>b'. Deallocate h b d = Inr b' \<and> wf_bitmap b' \<and> numBits b' = numBits b
     \<and> marked b' = marked b - set (js @ index_sectors h d n)"
proof -
  have ns: "nat (numSectors h) = n" using f by (simp add: file_layout_def n)
  define l1 l2 es ys zs where "l1 = L1Index h" and "l2 = L2Index h" and "es = l2_sectors h d n"
    and "ys = take 32 (drop 30 js)" and "zs = drop 62 js"
  have "drop 32 (drop 30 js) = zs" by (simp add: zs_def)
  then have js: "js = take 30 js @ ys @ zs" unfolding ys_def by (metis append_take_drop_id)
  have len: "length ys = 32" "length zs = n - 62" "(length zs + 31) div 32 = l2_entries n"
    using k by (simp_all add: ys_def zs_def n l2_entries_def)
  have fl: "points_to d l1 ys" "points_to d l2 es" "length es = l2_entries n"
    "\<And>k. k < l2_entries n \<Longrightarrow> points_to d (es ! k) (take 32 (drop (32 * k) zs))"
    using f k by (simp_all add: file_layout_def n [symmetric] l1_def l2_def es_def ys_def zs_def add.commute)
  have ind: "index_sectors h d n = l1 # l2 # es"
    using k by (simp add: index_sectors_def n [symmetric] l1_def l2_def es_def)
  have dist': "distinct (take 30 js @ ys @ zs @ l1 # l2 # es)" and sub': "set (take 30 js @ ys @ zs @ l1 # l2 # es) \<subseteq> marked b"
    using dist sub unfolding ind by (metis append.assoc js)+
  have ys: "distinct ys" "set ys \<subseteq> marked b1" "length ys = min 32 (n - 30)" "n - 30 - min 32 (n - 30) = n - 62"
    using dist' sub' r1(4) k len by auto
  obtain b2 where b2: "release 32 (n - 30) (decode_ints (d l1)) b1 = Inr (n - 62, b2)" "wf_bitmap b2"
    "numBits b2 = numBits b1" "marked b2 = marked b1 - set ys"
    using release_block [OF r1(2) fl(1) ys(3,1,2)] unfolding ys(4) by blast
  have rest: "distinct (zs @ l1 # l2 # es)" "set (zs @ l1 # l2 # es) \<subseteq> marked b2" "l1 \<in> marked b1"
    using dist' sub' unfolding b2(4) r1(4) by auto
  obtain b3 b4 b5 where r: "release_l2 (decode_ints (d l2)) (n - 62) b2 d = Inr b3" "l2 \<in> marked b3" "Clear b3 l2 = Inr b4"
    "l1 \<in> marked b4" "Clear b4 l1 = Inr b5" "wf_bitmap b5" "numBits b5 = numBits b2" "marked b5 = marked b2 - set (zs @ l1 # l2 # es)"
    using release_double [OF b2(2) fl(2) _ _ rest(1,2)] fl(3,4) len by metis
  have "Deallocate h b d = Inr b5"
    using r1(1) b2(1) r(1-5) points_to_read [OF fl(1)] points_to_read [OF fl(2)] rest k
    by (simp add: Deallocate_def ns assert_marked_ok l1_def [symmetric] l2_def [symmetric])
  moreover have "set js = set (take 30 js) \<union> set ys \<union> set zs" by (metis js set_append sup_assoc)
  ultimately show ?thesis using r(6-8) b2(3,4) r1(3,4) unfolding ind by auto
qed

lemma Deallocate_layout:
  assumes f: "file_layout h d js" and wf: "wf_bitmap b"
    and dist: "distinct (js @ index_sectors h d (length js))"
    and sub: "set (js @ index_sectors h d (length js)) \<subseteq> marked b"
  shows "\<exists>b'. Deallocate h b d = Inr b' \<and> wf_bitmap b' \<and> numBits b' = numBits b
     \<and> marked b' = marked b - set (js @ index_sectors h d (length js))"
proof -
  obtain b1 where b1: "release 30 (length js) (dataSectors h) b = Inr (length js - min 30 (length js), b1)" "wf_bitmap b1"
    "numBits b1 = numBits b" "marked b1 = marked b - set (take 30 js)"
    using release_direct [OF f wf] dist sub by auto
  consider "length js \<le> 30" | "30 < length js" "length js \<le> 62" | "62 < length js" by linarith
  then show ?thesis
  proof cases
    case 1
    have "nat (numSectors h) = length js" using f by (simp add: file_layout_def)
    with 1 \<open>release 30 _ _ b = _\<close> show ?thesis
      using \<open>wf_bitmap b1\<close> \<open>numBits b1 = numBits b\<close> \<open>marked b1 = _\<close>
      by (simp add: Deallocate_def index_sectors_def)
  next
    case 2
    then show ?thesis using Deallocate_single [OF f refl dist sub _ b1(2-4)] b1(1) by simp
  next
    case 3
    then show ?thesis using Deallocate_double [OF f refl dist sub _ b1(2-4)] b1(1) by simp
  qed
qed

lemma Allocate_enough:
  assumes wf: "wf_bitmap b" and nb: "numBits b \<le> NumSectors" and h: "length (dataSectors h) = 30"
    and size: "0 \<le> fileSize" "data_sectors fileSize \<le> 1086"
    and c: "NumClear b = Inr c" and enough: "int (sectors_needed (data_sectors fileSize)) \<le> c"
  shows "\<exists>h' b' d' js. Allocate h b fileSize d = Inr (True, h', b', d')
     \<and> numBytes h' = fileSize \<and> file_layout h' d' js \<and> length js = data_sectors fileSize
     \<and> distinct (js @ index_sectors h' d' (length js))
     \<and> set (js @ index_sectors h' d' (length js)) \<subseteq> {0 ..< numBits b} - marked b
     \<and> wf_bitmap b' \<and> marked b' = marked b \<union> set (js @ index_sectors h' d' (length js))
     \<and> (\<forall>s \<in> set js. d' s = replicate 128 0)
     \<and> (\<forall>s. s \<notin> set (js @ index_sectors h' d' (length js)) \<longrightarrow> d' s = d s)"
proof -
  define n where "n = data_sectors fileSize"
  define h1 where "h1 = h\<lparr>numBytes := fileSize, numSectors := int n, L1Index := -1, L2Index := -1\<rparr>"
  have "c = int (card (free_bits b))" using c by (simp add: NumClear_spec)
  moreover have "card (free_bits b) \<le> card {0 ..< numBits b}"
    by (rule card_mono) (auto simp: free_bits_def)
  ultimately have small: "sectors_needed n \<le> 1054"
    using enough nb by (simp add: n_def disk_consts)
  obtain sg b' where sg: "repeat_find Find (sectors_needed n) b = Inr (sg, b')" "wf_bitmap b'"
    "length sg = sectors_needed n" "distinct sg" "set sg \<subseteq> {0 ..< numBits b} - marked b"
    "marked b' = marked b \<union> set sg"
    using repeat_find_bitmap [OF wf c enough] unfolding n_def by blast
  have v: "valid_sectors sg" using sg(5) nb by (auto simp: valid_sectors_def)
  obtain h' d' js where p: "place h1 (if 62 < n then int (l2_entries n) else 0) sg d = Inr (h', d')"
    "placed h1 d sg h' d' js" "length js = n"
    using place_all [of h1 n sg d] sg v h size by (auto simp: h1_def n_def)
  have big: "62 < n \<Longrightarrow> \<not> (c \<le> 31 + int (l2_entries n) \<or> c \<le> 63)"
    using enough by (simp add: n_def sectors_needed_def)
  have "Allocate h b fileSize d = Inr (True, h', b', d')"
    using size big enough p(1)
    by (auto simp: Allocate_reserve Let_def reserve_eq [OF _ c] get_sectors_small small sg(1)
      n_def [symmetric] h1_def [symmetric])
  moreover define I where "I = js @ index_sectors h' d' n"
  have "file_layout h' d' js" "distinct I" "set I = set sg" "\<forall>s \<in> set js. d' s = replicate 128 0"
    "\<forall>s. s \<notin> set sg \<longrightarrow> d' s = d s" "numBytes h' = fileSize"
    using p(2) by (simp_all add: placed_def p(3) I_def [symmetric] h1_def)
  ultimately show ?thesis
    unfolding n_def [symmetric]
    by - (rule exI [of _ h'], rule exI [of _ b'], rule exI [of _ d'], rule exI [of _ js],
      simp add: I_def [symmetric] p(3) sg)
qed

section \<open>The header on disk\<close>

definition wf_header :: "FileHeader \<Rightarrow> bool" where
  "wf_header h \<longleftrightarrow> length (dataSectors h) = 30
     \<and> list_all is_int32 (numBytes h # numSectors h # dataSectors h)"

text \<open>The sector that \<open>WriteBack\<close> writes: the two lengths and the 30 direct pointers.\<close>

definition header_sector :: "FileHeader \<Rightarrow> u8 list" where
  "header_sector h = encode_ints (numBytes h # numSectors h # dataSectors h)"

lemma take_header_bytes: "length (dataSectors h) = 30 \<Longrightarrow> take 128 (header_bytes h) = header_sector h"
  by (simp add: header_bytes_def header_sector_def)

lemma hdr_WriteBack_eq:
  assumes "length (dataSectors h) = 30" "0 \<le> s" "s < NumSectors"
  shows "hdr_WriteBack h s d = Inr (d(s := header_sector h))"
proof -
  have "length (header_bytes h) = 148" using assms(1) by (simp add: header_bytes_def)
  then show ?thesis
    using assms take_header_bytes [OF assms(1)] by (simp add: hdr_WriteBack_def WriteSector_def SectorSize_def)
qed

lemma hdr_FetchFrom_eq:
  assumes "wf_header h" "0 \<le> s" "s < NumSectors" "d s = header_sector h"
  shows "hdr_FetchFrom h0 s d =
     Inr (h0\<lparr>numBytes := numBytes h, numSectors := numSectors h, dataSectors := dataSectors h\<rparr>)"
proof -
  have "decode_ints (header_sector h) = numBytes h # numSectors h # dataSectors h"
    using decode_encode_ints [of "numBytes h # numSectors h # dataSectors h" "[]"] assms(1)
    by (simp add: header_sector_def wf_header_def)
  then show ?thesis using assms(2-4) by (simp add: hdr_FetchFrom_def ReadSector_def)
qed

text \<open>Header memory of zeros, for the concrete runs below.\<close>

definition blank_header :: FileHeader where
  "blank_header = \<lparr>numBytes = 0, numSectors = 0, dataSectors = replicate 30 0, CreateTime = 0,
     lastmodifytime = 0, lastusetime = 0, L1Index = 0, L2Index = 0\<rparr>"

section \<open>Properties\<close>

text \<open>C2: \<open>FileHeader::Allocate\<close> when the free map has enough clear bits for the data and index sectors of
  a file of at most 1086 sectors.  It succeeds; the file then has exactly as many data sectors as
  its size needs, laid out through the direct, single- and double-indirect pointers; data and
  index sectors are pairwise different and were all free; the map gains exactly these bits; every
  data sector is zero and no other sector of the disk changes.\<close>

theorem Allocate_layout:
  assumes wf: "wf_bitmap b" and nb: "numBits b \<le> NumSectors" and h: "length (dataSectors h) = 30"
    and size: "0 \<le> fileSize" "data_sectors fileSize \<le> 1086"
    and c: "NumClear b = Inr c" and enough: "int (sectors_needed (data_sectors fileSize)) \<le> c"
  shows "\<exists>h' b' d' js. Allocate h b fileSize d = Inr (True, h', b', d')
     \<and> numBytes h' = fileSize \<and> file_layout h' d' js \<and> length js = data_sectors fileSize
     \<and> distinct (js @ index_sectors h' d' (length js))
     \<and> set (js @ index_sectors h' d' (length js)) \<subseteq> {0 ..< numBits b} - marked b
     \<and> wf_bitmap b' \<and> marked b' = marked b \<union> set (js @ index_sectors h' d' (length js))
     \<and> (\<forall>s \<in> set js. d' s = replicate 128 0)
     \<and> (\<forall>s. s \<notin> set (js @ index_sectors h' d' (length js)) \<longrightarrow> d' s = d s)"
  by (rule Allocate_enough [OF assms])

theorem Allocate_layout_witness:
  "\<exists>b h' b' d' js. new_BitMap 64 [0, 0] = Inr b
     \<and> Allocate blank_header b 300 (\<lambda>_. []) = Inr (True, h', b', d') \<and> file_layout h' d' js \<and> length js = 3"
proof -
  obtain b where b: "new_BitMap 64 [0, 0] = Inr b" "wf_bitmap b" "numBits b = 64" "NumClear b = Inr 64"
    using fresh_BitMap [of 64 "[0, 0]"] by (auto simp: divRoundUp_def)
  have n: "data_sectors 300 = 3" "sectors_needed 3 = 3" by (simp_all add: data_sectors_def sectors_needed_def)
  have p: "numBits b \<le> NumSectors" "length (dataSectors blank_header) = 30" "data_sectors 300 \<le> 1086"
    "int (sectors_needed (data_sectors 300)) \<le> 64" "0 \<le> (300 :: int)"
    using b(3) by (simp_all add: n disk_consts blank_header_def)
  show ?thesis
    using Allocate_layout [OF b(2) p(1,2,5,3) b(4) p(4), of "\<lambda>_. []"] b(1) unfolding n by blast
qed

text \<open>The answers of \<open>FileHeader::Allocate\<close> when it refuses.  A file of more than 1086 sectors, one
  without enough clear bits up to 62 sectors, and a larger one below the thresholds the code
  tests get FALSE, with the free map and the disk as they were.\<close>

theorem Allocate_refuses:
  assumes size: "0 \<le> fileSize" "fileSize < 2147483648" and c: "NumClear b = Inr c"
    and n: "n = data_sectors fileSize"
    and no: "1086 < n \<or> n \<le> 62 \<and> c < int (sectors_needed n)
       \<or> 62 < n \<and> (c \<le> 63 \<or> c \<le> 31 + int (l2_entries n))"
  shows "\<exists>h'. Allocate h b fileSize d = Inr (False, h', b, d)"
proof (cases "n \<le> 1086")
  case True
  then have "reserve b (int n) = Inr (None, b)" using no by (auto simp: reserve_eq [OF True c])
  then show ?thesis using size by (simp add: Allocate_reserve n Let_def)
next
  case False
  have "(fileSize + 127) div 128 < 4294967296" using size by simp
  then have "to_unsigned (int n) = int n"
    using size by (simp add: n data_sectors_def to_unsigned_def)
  then have "reserve b (int n) = Inr (None, b)" using False by (simp add: reserve_def hdr_consts)
  then show ?thesis using size by (simp add: Allocate_reserve n Let_def)
qed

theorem Allocate_refuses_witness:
  "\<exists>b h'. new_BitMap 2 [0] = Inr b \<and> Allocate blank_header b 300 (\<lambda>_. []) = Inr (False, h', b, \<lambda>_. [])"
proof -
  obtain b where b: "new_BitMap 2 [0] = Inr b" "NumClear b = Inr 2"
    using fresh_BitMap [of 2 "[0]"] by (auto simp: divRoundUp_def)
  then show ?thesis
    using Allocate_refuses [OF _ _ b(2) refl, of 300 blank_header "\<lambda>_. []"]
    by (simp add: data_sectors_def sectors_needed_def)
qed

text \<open>C7: the size test of \<open>FileHeader::Allocate\<close> for double-indirect files compares the clear bits with
  \<open>30 + adSector + 1\<close> and \<open>63\<close> only, not with the sectors needed.  A file of 63 to 1086 sectors
  that passes these tests and does not fit is not refused: \<open>Find\<close> runs out, answers -1, and the
  run aborts on sector -1 (or \<open>sectorsGet\<close> overflows when more than 1054 sectors are asked for).\<close>

theorem Allocate_large_aborts:
  assumes wf: "wf_bitmap b" and size: "0 \<le> fileSize"
    and n: "n = data_sectors fileSize" "62 < n" "n \<le> 1086"
    and c: "NumClear b = Inr c" and pass: "63 < c" "31 + int (l2_entries n) < c"
    and short: "c < int (sectors_needed n)"
  shows "Allocate h b fileSize d = Inl (if sectors_needed n \<le> 1054 then AssertFail else BadAccess)"
proof -
  have rs: "reserve b (int n) =
      bindR (get_sectors (int (sectors_needed n)) b) (\<lambda>(sg, b1). Inr (Some (int (l2_entries n), sg), b1))"
    using n(2) pass by (simp add: reserve_eq [OF n(3) c])
  show ?thesis
  proof (cases "sectors_needed n \<le> 1054")
    case True
    have "card ({0 ..< numBits b} - marked b) < sectors_needed n"
      using c short by (simp add: NumClear_spec free_bits_def)
    then obtain sg b1 where sg: "repeat_find Find (sectors_needed n) b = Inr (sg, b1)"
      "length sg = sectors_needed n" "-1 \<in> set sg"
      using bm.repeat_find_exhausted [OF wf] by blast
    have nv: "\<not> valid_sectors sg" using sg(3) by (fastforce simp: valid_sectors_def)
    have len: "length sg = n + l2_entries n + 2" using sg(2) n by (simp add: sectors_needed_def)
    show ?thesis
      using size True place_double_abort [OF _ n(2,3) nv len]
      by (simp add: Allocate_reserve n(1) [symmetric] rs get_sectors_small sg(1) Let_def)
  next
    case False
    then have "get_sectors (int (sectors_needed n)) b = Inl BadAccess"
      by (simp add: get_sectors_def hdr_consts)
    then show ?thesis using size False by (simp add: Allocate_reserve n(1) [symmetric] rs Let_def)
  qed
qed

theorem Allocate_large_aborts_witness:
  "\<exists>b. new_BitMap 64 [0, 0] = Inr b \<and> Allocate blank_header b 8960 (\<lambda>_. []) = Inl AssertFail"
proof -
  obtain b where b: "new_BitMap 64 [0, 0] = Inr b" "wf_bitmap b" "NumClear b = Inr 64"
    using fresh_BitMap [of 64 "[0, 0]"] by (auto simp: divRoundUp_def)
  have n: "data_sectors 8960 = 70" "sectors_needed 70 = 73" "l2_entries 70 = 1"
    by (simp_all add: data_sectors_def sectors_needed_def l2_entries_def)
  show ?thesis
    using Allocate_large_aborts [OF b(2) _ refl _ _ b(3), of 8960 blank_header "\<lambda>_. []"] b(1) by (simp add: n)
qed

text \<open>C6: \<open>FileHeader::ByteToSector\<close> on a laid out file.  The byte at any offset of the file lies in the
  data sector whose position is the offset divided by the sector size, through whichever of the
  three kinds of pointer; an offset past the largest file is answered with -1.\<close>

theorem ByteToSector_indexes:
  assumes "file_layout h d js" "0 \<le> off"
  shows "(off < 128 * int (length js) \<longrightarrow> ByteToSector h off d = Inr (js ! nat (off div 128)))
     \<and> (139008 \<le> off \<longrightarrow> ByteToSector h off d = Inr (-1))"
proof (intro conjI impI)
  assume "off < 128 * int (length js)"
  then have "nat (off div 128) < length js" using assms(2) by (simp add: nat_less_iff)
  then show "ByteToSector h off d = Inr (js ! nat (off div 128))"
    using ByteToSector_layout [OF assms(1) _ assms(2)] assms(2) by simp
next
  assume "139008 \<le> off"
  then have "1086 \<le> off sdiv SectorSize" using assms(2) by (simp add: SectorSize_def sdiv_nonneg_eq)
  then show "ByteToSector h off d = Inr (-1)" by (simp add: ByteToSector_def hdr_consts Let_def)
qed

theorem ByteToSector_indexes_witness:
  "ByteToSector (blank_header\<lparr>numSectors := 2, dataSectors := 7 # 9 # replicate 28 0\<rparr>) 130 (\<lambda>_. []) = Inr 9"
proof -
  have "file_layout (blank_header\<lparr>numSectors := 2, dataSectors := 7 # 9 # replicate 28 0\<rparr>) (\<lambda>_. []) [7, 9]"
    by (simp add: file_layout_def blank_header_def)
  from ByteToSector_indexes [OF this, of 130] show ?thesis by (simp add: nat_numeral)
qed

text \<open>C3: \<open>FileHeader::Deallocate\<close> on a laid out file whose data and index sectors are different and
  marked: no assertion fails, and exactly these sectors become free, the index blocks included.\<close>

theorem Deallocate_frees:
  assumes "file_layout h d js" "wf_bitmap b"
    and "distinct (js @ index_sectors h d (length js))" "set (js @ index_sectors h d (length js)) \<subseteq> marked b"
  shows "\<exists>b'. Deallocate h b d = Inr b' \<and> wf_bitmap b'
     \<and> marked b' = marked b - set (js @ index_sectors h d (length js))"
  using Deallocate_layout [OF assms(1,2,3,4)] by blast

theorem Deallocate_frees_witness:
  "\<exists>b h' b' d' b''. new_BitMap 256 (replicate 8 0) = Inr b
     \<and> Allocate blank_header b 12800 (\<lambda>_. []) = Inr (True, h', b', d')
     \<and> card (marked b') = 104 \<and> Deallocate h' b' d' = Inr b'' \<and> marked b'' = marked b"
proof -
  obtain b where b: "new_BitMap 256 (replicate 8 0) = Inr b" "wf_bitmap b" "numBits b = 256"
    "marked b = {}" "NumClear b = Inr 256"
    using fresh_BitMap [of 256 "replicate 8 0"] by (auto simp: divRoundUp_def)
  have n: "data_sectors 12800 = 100" "sectors_needed 100 = 104"
    by (simp_all add: data_sectors_def sectors_needed_def l2_entries_def)
  obtain h' b' d' js where a: "Allocate blank_header b 12800 (\<lambda>_. []) = Inr (True, h', b', d')"
    "file_layout h' d' js" "length js = 100" "distinct (js @ index_sectors h' d' (length js))" "wf_bitmap b'"
    "marked b' = set (js @ index_sectors h' d' (length js))"
    using Allocate_enough [OF b(2) _ _ _ _ b(5), of blank_header 12800 "\<lambda>_. []"] b(3,4)
    unfolding n by (auto simp: n disk_consts blank_header_def)
  obtain b'' where d: "Deallocate h' b' d' = Inr b''"
    "marked b'' = marked b' - set (js @ index_sectors h' d' (length js))"
    using Deallocate_frees [OF a(2,5,4)] a(6) by auto
  have "length (index_sectors h' d' 100) = 4"
    using a(2,3) by (simp add: index_sectors_def file_layout_def l2_entries_def)
  then have "card (marked b') = 104"
    using a(3) distinct_card [OF a(4)] by (simp only: a(6)) simp
  then show ?thesis using b(1,4) a(1,6) d by blast
qed

text \<open>What survives a header's trip to disk.  \<open>WriteBack\<close> followed by \<open>FetchFrom\<close> into another
  header object restores the byte count, the sector count and the 30 direct pointers and touches
  no other sector.  It restores nothing else: the object is 148 bytes long and only its first 128
  are transferred, so the fetched header keeps the indirect pointers (and times) its memory had
  before, and a file of more than 30 sectors cannot be reached through it.\<close>

theorem hdr_roundtrip:
  assumes "wf_header h" "0 \<le> s" "s < NumSectors"
  shows "\<exists>d' h'. hdr_WriteBack h s d = Inr d' \<and> (\<forall>m. m \<noteq> s \<longrightarrow> d' m = d m)
     \<and> hdr_FetchFrom h0 s d' = Inr h'
     \<and> numBytes h' = numBytes h \<and> numSectors h' = numSectors h \<and> dataSectors h' = dataSectors h
     \<and> L1Index h' = L1Index h0 \<and> L2Index h' = L2Index h0"
  using hdr_WriteBack_eq [of h s d] hdr_FetchFrom_eq [OF assms, of "d(s := header_sector h)" h0] assms
  by (simp add: wf_header_def)

theorem hdr_roundtrip_witness:
  "\<exists>d' h'. hdr_WriteBack (blank_header\<lparr>numBytes := 5000, numSectors := 40, L1Index := 77\<rparr>) 12 (\<lambda>_. []) = Inr d'
     \<and> hdr_FetchFrom blank_header 12 d' = Inr h' \<and> numBytes h' = 5000 \<and> L1Index h' = 0"
proof -
  have "wf_header (blank_header\<lparr>numBytes := 5000, numSectors := 40, L1Index := 77\<rparr>)"
    by (simp add: wf_header_def blank_header_def is_int32_def list_all_iff)
  from hdr_roundtrip [OF this, of 12 "\<lambda>_. []" blank_header] show ?thesis
    by (fastforce simp: disk_consts blank_header_def)
qed

end
