(* ===== verification/OpenFile.thy ===== *)
theory OpenFile
  imports FileHdr
begin

text \<open>
  filesys/openfile.cc: byte access to an open file.  \<open>ReadAt\<close> gathers whole sectors and copies the
  part asked for; \<open>WriteAt\<close> reads the sectors that it changes only partly, splices the new bytes
  in and writes all of them back.  Both are shown to act on \<open>file_bytes\<close>, the byte string of the
  file.  A buffer fresh from \<open>new char[]\<close> has unspecified bytes: they are the argument \<open>junk\<close>, and
  the result on the file does not depend on them.  Sums of positions and sizes are taken not to
  overflow an \<open>int\<close>.
\<close>

section \<open>Operations\<close>

record OpenFile =
  hdr :: FileHeader
  seekPosition :: int

fun read_sectors :: "FileHeader \<Rightarrow> int \<Rightarrow> nat \<Rightarrow> store \<Rightarrow> u8 list res" where
  "read_sectors h i 0 d = Inr []"
| "read_sectors h i (Suc k) d =
     bindR (ByteToSector h (i * SectorSize) d) (\<lambda>s.
     bindR (ReadSector d s) (\<lambda>x.
     bindR (read_sectors h (i + 1) k d) (\<lambda>xs. Inr (x @ xs))))"

fun write_sectors :: "FileHeader \<Rightarrow> int \<Rightarrow> nat \<Rightarrow> u8 list \<Rightarrow> store \<Rightarrow> store res" where
  "write_sectors h i 0 buf d = Inr d"
| "write_sectors h i (Suc k) buf d =
     bindR (ByteToSector h (i * SectorSize) d) (\<lambda>s.
     bindR (WriteSector d s buf) (\<lambda>d1.
     write_sectors h (i + 1) k (drop 128 buf) d1))"

text \<open>The bytes \<open>ReadAt\<close> copies to \<open>into\<close>; their number is its result.\<close>

definition ReadAt :: "FileHeader \<Rightarrow> int \<Rightarrow> int \<Rightarrow> store \<Rightarrow> u8 list res" where
  "ReadAt h nBytes position d =
     (let fileLength = FileLength h in
      if nBytes \<le> 0 \<or> position \<ge> fileLength then Inr []
      else
        let nBytes = (if position + nBytes > fileLength then fileLength - position else nBytes);
            firstSector = divRoundDown position SectorSize;
            lastSector = divRoundDown (position + nBytes - 1) SectorSize;
            nSectors = 1 + lastSector - firstSector
        in bindR (read_sectors h firstSector (nat nSectors) d) (\<lambda>buf.
             let off = position - firstSector * SectorSize in
             if off < 0 \<or> off + nBytes > int (length buf) then Inl BadAccess
             else Inr (take (nat nBytes) (drop (nat off) buf))))"

definition WriteAt :: "u8 list \<Rightarrow> FileHeader \<Rightarrow> u8 list \<Rightarrow> int \<Rightarrow> int \<Rightarrow> store \<Rightarrow> (int \<times> store) res" where
  "WriteAt junk h from nBytes position d =
     (let fileLength = FileLength h in
      if nBytes \<le> 0 \<or> position \<ge> fileLength then Inr (0, d)
      else
        let nBytes = (if position + nBytes > fileLength then fileLength - position else nBytes);
            firstSector = divRoundDown position SectorSize;
            lastSector = divRoundDown (position + nBytes - 1) SectorSize;
            nSectors = 1 + lastSector - firstSector;
            buf = take (nat (nSectors * SectorSize)) junk;
            firstAligned = (position = firstSector * SectorSize);
            lastAligned = (position + nBytes = (lastSector + 1) * SectorSize)
        in
        bindR (if \<not> firstAligned
               then bindR (ReadAt h SectorSize (firstSector * SectorSize) d) (\<lambda>x. Inr (overlay 0 x buf))
               else Inr buf) (\<lambda>buf1.
        bindR (if \<not> lastAligned \<and> (firstSector \<noteq> lastSector \<or> firstAligned)
               then bindR (ReadAt h SectorSize (lastSector * SectorSize) d) (\<lambda>x.
                      Inr (overlay (nat ((lastSector - firstSector) * SectorSize)) x buf1))
               else Inr buf1) (\<lambda>buf2.
        let off = position - firstSector * SectorSize in
        if off < 0 \<or> nBytes > int (length from) then Inl BadAccess
        else bindR (write_sectors h firstSector (nat nSectors)
                      (overlay (nat off) (take (nat nBytes) from) buf2) d) (\<lambda>d1.
             Inr (nBytes, d1)))))"

definition new_OpenFile :: "FileHeader \<Rightarrow> int \<Rightarrow> store \<Rightarrow> OpenFile res" where
  "new_OpenFile mem sector d =
     bindR (hdr_FetchFrom mem sector d) (\<lambda>h. Inr \<lparr>hdr = h, seekPosition = 0\<rparr>)"

definition Seek :: "OpenFile \<Rightarrow> int \<Rightarrow> OpenFile" where
  "Seek f position = f\<lparr>seekPosition := position\<rparr>"

definition Read :: "OpenFile \<Rightarrow> int \<Rightarrow> store \<Rightarrow> (u8 list \<times> OpenFile) res" where
  "Read f nBytes d = bindR (ReadAt (hdr f) nBytes (seekPosition f) d) (\<lambda>x.
     Inr (x, f\<lparr>seekPosition := seekPosition f + int (length x)\<rparr>))"

definition Write :: "u8 list \<Rightarrow> OpenFile \<Rightarrow> u8 list \<Rightarrow> int \<Rightarrow> store \<Rightarrow> (int \<times> OpenFile \<times> store) res" where
  "Write junk f from nBytes d =
     bindR (WriteAt junk (hdr f) from nBytes (seekPosition f) d) (\<lambda>(result, d1).
     Inr (result, f\<lparr>seekPosition := seekPosition f + result\<rparr>, d1))"

definition Length :: "OpenFile \<Rightarrow> int" where
  "Length f = FileLength (hdr f)"

section \<open>The byte string of a file\<close>

definition file_bytes :: "FileHeader \<Rightarrow> store \<Rightarrow> int list \<Rightarrow> u8 list" where
  "file_bytes h d js = take (nat (numBytes h)) (concat (map d js))"

text \<open>A file ready for byte access: laid out, with room for its bytes, its sectors different.\<close>

definition good_file :: "FileHeader \<Rightarrow> store \<Rightarrow> int list \<Rightarrow> bool" where
  "good_file h d js \<longleftrightarrow> file_layout h d js \<and> distinct (js @ index_sectors h d (length js))
     \<and> valid_sectors js \<and> 0 \<le> numBytes h \<and> numBytes h \<le> 128 * int (length js) \<and> wf_store d"

lemma length_concat_blocks: "(\<forall>x \<in> set xs. length x = m) \<Longrightarrow> length (concat xs) = m * length xs"
  by (induction xs) auto

lemma nth_concat_blocks:
  "(\<forall>x \<in> set xs. length x = m) \<Longrightarrow> 0 < m \<Longrightarrow> p < m * length xs \<Longrightarrow>
     concat xs ! p = xs ! (p div m) ! (p mod m)"
proof (induction xs arbitrary: p)
  case (Cons x xs)
  show ?case
  proof (cases "p < m")
    case True
    then show ?thesis using Cons.prems by (simp add: nth_append)
  next
    case False
    then have "concat xs ! (p - m) = xs ! ((p - m) div m) ! ((p - m) mod m)"
      using Cons.prems by (intro Cons.IH) auto
    moreover have "p div m = Suc ((p - m) div m)" "p mod m = (p - m) mod m"
      using False Cons.prems(2) by (simp_all add: le_div_geq le_mod_geq)
    ultimately show ?thesis using False Cons.prems by (simp add: nth_append)
  qed
qed simp

lemma concat_blocks_slice:
  "(\<forall>x \<in> set xs. length x = m) \<Longrightarrow> concat (take k (drop i xs)) = take (m * k) (drop (m * i) (concat xs))"
proof (induction xs arbitrary: i k)
  case (Cons x xs)
  then show ?case
  proof (cases i)
    case 0
    then show ?thesis using Cons by (cases k) (simp_all add: Cons.IH [of _ 0, simplified])
  next
    case (Suc i')
    then show ?thesis using Cons by simp
  qed
qed simp

lemma good_file_blocks:
  "good_file h d js \<Longrightarrow> \<forall>x \<in> set (map d js). length x = 128"
  by (auto simp: good_file_def wf_store_def valid_sectors_def)

lemma read_sectors_layout:
  assumes g: "good_file h d js"
  shows "i + k \<le> length js \<Longrightarrow>
    read_sectors h (int i) k d = Inr (concat (map d (take k (drop i js))))"
proof (induction k arbitrary: i)
  case (Suc k)
  have f: "file_layout h d js" and v: "valid_sectors js" using g by (simp_all add: good_file_def)
  have i: "i < length js" using Suc.prems by simp
  have "ByteToSector h (int i * SectorSize) d = Inr (js ! i)"
    using ByteToSector_layout [OF f i, of "int i * SectorSize"] by (simp add: SectorSize_def)
  moreover have "ReadSector d (js ! i) = Inr (d (js ! i))"
    using v i nth_mem [OF i] by (simp add: valid_sectors_def ReadSector_def)
  moreover have "read_sectors h (int i + 1) k d = Inr (concat (map d (take k (drop (Suc i) js))))"
    using Suc.IH [of "Suc i"] Suc.prems by (simp add: add.commute)
  moreover have "drop i js = js ! i # drop (Suc i) js" using i by (simp add: Cons_nth_drop_Suc)
  ultimately show ?case by simp
qed simp


lemma good_file_lengths:
  assumes "good_file h d js"
  shows "length (concat (map d js)) = 128 * length js"
    and "length (file_bytes h d js) = nat (numBytes h)"
    and "nat (numBytes h) \<le> 128 * length js"
proof -
  show c: "length (concat (map d js)) = 128 * length js"
    using length_concat_blocks [OF good_file_blocks [OF assms]] by simp
  show n: "nat (numBytes h) \<le> 128 * length js"
    using assms by (auto simp: good_file_def)
  show "length (file_bytes h d js) = nat (numBytes h)"
    using c n by (simp add: file_bytes_def)
qed

text \<open>The window of sectors around m bytes at p, in natural numbers.\<close>

lemma window:
  fixes p m :: nat
  assumes "0 < m"
  shows "p div 128 \<le> (p + m - 1) div 128" and "128 * (p div 128) \<le> p"
    and "p + m \<le> 128 * ((p + m - 1) div 128 + 1)" and "128 * ((p + m - 1) div 128) < p + m"
    and "p < 128 * (p div 128) + 128"
proof -
  show "p div 128 \<le> (p + m - 1) div 128" using assms by (intro div_le_mono) simp
  show "128 * (p div 128) \<le> p" by simp
  define q r where "q = (p + m - 1) div 128" and "r = (p + m - 1) mod 128"
  have "p + m - 1 = 128 * q + r" "r < 128" by (simp_all add: q_def r_def)
  then have "p + m = 128 * q + r + 1" "r < 128" using assms by simp_all
  then have "p + m \<le> 128 * (q + 1) \<and> 128 * q < p + m" by auto
  then show "p + m \<le> 128 * ((p + m - 1) div 128 + 1)" "128 * ((p + m - 1) div 128) < p + m"
    unfolding q_def by blast+
  define q' r' where "q' = p div 128" and "r' = p mod 128"
  have "p = 128 * q' + r'" "r' < 128" by (simp_all add: q'_def r'_def)
  then have "p < 128 * q' + 128" by linarith
  then show "p < 128 * (p div 128) + 128" unfolding q'_def by this
qed

lemma divRoundDown_nat: "divRoundDown (int p) SectorSize = int (p div 128)"
  by (simp add: divRoundDown_nonneg SectorSize_def zdiv_int)

lemma read_window:
  assumes g: "good_file h d js" and z: "a \<le> z" "z < length js"
  shows "read_sectors h (int a) (nat (1 + int z - int a)) d = Inr (take (128 * (z + 1 - a)) (drop (128 * a) (concat (map d js))))"
    and "length (take (128 * (z + 1 - a)) (drop (128 * a) (concat (map d js)))) = 128 * (z + 1 - a)"
proof -
  have bound: "a + (z + 1 - a) \<le> length js" using z by linarith
  have "read_sectors h (int a) (z + 1 - a) d = Inr (concat (map d (take (z + 1 - a) (drop a js))))"
    by (rule read_sectors_layout [OF g bound])
  also have "concat (map d (take (z + 1 - a) (drop a js))) = take (128 * (z + 1 - a)) (drop (128 * a) (concat (map d js)))"
    using concat_blocks_slice [OF good_file_blocks [OF g], of "z + 1 - a" a] by (simp add: take_map drop_map)
  finally show "read_sectors h (int a) (nat (1 + int z - int a)) d = Inr (take (128 * (z + 1 - a)) (drop (128 * a) (concat (map d js))))"
    using z by (simp add: nat_diff_distrib nat_add_distrib)
  show "length (take (128 * (z + 1 - a)) (drop (128 * a) (concat (map d js)))) = 128 * (z + 1 - a)"
    using bound good_file_lengths(1) [OF g] by simp
qed

lemma ReadAt_good:
  assumes g: "good_file h d js" and pos: "0 \<le> position"
  shows "ReadAt h n position d = Inr (take (nat n) (drop (nat position) (file_bytes h d js)))"
proof (cases "n \<le> 0 \<or> position \<ge> numBytes h")
  case True
  then show ?thesis using good_file_lengths(2) [OF g] by (auto simp: ReadAt_def FileLength_def)
next
  case False
  define p m where "p = nat position" and "m = nat (if position + n > numBytes h then numBytes h - position else n)"
  have m: "0 < m" "position = int p" "(if position + n > numBytes h then numBytes h - position else n) = int m"
    using False pos by (auto simp: p_def m_def)
  have pm: "p + m \<le> nat (numBytes h)" using False m(2) unfolding m_def by (auto split: if_splits)
  define a z where "a = p div 128" and "z = (p + m - 1) div 128"
  note w = window [OF m(1), of p, folded a_def z_def]
  have last: "divRoundDown (position + int m - 1) SectorSize = int z"
    using divRoundDown_nat [of "p + m - 1"] m(1,2) unfolding z_def by (simp add: of_nat_diff)
  let ?C = "concat (map d js)"
  have "z < length js" using w(4) pm good_file_lengths(3) [OF g] by linarith
  note r = read_window(1) [OF g w(1) this] and len = read_window(2) [OF g w(1) this]
  have off: "int p - int a * SectorSize = int (p - 128 * a)" using w(2) by (simp add: SectorSize_def of_nat_diff)
  have fit: "p - 128 * a + m \<le> 128 * (z + 1 - a)"
  proof -
    obtain k where k: "z + 1 = a + k" using w(1) by (metis le_Suc_ex add.assoc)
    then show ?thesis using w(2,3) by simp
  qed
  have "take m (drop (p - 128 * a) (take (128 * (z + 1 - a)) (drop (128 * a) ?C))) = take m (drop p ?C)"
    using fit w(2) by (simp add: drop_take min_def)
  moreover have "take (nat n) (drop p (file_bytes h d js)) = take m (drop p ?C)"
  proof -
    have e: "int m = (if int p + n > numBytes h then numBytes h - int p else n)"
      by (rule m(3) [unfolded m(2), symmetric])
    have "m = min (nat n) (nat (numBytes h) - p)"
      using e m(1) by (cases "int p + n > numBytes h") (simp_all add: min_def, linarith+)
    then show ?thesis by (simp add: file_bytes_def drop_take min.commute)
  qed
  moreover have "ReadAt h n (int p) d = Inr (take m (drop (p - 128 * a) (take (128 * (z + 1 - a)) (drop (128 * a) ?C))))"
  proof -
    have e: "(if int p + n > numBytes h then numBytes h - int p else n) = int m"
      by (rule m(3) [unfolded m(2)])
    have last': "divRoundDown (int p + int m - 1) SectorSize = int z" using last m(2) by simp
    have nf: "\<not> (n \<le> 0 \<or> int p \<ge> numBytes h)" using False m(2) by simp
    have nb: "\<not> (int (p - 128 * a) < 0 \<or> int (p - 128 * a) + int m
        > int (length (take (128 * (z + 1 - a)) (drop (128 * a) ?C))))"
      unfolding len using fit by linarith
    show ?thesis
      unfolding ReadAt_def FileLength_def Let_def e last' divRoundDown_nat a_def [symmetric] r bindR_simps off
      using nf nb by (simp only: if_False nat_int)
  qed
  ultimately show ?thesis by (simp only: m(2) nat_int)
qed


section \<open>Writing\<close>

lemma good_file_update:
  assumes g: "good_file h d js" and i: "i < length js" and x: "length x = 128"
  shows "good_file h (d(js ! i := x)) js
     \<and> index_sectors h (d(js ! i := x)) (length js) = index_sectors h d (length js)"
proof -
  have "js ! i \<in> set js" using i by simp
  then have same: "\<And>s. s \<in> set (index_sectors h d (length js)) \<Longrightarrow> (d(js ! i := x)) s = d s"
    using g by (auto simp: good_file_def)
  have f: "file_layout h d js" using g by (simp add: good_file_def)
  have "file_layout h (d(js ! i := x)) js
     \<and> index_sectors h (d(js ! i := x)) (length js) = index_sectors h d (length js)"
    by (rule file_layout_frame [OF f]) (rule same)
  then show ?thesis using g x by (simp add: good_file_def wf_store_def)
qed

lemma write_sectors_layout:
  "good_file h d js \<Longrightarrow> i + k \<le> length js \<Longrightarrow> 128 * k \<le> length buf \<Longrightarrow>
     \<exists>d'. write_sectors h (int i) k buf d = Inr d' \<and> good_file h d' js
       \<and> (\<forall>s. s \<notin> set js \<longrightarrow> d' s = d s)
       \<and> (\<forall>q < length js. d' (js ! q) = (if i \<le> q \<and> q < i + k then take 128 (drop (128 * (q - i)) buf) else d (js ! q)))"
proof (induction k arbitrary: i buf d)
  case (Suc k)
  have f: "file_layout h d js" and v: "valid_sectors js" and dj: "distinct js"
    using Suc.prems(1) by (simp_all add: good_file_def)
  have i: "i < length js" using Suc.prems by simp
  define d1 where "d1 = d(js ! i := take 128 buf)"
  have len: "length (take 128 buf) = 128" using Suc.prems(3) by simp
  have b: "ByteToSector h (int i * SectorSize) d = Inr (js ! i)"
    using ByteToSector_layout [OF f i, of "int i * SectorSize"] by (simp add: SectorSize_def)
  have w: "WriteSector d (js ! i) buf = Inr d1"
    using v i nth_mem [OF i] Suc.prems(3) by (simp add: valid_sectors_def WriteSector_def SectorSize_def d1_def)
  have g1: "good_file h d1 js" using good_file_update [OF Suc.prems(1) i len] by (simp add: d1_def)
  have "\<exists>d'. write_sectors h (int (Suc i)) k (drop 128 buf) d1 = Inr d' \<and> good_file h d' js
       \<and> (\<forall>s. s \<notin> set js \<longrightarrow> d' s = d1 s)
       \<and> (\<forall>q < length js. d' (js ! q) = (if Suc i \<le> q \<and> q < Suc i + k
            then take 128 (drop (128 * (q - Suc i)) (drop 128 buf)) else d1 (js ! q)))"
    using Suc.prems by (intro Suc.IH g1) simp_all
  then obtain d' where d': "write_sectors h (int (Suc i)) k (drop 128 buf) d1 = Inr d'" "good_file h d' js"
    "\<And>s. s \<notin> set js \<Longrightarrow> d' s = d1 s"
    "\<And>q. q < length js \<Longrightarrow> d' (js ! q) = (if Suc i \<le> q \<and> q < Suc i + k
            then take 128 (drop (128 * (q - Suc i)) (drop 128 buf)) else d1 (js ! q))"
    by blast
  have "d' (js ! q) = (if i \<le> q \<and> q < i + Suc k then take 128 (drop (128 * (q - i)) buf) else d (js ! q))"
    if q: "q < length js" for q
  proof (cases "q = i")
    case True
    then show ?thesis using d'(4) [OF q] by (simp add: d1_def)
  next
    case False
    then have "js ! q \<noteq> js ! i" using dj q i by (simp add: nth_eq_iff_index_eq)
    moreover have "128 * (q - Suc i) + 128 = 128 * (q - i)" if "Suc i \<le> q" using that by simp
    ultimately show ?thesis using d'(4) [OF q] False by (auto simp: d1_def Suc_le_eq)
  qed
  moreover have "\<And>s. s \<notin> set js \<Longrightarrow> d' s = d s" using d'(3) i by (auto simp: d1_def)
  moreover have "write_sectors h (int i) (Suc k) buf d = Inr d'"
    using b w d'(1) by (simp add: add.commute)
  ultimately show ?case using d'(2) by blast
qed auto


text \<open>Bytes of the file before and after.\<close>

lemma nth_file_bytes:
  "good_file h d js \<Longrightarrow> p < nat (numBytes h) \<Longrightarrow> file_bytes h d js ! p = d (js ! (p div 128)) ! (p mod 128)"
  using good_file_lengths(3) [of h d js] nth_concat_blocks [OF good_file_blocks, of h d js p]
  by (auto simp: file_bytes_def less_mult_imp_div_less)

text \<open>The buffer that \<open>WriteAt\<close> writes back: position p = 128 * a + off, m bytes, up to sector z.\<close>

definition write_buffer :: "u8 list \<Rightarrow> u8 list \<Rightarrow> u8 list \<Rightarrow> nat \<Rightarrow> nat \<Rightarrow> u8 list" where
  "write_buffer junk content from p m =
     (let a = p div 128; z = (p + m - 1) div 128;
          buf = take (128 * (z + 1 - a)) junk;
          buf1 = (if p \<noteq> 128 * a then overlay 0 (take 128 (drop (128 * a) content)) buf else buf);
          buf2 = (if p + m \<noteq> 128 * (z + 1) \<and> (a \<noteq> z \<or> p = 128 * a)
                  then overlay (128 * (z - a)) (take 128 (drop (128 * z) content)) buf1 else buf1)
      in overlay (p - 128 * a) (take m from) buf2)"

lemma WriteAt_buffer:
  assumes g: "good_file h d js" and pos: "int p < numBytes h" and n: "0 < n" "0 < m"
    and m: "(if int p + n > numBytes h then numBytes h - int p else n) = int m"
    and src: "m \<le> length from"
  shows "WriteAt junk h from n (int p) d =
     bindR (write_sectors h (int (p div 128)) ((p + m - 1) div 128 + 1 - p div 128)
         (write_buffer junk (file_bytes h d js) from p m) d)
       (\<lambda>d1. Inr (int m, d1))"
proof -
  define a z where "a = p div 128" and "z = (p + m - 1) div 128"
  note w = window [OF n(2), of p, folded a_def z_def]
  have "divRoundDown (int (p + m - 1)) SectorSize = int z" unfolding z_def by (rule divRoundDown_nat)
  moreover have "int p + int m - 1 = int (p + m - 1)" using n(2) by linarith
  ultimately have last: "divRoundDown (int p + int m - 1) SectorSize = int z" by (simp only:)
  have k: "nat (1 + int z - int a) = z + 1 - a" "nat ((1 + int z - int a) * SectorSize) = 128 * (z + 1 - a)"
    "nat ((int z - int a) * SectorSize) = 128 * (z - a)"
  proof -
    have i: "1 + int z - int a = int (z + 1 - a)" "int z - int a = int (z - a)" using w(1) by linarith+
    have s: "int q * SectorSize = int (128 * q)" for q by (simp add: SectorSize_def)
    show "nat (1 + int z - int a) = z + 1 - a" "nat ((1 + int z - int a) * SectorSize) = 128 * (z + 1 - a)"
      "nat ((int z - int a) * SectorSize) = 128 * (z - a)"
      unfolding i s nat_int by (rule refl)+
  qed
  have off: "int p - int a * SectorSize = int (p - 128 * a)" using w(2) by (simp add: SectorSize_def of_nat_diff)
  have al: "int p = int a * SectorSize \<longleftrightarrow> p = 128 * a" "int p + int m = (int z + 1) * SectorSize \<longleftrightarrow> p + m = 128 * (z + 1)"
    "int a \<noteq> int z \<longleftrightarrow> a \<noteq> z"
    by (simp_all add: SectorSize_def) linarith+
  have r: "ReadAt h SectorSize (int q * SectorSize) d = Inr (take 128 (drop (128 * q) (file_bytes h d js)))" for q
    using ReadAt_good [OF g, of "int q * SectorSize" SectorSize] by (simp add: SectorSize_def nat_mult_distrib mult.commute)
  have nf: "\<not> (n \<le> 0 \<or> int p \<ge> numBytes h)" using n pos by simp
  have nb: "\<not> (int (p - 128 * a) < 0 \<or> int m > int (length from))" using src by simp
  show ?thesis
    unfolding WriteAt_def FileLength_def Let_def m last divRoundDown_nat a_def [symmetric] z_def [symmetric]
      k off al r bindR_simps write_buffer_def
    using nf nb by (simp only: if_False nat_int not_False_eq_True) (simp split: if_split)
qed


lemma nth_patch:
  assumes "128 * k + 128 \<le> length buf" "i < length buf" "128 * a + i < length content"
  shows "overlay (128 * k) (take 128 (drop (128 * (a + k)) content)) buf ! i =
    (if 128 * k \<le> i \<and> i < 128 * (k + 1) then content ! (128 * a + i) else buf ! i)"
proof -
  let ?r = "take 128 (drop (128 * (a + k)) content)"
  have ov: "overlay (128 * k) ?r buf ! i =
      (if 128 * k \<le> i \<and> i < 128 * k + length ?r then ?r ! (i - 128 * k) else buf ! i)"
    using assms by (intro nth_overlay) simp_all
  show ?thesis
  proof (cases "128 * k \<le> i \<and> i < 128 * (k + 1)")
    case True
    then obtain j where j: "i = 128 * k + j" "j < 128" using le_Suc_ex by (metis add_less_cancel_left distrib_left mult.right_neutral)
    then have "j < length ?r" "?r ! j = content ! (128 * a + i)" using assms(3) by (simp_all add: algebra_simps)
    then show ?thesis using ov j by simp
  next
    case False
    then have "\<not> (128 * k \<le> i \<and> i < 128 * k + length ?r)" by auto
    then show ?thesis unfolding ov using False by (simp only: if_False)
  qed
qed

text \<open>The buffer before the new bytes go into it: \<open>e\<close> is the distance of the last sector from the first, \<open>a\<close>.\<close>

lemma edge_buffer_nth:
  assumes buf1: "buf1 = (if p \<noteq> 128 * a then overlay 0 (take 128 (drop (128 * a) content)) J else J)"
    and J: "length J = 128 * (e + 1)" and w: "128 * a \<le> p" "p < 128 * (a + 1)" "p + m \<le> 128 * (a + e + 1)" "128 * (a + e) < p + m"
    and i: "i < 128 * (e + 1)" "128 * a + i < length content" and out: "\<not> (p \<le> 128 * a + i \<and> 128 * a + i < p + m)"
  shows "(if p + m \<noteq> 128 * (a + e + 1) \<and> (a \<noteq> a + e \<or> p = 128 * a)
    then overlay (128 * e) (take 128 (drop (128 * (a + e)) content)) buf1 else buf1) ! i
    = content ! (128 * a + i)"
proof -
  have n1: "buf1 ! i = (if p \<noteq> 128 * a \<and> i < 128 then content ! (128 * a + i) else J ! i)"
    using nth_patch [of 0 J i a content] J i by (simp add: buf1)
  have n2: "overlay (128 * e) (take 128 (drop (128 * (a + e)) content)) buf1 ! i =
      (if 128 * e \<le> i then content ! (128 * a + i) else buf1 ! i)"
    using nth_patch [of e "buf1" i a content] J i by (simp add: buf1)
  consider "128 * a + i < p" | "p + m \<le> 128 * a + i" using out by linarith
  then show ?thesis
  proof cases
    case 1
    then have "p \<noteq> 128 * a" "i < 128" using w by simp_all
    then show ?thesis using n1 n2 by auto
  next
    case 2
    then have "128 * e \<le> i" "p + m \<noteq> 128 * (a + e + 1)" using w i by simp_all
    then show ?thesis using n1 n2 i(1) by auto
  qed
qed

lemma write_buffer_nth:
  assumes m: "0 < m" "p + m \<le> length content" "m \<le> length from"
    and a: "a = p div 128" and z: "(p + m - 1) div 128 = a + e" and junk: "128 * (e + 1) \<le> length junk"
  shows "length (write_buffer junk content from p m) = 128 * (e + 1)"
    and "\<And>i. i < 128 * (e + 1) \<Longrightarrow> 128 * a + i < length content \<Longrightarrow>
      write_buffer junk content from p m ! i =
        (if p \<le> 128 * a + i \<and> 128 * a + i < p + m then from ! (128 * a + i - p) else content ! (128 * a + i))"
proof -
  note w = window [OF m(1), of p, folded a, unfolded z]
  define J where "J = take (128 * (e + 1)) junk"
  define r where "r q = take 128 (drop (128 * q) content)" for q
  define buf1 where "buf1 = (if p \<noteq> 128 * a then overlay 0 (r a) J else J)"
  define buf2 where "buf2 = (if p + m \<noteq> 128 * (a + e + 1) \<and> (a \<noteq> a + e \<or> p = 128 * a)
    then overlay (128 * e) (r (a + e)) buf1 else buf1)"
  have "a + e + 1 - a = e + 1" "a + e - a = e" by simp_all
  then have wb: "write_buffer junk content from p m = overlay (p - 128 * a) (take m from) buf2"
    unfolding write_buffer_def Let_def z a [symmetric] buf2_def buf1_def J_def r_def by (simp only:)
  have J: "length J = 128 * (e + 1)" using junk by (simp add: J_def)
  then have l2: "length buf2 = 128 * (e + 1)" by (simp add: buf1_def buf2_def r_def)
  have fit: "p - 128 * a + length (take m from) \<le> length buf2" using l2 m(3) w by simp
  show "length (write_buffer junk content from p m) = 128 * (e + 1)" using fit l2 by (simp add: wb)
  show "write_buffer junk content from p m ! i =
        (if p \<le> 128 * a + i \<and> 128 * a + i < p + m then from ! (128 * a + i - p) else content ! (128 * a + i))"
    if i: "i < 128 * (e + 1)" "128 * a + i < length content" for i
  proof -
    have top: "write_buffer junk content from p m ! i =
        (if p - 128 * a \<le> i \<and> i < p - 128 * a + m then from ! (i - (p - 128 * a)) else buf2 ! i)"
      using nth_overlay [OF fit, of i] i(1) l2 m(3) by (auto simp: wb less_diff_conv2)
    have mid: "p - 128 * a \<le> i \<and> i < p - 128 * a + m \<longleftrightarrow> p \<le> 128 * a + i \<and> 128 * a + i < p + m" using w(2) by linarith
    have "i - (p - 128 * a) = 128 * a + i - p" if "p \<le> 128 * a + i" using w(2) that by linarith
    moreover have "buf2 ! i = content ! (128 * a + i)" if "\<not> (p \<le> 128 * a + i \<and> 128 * a + i < p + m)"
      using edge_buffer_nth [OF buf1_def [unfolded r_def] J w(2) _ w(3,4) i that] w(5) unfolding buf2_def r_def by fastforce
    ultimately show ?thesis unfolding top mid by auto
  qed
qed

text \<open>The bytes of the file when the sectors from the \<open>a\<close>-th to the \<open>a + e\<close>-th hold the buffer.\<close>

lemma outside_window:
  fixes p m :: nat
  assumes "128 * a \<le> p" "p + m \<le> 128 * (a + e + 1)" "\<not> (a \<le> k div 128 \<and> k div 128 < a + (e + 1))"
  shows "\<not> (p \<le> k \<and> k < p + m)"
proof
  assume k: "p \<le> k \<and> k < p + m"
  then have "128 * a \<le> k" "k < 128 * (a + e + 1)" using assms(1,2) by linarith+
  then have "a \<le> k div 128" "k div 128 < a + e + 1" by (linarith, intro less_mult_imp_div_less, simp add: mult.commute)
  then show False using assms(3) by simp
qed

lemma file_bytes_written:
  assumes g: "good_file h d js" "good_file h d' js" and w: "128 * a \<le> p" "p + m \<le> 128 * (a + e + 1)"
    and buf: "length buf = 128 * (e + 1)" and src: "m \<le> length from" "p + m \<le> nat (numBytes h)"
    and bufn: "\<And>i. i < 128 * (e + 1) \<Longrightarrow> 128 * a + i < nat (numBytes h) \<Longrightarrow>
      buf ! i = (if p \<le> 128 * a + i \<and> 128 * a + i < p + m then from ! (128 * a + i - p) else file_bytes h d js ! (128 * a + i))"
    and sectors: "\<And>q. q < length js \<Longrightarrow> d' (js ! q) = (if a \<le> q \<and> q < a + (e + 1) then take 128 (drop (128 * (q - a)) buf) else d (js ! q))"
  shows "file_bytes h d' js = overlay p (take m from) (file_bytes h d js)"
proof (rule nth_equalityI)
  note len = good_file_lengths [OF g(1)] good_file_lengths [OF g(2)]
  have lo: "p + length (take m from) \<le> length (file_bytes h d js)" using src len by simp
  show "length (file_bytes h d' js) = length (overlay p (take m from) (file_bytes h d js))" using lo len by simp
  fix k assume "k < length (file_bytes h d' js)"
  then have k: "k < nat (numBytes h)" using len by simp
  define q where "q = k div 128"
  have kq: "k = 128 * q + k mod 128" "k mod 128 < 128" by (simp_all add: q_def)
  have q: "q < length js" using k len q_def by linarith
  have lhs: "file_bytes h d' js ! k = d' (js ! q) ! (k mod 128)" using nth_file_bytes [OF g(2)] k by (simp add: q_def)
  have old: "file_bytes h d js ! k = d (js ! q) ! (k mod 128)" using nth_file_bytes [OF g(1)] k by (simp add: q_def)
  have new: "overlay p (take m from) (file_bytes h d js) ! k =
      (if p \<le> k \<and> k < p + m then from ! (k - p) else file_bytes h d js ! k)"
    using nth_overlay [OF lo, of k] k src len by auto
  show "file_bytes h d' js ! k = overlay p (take m from) (file_bytes h d js) ! k"
  proof (cases "a \<le> q \<and> q < a + (e + 1)")
    case True
    have i: "128 * (q - a) + k mod 128 < 128 * (e + 1)" "128 * a + (128 * (q - a) + k mod 128) = k"
      using True kq by (auto simp: algebra_simps)
    have "file_bytes h d' js ! k = buf ! (128 * (q - a) + k mod 128)"
      using lhs sectors [OF q] True i(1) buf kq(2) by simp
    then show ?thesis using bufn [OF i(1)] k by (simp add: i(2) new)
  next
    case False
    then show ?thesis using outside_window [OF w, of k] lhs sectors [OF q] old new by (auto simp: q_def)
  qed
qed

lemma WriteAt_good:
  assumes g: "good_file h d js" and pos: "int p < numBytes h" and n: "0 < n" "0 < m"
    and m: "(if int p + n > numBytes h then numBytes h - int p else n) = int m"
    and src: "m \<le> length from" and junk: "128 * length js \<le> length junk"
  shows "\<exists>d'. WriteAt junk h from n (int p) d = Inr (int m, d') \<and> good_file h d' js
     \<and> file_bytes h d' js = overlay p (take m from) (file_bytes h d js)
     \<and> (\<forall>s. s \<notin> set js \<longrightarrow> d' s = d s)"
proof -
  define B N where "B = file_bytes h d js" and "N = nat (numBytes h)"
  have N: "length B = N" "N \<le> 128 * length js" using good_file_lengths [OF g] by (simp_all add: B_def N_def)
  have pm: "p + m \<le> N" using m pos unfolding N_def by (auto split: if_splits)
  define a e where "a = p div 128" and "e = (p + m - 1) div 128 - p div 128"
  have z: "(p + m - 1) div 128 = a + e" using window(1) [OF n(2), of p] by (simp add: a_def e_def)
  note w = window [OF n(2), of p, folded a_def, unfolded z]
  have "128 * (a + e) < 128 * length js" by (rule less_le_trans [OF w(4) le_trans [OF pm N(2)]])
  then have bound: "a + (e + 1) \<le> length js" by simp
  define buf where "buf = write_buffer junk B from p m"
  have buf: "length buf = 128 * (e + 1)"
    and bufn: "\<And>i. i < 128 * (e + 1) \<Longrightarrow> 128 * a + i < N \<Longrightarrow>
      buf ! i = (if p \<le> 128 * a + i \<and> 128 * a + i < p + m then from ! (128 * a + i - p) else B ! (128 * a + i))"
    using write_buffer_nth [OF n(2) _ src a_def z, of B junk] pm N junk bound by (simp_all add: buf_def)
  obtain d' where d': "write_sectors h (int a) (e + 1) buf d = Inr d'" "good_file h d' js"
    "\<And>s. s \<notin> set js \<Longrightarrow> d' s = d s"
    "\<And>q. q < length js \<Longrightarrow> d' (js ! q) = (if a \<le> q \<and> q < a + (e + 1) then take 128 (drop (128 * (q - a)) buf) else d (js ! q))"
    using write_sectors_layout [OF g bound, of buf] buf by auto
  have "a + e + 1 - a = e + 1" by simp
  then have "WriteAt junk h from n (int p) d = Inr (int m, d')"
    using WriteAt_buffer [OF g pos n m src, of junk, folded B_def, folded buf_def a_def, unfolded z]
    by (simp only: d'(1) bindR_simps)
  moreover have "file_bytes h d' js = overlay p (take m from) B"
    unfolding B_def by (rule file_bytes_written [OF g d'(2) w(2,3) buf src pm [unfolded N_def] bufn [unfolded N_def B_def] d'(4)])
  ultimately show ?thesis using d'(2,3) by (auto simp: B_def)
qed


section \<open>The contract of a byte file\<close>

text \<open>What \<open>Directory\<close> and \<open>BitMap\<close> use of an open file: positioned reads and writes inside the file.\<close>

locale byte_file =
  fixes rd :: "'s \<Rightarrow> nat \<Rightarrow> nat \<Rightarrow> u8 list res"
    and wr :: "'s \<Rightarrow> u8 list \<Rightarrow> nat \<Rightarrow> nat \<Rightarrow> (int \<times> 's) res"
    and bytes :: "'s \<Rightarrow> u8 list"
    and ok :: "'s \<Rightarrow> bool"
  assumes rd_law: "ok s \<Longrightarrow> rd s n p = Inr (take n (drop p (bytes s)))"
    and wr_law: "ok s \<Longrightarrow> n \<le> length xs \<Longrightarrow> p + n \<le> length (bytes s) \<Longrightarrow>
      \<exists>s'. wr s xs n p = Inr (int n, s') \<and> ok s' \<and> bytes s' = overlay p (take n xs) (bytes s)"
begin

lemma rd_after_wr:
  assumes "ok s" "n \<le> length xs" "p + n \<le> length (bytes s)"
  shows "\<exists>s'. wr s xs n p = Inr (int n, s') \<and> ok s' \<and> rd s' n p = Inr (take n xs)
     \<and> length (bytes s') = length (bytes s)
     \<and> (\<forall>q k. q + k \<le> p \<or> p + n \<le> q \<longrightarrow> rd s' k q = rd s k q)"
proof -
  obtain s' where s': "wr s xs n p = Inr (int n, s')" "ok s'" "bytes s' = overlay p (take n xs) (bytes s)"
    using wr_law [OF assms] by blast
  have len: "length (bytes s') = length (bytes s)" using assms s'(3) by simp
  have "take n (drop p (bytes s')) = take n xs"
    using assms by (simp add: s'(3) overlay_def)
  moreover have "take k (drop q (bytes s')) = take k (drop q (bytes s))" if "q + k \<le> p \<or> p + n \<le> q" for q k
    using that
  proof
    assume "q + k \<le> p"
    then have "take k (drop q (take p (bytes s))) = take k (drop q (bytes s))"
      by (simp add: drop_take min_def)
    then show ?thesis using assms \<open>q + k \<le> p\<close> by (simp add: s'(3) overlay_def)
  next
    assume "p + n \<le> q"
    then have "drop q (bytes s') = drop q (bytes s)" using assms by (simp add: s'(3) overlay_def)
    then show ?thesis by simp
  qed
  ultimately show ?thesis using s'(1,2) len by (auto simp: rd_law assms(1))
qed

text \<open>Writing the whole file and reading it back, in one piece, as \<open>WriteBack\<close> and \<open>FetchFrom\<close> do.\<close>

lemma whole_file:
  assumes "ok s" "length xs = length (bytes s)"
  shows "\<exists>s'. wr s xs (length xs) 0 = Inr (int (length xs), s') \<and> ok s' \<and> bytes s' = xs
     \<and> rd s' (length xs) 0 = Inr xs"
  using wr_law [OF assms(1), of "length xs" xs 0] assms by (auto simp: overlay_def rd_law)

end

lemma WriteAt_whole:
  assumes g: "good_file h d js" and n: "n \<le> length xs" and fit: "p + n \<le> length (file_bytes h d js)"
    and junk: "128 * length js \<le> length junk"
  shows "\<exists>d'. WriteAt junk h xs (int n) (int p) d = Inr (int n, d') \<and> good_file h d' js
     \<and> file_bytes h d' js = overlay p (take n xs) (file_bytes h d js) \<and> (\<forall>s. s \<notin> set js \<longrightarrow> d' s = d s)"
proof (cases "n = 0")
  case True
  then show ?thesis using g by (auto simp: WriteAt_def Let_def overlay_def)
next
  case False
  have "0 \<le> numBytes h" using g by (simp add: good_file_def)
  then have "int p + int n \<le> numBytes h"
    using fit good_file_lengths(2) [OF g] by linarith
  then show ?thesis using WriteAt_good [OF g, of p "int n" n xs junk] n junk False by simp
qed

interpretation bf: byte_file
  "\<lambda>d n p. ReadAt h (int n) (int p) d" "\<lambda>d xs n p. WriteAt junk h xs (int n) (int p) d"
  "\<lambda>d. file_bytes h d js" "\<lambda>d. good_file h d js \<and> 128 * length js \<le> length junk"
  for h :: FileHeader and junk :: "u8 list" and js :: "int list"
  by unfold_locales (use ReadAt_good WriteAt_whole in fastforce)+

section \<open>Properties\<close>

text \<open>C4: \<open>OpenFile::ReadAt\<close> on a good file returns exactly the bytes of the file from the position on, as
  many as were asked for and the file has; a request of no bytes, or at or past the end, returns
  none.\<close>

theorem ReadAt_bytes:
  assumes "good_file h d js" "0 \<le> position"
  shows "ReadAt h n position d = Inr (take (nat n) (drop (nat position) (file_bytes h d js)))"
  by (rule ReadAt_good [OF assms])

definition sample_file :: FileHeader where
  "sample_file = blank_header\<lparr>numBytes := 200, numSectors := 2, dataSectors := 7 # 9 # replicate 28 0\<rparr>"

lemma sample_good: "good_file sample_file (\<lambda>n. replicate 128 (word_of_int n)) [7, 9]"
  by (simp add: good_file_def sample_file_def blank_header_def file_layout_def index_sectors_def
    wf_store_def disk_consts)

theorem ReadAt_bytes_witness:
  "ReadAt sample_file 5 126 (\<lambda>n. replicate 128 (word_of_int n)) = Inr [7, 7, 9, 9, 9]"
  using ReadAt_bytes [OF sample_good, of 126 5]
  by (simp add: file_bytes_def sample_file_def blank_header_def numeral_eq_Suc)

text \<open>C1: \<open>OpenFile::WriteAt\<close> on a good file.  A request of no bytes or at or past the end does nothing
  and answers 0.  Any other writes as many bytes as lie inside the file: the file's byte string
  changes in exactly that range to the bytes given, the answer is their number, the file keeps its
  length and layout, and no sector outside the file's data sectors changes, whatever the
  uninitialised bytes of the buffer were.\<close>

theorem WriteAt_bytes:
  assumes "good_file h d js" "0 \<le> position" "128 * length js \<le> length junk"
    and "m = nat (min n (numBytes h - position))" "m \<le> length from"
  shows "\<exists>d'. WriteAt junk h from n position d = Inr (int m, d') \<and> good_file h d' js
     \<and> file_bytes h d' js = (if m = 0 then file_bytes h d js else overlay (nat position) (take m from) (file_bytes h d js))
     \<and> (\<forall>s. s \<notin> set js \<longrightarrow> d' s = d s)"
proof (cases "n \<le> 0 \<or> numBytes h \<le> position")
  case True
  then have "m = 0" using assms(4) by auto
  then show ?thesis using True assms(1) by (auto simp: WriteAt_def Let_def FileLength_def)
next
  case False
  have "int (nat position) < numBytes h" "0 < n" "0 < m"
    "(if int (nat position) + n > numBytes h then numBytes h - int (nat position) else n) = int m"
    using False assms(2,4) by auto
  from WriteAt_good [OF assms(1) this assms(5,3)] show ?thesis
    using \<open>0 < m\<close> assms(2) by simp
qed

theorem WriteAt_bytes_witness:
  "\<exists>d'. WriteAt (replicate 256 1) sample_file [5, 6, 8] 3 127 (\<lambda>n. replicate 128 (word_of_int n)) = Inr (3, d')
     \<and> file_bytes sample_file d' [7, 9]
       = overlay 127 [5, 6, 8] (file_bytes sample_file (\<lambda>n. replicate 128 (word_of_int n)) [7, 9])"
proof -
  have m: "(3 :: nat) = nat (min 3 (numBytes sample_file - 127))" by (simp add: sample_file_def blank_header_def)
  show ?thesis
    using WriteAt_bytes [OF sample_good _ _ m, of "replicate 256 1" "[5, 6, 8]"] by auto
qed

text \<open>The sequential interface.  \<open>Write\<close> of n bytes at the seek position inside a good file, \<open>Seek\<close> back
  and \<open>Read\<close> of n bytes returns the bytes written, both move the position by n, and bytes before
  and after the range read as before.\<close>

theorem Write_Seek_Read:
  assumes "good_file (hdr f) d js" "128 * length js \<le> length junk" "seekPosition f = int p"
    and "n \<le> length xs" "p + n \<le> length (file_bytes (hdr f) d js)"
  shows "\<exists>f1 d1. Write junk f xs (int n) d = Inr (int n, f1, d1) \<and> seekPosition f1 = int (p + n)
     \<and> Read (Seek f1 (int p)) (int n) d1 = Inr (take n xs, f1)
     \<and> (\<forall>q k. q + k \<le> p \<or> p + n \<le> q \<longrightarrow> ReadAt (hdr f) (int k) (int q) d1 = ReadAt (hdr f) (int k) (int q) d)"
proof -
  obtain d1 where d1: "WriteAt junk (hdr f) xs (int n) (int p) d = Inr (int n, d1)"
    "ReadAt (hdr f) (int n) (int p) d1 = Inr (take n xs)"
    "\<forall>q k. q + k \<le> p \<or> p + n \<le> q \<longrightarrow> ReadAt (hdr f) (int k) (int q) d1 = ReadAt (hdr f) (int k) (int q) d"
    using bf.rd_after_wr [of "hdr f" d js junk n xs p] assms by blast
  then show ?thesis
    using assms(3,4) by (simp add: Write_def Read_def Seek_def)
qed

theorem Write_Seek_Read_witness:
  "\<exists>f1 d1. Write (replicate 256 0) \<lparr>hdr = sample_file, seekPosition = 100\<rparr> (replicate 40 3) 40
       (\<lambda>n. replicate 128 (word_of_int n)) = Inr (40, f1, d1)
     \<and> Read (Seek f1 100) 40 d1 = Inr (replicate 40 3, f1)"
proof -
  have "length (file_bytes sample_file (\<lambda>n. replicate 128 (word_of_int n)) [7, 9]) = 200"
    using good_file_lengths(2) [OF sample_good] by (simp add: sample_file_def blank_header_def)
  then show ?thesis
    using Write_Seek_Read [of "\<lparr>hdr = sample_file, seekPosition = 100\<rparr>" "\<lambda>n. replicate 128 (word_of_int n)"
      "[7, 9]" "replicate 256 0" 100 40 "replicate 40 3"] sample_good by auto
qed

end
