(* ===== verification/Directory.thy ===== *)
theory Directory
  imports OpenFile
begin

text \<open>
  filesys/directory.cc: a table of entries, each with a name and the sector of the file's header.
  Names are compared over their first 31 characters (\<open>strncmp\<close>), so the key of a name is
  \<open>cstr 31 name\<close>.  \<open>dir_map\<close> is the abstract view, a map from keys to sectors; \<open>Find\<close>, \<open>Add\<close>
  and \<open>Remove\<close> are lookup, insertion of a new key and deletion in that map.  The table travels to
  disk as raw bytes, 136 for an entry.
\<close>

section \<open>State and operations\<close>

text \<open>\<open>gap\<close> are the three bytes the compiler leaves between \<open>inUse\<close> and \<open>sector\<close>.\<close>

record DirectoryEntry =
  inUse :: bool
  gap :: "u8 list"
  sector :: u32
  name :: "u8 list"
  ExtName :: "u8 list"
  FullPath :: "u8 list"

type_synonym Directory = "DirectoryEntry list"

definition FileNameMaxLen :: nat where "FileNameMaxLen = 31"

text \<open>\<open>Directory(size)\<close>: a fresh table, whose memory is \<open>raw\<close>, with every entry free.\<close>

definition new_Directory :: "int \<Rightarrow> DirectoryEntry list \<Rightarrow> Directory" where
  "new_Directory nentries raw = map (\<lambda>e. e\<lparr>inUse := False\<rparr>) (take (nat nentries) raw)"

fun FindIndex_from :: "int \<Rightarrow> Directory \<Rightarrow> u8 list \<Rightarrow> int" where
  "FindIndex_from i [] nm = -1"
| "FindIndex_from i (e # t) nm =
     (if inUse e \<and> strncmp_eq (name e) nm FileNameMaxLen then i else FindIndex_from (i + 1) t nm)"

definition FindIndex :: "Directory \<Rightarrow> u8 list \<Rightarrow> int" where
  "FindIndex t nm = FindIndex_from 0 t nm"

definition dir_Find :: "Directory \<Rightarrow> u8 list \<Rightarrow> int" where
  "dir_Find t nm = (let i = FindIndex t nm in if i \<noteq> -1 then sint (sector (t ! nat i)) else -1)"

fun add_slot :: "Directory \<Rightarrow> u8 list \<Rightarrow> int \<Rightarrow> bool \<times> Directory" where
  "add_slot [] nm newSector = (False, [])"
| "add_slot (e # t) nm newSector =
     (if \<not> inUse e
      then (True, e\<lparr>inUse := True, name := strncpy (name e) nm FileNameMaxLen, sector := word_of_int newSector\<rparr> # t)
      else let (r, t1) = add_slot t nm newSector in (r, e # t1))"

definition Add :: "Directory \<Rightarrow> u8 list \<Rightarrow> int \<Rightarrow> bool \<times> Directory" where
  "Add t nm newSector = (if FindIndex t nm \<noteq> -1 then (False, t) else add_slot t nm newSector)"

definition dir_Remove :: "Directory \<Rightarrow> u8 list \<Rightarrow> bool \<times> Directory" where
  "dir_Remove t nm =
     (let i = FindIndex t nm in
      if i = -1 then (False, t) else (True, t[nat i := (t ! nat i)\<lparr>inUse := False\<rparr>]))"

section \<open>The table as raw bytes\<close>

definition entry_bytes :: "DirectoryEntry \<Rightarrow> u8 list" where
  "entry_bytes e = (if inUse e then 1 else 0) # gap e @ word_bytes (sector e) @ name e @ ExtName e @ FullPath e"

definition entry_of_bytes :: "u8 list \<Rightarrow> DirectoryEntry" where
  "entry_of_bytes bs = \<lparr>inUse = (hd bs \<noteq> 0), gap = take 3 (drop 1 bs), sector = bytes_word (take 4 (drop 4 bs)),
     name = take 32 (drop 8 bs), ExtName = take 16 (drop 40 bs), FullPath = take 80 (drop 56 bs)\<rparr>"

definition table_bytes :: "Directory \<Rightarrow> u8 list" where
  "table_bytes t = concat (map entry_bytes t)"

fun table_of_bytes :: "nat \<Rightarrow> u8 list \<Rightarrow> Directory" where
  "table_of_bytes 0 bs = []"
| "table_of_bytes (Suc n) bs = entry_of_bytes (take 136 bs) # table_of_bytes n (drop 136 bs)"

text \<open>\<open>ReadAt((char *)table, tableSize * sizeof(DirectoryEntry), 0)\<close> overwrites the first bytes of the table.\<close>

definition dir_FetchFrom :: "Directory \<Rightarrow> FileHeader \<Rightarrow> store \<Rightarrow> Directory res" where
  "dir_FetchFrom t h d =
     bindR (ReadAt h (int (length t) * 136) 0 d) (\<lambda>x.
       Inr (table_of_bytes (length t) (overlay 0 x (table_bytes t))))"

definition dir_WriteBack :: "u8 list \<Rightarrow> Directory \<Rightarrow> FileHeader \<Rightarrow> store \<Rightarrow> store res" where
  "dir_WriteBack junk t h d =
     bindR (WriteAt junk h (table_bytes t) (int (length t) * 136) 0 d) (\<lambda>(n, d1). Inr d1)"

section \<open>The abstract map\<close>

definition key :: "u8 list \<Rightarrow> u8 list" where
  "key nm = cstr FileNameMaxLen nm"

definition dir_map :: "Directory \<Rightarrow> u8 list \<rightharpoonup> int" where
  "dir_map t = map_of (map (\<lambda>e. (key (name e), sint (sector e))) (filter inUse t))"

lemma dir_map_simps [simp]:
  "dir_map [] = Map.empty"
  "dir_map (e # t) = (if inUse e then (dir_map t)(key (name e) \<mapsto> sint (sector e)) else dir_map t)"
  by (simp_all add: dir_map_def)

definition wf_entry :: "DirectoryEntry \<Rightarrow> bool" where
  "wf_entry e \<longleftrightarrow> length (gap e) = 3 \<and> length (name e) = 32 \<and> length (ExtName e) = 16 \<and> length (FullPath e) = 80"

text \<open>Invariant: entries have their size, and the names in use have different keys.\<close>

definition used_keys :: "Directory \<Rightarrow> u8 list list" where
  "used_keys t = map (key \<circ> name) (filter inUse t)"

definition wf_dir :: "Directory \<Rightarrow> bool" where
  "wf_dir t \<longleftrightarrow> list_all wf_entry t \<and> distinct (used_keys t)"

lemma used_keys_simps [simp]:
  "used_keys [] = []"
  "used_keys (e # t) = (if inUse e then key (name e) # used_keys t else used_keys t)"
  by (simp_all add: used_keys_def)

lemma dom_dir_map: "dom (dir_map t) = set (used_keys t)"
  by (simp add: dir_map_def used_keys_def dom_map_of_conv_image_fst image_image)

lemma strncmp_key: "strncmp_eq s nm FileNameMaxLen \<longleftrightarrow> key s = key nm"
  by (simp add: strncmp_eq_def key_def)

lemma FindIndex_from_shift:
  "FindIndex_from i t nm = (if FindIndex_from 0 t nm = -1 then -1 else FindIndex_from 0 t nm + i)
   \<and> -1 \<le> FindIndex_from 0 t nm"
proof (induction t arbitrary: i)
  case (Cons e t)
  show ?case using Cons [of 1] Cons [of "i + 1"] by auto
qed simp

lemma FindIndex_Cons:
  "FindIndex (e # t) nm = (if inUse e \<and> key (name e) = key nm then 0
     else if FindIndex t nm = -1 then -1 else FindIndex t nm + 1)"
  using FindIndex_from_shift [of 1 t nm] by (simp add: FindIndex_def strncmp_key)

lemma FindIndex_Nil: "FindIndex [] nm = -1"
  by (simp add: FindIndex_def)

lemma FindIndex_ge: "-1 \<le> FindIndex t nm"
  using FindIndex_from_shift [of 0 t nm] by (simp add: FindIndex_def)

lemmas FindIndex_simps = FindIndex_Nil FindIndex_Cons

lemma FindIndex_spec:
  "FindIndex t nm = -1 \<longleftrightarrow> dir_map t (key nm) = None"
  "FindIndex t nm \<noteq> -1 \<Longrightarrow> nat (FindIndex t nm) < length t \<and> inUse (t ! nat (FindIndex t nm))
     \<and> key (name (t ! nat (FindIndex t nm))) = key nm
     \<and> dir_map t (key nm) = Some (sint (sector (t ! nat (FindIndex t nm))))"
proof (induction t)
  case Nil
  case 1 show ?case by (simp add: FindIndex_Nil)
  case 2 then show ?case by (simp add: FindIndex_Nil)
next
  case (Cons e t)
  have ge: "-1 \<le> FindIndex t nm" by (rule FindIndex_ge)
  case 1
  show ?case using Cons.IH(1) ge by (auto simp: FindIndex_Cons)
  case 2
  show ?case
  proof (cases "inUse e \<and> key (name e) = key nm")
    case True
    then show ?thesis by (simp add: FindIndex_Cons)
  next
    case False
    then have ne: "FindIndex t nm \<noteq> -1" using 2 by (auto simp: FindIndex_Cons split: if_splits)
    then have "nat (FindIndex t nm + 1) = Suc (nat (FindIndex t nm))" using ge by simp
    then show ?thesis using False ne Cons.IH(2) [OF ne] by (auto simp: FindIndex_Cons)
  qed
qed

lemma dir_Find_spec: "dir_Find t nm = (case dir_map t (key nm) of None \<Rightarrow> -1 | Some s \<Rightarrow> s)"
  using FindIndex_spec [of t nm] by (cases "FindIndex t nm = -1") (auto simp: dir_Find_def Let_def)

lemma key_strncpy: "wf_entry e \<Longrightarrow> key (strncpy (name e) nm FileNameMaxLen) = key nm"
  by (simp add: key_def wf_entry_def FileNameMaxLen_def cstr_strncpy)

lemma add_slot_full: "\<forall>e \<in> set t. inUse e \<Longrightarrow> add_slot t nm s = (False, t)"
  by (induction t) simp_all

lemma add_slot_free:
  assumes "list_all wf_entry t" "is_int32 s" "key nm \<notin> set (used_keys t)" "distinct (used_keys t)"
    and "\<exists>e \<in> set t. \<not> inUse e"
  shows "\<exists>t'. add_slot t nm s = (True, t') \<and> list_all wf_entry t' \<and> length t' = length t
     \<and> dir_map t' = (dir_map t)(key nm \<mapsto> s) \<and> distinct (used_keys t')
     \<and> set (used_keys t') = insert (key nm) (set (used_keys t))"
  using assms
proof (induction t)
  case (Cons e t)
  have w: "wf_entry e" using Cons.prems by simp
  show ?case
  proof (cases "inUse e")
    case False
    have "wf_entry (e\<lparr>inUse := True, name := strncpy (name e) nm FileNameMaxLen, sector := word_of_int s\<rparr>)"
      using w by (simp add: wf_entry_def FileNameMaxLen_def)
    moreover have "sint (word_of_int s :: u32) = s" using Cons.prems by (simp add: sint_of_int32)
    ultimately show ?thesis using False Cons.prems key_strncpy [OF w, of nm] by (simp add: fun_upd_def)
  next
    case True
    with Cons obtain t' where "add_slot t nm s = (True, t')" "list_all wf_entry t'" "length t' = length t"
      "dir_map t' = (dir_map t)(key nm \<mapsto> s)" "distinct (used_keys t')"
      "set (used_keys t') = insert (key nm) (set (used_keys t))" by (auto simp: fun_upd_def)
    then show ?thesis using True w Cons.prems by (auto simp: fun_upd_def)
  qed
qed simp

text \<open>The three operations as operations on the map.\<close>

lemma Add_spec:
  assumes "wf_dir t" "is_int32 s"
  shows "if key nm \<in> dom (dir_map t) \<or> (\<forall>e \<in> set t. inUse e) then Add t nm s = (False, t)
    else \<exists>t'. Add t nm s = (True, t') \<and> wf_dir t' \<and> length t' = length t \<and> dir_map t' = (dir_map t)(key nm \<mapsto> s)"
proof (cases "FindIndex t nm = -1")
  case True
  then have "key nm \<notin> dom (dir_map t)" using FindIndex_spec(1) [of t nm] by auto
  then show ?thesis
    using True assms add_slot_free [of t s nm] add_slot_full [of t nm s]
    by (auto simp: Add_def wf_dir_def dom_dir_map)
next
  case False
  then show ?thesis using FindIndex_spec(2) [of t nm] by (auto simp: Add_def)
qed

lemma used_keys_free:
  "i < length t \<Longrightarrow> inUse (t ! i) \<Longrightarrow> distinct (used_keys t) \<Longrightarrow>
     distinct (used_keys (t[i := (t ! i)\<lparr>inUse := False\<rparr>]))
     \<and> set (used_keys (t[i := (t ! i)\<lparr>inUse := False\<rparr>])) = set (used_keys t) - {key (name (t ! i))}
     \<and> dir_map (t[i := (t ! i)\<lparr>inUse := False\<rparr>]) = (dir_map t)(key (name (t ! i)) := None)"
proof (induction t arbitrary: i)
  case (Cons e t)
  show ?case
  proof (cases i)
    case 0
    have "key (name e) \<notin> dom (dir_map t)" using Cons.prems 0 by (simp add: dom_dir_map)
    then have "dir_map t (key (name e)) = None" by auto
    then show ?thesis using Cons.prems 0 by (auto simp: fun_eq_iff)
  next
    case (Suc k)
    then have k: "k < length t" "inUse (t ! k)" using Cons.prems by simp_all
    then have "key (name (t ! k)) \<in> set (used_keys t)"
      by (auto simp: used_keys_def intro!: imageI)
    then show ?thesis using Cons.IH [OF k] Cons.prems(3) Suc by (auto simp: fun_eq_iff)
  qed
qed simp

lemma Remove_spec:
  assumes "wf_dir t"
  shows "if key nm \<notin> dom (dir_map t) then dir_Remove t nm = (False, t)
    else \<exists>t'. dir_Remove t nm = (True, t') \<and> wf_dir t' \<and> length t' = length t \<and> dir_map t' = (dir_map t)(key nm := None)"
proof (cases "FindIndex t nm = -1")
  case True
  then have "key nm \<notin> dom (dir_map t)" using FindIndex_spec(1) [of t nm] by auto
  then show ?thesis using True by (simp add: dir_Remove_def)
next
  case False
  note f = FindIndex_spec(2) [OF False]
  define i where "i = nat (FindIndex t nm)"
  have i: "i < length t" "inUse (t ! i)" "key (name (t ! i)) = key nm" "key nm \<in> dom (dir_map t)"
    using f by (auto simp: i_def)
  have "list_all wf_entry (t[i := (t ! i)\<lparr>inUse := False\<rparr>])"
    using assms i(1) by (simp add: wf_dir_def list_all_length nth_list_update wf_entry_def)
  then show ?thesis
    using used_keys_free [OF i(1,2)] assms i False
    by (simp add: dir_Remove_def wf_dir_def i_def [symmetric] Let_def)
qed

section \<open>On disk\<close>

lemma length_entry_bytes: "wf_entry e \<Longrightarrow> length (entry_bytes e) = 136"
  by (simp add: entry_bytes_def wf_entry_def)

lemma entry_roundtrip: "wf_entry e \<Longrightarrow> entry_of_bytes (entry_bytes e) = e"
proof -
  assume w: "wf_entry e"
  have g: "take 3 (gap e @ r) = gap e" "drop 3 (gap e @ r) = r" for r using w by (simp_all add: wf_entry_def)
  have s: "take 4 (word_bytes x @ r) = word_bytes x" "drop 4 (word_bytes x @ r) = r" for x r by simp_all
  define tl where "tl = gap e @ word_bytes (sector e) @ name e @ ExtName e @ FullPath e"
  have d: "drop 3 tl = word_bytes (sector e) @ name e @ ExtName e @ FullPath e" by (simp only: tl_def g)
  have "drop 7 tl = drop 4 (drop 3 tl)" "drop 39 tl = drop 36 (drop 3 tl)" "drop 55 tl = drop 52 (drop 3 tl)"
    by simp_all
  then have d': "drop 7 tl = name e @ ExtName e @ FullPath e" "drop 39 tl = ExtName e @ FullPath e"
    "drop 55 tl = FullPath e" using w by (simp_all only: d) (simp_all add: wf_entry_def)
  have "entry_bytes e = (if inUse e then 1 else 0) # tl" by (simp add: entry_bytes_def tl_def)
  then show ?thesis
    using w d' d g(1) [of "word_bytes (sector e) @ name e @ ExtName e @ FullPath e"]
    by (simp add: entry_of_bytes_def wf_entry_def tl_def [symmetric] s(1))
qed

lemma length_table_bytes: "list_all wf_entry t \<Longrightarrow> length (table_bytes t) = 136 * length t"
  by (induction t) (simp_all add: table_bytes_def length_entry_bytes)

lemma table_roundtrip: "list_all wf_entry t \<Longrightarrow> table_of_bytes (length t) (table_bytes t) = t"
  by (induction t) (simp_all add: table_bytes_def length_entry_bytes entry_roundtrip)

lemma entry_of_bytes_wf: "length bs = 136 \<Longrightarrow> wf_entry (entry_of_bytes bs)"
  by (simp add: entry_of_bytes_def wf_entry_def)

lemma table_of_bytes_wf:
  "length bs = 136 * n \<Longrightarrow> list_all wf_entry (table_of_bytes n bs) \<and> length (table_of_bytes n bs) = n"
  by (induction n arbitrary: bs) (simp_all add: entry_of_bytes_wf)

text \<open>The table a file of at least \<open>136 * n\<close> bytes holds.\<close>

definition stored_dir :: "nat \<Rightarrow> FileHeader \<Rightarrow> store \<Rightarrow> int list \<Rightarrow> Directory" where
  "stored_dir n h d js = table_of_bytes n (take (136 * n) (file_bytes h d js))"

lemma dir_FetchFrom_good:
  assumes "good_file h d js" "list_all wf_entry t" "136 * length t \<le> length (file_bytes h d js)"
  shows "dir_FetchFrom t h d = Inr (stored_dir (length t) h d js)"
proof -
  have n: "int (length t) * 136 = int (136 * length t)" by simp
  have "ReadAt h (int (length t) * 136) 0 d = Inr (take (136 * length t) (file_bytes h d js))"
    using bf.rd_law [of h d js "replicate (128 * length js) 0" "136 * length t" 0] assms(1) unfolding n by simp
  then show ?thesis
    using assms(2,3) by (simp add: dir_FetchFrom_def overlay_all length_table_bytes stored_dir_def)
qed

lemma dir_WriteBack_good:
  assumes "good_file h d js" "list_all wf_entry t" "136 * length t \<le> length (file_bytes h d js)"
    and "128 * length js \<le> length junk"
  shows "\<exists>d'. dir_WriteBack junk t h d = Inr d' \<and> good_file h d' js \<and> stored_dir (length t) h d' js = t
     \<and> (\<forall>s. s \<notin> set js \<longrightarrow> d' s = d s)"
proof -
  have n: "int (length t) * 136 = int (136 * length t)" by simp
  have len: "length (table_bytes t) = 136 * length t" by (rule length_table_bytes [OF assms(2)])
  obtain d' where d': "WriteAt junk h (table_bytes t) (int (length t) * 136) 0 d = Inr (int (136 * length t), d')"
    "good_file h d' js" "file_bytes h d' js = overlay 0 (table_bytes t) (file_bytes h d js)"
    "\<forall>s. s \<notin> set js \<longrightarrow> d' s = d s"
    using WriteAt_whole [OF assms(1), of "136 * length t" "table_bytes t" 0 junk] len assms(3,4) unfolding n by auto
  have "take (136 * length t) (file_bytes h d' js) = table_bytes t"
    using len by (simp add: d'(3) overlay_def)
  then have "stored_dir (length t) h d' js = t"
    using table_roundtrip [OF assms(2)] by (simp add: stored_dir_def)
  then show ?thesis using d' by (simp add: dir_WriteBack_def)
qed

section \<open>Properties\<close>

text \<open>C14: a directory is a finite map from names, told apart by their first 31 characters, to sectors.
  \<open>Find\<close> looks the name up and answers -1 when it is absent.  \<open>Add\<close> refuses a name that is
  present or a full table, with the table unchanged, and else inserts it; \<open>Remove\<close> refuses an
  absent name and else deletes it.  Both keep the table well formed and its size.\<close>

theorem directory_refines_map:
  assumes "wf_dir t" "is_int32 s"
  shows "dir_Find t nm = (case dir_map t (key nm) of None \<Rightarrow> -1 | Some x \<Rightarrow> x)
    \<and> (if key nm \<in> dom (dir_map t) \<or> (\<forall>e \<in> set t. inUse e) then Add t nm s = (False, t)
       else \<exists>t'. Add t nm s = (True, t') \<and> wf_dir t' \<and> length t' = length t \<and> dir_map t' = (dir_map t)(key nm \<mapsto> s))
    \<and> (if key nm \<notin> dom (dir_map t) then dir_Remove t nm = (False, t)
       else \<exists>t'. dir_Remove t nm = (True, t') \<and> wf_dir t' \<and> length t' = length t \<and> dir_map t' = (dir_map t)(key nm := None))"
  by (intro conjI dir_Find_spec Add_spec [OF assms] Remove_spec [OF assms(1)])

definition free_entry :: DirectoryEntry where
  "free_entry = \<lparr>inUse = False, gap = replicate 3 0, sector = 0, name = replicate 32 0,
     ExtName = replicate 16 0, FullPath = replicate 80 0\<rparr>"

theorem directory_refines_map_witness:
  "\<exists>t'. Add (replicate 10 free_entry) [102, 111, 111] 5 = (True, t') \<and> dir_map t' [102, 111, 111] = Some 5"
proof -
  have w: "wf_dir (replicate 10 free_entry)" "is_int32 5"
    by (simp_all add: wf_dir_def used_keys_def free_entry_def wf_entry_def list_all_iff is_int32_def)
  have k: "key [102, 111, 111] = [102, 111, 111]" by (simp add: key_def cstr_def FileNameMaxLen_def)
  have "dir_map (replicate 10 free_entry) = Map.empty" by (simp add: dir_map_def free_entry_def)
  then show ?thesis using directory_refines_map [OF w, of "[102, 111, 111]"] by (auto simp: k free_entry_def)
qed

text \<open>\<open>Directory::WriteBack\<close> into a good file that is long enough, then \<open>FetchFrom\<close> into any table
  of the same size, gives the table back with every byte of every entry, and no sector outside the
  file changes.\<close>

theorem directory_roundtrip:
  assumes "good_file h d js" "list_all wf_entry t" "list_all wf_entry t0" "length t0 = length t"
    and "136 * length t \<le> length (file_bytes h d js)" "128 * length js \<le> length junk"
  shows "\<exists>d'. dir_WriteBack junk t h d = Inr d' \<and> dir_FetchFrom t0 h d' = Inr t
     \<and> (\<forall>s. s \<notin> set js \<longrightarrow> d' s = d s)"
proof -
  obtain d' where d': "dir_WriteBack junk t h d = Inr d'" "good_file h d' js" "stored_dir (length t) h d' js = t"
    "\<forall>s. s \<notin> set js \<longrightarrow> d' s = d s"
    using dir_WriteBack_good [OF assms(1,2,5,6)] by blast
  have "length (file_bytes h d' js) = length (file_bytes h d js)"
    by (simp only: good_file_lengths(2) [OF assms(1)] good_file_lengths(2) [OF d'(2)])
  then show ?thesis using dir_FetchFrom_good [OF d'(2) assms(3)] assms(4,5) d'(1,3,4) by auto
qed

theorem directory_roundtrip_witness:
  "\<exists>d'. dir_WriteBack (replicate 256 9) [free_entry\<lparr>inUse := True, sector := 8\<rparr>] sample_file (\<lambda>n. replicate 128 (word_of_int n)) = Inr d'
     \<and> dir_FetchFrom [free_entry] sample_file d' = Inr [free_entry\<lparr>inUse := True, sector := 8\<rparr>]"
proof -
  have "length (file_bytes sample_file (\<lambda>n. replicate 128 (word_of_int n)) [7, 9]) = 200"
    using good_file_lengths(2) [OF sample_good] by (simp add: sample_file_def blank_header_def)
  then show ?thesis
    using directory_roundtrip [OF sample_good, of "[free_entry\<lparr>inUse := True, sector := 8\<rparr>]" "[free_entry]" "replicate 256 9"]
    by (auto simp: wf_entry_def free_entry_def)
qed

end
