(* ===== verification/FileSystem.thy ===== *)
theory FileSystem
  imports Directory
begin

text \<open>
  filesys/filesys.cc: the file system over the disk.  Two files with headers at fixed sectors hold
  the map of free sectors and the directory; they stay open.  \<open>Create\<close>, \<open>Open\<close> and \<open>Remove\<close>
  read both into fresh objects, work on these, and write back.  \<open>fs_inv\<close> ties the disk to the
  abstract view, a map from name keys to files (header sector, header, data sectors), and the
  operations are shown to update that map.  Memory obtained with \<open>new\<close> has unspecified contents:
  they are the argument \<open>m\<close>.  The invariant covers files of at most 30 sectors; larger files lose
  their index pointers on the way to disk (\<open>hdr_roundtrip\<close>).
\<close>

section \<open>The free map as a file (userprog/bitmap.cc)\<close>

definition bm_FetchFrom :: "BitMap \<Rightarrow> FileHeader \<Rightarrow> store \<Rightarrow> BitMap res" where
  "bm_FetchFrom b h d = bindR (ReadAt h (numWords b * 4) 0 d) (\<lambda>x.
     Inr (b\<lparr>bits := decode_words (overlay 0 x (encode_words (bits b)))\<rparr>))"

definition bm_WriteBack :: "u8 list \<Rightarrow> BitMap \<Rightarrow> FileHeader \<Rightarrow> store \<Rightarrow> store res" where
  "bm_WriteBack junk b h d =
     bindR (WriteAt junk h (encode_words (bits b)) (numWords b * 4) 0 d) (\<lambda>(n, d1). Inr d1)"

section \<open>Operations\<close>

definition FreeMapSector :: int where "FreeMapSector = 0"
definition DirectorySector :: int where "DirectorySector = 1"
definition FreeMapFileSize :: int where "FreeMapFileSize = 128"     \<comment> \<open>NumSectors / BitsInByte\<close>
definition NumDirEntries :: int where "NumDirEntries = 10"
definition DirectoryFileSize :: int where "DirectoryFileSize = 1360"  \<comment> \<open>sizeof(DirectoryEntry) * NumDirEntries\<close>

lemmas fs_consts = FreeMapSector_def DirectorySector_def FreeMapFileSize_def NumDirEntries_def DirectoryFileSize_def

record FileSystem =
  freeMapFile :: OpenFile
  directoryFile :: OpenFile

text \<open>What fresh memory holds: file headers and buffers by order of allocation in an operation.\<close>

record fresh_memory =
  hdr_mem :: "nat \<Rightarrow> FileHeader"
  words_mem :: "u32 list"
  table_mem :: "DirectoryEntry list"
  buf_mem :: "nat \<Rightarrow> u8 list"

definition ASSERT :: "bool \<Rightarrow> unit res" where
  "ASSERT c = (if c then Inr () else Inl AssertFail)"

definition FileSystem_format :: "fresh_memory \<Rightarrow> store \<Rightarrow> (FileSystem \<times> store) res" where
  "FileSystem_format m d =
     bindR (new_BitMap NumSectors (words_mem m)) (\<lambda>freeMap.
     let directory = new_Directory NumDirEntries (table_mem m) in
     bindR (Mark freeMap FreeMapSector) (\<lambda>freeMap.
     bindR (Mark freeMap DirectorySector) (\<lambda>freeMap.
     bindR (Allocate (hdr_mem m 0) freeMap FreeMapFileSize d) (\<lambda>(ok1, mapHdr, freeMap, d).
     bindR (ASSERT ok1) (\<lambda>_.
     bindR (Allocate (hdr_mem m 1) freeMap DirectoryFileSize d) (\<lambda>(ok2, dirHdr, freeMap, d).
     bindR (ASSERT ok2) (\<lambda>_.
     bindR (hdr_WriteBack mapHdr FreeMapSector d) (\<lambda>d.
     bindR (hdr_WriteBack dirHdr DirectorySector d) (\<lambda>d.
     bindR (new_OpenFile (hdr_mem m 2) FreeMapSector d) (\<lambda>mapFile.
     bindR (new_OpenFile (hdr_mem m 3) DirectorySector d) (\<lambda>dirFile.
     bindR (bm_WriteBack (buf_mem m 0) freeMap (hdr mapFile) d) (\<lambda>d.
     bindR (dir_WriteBack (buf_mem m 1) directory (hdr dirFile) d) (\<lambda>d.
     Inr (\<lparr>freeMapFile = mapFile, directoryFile = dirFile\<rparr>, d))))))))))))))"

definition FileSystem_open :: "fresh_memory \<Rightarrow> store \<Rightarrow> FileSystem res" where
  "FileSystem_open m d =
     bindR (new_OpenFile (hdr_mem m 0) FreeMapSector d) (\<lambda>mapFile.
     bindR (new_OpenFile (hdr_mem m 1) DirectorySector d) (\<lambda>dirFile.
     Inr \<lparr>freeMapFile = mapFile, directoryFile = dirFile\<rparr>))"

definition Create :: "fresh_memory \<Rightarrow> FileSystem \<Rightarrow> u8 list \<Rightarrow> int \<Rightarrow> store \<Rightarrow> (bool \<times> store) res" where
  "Create m fs nm initialSize d =
     bindR (dir_FetchFrom (new_Directory NumDirEntries (table_mem m)) (hdr (directoryFile fs)) d) (\<lambda>directory.
     if dir_Find directory nm \<noteq> -1 then Inr (False, d)
     else
       bindR (new_BitMap NumSectors (words_mem m)) (\<lambda>freeMap.
       bindR (bm_FetchFrom freeMap (hdr (freeMapFile fs)) d) (\<lambda>freeMap.
       bindR (Find freeMap) (\<lambda>(sector, freeMap).
       if sector = -1 then Inr (False, d)
       else
         let (added, directory) = Add directory nm sector in
         if \<not> added then Inr (False, d)
         else
           bindR (Allocate (hdr_mem m 0) freeMap initialSize d) (\<lambda>(ok, h, freeMap, d).
           if \<not> ok then Inr (False, d)
           else
             bindR (hdr_WriteBack h sector d) (\<lambda>d.
             bindR (dir_WriteBack (buf_mem m 0) directory (hdr (directoryFile fs)) d) (\<lambda>d.
             bindR (bm_WriteBack (buf_mem m 1) freeMap (hdr (freeMapFile fs)) d) (\<lambda>d.
             Inr (True, d)))))))))"

definition Open :: "fresh_memory \<Rightarrow> FileSystem \<Rightarrow> u8 list \<Rightarrow> store \<Rightarrow> OpenFile option res" where
  "Open m fs nm d =
     bindR (dir_FetchFrom (new_Directory NumDirEntries (table_mem m)) (hdr (directoryFile fs)) d) (\<lambda>directory.
     let sector = dir_Find directory nm in
     if sector \<ge> 0 then bindR (new_OpenFile (hdr_mem m 0) sector d) (\<lambda>f. Inr (Some f))
     else Inr None)"

definition fs_Remove :: "fresh_memory \<Rightarrow> FileSystem \<Rightarrow> u8 list \<Rightarrow> store \<Rightarrow> (bool \<times> store) res" where
  "fs_Remove m fs nm d =
     bindR (dir_FetchFrom (new_Directory NumDirEntries (table_mem m)) (hdr (directoryFile fs)) d) (\<lambda>directory.
     let sector = dir_Find directory nm in
     if sector = -1 then Inr (False, d)
     else
       bindR (hdr_FetchFrom (hdr_mem m 0) sector d) (\<lambda>fileHdr.
       bindR (new_BitMap NumSectors (words_mem m)) (\<lambda>freeMap.
       bindR (bm_FetchFrom freeMap (hdr (freeMapFile fs)) d) (\<lambda>freeMap.
       bindR (Deallocate fileHdr freeMap d) (\<lambda>freeMap.
       bindR (Clear freeMap sector) (\<lambda>freeMap.
       let (removed, directory) = dir_Remove directory nm in
       bindR (bm_WriteBack (buf_mem m 0) freeMap (hdr (freeMapFile fs)) d) (\<lambda>d.
       bindR (dir_WriteBack (buf_mem m 1) directory (hdr (directoryFile fs)) d) (\<lambda>d.
       Inr (True, d)))))))))"

section \<open>Files with direct pointers only\<close>

definition direct_file :: "FileHeader \<Rightarrow> int list \<Rightarrow> bool" where
  "direct_file h js \<longleftrightarrow> wf_header h \<and> numSectors h = int (length js) \<and> length js \<le> 30
     \<and> take (length js) (dataSectors h) = js \<and> distinct js \<and> valid_sectors js
     \<and> 0 \<le> numBytes h \<and> numBytes h \<le> 128 * int (length js)"

lemma direct_layout: "direct_file h js \<Longrightarrow> file_layout h d js \<and> index_sectors h d (length js) = []"
  by (simp add: direct_file_def file_layout_def index_sectors_def wf_header_def)

lemma direct_good: "direct_file h js \<Longrightarrow> wf_store d \<Longrightarrow> good_file h d js"
  using direct_layout [of h js d] by (simp add: good_file_def direct_file_def)

lemma direct_fetched:
  "direct_file h js \<Longrightarrow>
     direct_file (h0\<lparr>numBytes := numBytes h, numSectors := numSectors h, dataSectors := dataSectors h\<rparr>) js"
  by (auto simp: direct_file_def wf_header_def)

lemma file_bytes_fetched:
  "file_bytes (h0\<lparr>numBytes := numBytes h, numSectors := ns, dataSectors := ds\<rparr>) d js = file_bytes h d js"
  by (simp add: file_bytes_def)

lemma file_bytes_frame: "(\<And>s. s \<in> set js \<Longrightarrow> d' s = d s) \<Longrightarrow> file_bytes h d' js = file_bytes h d js"
  by (simp add: file_bytes_def cong: map_cong)

lemma zap_wf: "wf_store d \<Longrightarrow> wf_store (zap js d)"
  by (simp add: wf_store_def zap_def)

lemma sectors_needed_small: "n \<le> 30 \<Longrightarrow> sectors_needed n = n"
  by (simp add: sectors_needed_def)

text \<open>\<open>Allocate\<close> of such a file, in full.\<close>

lemma Allocate_direct:
  assumes h: "wf_header h" and wf: "wf_bitmap b" "numBits b \<le> NumSectors"
    and size: "0 \<le> fileSize" "fileSize \<le> 3840" and c: "NumClear b = Inr c" and n: "n = data_sectors fileSize"
  shows "n \<le> 30 \<and> (if c < int n then \<exists>h'. Allocate h b fileSize d = Inr (False, h', b, d)
    else \<exists>h' b' js. Allocate h b fileSize d = Inr (True, h', b', zap js d) \<and> direct_file h' js
       \<and> numBytes h' = fileSize \<and> length js = n \<and> wf_bitmap b' \<and> numBits b' = numBits b
       \<and> set js \<subseteq> {0 ..< numBits b} - marked b \<and> marked b' = marked b \<union> set js)"
proof -
  define q r where "q = (fileSize + 127) div 128" and "r = (fileSize + 127) mod 128"
  have "fileSize + 127 = 128 * q + r" "0 \<le> r" "r < 128" by (simp_all add: q_def r_def)
  then have "fileSize \<le> 128 * q" "q \<le> 30" "0 \<le> q" using size by linarith+
  then have n30: "n \<le> 30" and cover: "fileSize \<le> 128 * int n" by (simp_all add: n data_sectors_def q_def)
  let ?h = "h\<lparr>numBytes := fileSize, numSectors := int n, L1Index := -1, L2Index := -1\<rparr>"
  have r: "reserve b (int n) = (if c < int n then Inr (None, b)
      else bindR (repeat_find Find n b) (\<lambda>(sg, b1). Inr (Some (0, sg), b1)))"
    using n30 by (simp add: reserve_eq [OF _ c] sectors_needed_small get_sectors_small)
  show ?thesis
  proof (cases "c < int n")
    case True
    then show ?thesis using size n30 r by (simp add: Allocate_reserve n [symmetric] Let_def)
  next
    case False
    then obtain js b' where j: "repeat_find Find n b = Inr (js, b')" "wf_bitmap b'" "numBits b' = numBits b"
      "length js = n" "distinct js" "set js \<subseteq> {0 ..< numBits b} - marked b" "marked b' = marked b \<union> set js"
      using repeat_find_bitmap [OF wf(1) c, of n] by auto
    have v: "valid_sectors js" using j(6) wf(2) by (auto simp: valid_sectors_def)
    define h' where "h' = ?h\<lparr>dataSectors := js @ drop n (dataSectors h)\<rparr>"
    have "fill 30 n js d = Inr (js, 0, [], zap js d)" using fill_eq [of 30 n js d] v n30 j(4) by simp
    then have "place ?h 0 js d = Inr (h', zap js d)" by (simp add: place_def h'_def j(4))
    then have "Allocate h b fileSize d = Inr (True, h', b', zap js d)"
      using size False by (simp add: Allocate_reserve n [symmetric] Let_def r j(1))
    moreover have "direct_file h' js"
      using h n30 j(4,5) v cover size valid_sectors_int32 [OF v]
      by (auto simp: direct_file_def h'_def wf_header_def list_all_iff is_int32_def dest: in_set_dropD)
    ultimately show ?thesis using j n30 False by (auto simp: h'_def)
  qed
qed


section \<open>The map and the directory in their files\<close>

definition data_list :: "FileHeader \<Rightarrow> int list" where
  "data_list h = take (nat (numSectors h)) (dataSectors h)"

lemma direct_data_list: "direct_file h js \<Longrightarrow> data_list h = js"
  by (simp add: direct_file_def data_list_def)

definition stored_map :: "FileHeader \<Rightarrow> store \<Rightarrow> int list \<Rightarrow> BitMap" where
  "stored_map h d js = \<lparr>numBits = 1024, numWords = 32, bits = decode_words (take 128 (file_bytes h d js))\<rparr>"

lemma length_decode_words: "length bs = 4 * n \<Longrightarrow> length (decode_words bs) = n"
proof (induction n arbitrary: bs)
  case (Suc n)
  then obtain a b c e bs' where "bs = a # b # c # e # bs'"
    by (cases bs; cases "tl bs"; cases "tl (tl bs)"; cases "tl (tl (tl bs))") auto
  then show ?case using Suc by simp
qed simp

definition map_file :: "FileHeader \<Rightarrow> int list \<Rightarrow> bool" where
  "map_file h js \<longleftrightarrow> direct_file h js \<and> numBytes h = 128"

definition dir_file :: "FileHeader \<Rightarrow> int list \<Rightarrow> bool" where
  "dir_file h js \<longleftrightarrow> direct_file h js \<and> numBytes h = 1360"

lemma map_file_bytes: "map_file h js \<Longrightarrow> wf_store d \<Longrightarrow> length (file_bytes h d js) = 128"
  using good_file_lengths(2) [OF direct_good] by (simp add: map_file_def)

lemma dir_file_bytes: "dir_file h js \<Longrightarrow> wf_store d \<Longrightarrow> length (file_bytes h d js) = 1360"
  using good_file_lengths(2) [OF direct_good] by (simp add: dir_file_def)

lemma stored_map_wf: "map_file h js \<Longrightarrow> wf_store d \<Longrightarrow> wf_bitmap (stored_map h d js)"
  using map_file_bytes [of h js d] length_decode_words [of "take 128 (file_bytes h d js)" 32]
  by (simp add: wf_bitmap_def stored_map_def divRoundUp_def)

lemma stored_dir_wf: "dir_file h js \<Longrightarrow> wf_store d \<Longrightarrow>
    list_all wf_entry (stored_dir 10 h d js) \<and> length (stored_dir 10 h d js) = 10"
  using dir_file_bytes [of h js d] table_of_bytes_wf [of "take 1360 (file_bytes h d js)" 10]
  by (simp add: stored_dir_def)

text \<open>Well-formed fresh memory: every object has its size, numbers fit.\<close>

definition wf_memory :: "fresh_memory \<Rightarrow> bool" where
  "wf_memory m \<longleftrightarrow> (\<forall>k. wf_header (hdr_mem m k)) \<and> 32 \<le> length (words_mem m)
     \<and> 10 \<le> length (table_mem m) \<and> list_all wf_entry (table_mem m) \<and> (\<forall>k. 3840 \<le> length (buf_mem m k))"

lemma new_Directory_wf:
  "wf_memory m \<Longrightarrow> list_all wf_entry (new_Directory NumDirEntries (table_mem m))
     \<and> length (new_Directory NumDirEntries (table_mem m)) = 10
     \<and> wf_dir (new_Directory NumDirEntries (table_mem m))
     \<and> dir_map (new_Directory NumDirEntries (table_mem m)) = Map.empty"
  by (auto simp: wf_memory_def new_Directory_def NumDirEntries_def list_all_iff wf_entry_def wf_dir_def
    used_keys_def dir_map_def filter_map comp_def dest: in_set_takeD)

lemma load_dir:
  assumes "dir_file h js" "wf_store d" "wf_memory m"
  shows "dir_FetchFrom (new_Directory NumDirEntries (table_mem m)) h d = Inr (stored_dir 10 h d js)"
  using dir_FetchFrom_good [OF direct_good [of h js d], of "new_Directory NumDirEntries (table_mem m)"]
    new_Directory_wf [OF assms(3)] dir_file_bytes [OF assms(1,2)] assms by (simp add: dir_file_def)

lemma buffer_enough: "direct_file h js \<Longrightarrow> wf_memory m \<Longrightarrow> 128 * length js \<le> length (buf_mem m k)"
proof -
  assume h: "direct_file h js" and m: "wf_memory m"
  have "128 * length js \<le> 3840" using h by (simp add: direct_file_def)
  also have "3840 \<le> length (buf_mem m k)" using m by (simp add: wf_memory_def)
  finally show ?thesis .
qed

lemma save_dir:
  assumes "dir_file h js" "wf_store d" "wf_memory m" "wf_dir t" "length t = 10"
  shows "\<exists>d'. dir_WriteBack (buf_mem m k) t h d = Inr d' \<and> wf_store d' \<and> stored_dir 10 h d' js = t
     \<and> (\<forall>s. s \<notin> set js \<longrightarrow> d' s = d s)"
proof -
  have h: "direct_file h js" using assms(1) by (simp add: dir_file_def)
  show ?thesis
    using dir_WriteBack_good [OF direct_good [OF h assms(2)], of t "buf_mem m k"]
      assms(4,5) dir_file_bytes [OF assms(1,2)] buffer_enough [OF h assms(3)]
    by (auto simp: wf_dir_def good_file_def)
qed

lemma load_map:
  assumes "map_file h js" "wf_store d" "wf_bitmap b" "numBits b = 1024"
  shows "bm_FetchFrom b h d = Inr (stored_map h d js)"
proof -
  have g: "good_file h d js" using assms(1,2) direct_good by (auto simp: map_file_def)
  have b: "numWords b = 32" "length (bits b) = 32" using assms(3,4) by (simp_all add: wf_bitmap_def divRoundUp_def)
  have "ReadAt h 128 0 d = Inr (file_bytes h d js)"
    using ReadAt_good [OF g, of 0 128] map_file_bytes [OF assms(1,2)] by simp
  then show ?thesis
    using b assms(4) map_file_bytes [OF assms(1,2)]
    by (cases b) (simp add: bm_FetchFrom_def overlay_all stored_map_def)
qed

lemma save_map:
  assumes "map_file h js" "wf_store d" "wf_memory m" "wf_bitmap b" "numBits b = 1024"
  shows "\<exists>d'. bm_WriteBack (buf_mem m k) b h d = Inr d' \<and> wf_store d' \<and> stored_map h d' js = b
     \<and> (\<forall>s. s \<notin> set js \<longrightarrow> d' s = d s)"
proof -
  have h: "direct_file h js" using assms(1) by (simp add: map_file_def)
  have b: "numWords b = 32" "length (bits b) = 32" using assms(4,5) by (simp_all add: wf_bitmap_def divRoundUp_def)
  have len: "length (encode_words (bits b)) = 128" by (simp add: b)
  have fb: "length (file_bytes h d js) = 128" by (rule map_file_bytes [OF assms(1,2)])
  have "\<exists>d'. WriteAt (buf_mem m k) h (encode_words (bits b)) (int 128) (int 0) d = Inr (int 128, d')
      \<and> good_file h d' js \<and> file_bytes h d' js = overlay 0 (take 128 (encode_words (bits b))) (file_bytes h d js)
      \<and> (\<forall>s. s \<notin> set js \<longrightarrow> d' s = d s)"
    by (rule WriteAt_whole [OF direct_good [OF h assms(2)]])
      (use fb len buffer_enough [OF h assms(3)] in simp_all)
  then obtain d' where d': "WriteAt (buf_mem m k) h (encode_words (bits b)) 128 0 d = Inr (128, d')"
    "good_file h d' js" "file_bytes h d' js = encode_words (bits b)" "\<forall>s. s \<notin> set js \<longrightarrow> d' s = d s"
    using len fb by (auto simp: overlay_all)
  have "stored_map h d' js = b"
    using b assms(5) len by (cases b) (simp add: stored_map_def d'(3))
  then show ?thesis using d' b by (auto simp: bm_WriteBack_def good_file_def)
qed

lemma stored_dir_frame: "(\<And>s. s \<in> set js \<Longrightarrow> d' s = d s) \<Longrightarrow> stored_dir n h d' js = stored_dir n h d js"
  by (simp add: stored_dir_def file_bytes_frame [of js d' d])

lemma stored_map_frame: "(\<And>s. s \<in> set js \<Longrightarrow> d' s = d s) \<Longrightarrow> stored_map h d' js = stored_map h d js"
  by (simp add: stored_map_def file_bytes_frame [of js d' d])

section \<open>The invariant\<close>

text \<open>A file of the abstract view: header sector, header, data sectors.\<close>

type_synonym fs_file = "int \<times> FileHeader \<times> int list"

definition owned :: "fs_file \<Rightarrow> int set" where
  "owned f = (case f of (s, h, js) \<Rightarrow> insert s (set js))"

definition system_sectors :: "FileSystem \<Rightarrow> int list" where
  "system_sectors fs = FreeMapSector # DirectorySector #
     data_list (hdr (freeMapFile fs)) @ data_list (hdr (directoryFile fs))"

definition the_map :: "FileSystem \<Rightarrow> store \<Rightarrow> BitMap" where
  "the_map fs d = stored_map (hdr (freeMapFile fs)) d (data_list (hdr (freeMapFile fs)))"

definition the_dir :: "FileSystem \<Rightarrow> store \<Rightarrow> Directory" where
  "the_dir fs d = stored_dir 10 (hdr (directoryFile fs)) d (data_list (hdr (directoryFile fs)))"

definition stored_file :: "store \<Rightarrow> fs_file \<Rightarrow> bool" where
  "stored_file d f = (case f of (s, h, js) \<Rightarrow>
     0 \<le> s \<and> s < NumSectors \<and> d s = header_sector h \<and> direct_file h js \<and> s \<notin> set js)"

definition fs_ok :: "FileSystem \<Rightarrow> bool" where
  "fs_ok fs \<longleftrightarrow> map_file (hdr (freeMapFile fs)) (data_list (hdr (freeMapFile fs)))
     \<and> dir_file (hdr (directoryFile fs)) (data_list (hdr (directoryFile fs))) \<and> distinct (system_sectors fs)"

text \<open>The bits that are on are exactly the sectors of the system and of the files, and no sector
  has two owners.\<close>

definition fs_inv :: "FileSystem \<Rightarrow> store \<Rightarrow> (u8 list \<rightharpoonup> fs_file) \<Rightarrow> bool" where
  "fs_inv fs d F \<longleftrightarrow> fs_ok fs \<and> wf_store d \<and> wf_dir (the_dir fs d)
     \<and> dir_map (the_dir fs d) = map_option fst \<circ> F
     \<and> (\<forall>f \<in> ran F. stored_file d f \<and> owned f \<inter> set (system_sectors fs) = {})
     \<and> (\<forall>k k' f f'. F k = Some f \<longrightarrow> F k' = Some f' \<longrightarrow> k \<noteq> k' \<longrightarrow> owned f \<inter> owned f' = {})
     \<and> marked (the_map fs d) = set (system_sectors fs) \<union> (\<Union>f \<in> ran F. owned f)"

lemma system_sectors_mem:
  "FreeMapSector \<in> set (system_sectors fs)" "DirectorySector \<in> set (system_sectors fs)"
  "s \<in> set (data_list (hdr (freeMapFile fs))) \<Longrightarrow> s \<in> set (system_sectors fs)"
  "s \<in> set (data_list (hdr (directoryFile fs))) \<Longrightarrow> s \<in> set (system_sectors fs)"
  by (simp_all add: system_sectors_def)

lemma fs_ok_disjoint:
  "fs_ok fs \<Longrightarrow> s \<in> set (data_list (hdr (freeMapFile fs))) \<Longrightarrow> s \<notin> set (data_list (hdr (directoryFile fs)))"
  by (auto simp: fs_ok_def system_sectors_def)

lemma the_map_wf: "fs_ok fs \<Longrightarrow> wf_store d \<Longrightarrow> wf_bitmap (the_map fs d) \<and> numBits (the_map fs d) = 1024"
  using stored_map_wf by (simp add: fs_ok_def the_map_def) (simp add: stored_map_def)

lemma the_dir_wf: "fs_ok fs \<Longrightarrow> wf_store d \<Longrightarrow> list_all wf_entry (the_dir fs d) \<and> length (the_dir fs d) = 10"
  using stored_dir_wf by (simp add: fs_ok_def the_dir_def)

text \<open>The two final writes of \<open>Create\<close> and \<open>Remove\<close>, in either order.\<close>

lemma save_both:
  assumes ok: "fs_ok fs" "wf_store d" "wf_memory m" and t: "wf_dir t" "length t = 10"
    and b: "wf_bitmap b" "numBits b = 1024"
  shows "\<exists>d1 d2. dir_WriteBack (buf_mem m i) t (hdr (directoryFile fs)) d = Inr d1
       \<and> bm_WriteBack (buf_mem m j) b (hdr (freeMapFile fs)) d1 = Inr d2
       \<and> wf_store d2 \<and> the_dir fs d2 = t \<and> the_map fs d2 = b \<and> (\<forall>s. s \<notin> set (system_sectors fs) \<longrightarrow> d2 s = d s)"
    and "\<exists>d1 d2. bm_WriteBack (buf_mem m i) b (hdr (freeMapFile fs)) d = Inr d1
       \<and> dir_WriteBack (buf_mem m j) t (hdr (directoryFile fs)) d1 = Inr d2
       \<and> wf_store d2 \<and> the_dir fs d2 = t \<and> the_map fs d2 = b \<and> (\<forall>s. s \<notin> set (system_sectors fs) \<longrightarrow> d2 s = d s)"
proof -
  define mj dj where "mj = data_list (hdr (freeMapFile fs))" and "dj = data_list (hdr (directoryFile fs))"
  have f: "map_file (hdr (freeMapFile fs)) mj" "dir_file (hdr (directoryFile fs)) dj"
    using ok(1) by (simp_all add: fs_ok_def mj_def dj_def)
  have disj: "s \<in> set mj \<Longrightarrow> s \<notin> set dj" "s \<in> set dj \<Longrightarrow> s \<notin> set mj" for s
    using fs_ok_disjoint [OF ok(1)] by (auto simp: mj_def dj_def)
  have sys: "s \<notin> set (system_sectors fs) \<Longrightarrow> s \<notin> set mj \<and> s \<notin> set dj" for s
    by (auto simp: system_sectors_def mj_def dj_def)
  obtain d1 where d1: "dir_WriteBack (buf_mem m i) t (hdr (directoryFile fs)) d = Inr d1" "wf_store d1"
    "stored_dir 10 (hdr (directoryFile fs)) d1 dj = t" "\<forall>s. s \<notin> set dj \<longrightarrow> d1 s = d s"
    using save_dir [OF f(2) ok(2,3) t] by blast
  obtain d2 where d2: "bm_WriteBack (buf_mem m j) b (hdr (freeMapFile fs)) d1 = Inr d2" "wf_store d2"
    "stored_map (hdr (freeMapFile fs)) d2 mj = b" "\<forall>s. s \<notin> set mj \<longrightarrow> d2 s = d1 s"
    using save_map [OF f(1) d1(2) ok(3) b] by blast
  have "stored_dir 10 (hdr (directoryFile fs)) d2 dj = t"
    using stored_dir_frame [of dj d2 d1] d2(4) disj d1(3) by auto
  then show "\<exists>d1 d2. dir_WriteBack (buf_mem m i) t (hdr (directoryFile fs)) d = Inr d1
       \<and> bm_WriteBack (buf_mem m j) b (hdr (freeMapFile fs)) d1 = Inr d2
       \<and> wf_store d2 \<and> the_dir fs d2 = t \<and> the_map fs d2 = b \<and> (\<forall>s. s \<notin> set (system_sectors fs) \<longrightarrow> d2 s = d s)"
    using d1 d2 sys by (auto simp: the_dir_def the_map_def mj_def dj_def)
  obtain e1 where e1: "bm_WriteBack (buf_mem m i) b (hdr (freeMapFile fs)) d = Inr e1" "wf_store e1"
    "stored_map (hdr (freeMapFile fs)) e1 mj = b" "\<forall>s. s \<notin> set mj \<longrightarrow> e1 s = d s"
    using save_map [OF f(1) ok(2,3) b] by blast
  obtain e2 where e2: "dir_WriteBack (buf_mem m j) t (hdr (directoryFile fs)) e1 = Inr e2" "wf_store e2"
    "stored_dir 10 (hdr (directoryFile fs)) e2 dj = t" "\<forall>s. s \<notin> set dj \<longrightarrow> e2 s = e1 s"
    using save_dir [OF f(2) e1(2) ok(3) t] by blast
  have "stored_map (hdr (freeMapFile fs)) e2 mj = b"
    using stored_map_frame [of mj e2 e1] e2(4) disj e1(3) by auto
  then show "\<exists>d1 d2. bm_WriteBack (buf_mem m i) b (hdr (freeMapFile fs)) d = Inr d1
       \<and> dir_WriteBack (buf_mem m j) t (hdr (directoryFile fs)) d1 = Inr d2
       \<and> wf_store d2 \<and> the_dir fs d2 = t \<and> the_map fs d2 = b \<and> (\<forall>s. s \<notin> set (system_sectors fs) \<longrightarrow> d2 s = d s)"
    using e1 e2 sys by (auto simp: the_dir_def the_map_def mj_def dj_def)
qed


section \<open>Create\<close>

lemma Create_loads:
  assumes inv: "fs_inv fs d F" and m: "wf_memory m"
  shows "dir_FetchFrom (new_Directory NumDirEntries (table_mem m)) (hdr (directoryFile fs)) d = Inr (the_dir fs d)"
    and "\<exists>b0. new_BitMap NumSectors (words_mem m) = Inr b0 \<and> bm_FetchFrom b0 (hdr (freeMapFile fs)) d = Inr (the_map fs d)"
proof -
  have ok: "fs_ok fs" "wf_store d" using inv by (simp_all add: fs_inv_def)
  show "dir_FetchFrom (new_Directory NumDirEntries (table_mem m)) (hdr (directoryFile fs)) d = Inr (the_dir fs d)"
    using load_dir [OF _ ok(2) m] ok(1) by (simp add: fs_ok_def the_dir_def)
  obtain b0 where b0: "new_BitMap NumSectors (words_mem m) = Inr b0" "wf_bitmap b0" "numBits b0 = 1024"
    using new_BitMap_spec [of NumSectors "words_mem m"] m
    by (auto simp: disk_consts wf_memory_def divRoundUp_def)
  then show "\<exists>b0. new_BitMap NumSectors (words_mem m) = Inr b0 \<and> bm_FetchFrom b0 (hdr (freeMapFile fs)) d = Inr (the_map fs d)"
    using load_map [OF _ ok(2) b0(2,3)] ok(1) by (simp add: fs_ok_def the_map_def)
qed

lemma inv_absent: "fs_inv fs d F \<Longrightarrow> dom (dir_map (the_dir fs d)) = dom F"
  by (auto simp: fs_inv_def dom_def)

lemma stored_file_frame: "stored_file d f \<Longrightarrow> (\<And>s. s \<in> owned f \<Longrightarrow> d' s = d s) \<Longrightarrow> stored_file d' f"
  by (cases f) (auto simp: stored_file_def owned_def)

text \<open>Adding a file whose sectors were all free.\<close>

lemma fs_inv_add:
  assumes inv: "fs_inv fs d F" and k: "k \<notin> dom F"
    and f: "stored_file d' f" "owned f \<inter> marked (the_map fs d) = {}"
    and d': "wf_store d'" "wf_dir (the_dir fs d')" "dir_map (the_dir fs d') = (dir_map (the_dir fs d))(k \<mapsto> fst f)"
    and mk: "marked (the_map fs d') = marked (the_map fs d) \<union> owned f"
    and frame: "\<And>s. s \<notin> set (system_sectors fs) \<Longrightarrow> s \<notin> owned f \<Longrightarrow> d' s = d s"
  shows "fs_inv fs d' (F(k \<mapsto> f))"
proof -
  have mkF: "marked (the_map fs d) = set (system_sectors fs) \<union> (\<Union>f \<in> ran F. owned f)"
    using inv by (simp add: fs_inv_def)
  have ran: "ran (F(k \<mapsto> f)) = insert f (ran F)"
  proof -
    have "F k = None" using k by (cases "F k") auto
    then show ?thesis by (rule ran_map_upd)
  qed
  have fo: "owned g \<inter> owned f = {}" if "g \<in> ran F" for g using that f(2) mkF by auto
  have keep: "stored_file d' g" if g: "g \<in> ran F" for g
    using inv g frame fo [OF g] by (intro stored_file_frame [of d g d']) (auto simp: fs_inv_def)
  have pairs: "owned g \<inter> owned g' = {}" if "(F(k \<mapsto> f)) j = Some g" "(F(k \<mapsto> f)) j' = Some g'" "j \<noteq> j'" for j j' g g'
  proof -
    note j = that
    have F: "\<And>j j' g g'. F j = Some g \<Longrightarrow> F j' = Some g' \<Longrightarrow> j \<noteq> j' \<Longrightarrow> owned g \<inter> owned g' = {}"
      using inv unfolding fs_inv_def by blast
    consider "j = k" "j' \<noteq> k" | "j \<noteq> k" "j' = k" | "j \<noteq> k" "j' \<noteq> k" using j(3) by blast
    then show ?thesis
    proof cases
      case 1
      then show ?thesis using j fo [of g'] by (auto simp: ranI)
    next
      case 2
      then show ?thesis using j fo [of g] by (auto simp: ranI)
    next
      case 3
      then show ?thesis using j F by auto
    qed
  qed
  have map: "dir_map (the_dir fs d') = map_option fst \<circ> F(k \<mapsto> f)"
    using inv d'(3) by (auto simp: fs_inv_def fun_eq_iff)
  show ?thesis
    unfolding fs_inv_def ran
    using inv f d'(1,2) map mk mkF keep pairs by (auto simp: fs_inv_def)
qed


lemma NumClear_card: "NumClear b = Inr (int (card ({0 ..< numBits b} - marked b)))"
  by (simp add: NumClear_spec free_bits_def)

text \<open>The three writes at the end of \<open>Create\<close>.\<close>

lemma Create_commit:
  assumes inv: "fs_inv fs d F" and m: "wf_memory m" and absent: "key nm \<notin> dom F"
    and s: "0 \<le> s" "s < NumSectors" "s \<notin> marked (the_map fs d)" and b1: "marked b1 = insert s (marked (the_map fs d))"
    and t': "wf_dir t'" "length t' = 10" "dir_map t' = (dir_map (the_dir fs d))(key nm \<mapsto> s)" and h: "direct_file h' js"
    and b2: "wf_bitmap b2" "numBits b2 = 1024" "set js \<subseteq> {0 ..< 1024} - marked b1" "marked b2 = marked b1 \<union> set js"
  shows "\<exists>d1 d2 d3. hdr_WriteBack h' s (zap js d) = Inr d1 \<and> dir_WriteBack (buf_mem m 0) t' (hdr (directoryFile fs)) d1 = Inr d2
    \<and> bm_WriteBack (buf_mem m 1) b2 (hdr (freeMapFile fs)) d2 = Inr d3 \<and> fs_inv fs d3 (F(key nm \<mapsto> (s, h', js)))
    \<and> (\<forall>x \<in> set js. d3 x = replicate 128 0) \<and> (\<forall>f \<in> ran F. \<forall>x \<in> owned f. d3 x = d x)"
proof -
  have ok: "fs_ok fs" "wf_store d" using inv by (simp_all add: fs_inv_def)
  define d1 where "d1 = (zap js d)(s := header_sector h')"
  have hl: "length (dataSectors h') = 30" using h by (simp add: direct_file_def wf_header_def)
  have wb: "hdr_WriteBack h' s (zap js d) = Inr d1"
    unfolding d1_def by (rule hdr_WriteBack_eq [OF hl s(1,2)])
  have w1: "wf_store d1" using zap_wf [OF ok(2)] hl by (simp add: d1_def wf_store_def header_sector_def)
  obtain d2 d3 where sv: "dir_WriteBack (buf_mem m 0) t' (hdr (directoryFile fs)) d1 = Inr d2"
    "bm_WriteBack (buf_mem m 1) b2 (hdr (freeMapFile fs)) d2 = Inr d3" "wf_store d3" "the_dir fs d3 = t'"
    "the_map fs d3 = b2" "\<forall>x. x \<notin> set (system_sectors fs) \<longrightarrow> d3 x = d1 x"
    using save_both(1) [OF ok(1) w1 m t'(1,2) b2(1,2)] by blast
  have sys: "set (system_sectors fs) \<subseteq> marked (the_map fs d)" "\<And>f. f \<in> ran F \<Longrightarrow> owned f \<subseteq> marked (the_map fs d)"
    using inv by (auto simp: fs_inv_def)
  have own: "owned (s, h', js) = insert s (set js)" by (simp add: owned_def)
  have free: "insert s (set js) \<inter> marked (the_map fs d) = {}" "s \<notin> set js" using b2(3) s(3) b1 by auto
  have ns: "x \<notin> set (system_sectors fs)" if "x \<in> insert s (set js)" for x using that free sys by auto
  have st: "stored_file d3 (s, h', js)"
    using sv(6) ns [of s] h s(1,2) free(2) by (simp add: stored_file_def d1_def)
  have fr: "\<And>x. x \<notin> set (system_sectors fs) \<Longrightarrow> x \<notin> owned (s, h', js) \<Longrightarrow> d3 x = d x"
    using sv(6) by (simp add: d1_def own)
  have dm: "dir_map (the_dir fs d3) = (dir_map (the_dir fs d))(key nm \<mapsto> fst (s, h', js))" using t'(3) sv(4) by simp
  have mk: "marked (the_map fs d3) = marked (the_map fs d) \<union> owned (s, h', js)" using sv(5) b2(4) b1 by (auto simp: own)
  have inv': "fs_inv fs d3 (F(key nm \<mapsto> (s, h', js)))"
    by (rule fs_inv_add [OF inv absent st _ sv(3) _ dm mk fr])
      (use own free sv(4) t'(1) in auto)
  have zeros: "\<forall>x \<in> set js. d3 x = replicate 128 0"
    using sv(6) ns free(2) by (auto simp: d1_def)
  have others: "\<forall>g \<in> ran F. \<forall>x \<in> owned g. d3 x = d x"
  proof (intro ballI)
    fix g x assume g: "g \<in> ran F" "x \<in> owned g"
    then have "x \<notin> set (system_sectors fs)" using inv by (auto simp: fs_inv_def)
    then show "d3 x = d x" using fr g sys(2) free own by blast
  qed
  show ?thesis using wb sv(1,2) inv' zeros others by blast
qed

text \<open>The start of \<open>Create\<close>: the name, and the sector for the header.\<close>

lemma Create_present:
  assumes inv: "fs_inv fs d F" and m: "wf_memory m" and k: "key nm \<in> dom F"
  shows "Create m fs nm fileSize d = Inr (False, d)"
proof -
  obtain s where s: "dir_map (the_dir fs d) (key nm) = Some s" using k inv_absent [OF inv] by blast
  then obtain f where "F (key nm) = Some f" "s = fst f" using inv by (auto simp: fs_inv_def)
  then have "0 \<le> s" using inv by (auto simp: fs_inv_def stored_file_def ranI case_prod_beta)
  then have "dir_Find (the_dir fs d) nm \<noteq> -1" using s by (simp add: dir_Find_spec)
  then show ?thesis using Create_loads(1) [OF inv m] by (simp add: Create_def)
qed

lemma Create_absent:
  assumes inv: "fs_inv fs d F" and m: "wf_memory m" and absent: "key nm \<notin> dom F" and f: "Find (the_map fs d) = Inr (s, b1)"
  shows "Create m fs nm fileSize d =
    (if s = -1 then Inr (False, d)
     else let (added, t) = Add (the_dir fs d) nm s in
       if \<not> added then Inr (False, d)
       else bindR (Allocate (hdr_mem m 0) b1 fileSize d) (\<lambda>(ok, h, freeMap, d).
         if \<not> ok then Inr (False, d)
         else bindR (hdr_WriteBack h s d) (\<lambda>d.
              bindR (dir_WriteBack (buf_mem m 0) t (hdr (directoryFile fs)) d) (\<lambda>d.
              bindR (bm_WriteBack (buf_mem m 1) freeMap (hdr (freeMapFile fs)) d) (\<lambda>d. Inr (True, d))))))"
proof -
  obtain b0 where "new_BitMap NumSectors (words_mem m) = Inr b0" "bm_FetchFrom b0 (hdr (freeMapFile fs)) d = Inr (the_map fs d)"
    using Create_loads(2) [OF inv m] by blast
  moreover have "dir_Find (the_dir fs d) nm = -1"
    using absent inv_absent [OF inv] by (auto simp: dir_Find_spec split: option.split)
  ultimately show ?thesis using Create_loads(1) [OF inv m] f by (simp add: Create_def)
qed

lemma Create_sector:
  assumes inv: "fs_inv fs d F" and c: "NumClear (the_map fs d) = Inr c"
  obtains "Find (the_map fs d) = Inr (-1, the_map fs d)" "c = 0"
  | s b1 where "Find (the_map fs d) = Inr (s, b1)" "wf_bitmap b1" "numBits b1 = 1024" "NumClear b1 = Inr (c - 1)"
    "s \<notin> marked (the_map fs d)" "marked b1 = insert s (marked (the_map fs d))" "0 \<le> s" "s < NumSectors" "is_int32 s"
proof (cases "marked (the_map fs d) = {0 ..< 1024}")
  case True
  have b: "wf_bitmap (the_map fs d) \<and> numBits (the_map fs d) = 1024" using inv the_map_wf by (simp add: fs_inv_def)
  then have "Find (the_map fs d) = Inr (-1, the_map fs d)" using bm.find_full_law True by simp
  moreover have "c = 0" using c b True by (simp add: NumClear_card)
  ultimately show ?thesis by (rule that(1))
next
  case False
  have b: "wf_bitmap (the_map fs d) \<and> numBits (the_map fs d) = 1024" using inv the_map_wf by (simp add: fs_inv_def)
  then obtain s b1 where f: "Find (the_map fs d) = Inr (s, b1)" "wf_bitmap b1" "numBits b1 = 1024"
    "s \<in> {0 ..< 1024} - marked (the_map fs d)" "marked b1 = insert s (marked (the_map fs d))"
    using bm.find_law [of "the_map fs d"] False by auto
  have "{0 ..< 1024} - marked b1 = ({0 ..< 1024} - marked (the_map fs d)) - {s}" using f(5) by auto
  then have "NumClear b1 = Inr (c - 1)" using card.remove [OF _ f(4)] f(3) c b by (simp add: NumClear_card)
  then show ?thesis using f by (intro that(2) [of s b1]) (auto simp: disk_consts is_int32_def)
qed

lemma Create_spec:
  assumes inv: "fs_inv fs d F" and m: "wf_memory m" and size: "0 \<le> fileSize" "fileSize \<le> 3840"
    and n: "n = data_sectors fileSize" and c: "NumClear (the_map fs d) = Inr c"
  shows "if key nm \<in> dom F \<or> (\<forall>e \<in> set (the_dir fs d). inUse e) \<or> c < int n + 1
    then Create m fs nm fileSize d = Inr (False, d)
    else \<exists>d' s h js. Create m fs nm fileSize d = Inr (True, d') \<and> fs_inv fs d' (F(key nm \<mapsto> (s, h, js)))
      \<and> numBytes h = fileSize \<and> length js = n \<and> (\<forall>x \<in> set js. d' x = replicate 128 0)
      \<and> (\<forall>f \<in> ran F. \<forall>x \<in> owned f. d' x = d x)"
proof (cases "key nm \<in> dom F")
  case True
  then show ?thesis using Create_present [OF inv m] by simp
next
  case absent: False
  let ?t = "the_dir fs d"
  have ok: "fs_ok fs" "wf_store d" "wf_dir ?t" using inv by (simp_all add: fs_inv_def)
  have len: "length ?t = 10" using the_dir_wf [OF ok(1,2)] by simp
  note cr = Create_absent [OF inv m absent]
  show ?thesis
  proof (rule Create_sector [OF inv c])
    assume "Find (the_map fs d) = Inr (-1, the_map fs d)" "c = 0"
    then show ?thesis using cr by simp
  next
    fix s b1 assume f: "Find (the_map fs d) = Inr (s, b1)" "wf_bitmap b1" "numBits b1 = 1024" "NumClear b1 = Inr (c - 1)"
      "s \<notin> marked (the_map fs d)" "marked b1 = insert s (marked (the_map fs d))" and s: "0 \<le> s" "s < NumSectors" "is_int32 s"
    have s1: "s \<noteq> -1" and nb1: "numBits b1 \<le> NumSectors" and wm: "wf_header (hdr_mem m 0)"
      using s(1) f(3) m by (simp_all add: disk_consts wf_memory_def)
    note al = Allocate_direct [OF wm f(2) nb1 size f(4) n, of d]
    note add = Add_spec [OF ok(3) s(3), of nm]
    consider "\<forall>e \<in> set ?t. inUse e" | "\<not> (\<forall>e \<in> set ?t. inUse e)" "c - 1 < int n" | "\<not> (\<forall>e \<in> set ?t. inUse e)" "int n \<le> c - 1" by linarith
    then show ?thesis
    proof cases
      case 1
      then have "Add ?t nm s = (False, ?t)" using add by simp
      then show ?thesis using 1 s1 by (simp add: cr [OF f(1)])
    next
      case 2
      then obtain t' where "Add ?t nm s = (True, t')"
        using add absent inv_absent [OF inv] by (auto split: if_splits)
      moreover obtain h' where "Allocate (hdr_mem m 0) b1 fileSize d = Inr (False, h', b1, d)" using al 2(2) by auto
      ultimately show ?thesis using 2 s1 by (simp add: cr [OF f(1)])
    next
      case 3
      have nd: "\<not> (key nm \<in> dom (dir_map ?t) \<or> (\<forall>e \<in> set ?t. inUse e))" unfolding inv_absent [OF inv] using absent 3(1) by blast
      obtain t' where t': "Add ?t nm s = (True, t')" "wf_dir t'" "length t' = 10" "dir_map t' = (dir_map ?t)(key nm \<mapsto> s)"
        using add unfolding if_not_P [OF nd] len by blast
      obtain h' b2 js where a: "Allocate (hdr_mem m 0) b1 fileSize d = Inr (True, h', b2, zap js d)"
        "direct_file h' js" "numBytes h' = fileSize" "length js = n" "wf_bitmap b2" "numBits b2 = 1024"
        "set js \<subseteq> {0 ..< 1024} - marked b1" "marked b2 = marked b1 \<union> set js"
        using al f(3) 3(2) by auto
      obtain d1 d2 d3 where w: "hdr_WriteBack h' s (zap js d) = Inr d1" "dir_WriteBack (buf_mem m 0) t' (hdr (directoryFile fs)) d1 = Inr d2"
        "bm_WriteBack (buf_mem m 1) b2 (hdr (freeMapFile fs)) d2 = Inr d3" "fs_inv fs d3 (F(key nm \<mapsto> (s, h', js)))"
        "\<forall>x \<in> set js. d3 x = replicate 128 0" "\<forall>f \<in> ran F. \<forall>x \<in> owned f. d3 x = d x"
        using Create_commit [OF inv m absent s(1,2) f(5,6) t'(2,3,4) a(2,5-8)] by blast
      have "Create m fs nm fileSize d = Inr (True, d3)" using s1 t'(1) a(1) w(1-3) by (simp add: cr [OF f(1)])
      moreover have go: "\<not> (key nm \<in> dom F \<or> (\<forall>e \<in> set ?t. inUse e) \<or> c < int n + 1)" using absent 3 by linarith
      ultimately show ?thesis unfolding if_not_P [OF go] using w(4-6) a(3,4) by blast
    qed
  qed
qed


section \<open>Open and Remove\<close>

lemma inv_lookup:
  assumes inv: "fs_inv fs d F" and k: "F k = Some (s, h, js)"
  shows "dir_map (the_dir fs d) k = Some s" "0 \<le> s" "s < NumSectors" "d s = header_sector h"
    "direct_file h js" "s \<notin> set js" "owned (s, h, js) \<subseteq> marked (the_map fs d)"
proof -
  have "(s, h, js) \<in> ran F" using k by (rule ranI)
  then have "stored_file d (s, h, js)" "owned (s, h, js) \<subseteq> marked (the_map fs d)"
    using inv by (auto simp: fs_inv_def)
  then show "0 \<le> s" "s < NumSectors" "d s = header_sector h" "direct_file h js" "s \<notin> set js"
    "owned (s, h, js) \<subseteq> marked (the_map fs d)" by (simp_all add: stored_file_def)
  show "dir_map (the_dir fs d) k = Some s" using inv k by (simp add: fs_inv_def)
qed

lemma Open_spec:
  assumes inv: "fs_inv fs d F" and m: "wf_memory m"
  shows "case F (key nm) of None \<Rightarrow> Open m fs nm d = Inr None
    | Some (s, h, js) \<Rightarrow> \<exists>f. Open m fs nm d = Inr (Some f) \<and> seekPosition f = 0 \<and> Length f = numBytes h
        \<and> good_file (hdr f) d js \<and> file_bytes (hdr f) d js = file_bytes h d js"
proof (cases "F (key nm)")
  case None
  then have "key nm \<notin> dom F" by auto
  then have "key nm \<notin> dom (dir_map (the_dir fs d))" by (simp only: inv_absent [OF inv] not_False_eq_True)
  then have "dir_map (the_dir fs d) (key nm) = None" by auto
  then have "dir_Find (the_dir fs d) nm = -1" by (simp add: dir_Find_spec)
  then show ?thesis using None Create_loads(1) [OF inv m] by (simp add: Open_def)
next
  case (Some f)
  then obtain s h js where k: "F (key nm) = Some (s, h, js)" by (cases f) auto
  note l = inv_lookup [OF inv k]
  have find: "dir_Find (the_dir fs d) nm = s" using l(1) by (simp add: dir_Find_spec)
  have w: "wf_header h" "wf_store d" using l(5) inv by (simp_all add: direct_file_def fs_inv_def)
  define h' where "h' = (hdr_mem m 0)\<lparr>numBytes := numBytes h, numSectors := numSectors h, dataSectors := dataSectors h\<rparr>"
  have "hdr_FetchFrom (hdr_mem m 0) s d = Inr h'"
    unfolding h'_def by (rule hdr_FetchFrom_eq [where d = d and h = h, OF w(1) l(2,3,4)])
  then have "Open m fs nm d = Inr (Some \<lparr>hdr = h', seekPosition = 0\<rparr>)"
    using Create_loads(1) [OF inv m] l(2) find by (simp add: Open_def new_OpenFile_def)
  moreover have "good_file h' d js"
    using direct_good [OF direct_fetched [OF l(5)] w(2)] by (simp add: h'_def)
  ultimately show ?thesis
    by (simp add: k Length_def FileLength_def h'_def file_bytes_fetched)
qed

text \<open>Dropping a file.\<close>

lemma ran_delete: "F k = Some f \<Longrightarrow> ran F = insert f (ran (F(k := None)))"
  by (metis fun_upd_same fun_upd_triv fun_upd_upd ran_map_upd)

lemma fs_inv_other:
  assumes inv: "fs_inv fs d F" and k: "F k = Some f" and g: "g \<in> ran (F(k := None))"
  shows "g \<in> ran F" "owned g \<inter> owned f = {}"
proof -
  obtain j where "F j = Some g" "j \<noteq> k" using g by (auto simp: ran_def split: if_splits)
  moreover from inv have "\<And>j j' g g'. F j = Some g \<Longrightarrow> F j' = Some g' \<Longrightarrow> j \<noteq> j' \<Longrightarrow> owned g \<inter> owned g' = {}"
    unfolding fs_inv_def by blast
  ultimately show "g \<in> ran F" "owned g \<inter> owned f = {}" using k by (auto simp: ranI)
qed

lemma fs_inv_drop:
  assumes inv: "fs_inv fs d F" and k: "F k = Some f"
    and d': "wf_store d'" "wf_dir (the_dir fs d')" "dir_map (the_dir fs d') = (dir_map (the_dir fs d))(k := None)"
    and mk: "marked (the_map fs d') = marked (the_map fs d) - owned f"
    and frame: "\<And>s. s \<notin> set (system_sectors fs) \<Longrightarrow> d' s = d s"
  shows "fs_inv fs d' (F(k := None))"
proof -
  have all: "\<forall>g \<in> ran F. stored_file d g \<and> owned g \<inter> set (system_sectors fs) = {}"
    and pairs: "\<And>j j' g g'. F j = Some g \<Longrightarrow> F j' = Some g' \<Longrightarrow> j \<noteq> j' \<Longrightarrow> owned g \<inter> owned g' = {}"
    and mkF: "marked (the_map fs d) = set (system_sectors fs) \<union> (\<Union>g \<in> ran F. owned g)"
    and dmF: "dir_map (the_dir fs d) = map_option fst \<circ> F" and ok: "fs_ok fs"
    using inv unfolding fs_inv_def by blast+
  note sub = fs_inv_other [OF inv k]
  have keep: "stored_file d' g" if g: "g \<in> ran (F(k := None))" for g
    using all sub(1) [OF g] frame by (intro stored_file_frame [of d g d']) auto
  have "owned f \<inter> set (system_sectors fs) = {}" using all k by (blast intro: ranI)
  then have "marked (the_map fs d') = set (system_sectors fs) \<union> (\<Union>g \<in> ran (F(k := None)). owned g)"
    using mk mkF ran_delete [of F k f, OF k] sub(2) by (simp only: ran_delete [of F k f, OF k]) blast
  moreover have "dir_map (the_dir fs d') = map_option fst \<circ> F(k := None)"
    using d'(3) dmF by (simp add: fun_eq_iff)
  moreover have "\<forall>g \<in> ran (F(k := None)). stored_file d' g \<and> owned g \<inter> set (system_sectors fs) = {}"
    using keep all sub(1) by blast
  moreover have "\<forall>j j' g g'. (F(k := None)) j = Some g \<longrightarrow> (F(k := None)) j' = Some g' \<longrightarrow> j \<noteq> j' \<longrightarrow> owned g \<inter> owned g' = {}"
    using pairs by (metis fun_upd_apply option.distinct(1))
  ultimately show ?thesis unfolding fs_inv_def using ok d'(1,2) by blast
qed

text \<open>The sectors of a file, its header last, go back to the map.\<close>

lemma free_file:
  assumes b: "wf_bitmap b \<and> numBits b = 1024" and h: "direct_file h js" and sub: "set js \<subseteq> marked b" "s \<in> marked b" and s: "s \<notin> set js"
  shows "\<exists>b1 b2. Deallocate h b d = Inr b1 \<and> Clear b1 s = Inr b2 \<and> wf_bitmap b2 \<and> numBits b2 = 1024
    \<and> marked b2 = marked b - insert s (set js)"
proof -
  have lay: "file_layout h d js" "index_sectors h d (length js) = []" using direct_layout [OF h] by simp_all
  have "\<exists>b'. Deallocate h b d = Inr b' \<and> wf_bitmap b' \<and> numBits b' = numBits b
      \<and> marked b' = marked b - set (js @ index_sectors h d (length js))"
    by (rule Deallocate_layout [OF lay(1)]) (use b h sub lay(2) in \<open>simp_all add: direct_file_def\<close>)
  then obtain b1 where b1: "Deallocate h b d = Inr b1" "wf_bitmap b1" "numBits b1 = 1024" "marked b1 = marked b - set js"
    using lay(2) b by auto
  then show ?thesis using Clear_marked [OF b1(2), of s] sub(2) s by auto
qed

lemma Remove_fs_spec:
  assumes inv: "fs_inv fs d F" and m: "wf_memory m"
  shows "if key nm \<notin> dom F then fs_Remove m fs nm d = Inr (False, d)
    else \<exists>d'. fs_Remove m fs nm d = Inr (True, d') \<and> fs_inv fs d' (F(key nm := None))
      \<and> (\<forall>x. x \<notin> set (system_sectors fs) \<longrightarrow> d' x = d x)"
proof -
  let ?b = "the_map fs d" and ?t = "the_dir fs d"
  have ok: "fs_ok fs" "wf_store d" "wf_dir ?t" using inv by (simp_all add: fs_inv_def)
  note b = the_map_wf [OF ok(1,2)]
  have len: "length ?t = 10" using the_dir_wf [OF ok(1,2)] by simp
  note ld = Create_loads(1) [OF inv m]
  obtain b0 where lm: "new_BitMap NumSectors (words_mem m) = Inr b0"
    "bm_FetchFrom b0 (hdr (freeMapFile fs)) d = Inr ?b" using Create_loads(2) [OF inv m] by blast
  have dom: "dom (dir_map ?t) = dom F" by (rule inv_absent [OF inv])
  show ?thesis
  proof (cases "key nm \<in> dom F")
    case False
    then have "key nm \<notin> dom (dir_map ?t)" by (simp only: dom not_False_eq_True)
    then have "dir_map ?t (key nm) = None" by auto
    then have "dir_Find ?t nm = -1" by (simp add: dir_Find_spec)
    then show ?thesis using False ld by (simp add: fs_Remove_def)
  next
    case True
    then obtain s h js where k: "F (key nm) = Some (s, h, js)" by (metis domD prod_cases3)
    note l = inv_lookup [OF inv k]
    have find: "dir_Find ?t nm = s" using l(1) by (simp add: dir_Find_spec)
    have w: "wf_header h" using l(5) by (simp add: direct_file_def)
    define h' where "h' = (hdr_mem m 0)\<lparr>numBytes := numBytes h, numSectors := numSectors h, dataSectors := dataSectors h\<rparr>"
    have fetch: "hdr_FetchFrom (hdr_mem m 0) s d = Inr h'"
      unfolding h'_def by (rule hdr_FetchFrom_eq [where d = d and h = h, OF w l(2,3,4)])
    have df: "direct_file h' js" unfolding h'_def by (rule direct_fetched [OF l(5)])
    have sub: "set js \<subseteq> marked ?b" "s \<in> marked ?b" using l(7) by (simp_all add: owned_def)
    obtain b1 b2 where b1: "Deallocate h' ?b d = Inr b1" and b2: "Clear b1 s = Inr b2" "wf_bitmap b2" "numBits b2 = 1024"
      "marked b2 = marked ?b - owned (s, h, js)"
      using free_file [OF b df sub l(6), of d] unfolding owned_def prod.case by blast
    have nd: "\<not> key nm \<notin> dom (dir_map ?t)" unfolding dom using True by blast
    obtain t' where t': "dir_Remove ?t nm = (True, t')" "wf_dir t'" "length t' = 10"
      "dir_map t' = (dir_map ?t)(key nm := None)"
      using Remove_spec [OF ok(3), of nm] unfolding if_not_P [OF nd] len by blast
    obtain d1 d2 where sv: "bm_WriteBack (buf_mem m 0) b2 (hdr (freeMapFile fs)) d = Inr d1"
      "dir_WriteBack (buf_mem m 1) t' (hdr (directoryFile fs)) d1 = Inr d2" "wf_store d2" "the_dir fs d2 = t'"
      "the_map fs d2 = b2" "\<forall>x. x \<notin> set (system_sectors fs) \<longrightarrow> d2 x = d x"
      using save_both(2) [OF ok(1,2) m t'(2,3) b2(2,3)] by blast
    have "s \<noteq> -1" using l(2) by simp
    then have rm: "fs_Remove m fs nm d = Inr (True, d2)"
      using ld lm find fetch b1 b2(1) t'(1) sv(1,2) by (simp add: fs_Remove_def)
    have "marked (the_map fs d2) = marked ?b - owned (s, h, js)" using sv(5) b2(4) by simp
    then have "fs_inv fs d2 (F(key nm := None))"
      using sv t' by (intro fs_inv_drop [OF inv k]) simp_all
    then show ?thesis using True rm sv(6) by auto
  qed
qed


section \<open>Formatting\<close>

lemma Mark_marked:
  "wf_bitmap b \<Longrightarrow> 0 \<le> i \<Longrightarrow> i < numBits b \<Longrightarrow>
     \<exists>b'. Mark b i = Inr b' \<and> wf_bitmap b' \<and> numBits b' = numBits b \<and> marked b' = insert i (marked b)"
proof -
  assume w: "wf_bitmap b" "0 \<le> i" "i < numBits b"
  obtain b' where b': "Mark b i = Inr b'" using Mark_ok [OF w(2,3)] by blast
  then show ?thesis using Mark_wf [OF w(1) b'] Mark_frame [OF b'] marked_Mark [OF w(1) b'] by simp
qed

text \<open>The two files of the file system, and the map after their sectors have been taken.\<close>

lemma format_allocates:
  assumes m: "wf_memory m"
  obtains b0 b1 b2 mh b3 mj dh b4 dj where "new_BitMap NumSectors (words_mem m) = Inr b0" "Mark b0 0 = Inr b1" "Mark b1 1 = Inr b2"
    "Allocate (hdr_mem m 0) b2 128 d = Inr (True, mh, b3, zap mj d)"
    "Allocate (hdr_mem m 1) b3 1360 (zap mj d) = Inr (True, dh, b4, zap dj (zap mj d))"
    "direct_file mh mj" "numBytes mh = 128" "direct_file dh dj" "numBytes dh = 1360"
    "wf_bitmap b4" "numBits b4 = 1024" "marked b4 = {0, 1} \<union> set mj \<union> set dj" "distinct (0 # 1 # mj @ dj)"
proof -
  obtain b0 where b0: "new_BitMap NumSectors (words_mem m) = Inr b0" "wf_bitmap b0" "numBits b0 = 1024" "marked b0 = {}"
    using new_BitMap_spec [of NumSectors "words_mem m"] m
    by (auto simp: disk_consts wf_memory_def divRoundUp_def)
  obtain b1 where b1: "Mark b0 0 = Inr b1" "wf_bitmap b1" "numBits b1 = 1024" "marked b1 = {0}"
    using Mark_marked [OF b0(2), of 0] b0(3,4) by auto
  obtain b2 where b2: "Mark b1 1 = Inr b2" "wf_bitmap b2" "numBits b2 = 1024" "marked b2 = {0, 1}"
    using Mark_marked [OF b1(2), of 1] b1(3,4) by auto
  have n2: "numBits b2 \<le> NumSectors" using b2(3) by (simp add: disk_consts)
  have "card ({0 ..< 1024} - {0, 1 :: int}) = 1022" by (simp add: card_Diff_subset)
  then have c2: "NumClear b2 = Inr 1022" by (simp add: NumClear_card b2(3,4))
  have wm: "wf_header (hdr_mem m 0)" "wf_header (hdr_mem m 1)" using m by (simp_all add: wf_memory_def)
  have s: "data_sectors 128 = 1" "data_sectors 1360 = 11" by (simp_all add: data_sectors_def)
  obtain mh b3 mj where a1: "Allocate (hdr_mem m 0) b2 128 d = Inr (True, mh, b3, zap mj d)" "direct_file mh mj"
    "numBytes mh = 128" "length mj = 1" "wf_bitmap b3" "numBits b3 = 1024" "set mj \<subseteq> {0 ..< 1024} - {0, 1}"
    "marked b3 = {0, 1} \<union> set mj"
    using Allocate_direct [OF wm(1) b2(2) n2 _ _ c2 refl, of 128 d] s b2(3,4) by auto
  have "card ({0, 1} \<union> set mj) \<le> 3"
    using card_Un_le [of "{0, 1}" "set mj"] card_length [of mj] a1(4) by simp
  moreover have "card ({0 ..< 1024} - ({0, 1} \<union> set mj)) = 1024 - card ({0, 1} \<union> set mj)"
    using a1(7) by (subst card_Diff_subset) auto
  ultimately have c3: "\<exists>c. NumClear b3 = Inr c \<and> 11 \<le> c" by (simp add: NumClear_card a1(6,8))
  then obtain c where c: "NumClear b3 = Inr c" "11 \<le> c" by blast
  have n3: "numBits b3 \<le> NumSectors" using a1(6) by (simp add: disk_consts)
  obtain dh b4 dj where a2: "Allocate (hdr_mem m 1) b3 1360 (zap mj d) = Inr (True, dh, b4, zap dj (zap mj d))"
    "direct_file dh dj" "numBytes dh = 1360" "wf_bitmap b4" "numBits b4 = 1024" "set dj \<subseteq> {0 ..< 1024} - marked b3"
    "marked b4 = marked b3 \<union> set dj"
    using Allocate_direct [OF wm(2) a1(5) n3 _ _ c(1) refl, of 1360 "zap mj d"] s c(2) a1(6) by auto
  have "distinct (0 # 1 # mj @ dj)" using a1(2,7,8) a2(2,6) by (auto simp: direct_file_def)
  then show ?thesis using that b0(1) b1(1) b2(1) a1(1-3) a2(1-5,7) a1(8) by blast
qed

lemma format_spec:
  assumes d: "wf_store d" and m: "wf_memory m"
  shows "\<exists>fs d'. FileSystem_format m d = Inr (fs, d') \<and> fs_inv fs d' Map.empty"
proof -
  obtain b0 b1 b2 mh b3 mj dh b4 dj where b: "new_BitMap NumSectors (words_mem m) = Inr b0" "Mark b0 0 = Inr b1" "Mark b1 1 = Inr b2"
    and a1: "Allocate (hdr_mem m 0) b2 128 d = Inr (True, mh, b3, zap mj d)" "direct_file mh mj" "numBytes mh = 128"
    and a2: "Allocate (hdr_mem m 1) b3 1360 (zap mj d) = Inr (True, dh, b4, zap dj (zap mj d))" "direct_file dh dj" "numBytes dh = 1360"
    and b4: "wf_bitmap b4" "numBits b4 = 1024" "marked b4 = {0, 1} \<union> set mj \<union> set dj" "distinct (0 # 1 # mj @ dj)"
    by (rule format_allocates [OF m, of d])
  define d1 where "d1 = (zap dj (zap mj d))(0 := header_sector mh, 1 := header_sector dh)"
  have hl: "length (dataSectors mh) = 30" "length (dataSectors dh) = 30" "wf_header mh" "wf_header dh"
    using a1(2) a2(2) by (auto simp: direct_file_def wf_header_def)
  have w1: "hdr_WriteBack mh 0 (zap dj (zap mj d)) = Inr ((zap dj (zap mj d))(0 := header_sector mh))"
    by (rule hdr_WriteBack_eq [OF hl(1)]) (simp_all add: disk_consts)
  have w2: "hdr_WriteBack dh 1 ((zap dj (zap mj d))(0 := header_sector mh)) = Inr d1"
    unfolding d1_def by (rule hdr_WriteBack_eq [OF hl(2)]) (simp_all add: disk_consts)
  have ws: "wf_store d1"
    using zap_wf [OF zap_wf [OF d]] hl(1,2) by (simp add: d1_def wf_store_def header_sector_def)
  define mh' dh' where "mh' = (hdr_mem m 2)\<lparr>numBytes := numBytes mh, numSectors := numSectors mh, dataSectors := dataSectors mh\<rparr>"
    and "dh' = (hdr_mem m 3)\<lparr>numBytes := numBytes dh, numSectors := numSectors dh, dataSectors := dataSectors dh\<rparr>"
  define fs where "fs = \<lparr>freeMapFile = \<lparr>hdr = mh', seekPosition = 0\<rparr>, directoryFile = \<lparr>hdr = dh', seekPosition = 0\<rparr>\<rparr>"
  have d01: "d1 0 = header_sector mh" "d1 1 = header_sector dh" by (simp_all add: d1_def)
  have f1: "hdr_FetchFrom (hdr_mem m 2) 0 d1 = Inr mh'"
    unfolding mh'_def by (rule hdr_FetchFrom_eq [where d = d1 and h = mh, OF hl(3)]) (simp_all add: d01 disk_consts)
  have f2: "hdr_FetchFrom (hdr_mem m 3) 1 d1 = Inr dh'"
    unfolding dh'_def by (rule hdr_FetchFrom_eq [where d = d1 and h = dh, OF hl(4)]) (simp_all add: d01 disk_consts)
  have df: "direct_file mh' mj" "direct_file dh' dj" "numBytes mh' = 128" "numBytes dh' = 1360"
    using direct_fetched [OF a1(2)] direct_fetched [OF a2(2)] a1(3) a2(3) by (simp_all add: mh'_def dh'_def)
  have dl: "data_list mh' = mj" "data_list dh' = dj" by (rule direct_data_list [OF df(1)], rule direct_data_list [OF df(2)])
  have sys: "system_sectors fs = 0 # 1 # mj @ dj" by (simp add: system_sectors_def fs_def fs_consts dl)
  have ok: "fs_ok fs"
    unfolding fs_ok_def sys using df b4(4) by (simp add: fs_def dl map_file_def dir_file_def)
  let ?t = "new_Directory NumDirEntries (table_mem m)"
  note nd = new_Directory_wf [OF m]
  obtain d2 d3 where sv: "bm_WriteBack (buf_mem m 0) b4 (hdr (freeMapFile fs)) d1 = Inr d2"
    "dir_WriteBack (buf_mem m 1) ?t (hdr (directoryFile fs)) d2 = Inr d3" "wf_store d3" "the_dir fs d3 = ?t" "the_map fs d3 = b4"
    using save_both(2) [OF ok ws m _ _ b4(1,2), of ?t] nd by blast
  have sv': "bm_WriteBack (buf_mem m 0) b4 mh' d1 = Inr d2" "dir_WriteBack (buf_mem m 1) ?t dh' d2 = Inr d3"
    using sv(1,2) by (simp_all add: fs_def)
  have "FileSystem_format m d = Inr (fs, d3)"
    unfolding FileSystem_format_def
    using sv' by (simp add: b fs_consts a1(1) a2(1) ASSERT_def w1 w2 new_OpenFile_def f1 f2
      Let_def fs_def del: bindR_eq_Inr One_nat_def zap_simps)
  moreover have "fs_inv fs d3 Map.empty"
    using ok sv(3,4,5) nd b4(3) by (auto simp: fs_inv_def sys)
  ultimately show ?thesis by blast
qed


section \<open>Properties\<close>

text \<open>C12: \<open>FileSystem(TRUE)\<close> on any disk formats it: no assertion fails, and the result satisfies the
  invariant with no files, so the sectors marked are exactly those of the two system files.\<close>

theorem format_establishes:
  assumes "wf_store d" "wf_memory m"
  shows "\<exists>fs d'. FileSystem_format m d = Inr (fs, d') \<and> fs_inv fs d' Map.empty"
  by (rule format_spec [OF assms])

definition sample_memory :: fresh_memory where
  "sample_memory = \<lparr>hdr_mem = \<lambda>_. blank_header, words_mem = replicate 32 5,
     table_mem = replicate 10 (free_entry\<lparr>inUse := True\<rparr>), buf_mem = \<lambda>_. replicate 3840 9\<rparr>"

lemma sample_memory_wf: "wf_memory sample_memory" "wf_store (\<lambda>_. replicate 128 255)"
  by (simp_all add: wf_memory_def sample_memory_def wf_header_def blank_header_def is_int32_def list_all_iff
    wf_entry_def free_entry_def wf_store_def)

theorem format_establishes_witness:
  "\<exists>fs d'. FileSystem_format sample_memory (\<lambda>_. replicate 128 255) = Inr (fs, d') \<and> fs_inv fs d' Map.empty"
  by (rule format_establishes [OF sample_memory_wf(2,1)])

text \<open>C11: \<open>FileSystem::Create\<close> of a file of at most 3840 bytes.  It answers FALSE and leaves the disk as
  it was exactly when the name is taken, the directory is full, or header and data do not fit in
  the free sectors.  Otherwise it answers TRUE and the new state of the disk satisfies the
  invariant with the new file added: size as asked, zeroed data sectors, on sectors that belonged
  to nobody, all other files untouched.\<close>

theorem Create_adds_file:
  assumes "fs_inv fs d F" "wf_memory m" "0 \<le> fileSize" "fileSize \<le> 3840"
    and "n = data_sectors fileSize" "NumClear (the_map fs d) = Inr c"
  shows "if key nm \<in> dom F \<or> (\<forall>e \<in> set (the_dir fs d). inUse e) \<or> c < int n + 1
    then Create m fs nm fileSize d = Inr (False, d)
    else \<exists>d' s h js. Create m fs nm fileSize d = Inr (True, d') \<and> fs_inv fs d' (F(key nm \<mapsto> (s, h, js)))
      \<and> numBytes h = fileSize \<and> length js = n \<and> (\<forall>x \<in> set js. d' x = replicate 128 0)
      \<and> (\<forall>f \<in> ran F. \<forall>x \<in> owned f. d' x = d x)"
  by (rule Create_spec [OF assms])

lemma fresh_fs:
  assumes inv: "fs_inv fs d Map.empty"
  shows "\<exists>c. NumClear (the_map fs d) = Inr c \<and> 900 \<le> c" "\<not> (\<forall>e \<in> set (the_dir fs d). inUse e)"
proof -
  have ok: "fs_ok fs" "wf_store d" using inv by (simp_all add: fs_inv_def)
  have "length (system_sectors fs) \<le> 62"
    using ok(1) by (simp add: fs_ok_def system_sectors_def map_file_def dir_file_def direct_file_def)
  moreover have mk: "marked (the_map fs d) = set (system_sectors fs)" using inv by (simp add: fs_inv_def)
  ultimately have "card (marked (the_map fs d)) \<le> 62" using card_length [of "system_sectors fs"] by simp
  moreover have "card ({0 ..< 1024} - marked (the_map fs d)) = 1024 - card (marked (the_map fs d))"
    using marked_range [of "the_map fs d"] the_map_wf [OF ok] mk by (subst card_Diff_subset) simp_all
  ultimately show "\<exists>c. NumClear (the_map fs d) = Inr c \<and> 900 \<le> c"
    using the_map_wf [OF ok] by (simp add: NumClear_card)
  have "dom (dir_map (the_dir fs d)) = {}" using inv_absent [OF inv] by simp
  then have "used_keys (the_dir fs d) = []" by (simp only: dom_dir_map set_empty)
  then have "\<forall>e \<in> set (the_dir fs d). \<not> inUse e" by (simp add: used_keys_def filter_empty_conv)
  moreover have "the_dir fs d \<noteq> []" using the_dir_wf [OF ok] by auto
  ultimately show "\<not> (\<forall>e \<in> set (the_dir fs d). inUse e)" by (cases "the_dir fs d") auto
qed

theorem Create_adds_file_witness:
  "\<exists>fs d d' h s js. FileSystem_format sample_memory (\<lambda>_. replicate 128 255) = Inr (fs, d)
     \<and> Create sample_memory fs [102, 111, 111] 300 d = Inr (True, d')
     \<and> fs_inv fs d' [key [102, 111, 111] \<mapsto> (s, h, js)] \<and> length js = 3"
proof -
  obtain fs d where f: "FileSystem_format sample_memory (\<lambda>_. replicate 128 255) = Inr (fs, d)" "fs_inv fs d Map.empty"
    using format_spec [OF sample_memory_wf(2,1)] by blast
  obtain c where c: "NumClear (the_map fs d) = Inr c" "900 \<le> c" using fresh_fs(1) [OF f(2)] by blast
  have n: "data_sectors 300 = 3" by (simp add: data_sectors_def)
  have go: "\<not> (key [102, 111, 111] \<in> dom Map.empty \<or> (\<forall>e \<in> set (the_dir fs d). inUse e) \<or> c < int 3 + 1)"
    using fresh_fs(2) [OF f(2)] c(2) by simp
  show ?thesis
    using Create_adds_file [OF f(2) sample_memory_wf(1) _ _ n [symmetric] c(1), of "[102, 111, 111]"] f(1)
    unfolding if_not_P [OF go] by auto
qed

text \<open>\<open>FileSystem::Open\<close> under the invariant answers NULL for a name that is not in the file system.
  For a file it returns an open file at position 0 with the file's length, whose byte string
  (the subject of \<open>ReadAt\<close> and \<open>WriteAt\<close>) is that of the stored file.\<close>

theorem Open_finds_file:
  assumes "fs_inv fs d F" "wf_memory m"
  shows "case F (key nm) of None \<Rightarrow> Open m fs nm d = Inr None
    | Some (s, h, js) \<Rightarrow> \<exists>f. Open m fs nm d = Inr (Some f) \<and> seekPosition f = 0 \<and> Length f = numBytes h
        \<and> good_file (hdr f) d js \<and> file_bytes (hdr f) d js = file_bytes h d js"
  by (rule Open_spec [OF assms])

theorem Open_finds_file_witness:
  "\<exists>fs d. FileSystem_format sample_memory (\<lambda>_. replicate 128 255) = Inr (fs, d)
     \<and> Open sample_memory fs [102, 111, 111] d = Inr None"
proof -
  obtain fs d where f: "FileSystem_format sample_memory (\<lambda>_. replicate 128 255) = Inr (fs, d)" "fs_inv fs d Map.empty"
    using format_spec [OF sample_memory_wf(2,1)] by blast
  show ?thesis using f(1) Open_finds_file [OF f(2) sample_memory_wf(1), of "[102, 111, 111]"] by auto
qed

text \<open>C13: \<open>FileSystem::Remove\<close> under the invariant answers FALSE for an absent name, with the disk as it
  was.  For a file it answers TRUE and the invariant holds with the file dropped, so its header
  sector and all its data sectors are free again; only the two system files are written.\<close>

theorem Remove_drops_file:
  assumes "fs_inv fs d F" "wf_memory m"
  shows "if key nm \<notin> dom F then fs_Remove m fs nm d = Inr (False, d)
    else \<exists>d'. fs_Remove m fs nm d = Inr (True, d') \<and> fs_inv fs d' (F(key nm := None))
      \<and> (\<forall>x. x \<notin> set (system_sectors fs) \<longrightarrow> d' x = d x)"
  by (rule Remove_fs_spec [OF assms])

theorem Remove_drops_file_witness:
  "\<exists>fs d d1 d2. FileSystem_format sample_memory (\<lambda>_. replicate 128 255) = Inr (fs, d)
     \<and> Create sample_memory fs [102, 111, 111] 300 d = Inr (True, d1)
     \<and> fs_Remove sample_memory fs [102, 111, 111] d1 = Inr (True, d2)
     \<and> marked (the_map fs d2) = set (system_sectors fs)"
proof -
  obtain fs d where f: "FileSystem_format sample_memory (\<lambda>_. replicate 128 255) = Inr (fs, d)" "fs_inv fs d Map.empty"
    using format_spec [OF sample_memory_wf(2,1)] by blast
  obtain c where c: "NumClear (the_map fs d) = Inr c" "900 \<le> c" using fresh_fs(1) [OF f(2)] by blast
  have n: "data_sectors 300 = 3" by (simp add: data_sectors_def)
  have go: "\<not> (key [102, 111, 111] \<in> dom Map.empty \<or> (\<forall>e \<in> set (the_dir fs d). inUse e) \<or> c < int 3 + 1)"
    using fresh_fs(2) [OF f(2)] c(2) by simp
  obtain d1 s h js where cr: "Create sample_memory fs [102, 111, 111] 300 d = Inr (True, d1)"
    "fs_inv fs d1 [key [102, 111, 111] \<mapsto> (s, h, js)]"
    using Create_spec [OF f(2) sample_memory_wf(1) _ _ n [symmetric] c(1), of "[102, 111, 111]"]
    unfolding if_not_P [OF go] by auto
  obtain d2 where rm: "fs_Remove sample_memory fs [102, 111, 111] d1 = Inr (True, d2)" "fs_inv fs d2 Map.empty"
    using Remove_drops_file [OF cr(2) sample_memory_wf(1), of "[102, 111, 111]"] by auto
  then have "marked (the_map fs d2) = set (system_sectors fs)" by (simp add: fs_inv_def)
  then show ?thesis using f(1) cr(1) rm(1) by blast
qed

end
