(* ===== verification/FsTest.thy ===== *)
theory FsTest
  imports FileSystem
begin

text \<open>
  filesys/fstest.cc: the commands that copy a UNIX file into the file system, print a file, and measure the file system.
  A UNIX file is its contents, \<open>None\<close> if it cannot be opened; what is printed is a byte list.  \<open>mem\<close> is the fresh memory of
  the operations of the file system in the order of the calls, \<open>junk k\<close> the buffer that the k-th \<open>Write\<close> allocates.
\<close>

section \<open>Copy and Print\<close>

definition TransferSize :: nat where "TransferSize = 10"

text \<open>The loop of \<open>Copy\<close>: \<open>xs\<close> is what \<open>fread\<close> has not delivered yet.\<close>

function copy_loop :: "(nat \<Rightarrow> u8 list) \<Rightarrow> nat \<Rightarrow> u8 list \<Rightarrow> u8 list \<Rightarrow> OpenFile \<Rightarrow> store \<Rightarrow> (OpenFile \<times> store) res" where
  "copy_loop junk k buffer xs f d =
     (let bs = take TransferSize xs; amountRead = int (length bs); buffer1 = overlay 0 bs buffer in
      if amountRead > 0
      then bindR (Write (junk k) f buffer1 amountRead d) (\<lambda>(_, f1, d1). copy_loop junk (Suc k) buffer1 (drop TransferSize xs) f1 d1)
      else Inr (f, d))"
  by pat_completeness auto

termination
  by (relation "measure (\<lambda>(junk, k, buffer, xs, f, d). length xs)") (auto simp: TransferSize_def)

declare copy_loop.simps [simp del]

definition Copy :: "(nat \<Rightarrow> fresh_memory) \<Rightarrow> (nat \<Rightarrow> u8 list) \<Rightarrow> u8 list \<Rightarrow> FileSystem \<Rightarrow> u8 list option \<Rightarrow> u8 list \<Rightarrow> store \<Rightarrow> store res" where
  "Copy mem junk buffer fs from to d =
     (case from of None \<Rightarrow> Inr d
      | Some xs \<Rightarrow> bindR (Create (mem 0) fs to (int (length xs)) d) (\<lambda>(ok, d1).
          if \<not> ok then Inr d1
          else bindR (Open (mem 1) fs to d1) (\<lambda>openFile. case openFile of None \<Rightarrow> Inl AssertFail
            | Some f \<Rightarrow> bindR (copy_loop junk 0 buffer xs f d1) (\<lambda>(_, d2). Inr d2))))"

lemma Read_progress:
  "Read f n d = Inr (x, f1) \<Longrightarrow> x \<noteq> [] \<Longrightarrow> hdr f1 = hdr f \<and> seekPosition f < seekPosition f1 \<and> seekPosition f < FileLength (hdr f)"
  by (auto simp: Read_def ReadAt_def Let_def split: if_splits)

function print_loop :: "OpenFile \<Rightarrow> store \<Rightarrow> u8 list res" where
  "print_loop f d = bindR (Read f (int TransferSize) d) (\<lambda>(buffer, f1).
     if buffer \<noteq> [] then bindR (print_loop f1 d) (\<lambda>rest. Inr (buffer @ rest)) else Inr [])"
  by pat_completeness auto

termination
  by (relation "measure (\<lambda>(f, d). nat (FileLength (hdr f) - seekPosition f))") (auto dest: Read_progress)

declare print_loop.simps [simp del]

definition Print :: "fresh_memory \<Rightarrow> FileSystem \<Rightarrow> u8 list \<Rightarrow> store \<Rightarrow> u8 list option res" where
  "Print m fs nm d =
     bindR (Open m fs nm d) (\<lambda>openFile. case openFile of None \<Rightarrow> Inr None
       | Some f \<Rightarrow> bindR (print_loop f d) (\<lambda>out. Inr (Some out)))"

section \<open>The performance test\<close>

definition FileName :: "u8 list" where "FileName = [84, 101, 115, 116, 70, 105, 108, 101]"
definition Contents :: "u8 list" where "Contents = [49, 50, 51, 52, 53, 54, 55, 56, 57, 48]"
definition ContentSize :: nat where "ContentSize = length Contents"

text \<open>The loops run \<open>FileSize / ContentSize\<close> times.  An operation answers whether it has not printed a failure.\<close>

fun perf_write_loop :: "(nat \<Rightarrow> u8 list) \<Rightarrow> nat \<Rightarrow> OpenFile \<Rightarrow> store \<Rightarrow> (bool \<times> store) res" where
  "perf_write_loop junk 0 f d = Inr (True, d)"
| "perf_write_loop junk (Suc n) f d = bindR (Write (junk n) f Contents (int ContentSize) d) (\<lambda>(numBytes, f1, d1).
     if numBytes < 10 then Inr (False, d1) else perf_write_loop junk n f1 d1)"

fun perf_read_loop :: "nat \<Rightarrow> OpenFile \<Rightarrow> store \<Rightarrow> bool res" where
  "perf_read_loop 0 f d = Inr True"
| "perf_read_loop (Suc n) f d = bindR (Read f (int ContentSize) d) (\<lambda>(buffer, f1).
     if length buffer < 10 \<or> \<not> strncmp_eq buffer Contents ContentSize then Inr False else perf_read_loop n f1 d)"

definition FileWrite :: "(nat \<Rightarrow> fresh_memory) \<Rightarrow> (nat \<Rightarrow> u8 list) \<Rightarrow> FileSystem \<Rightarrow> store \<Rightarrow> (bool \<times> store) res" where
  "FileWrite mem junk fs d =
     bindR (Create (mem 0) fs FileName 0 d) (\<lambda>(ok, d1).
     if \<not> ok then Inr (False, d1)
     else bindR (Open (mem 1) fs FileName d1) (\<lambda>openFile. case openFile of None \<Rightarrow> Inr (False, d1)
       | Some f \<Rightarrow> perf_write_loop junk 5000 f d1))"

definition FileRead :: "fresh_memory \<Rightarrow> FileSystem \<Rightarrow> store \<Rightarrow> bool res" where
  "FileRead m fs d =
     bindR (Open m fs FileName d) (\<lambda>openFile. case openFile of None \<Rightarrow> Inr False
       | Some f \<Rightarrow> perf_read_loop 5000 f d)"

definition PerformanceTest :: "(nat \<Rightarrow> fresh_memory) \<Rightarrow> (nat \<Rightarrow> u8 list) \<Rightarrow> FileSystem \<Rightarrow> store \<Rightarrow> (bool list \<times> store) res" where
  "PerformanceTest mem junk fs d =
     bindR (FileWrite mem junk fs d) (\<lambda>(w, d1).
     bindR (FileRead (mem 2) fs d1) (\<lambda>r.
     bindR (fs_Remove (mem 3) fs FileName d1) (\<lambda>(ok, d2). Inr ([w, r, ok], d2))))"

section \<open>The loops\<close>

lemma copy_loop_ok:
  assumes "good_file (hdr f) d js" "seekPosition f = int p" "p + length xs = length (file_bytes (hdr f) d js)"
    and "\<And>k. 128 * length js \<le> length (junk k)" "length buffer = TransferSize"
  shows "\<exists>f1 d1. copy_loop junk k buffer xs f d = Inr (f1, d1) \<and> good_file (hdr f) d1 js
    \<and> file_bytes (hdr f) d1 js = take p (file_bytes (hdr f) d js) @ xs \<and> (\<forall>s. s \<notin> set js \<longrightarrow> d1 s = d s)"
  using assms(1-3,5)
proof (induction "length xs" arbitrary: xs k buffer f d p rule: less_induct)
  case less
  let ?bs = "take TransferSize xs"
  let ?b1 = "overlay 0 ?bs buffer"
  show ?case
  proof (cases "xs = []")
    case True
    then show ?thesis using less.prems by (subst copy_loop.simps) simp
  next
    case False
    then have n: "0 < length ?bs" by (simp add: TransferSize_def)
    have b1: "length ?b1 = TransferSize" "take (length ?bs) ?b1 = ?bs" using less.prems(4) by (simp_all add: overlay_def take_all_iff min_def)
    have fit: "p + length ?bs \<le> length (file_bytes (hdr f) d js)" using less.prems(3) by simp
    obtain d1 where w: "WriteAt (junk k) (hdr f) ?b1 (int (length ?bs)) (int p) d = Inr (int (length ?bs), d1)"
      "good_file (hdr f) d1 js" "file_bytes (hdr f) d1 js = overlay p ?bs (file_bytes (hdr f) d js)" "\<forall>s. s \<notin> set js \<longrightarrow> d1 s = d s"
      using WriteAt_whole [OF less.prems(1) _ fit assms(4), of ?b1] b1 by fastforce
    let ?f1 = "f\<lparr>seekPosition := int (p + length ?bs)\<rparr>"
    have W: "Write (junk k) f ?b1 (int (length ?bs)) d = Inr (int (length ?bs), ?f1, d1)"
      using w(1) less.prems(2) by (simp add: Write_def)
    have "length (drop TransferSize xs) < length xs" using False by (simp add: TransferSize_def)
    moreover have "p + length ?bs + length (drop TransferSize xs) = length (file_bytes (hdr ?f1) d1 js)"
      using w(3) fit less.prems(3) by simp
    ultimately obtain f2 d2 where r: "copy_loop junk (Suc k) ?b1 (drop TransferSize xs) ?f1 d1 = Inr (f2, d2)" "good_file (hdr f) d2 js"
      "file_bytes (hdr f) d2 js = take (p + length ?bs) (file_bytes (hdr f) d1 js) @ drop TransferSize xs" "\<forall>s. s \<notin> set js \<longrightarrow> d2 s = d1 s"
      using less.hyps [of "drop TransferSize xs" ?f1 d1 "p + length ?bs" ?b1 "Suc k"] w(2) b1(1) by auto
    have cut: "take (min (length xs) TransferSize) xs = ?bs" by (simp add: min_def)
    have "take (p + length ?bs) (file_bytes (hdr f) d1 js) @ drop TransferSize xs = take p (file_bytes (hdr f) d js) @ xs"
      unfolding w(3) using fit by (simp add: overlay_def min_absorb2 cut)
    then show ?thesis using r W w(4) n by (subst copy_loop.simps) (simp add: Let_def del: length_take)
  qed
qed

lemma print_loop_ok:
  assumes "good_file (hdr f) d js" "seekPosition f = int p"
  shows "print_loop f d = Inr (drop p (file_bytes (hdr f) d js))"
  using assms
proof (induction "length (file_bytes (hdr f) d js) - p" arbitrary: f p rule: less_induct)
  case less
  let ?x = "take TransferSize (drop p (file_bytes (hdr f) d js))"
  have R: "Read f (int TransferSize) d = Inr (?x, f\<lparr>seekPosition := int (p + length ?x)\<rparr>)"
    using ReadAt_good [OF less.prems(1), of "int p" "int TransferSize"] less.prems(2) by (simp add: Read_def)
  show ?case
  proof (cases "?x = []")
    case True
    then have "drop p (file_bytes (hdr f) d js) = []" by (simp add: TransferSize_def)
    then show ?thesis using R True by (subst print_loop.simps) simp
  next
    case False
    then have p: "p < length (file_bytes (hdr f) d js)" "0 < length ?x" by (auto simp: TransferSize_def)
    have "print_loop (f\<lparr>seekPosition := int (p + length ?x)\<rparr>) d = Inr (drop (p + length ?x) (file_bytes (hdr f) d js))"
      using less.hyps [of "f\<lparr>seekPosition := int (p + length ?x)\<rparr>" "p + length ?x"] p less.prems(1) by simp
    moreover have "?x @ drop (p + length ?x) (file_bytes (hdr f) d js) = drop p (file_bytes (hdr f) d js)"
      by (metis append_take_drop_id drop_drop add.commute append_eq_conv_conj)
    ultimately show ?thesis using R False by (subst print_loop.simps) (simp del: length_take)
  qed
qed

section \<open>The file system around them\<close>

text \<open>Writing the data sectors of one file changes no other file and keeps the invariant.\<close>

lemma fs_inv_data:
  assumes inv: "fs_inv fs d F" and k: "F k = Some (s, h, js)" and w: "wf_store d'" and fr: "\<forall>x. x \<notin> set js \<longrightarrow> d' x = d x"
  shows "fs_inv fs d' F" "\<forall>k' f. k' \<noteq> k \<longrightarrow> F k' = Some f \<longrightarrow> (\<forall>x \<in> owned f. d' x = d x)"
proof -
  have own: "owned (s, h, js) \<inter> set (system_sectors fs) = {}" using inv ranI [of F k "(s, h, js)"] k by (auto simp: fs_inv_def)
  have other: "owned f \<inter> owned (s, h, js) = {}" if "k' \<noteq> k" "F k' = Some f" for k' f
    using inv k that unfolding fs_inv_def by blast
  have sys: "d' x = d x" if "x \<in> set (system_sectors fs)" for x using fr own that by (auto simp: owned_def)
  have "the_map fs d' = the_map fs d" unfolding the_map_def
    by (rule stored_map_frame) (use sys system_sectors_mem(3) in blast)
  moreover have "the_dir fs d' = the_dir fs d" unfolding the_dir_def
    by (rule stored_dir_frame) (use sys system_sectors_mem(4) in blast)
  moreover have "stored_file d' f" if r: "f \<in> ran F" for f
  proof -
    obtain k' where k': "F k' = Some f" using r by (auto simp: ran_def)
    obtain s' h' js' where f: "F k' = Some f" "f = (s', h', js')" using k' by (cases f) auto
    have st: "stored_file d f" using inv r by (simp add: fs_inv_def)
    have "s' \<notin> set js"
    proof (cases "k' = k")
      case True
      then show ?thesis using f k st by (simp add: stored_file_def)
    next
      case False
      then show ?thesis using other [OF False f(1)] f(2) by (auto simp: owned_def)
    qed
    then show ?thesis using st fr f(2) by (simp add: stored_file_def)
  qed
  ultimately show "fs_inv fs d' F" using inv w by (simp add: fs_inv_def)
  show "\<forall>k' f. k' \<noteq> k \<longrightarrow> F k' = Some f \<longrightarrow> (\<forall>x \<in> owned f. d' x = d x)"
  proof (intro allI impI ballI)
    fix k' f x assume "k' \<noteq> k" "F k' = Some f" "x \<in> owned f"
    then have "x \<notin> set js" using other [of k' f] by (auto simp: owned_def)
    then show "d' x = d x" using fr by blast
  qed
qed

lemma Print_spec:
  assumes "fs_inv fs d F" "wf_memory m"
  shows "Print m fs nm d = Inr (case F (key nm) of None \<Rightarrow> None | Some (s, h, js) \<Rightarrow> Some (file_bytes h d js))"
proof (cases "F (key nm)")
  case None
  then show ?thesis using Open_spec [OF assms, of nm] by (simp add: Print_def)
next
  case (Some y)
  then obtain s h js where k: "F (key nm) = Some (s, h, js)" by (cases y) auto
  then obtain f where f: "Open m fs nm d = Inr (Some f)" "seekPosition f = 0" "good_file (hdr f) d js" "file_bytes (hdr f) d js = file_bytes h d js"
    using Open_spec [OF assms, of nm] by auto
  then show ?thesis using print_loop_ok [of f d js 0] k by (simp add: Print_def)
qed

lemma Copy_spec:
  assumes inv: "fs_inv fs d F" and m: "\<And>i. wf_memory (mem i)" and size: "length xs \<le> 3840"
    and new: "key nm \<notin> dom F" "\<not> (\<forall>e \<in> set (the_dir fs d). inUse e)"
    and c: "NumClear (the_map fs d) = Inr c" "int (data_sectors (int (length xs))) < c"
    and junk: "\<And>i. 3840 \<le> length (junk i)" "length buffer = TransferSize"
  shows "\<exists>d' s h js. Copy mem junk buffer fs (Some xs) nm d = Inr d' \<and> fs_inv fs d' (F(key nm \<mapsto> (s, h, js)))
    \<and> file_bytes h d' js = xs \<and> (\<forall>f \<in> ran F. \<forall>x \<in> owned f. d' x = d x)"
proof -
  let ?n = "data_sectors (int (length xs))"
  have go: "\<not> (key nm \<in> dom F \<or> (\<forall>e \<in> set (the_dir fs d). inUse e) \<or> c < int ?n + 1)" using new c(2) by auto
  obtain d1 s h js where cr: "Create (mem 0) fs nm (int (length xs)) d = Inr (True, d1)" "fs_inv fs d1 (F(key nm \<mapsto> (s, h, js)))"
    "numBytes h = int (length xs)" "length js = ?n" "\<forall>f \<in> ran F. \<forall>x \<in> owned f. d1 x = d x"
    using Create_spec [OF inv m [of 0] _ _ refl c(1), of "int (length xs)" nm] size unfolding if_not_P [OF go] by auto
  obtain f where f: "Open (mem 1) fs nm d1 = Inr (Some f)" "seekPosition f = 0" "Length f = int (length xs)" "good_file (hdr f) d1 js"
    using Open_spec [OF cr(2) m [of 1], of nm] cr(3) by auto
  have len: "0 + length xs = length (file_bytes (hdr f) d1 js)"
    using good_file_lengths(2) [OF f(4)] f(3) by (simp add: Length_def FileLength_def)
  have "length js \<le> 30" using inv_lookup(5) [OF cr(2), of "key nm"] by (simp add: direct_file_def)
  then have "128 * length js \<le> length (junk i)" for i using junk(1) [of i] by linarith
  then obtain f2 d2 where l: "copy_loop junk 0 buffer xs f d1 = Inr (f2, d2)" "good_file (hdr f) d2 js" "file_bytes (hdr f) d2 js = xs"
    "\<forall>s. s \<notin> set js \<longrightarrow> d2 s = d1 s"
    using copy_loop_ok [OF f(4) _ len _ junk(2), of junk 0] f(2) by auto
  have w: "wf_store d2" using l(2) by (simp add: good_file_def)
  have k: "(F(key nm \<mapsto> (s, h, js))) (key nm) = Some (s, h, js)" by simp
  note keep = fs_inv_data [OF cr(2) k w l(4)]
  have "file_bytes h d2 js = xs" using l(3) f(3) cr(3) by (simp add: file_bytes_def Length_def FileLength_def)
  moreover have "d2 x = d x" if r: "y \<in> ran F" "x \<in> owned y" for y x
  proof -
    obtain k' where k': "F k' = Some y" using r(1) by (auto simp: ran_def)
    then have "k' \<noteq> key nm" using new(1) by auto
    then show ?thesis using keep(2) [rule_format, of k' y x] k' r cr(5) by simp
  qed
  moreover have "Copy mem junk buffer fs (Some xs) nm d = Inr d2" using cr(1) f(1) l(1) by (simp add: Copy_def)
  ultimately show ?thesis using keep(1) by blast
qed

section \<open>Properties\<close>

text \<open>C5: the file system from end to end.  \<open>Copy\<close> of a UNIX file of at most 3840 bytes to a new name, when there is room, makes a file of
  which \<open>Print\<close> prints exactly the bytes of the UNIX file; the invariant of the disk holds, and every other file prints as
  before.\<close>

theorem Copy_then_Print:
  assumes "fs_inv fs d F" "\<And>i. wf_memory (mem i)" "length xs \<le> 3840"
    and "key nm \<notin> dom F" "\<not> (\<forall>e \<in> set (the_dir fs d). inUse e)"
    and "NumClear (the_map fs d) = Inr c" "int (data_sectors (int (length xs))) < c"
    and "\<And>i. 3840 \<le> length (junk i)" "length buffer = TransferSize"
  shows "\<exists>d' f. Copy mem junk buffer fs (Some xs) nm d = Inr d' \<and> fs_inv fs d' (F(key nm \<mapsto> f)) \<and> Print (mem 2) fs nm d' = Inr (Some xs)
    \<and> (\<forall>nm'. key nm' \<noteq> key nm \<longrightarrow> Print (mem 2) fs nm' d' = Print (mem 2) fs nm' d)"
proof -
  obtain d' s h js where C: "Copy mem junk buffer fs (Some xs) nm d = Inr d'" "fs_inv fs d' (F(key nm \<mapsto> (s, h, js)))"
    "file_bytes h d' js = xs" "\<forall>f \<in> ran F. \<forall>x \<in> owned f. d' x = d x"
    using Copy_spec [of fs d F mem xs nm c junk buffer] assms by blast
  have "Print (mem 2) fs nm' d' = Print (mem 2) fs nm' d" if "key nm' \<noteq> key nm" for nm'
  proof (cases "F (key nm')")
    case (Some y)
    then obtain s' h' js' where y: "F (key nm') = Some (s', h', js')" by (cases y) auto
    have "file_bytes h' d' js' = file_bytes h' d js'"
      using C(4) ranI [of F, OF y] by (intro file_bytes_frame) (auto simp: owned_def)
    then show ?thesis using Print_spec [OF C(2) assms(2)] Print_spec [OF assms(1,2)] that y by simp
  qed (use Print_spec [OF C(2) assms(2)] Print_spec [OF assms(1,2)] that in simp)
  then show ?thesis using C(1,2,3) Print_spec [OF C(2) assms(2), of 2 nm] by auto
qed

theorem Copy_then_Print_witness:
  "\<exists>fs d d'. FileSystem_format sample_memory (\<lambda>_. replicate 128 255) = Inr (fs, d)
     \<and> Copy (\<lambda>_. sample_memory) (\<lambda>_. replicate 3840 0) (replicate 10 0) fs (Some (replicate 300 65)) [102, 111, 111] d = Inr d'
     \<and> Print sample_memory fs [102, 111, 111] d' = Inr (Some (replicate 300 65))"
proof -
  obtain fs d where f: "FileSystem_format sample_memory (\<lambda>_. replicate 128 255) = Inr (fs, d)" "fs_inv fs d Map.empty"
    using format_spec [OF sample_memory_wf(2,1)] by blast
  obtain c where c: "NumClear (the_map fs d) = Inr c" "900 \<le> c" using fresh_fs(1) [OF f(2)] by blast
  have n: "int (data_sectors (int (length (replicate 300 (65 :: u8))))) < c" using c(2) by (simp add: data_sectors_def)
  show ?thesis
    using Copy_then_Print [OF f(2) sample_memory_wf(1) _ _ fresh_fs(2) [OF f(2)] c(1) n, of "[102, 111, 111]" "\<lambda>_. replicate 3840 0" "replicate 10 0"] f(1)
    by (auto simp: TransferSize_def)
qed

text \<open>The performance test creates its file with size 0 and expects \<open>Write\<close> to extend it, which files here never do: it stops at the first
  write, reads nothing, and leaves the files as they were.\<close>

theorem PerformanceTest_gives_up:
  assumes "fs_inv fs d F" "\<And>i. wf_memory (mem i)" "key FileName \<notin> dom F" "\<not> (\<forall>e \<in> set (the_dir fs d). inUse e)"
    and "NumClear (the_map fs d) = Inr c" "0 < c"
  shows "\<exists>d'. PerformanceTest mem junk fs d = Inr ([False, False, True], d') \<and> fs_inv fs d' F"
proof -
  have n: "data_sectors 0 = 0" by (simp add: data_sectors_def)
  have go: "\<not> (key FileName \<in> dom F \<or> (\<forall>e \<in> set (the_dir fs d). inUse e) \<or> c < int (data_sectors 0) + 1)" using assms(3,4,6) n by auto
  obtain d1 s h js where cr: "Create (mem 0) fs FileName 0 d = Inr (True, d1)" "fs_inv fs d1 (F(key FileName \<mapsto> (s, h, js)))" "numBytes h = 0"
    using Create_spec [OF assms(1) assms(2) [of 0] _ _ refl assms(5), of 0 FileName] unfolding if_not_P [OF go] by auto
  obtain f where f: "Open (mem 1) fs FileName d1 = Inr (Some f)" "seekPosition f = 0" "Length f = 0"
    using Open_spec [OF cr(2) assms(2) [of 1], of FileName] cr(3) by auto
  obtain g where g: "Open (mem 2) fs FileName d1 = Inr (Some g)" "seekPosition g = 0" "Length g = 0"
    using Open_spec [OF cr(2) assms(2) [of 2], of FileName] cr(3) by auto
  have w: "perf_write_loop junk 5000 f d1 = Inr (False, d1)"
    using f(2,3) by (simp add: numeral_eq_Suc Write_def WriteAt_def Length_def)
  have r: "perf_read_loop 5000 g d1 = Inr False"
    using g(2,3) by (simp add: numeral_eq_Suc Read_def ReadAt_def Length_def)
  obtain d2 where rm: "fs_Remove (mem 3) fs FileName d1 = Inr (True, d2)" "fs_inv fs d2 ((F(key FileName \<mapsto> (s, h, js)))(key FileName := None))"
    using Remove_fs_spec [OF cr(2) assms(2) [of 3], of FileName] by auto
  have "(F(key FileName \<mapsto> (s, h, js)))(key FileName := None) = F"
    by (rule ext) (use assms(3) in auto)
  then show ?thesis
    using rm cr(1) f(1) g(1) w r by (simp add: PerformanceTest_def FileWrite_def FileRead_def)
qed

theorem PerformanceTest_gives_up_witness:
  "\<exists>fs d d'. FileSystem_format sample_memory (\<lambda>_. replicate 128 255) = Inr (fs, d)
     \<and> PerformanceTest (\<lambda>_. sample_memory) (\<lambda>_. replicate 3840 0) fs d = Inr ([False, False, True], d')"
proof -
  obtain fs d where f: "FileSystem_format sample_memory (\<lambda>_. replicate 128 255) = Inr (fs, d)" "fs_inv fs d Map.empty"
    using format_spec [OF sample_memory_wf(2,1)] by blast
  obtain c where c: "NumClear (the_map fs d) = Inr c" "900 \<le> c" using fresh_fs(1) [OF f(2)] by blast
  show ?thesis
    using PerformanceTest_gives_up [OF f(2) sample_memory_wf(1) _ fresh_fs(2) [OF f(2)] c(1), of "\<lambda>_. replicate 3840 0"] c(2) f(1) by auto
qed

end
