(* ===== verification/ChangeSize.thy ===== *)
theory ChangeSize
  imports FileHdr
begin

text \<open>
  \<open>FileHeader::ChangeSize\<close>, which makes a file longer.  It is live code only in the second copy of the file
  system, src/try/filesys/filehdr.cc; the rest of that file is the code of \<open>FileHdr\<close>.  The whole routine is
  translated, direct, single- and double-indirect; the theorems show how much of it can run.
\<close>

section \<open>Reserving sectors\<close>

definition MaxFileSize :: int where "MaxFileSize = NumDirect * SectorSize"

text \<open>\<open>totalCurSectors\<close>, the sectors the file has with its index blocks, and \<open>result\<close>, false for an impossible file.\<close>

definition current_sectors :: "int \<Rightarrow> bool \<times> int" where
  "current_sectors ns =
     (if to_unsigned ns > NumDirect then
        if to_unsigned ns > NumDirect + L1_INDEX_NUM then
          if to_unsigned ns > NumDirect + L1_INDEX_NUM + L1_INDEX_NUM * L1_INDEX_NUM then (False, 0)
          else (True, ns + divRoundUp (ns - NumDirect - L1_INDEX_NUM) L1_INDEX_NUM + 2)
        else (True, ns + 1)
      else (True, ns))"

text \<open>The test of the free map and the loop that fills \<open>sectorsGet\<close>, an array of 30 + 32 + 32 * 32 elements.  \<open>None\<close> is
  \<open>result == false\<close>; an impossible file has its sectors taken all the same.\<close>

definition grab :: "bool \<Rightarrow> int \<Rightarrow> BitMap \<Rightarrow> (int list option \<times> BitMap) res" where
  "grab result n b = bindR (NumClear b) (\<lambda>nc.
     if nc < n then Inr (None, b)
     else if n \<le> NumDirect + L1_INDEX_NUM + L1_INDEX_NUM * L1_INDEX_NUM
     then bindR (repeat_find Find (nat n) b) (\<lambda>(sg, b1). Inr (if result then Some sg else None, b1))
     else Inl BadAccess)"

definition grow_reserve :: "BitMap \<Rightarrow> int \<Rightarrow> int \<Rightarrow> (int list option \<times> BitMap) res" where
  "grow_reserve b ns nn = (let (result, total) = current_sectors ns in
     if to_unsigned nn > NumDirect then
       if to_unsigned nn > NumDirect + L1_INDEX_NUM then
         if to_unsigned nn > NumDirect + L1_INDEX_NUM + L1_INDEX_NUM * L1_INDEX_NUM then Inr (None, b)
         else grab result (2 + nn + divRoundUp (nn - NumDirect - L1_INDEX_NUM) L1_INDEX_NUM - total) b
       else grab result (nn + 1 - total) b
     else grab result (nn - total) b)"

section \<open>Linking the sectors\<close>

text \<open>An index block: a new one of -1s for an index -1, else the one on the disk.  The result is the sector of the block, its entries, the
  sectors left and the disk.\<close>

definition open_index :: "int \<Rightarrow> int list \<Rightarrow> store \<Rightarrow> (int \<times> int list \<times> int list \<times> store) res" where
  "open_index i sg d =
     (if i = -1 then bindR (next_sector sg) (\<lambda>(s, sg1). bindR (ClearSector s d) (\<lambda>d1. Inr (s, replicate 32 (-1), sg1, d1)))
      else bindR (ReadSector d i) (\<lambda>x. Inr (i, decode_ints x, sg, d)))"

text \<open>The loop over the free slots of the single-indirect block, with \<open>ASSERT(hdrL1Buf[i] == -1)\<close>; arguments and result as for \<open>fill\<close>.\<close>

fun fill_free :: "int list \<Rightarrow> nat \<Rightarrow> int list \<Rightarrow> store \<Rightarrow> (int list \<times> nat \<times> int list \<times> store) res" where
  "fill_free [] rem sg d = Inr ([], rem, sg, d)"
| "fill_free (x # xs) 0 sg d = Inr (x # xs, 0, sg, d)"
| "fill_free (x # xs) (Suc rem) sg d =
     (if x \<noteq> -1 then Inl AssertFail
      else bindR (next_sector sg) (\<lambda>(s, sg1). bindR (ClearSector s d) (\<lambda>d1.
           bindR (fill_free xs rem sg1 d1) (\<lambda>(ys, r). Inr (s # ys, r)))))"

text \<open>The double-indirect blocks, from entry \<open>j\<close> on.  The inner loop runs while \<open>i > L1_INDEX_NUM && curSector < numSectors\<close>; as the
  block has 32 entries, its body accesses \<open>hdrL1Buf[i]\<close> outside the array.  If it does not run, \<open>curSector\<close> stays the same.\<close>

function grow_l2 :: "nat \<Rightarrow> int \<Rightarrow> int list \<Rightarrow> int list \<Rightarrow> store \<Rightarrow> (int list \<times> store) res" where
  "grow_l2 j curSector buf2 sg d =
     (if length buf2 \<le> j then Inl BadAccess
      else bindR (open_index (buf2 ! j) sg d) (\<lambda>(e, buf1, sg1, d1).
        if to_unsigned (curSector - (NumDirect + L1_INDEX_NUM) - int j * L1_INDEX_NUM) > L1_INDEX_NUM then Inl BadAccess
        else bindR (WriteSector d1 e (encode_ints buf1)) (\<lambda>d2. grow_l2 (Suc j) curSector (buf2[j := e]) sg1 d2)))"
  by pat_completeness auto

termination by (relation "measure (\<lambda>(j, _, buf2, _). length buf2 - j)") auto

declare grow_l2.simps [simp del]

text \<open>\<open>cur\<close> is \<open>curSector\<close> at the start, the old number of sectors; the header has the new one already.\<close>

definition grow :: "int \<Rightarrow> FileHeader \<Rightarrow> int list \<Rightarrow> store \<Rightarrow> (FileHeader \<times> store) res" where
  "grow cur h sg d =
     bindR (fill (nat (NumDirect - cur)) (nat (numSectors h - cur)) sg d) (\<lambda>(xs, rem, sg1, d1).
     let h1 = h\<lparr>dataSectors := take (nat cur) (dataSectors h) @ xs @ drop (nat cur + length xs) (dataSectors h)\<rparr> in
     if rem = 0 then Inr (h1, d1)
     else bindR (open_index (L1Index h1) sg1 d1) (\<lambda>(l1, buf1, sg2, d2).
       let k = nat (numSectors h - int rem - NumDirect) in
       bindR (fill_free (drop k buf1) rem sg2 d2) (\<lambda>(ys, rem2, sg3, d3).
       bindR (WriteSector d3 l1 (encode_ints (take k buf1 @ ys))) (\<lambda>d4.
       let h2 = h1\<lparr>L1Index := l1\<rparr> in
       if rem2 = 0 then Inr (h2, d4)
       else bindR (open_index (L2Index h2) sg3 d4) (\<lambda>(l2, buf2, sg4, d5).
         let curSector = numSectors h - int rem2 in
         bindR (grow_l2 (nat ((curSector - (NumDirect + L1_INDEX_NUM)) div L1_INDEX_NUM)) curSector buf2 sg4 d5) (\<lambda>(buf2', d6).
         bindR (WriteSector d6 l2 (encode_ints buf2')) (\<lambda>d7. Inr (h2\<lparr>L2Index := l2\<rparr>, d7))))))))"

text \<open>The answer is \<open>None\<close> where the routine ends without a \<open>return\<close>.\<close>

definition ChangeSize :: "FileHeader \<Rightarrow> BitMap \<Rightarrow> int \<Rightarrow> store \<Rightarrow> (bool option \<times> FileHeader \<times> BitMap \<times> store) res" where
  "ChangeSize h freeMap newSize d =
     (if to_unsigned newSize > MaxFileSize then Inr (Some False, h, freeMap, d)
      else if newSize \<le> numBytes h then Inr (Some True, h, freeMap, d)
      else let newNumSectors = divRoundUp newSize SectorSize in
        if newNumSectors \<le> numSectors h then Inr (Some True, h\<lparr>numBytes := newSize\<rparr>, freeMap, d)
        else bindR (grow_reserve freeMap (numSectors h) newNumSectors) (\<lambda>(r, b1).
          case r of None \<Rightarrow> Inr (Some False, h, b1, d)
          | Some sg \<Rightarrow> bindR (grow (numSectors h) (h\<lparr>numSectors := newNumSectors, numBytes := newSize\<rparr>) sg d)
              (\<lambda>(h1, d1). Inr (None, h1, b1, d1))))"

section \<open>Growth\<close>

lemma to_unsigned_range: "is_int32 n \<Longrightarrow> to_unsigned n \<le> MaxFileSize \<longleftrightarrow> 0 \<le> n \<and> n \<le> 3840"
proof -
  assume r: "is_int32 n"
  have "to_unsigned n = (if n < 0 then n + 4294967296 else n)"
    using r mod_pos_pos_trivial [of "n + 4294967296" 4294967296] by (auto simp: to_unsigned_def is_int32_def)
  then show ?thesis using r by (auto simp: is_int32_def MaxFileSize_def hdr_consts SectorSize_def)
qed

lemma data_sectors_direct: "n \<le> 3840 \<Longrightarrow> data_sectors n \<le> 30"
  by (simp add: data_sectors_def)

lemma current_sectors_direct: "m \<le> 30 \<Longrightarrow> current_sectors (int m) = (True, int m)"
  by (simp add: current_sectors_def hdr_consts to_unsigned_def)

lemma grow_reserve_direct: "n \<le> 30 \<Longrightarrow> m \<le> 30 \<Longrightarrow> grow_reserve b (int m) (int n) = grab True (int n - int m) b"
  by (simp add: grow_reserve_def current_sectors_direct hdr_consts to_unsigned_def)

lemma grow_direct:
  assumes h: "numSectors h = int n" "n \<le> 30" and m: "m < n" and sg: "length sg = n - m" "valid_sectors sg"
  shows "grow (int m) h sg d =
    Inr (h\<lparr>dataSectors := take m (dataSectors h) @ sg @ drop n (dataSectors h)\<rparr>, zap sg d)"
proof -
  have 1: "nat (NumDirect - int m) = 30 - m" "nat (int n - int m) = n - m" by (simp_all add: hdr_consts)
  have "fill (30 - m) (n - m) sg d = Inr (sg, 0, [], zap sg d)"
    using fill_eq [of "30 - m" "n - m" sg d] sg h m by simp
  then show ?thesis unfolding grow_def h(1) 1 using m sg(1) by simp
qed

text \<open>The file after growth: the sectors \<open>ks\<close> follow the old ones.\<close>

lemma layout_grown:
  assumes f: "file_layout h d js" and n: "length js + length ks \<le> 30"
  shows "file_layout (h\<lparr>numSectors := int (length js + length ks), numBytes := s,
      dataSectors := take (length js) (dataSectors h) @ ks @ drop (length js + length ks) (dataSectors h)\<rparr>) d' (js @ ks)"
  using assms by (simp add: file_layout_def)

lemma ChangeSize_direct:
  assumes new: "numBytes h < newSize" "0 \<le> newSize" "newSize \<le> 3840"
    and m: "numSectors h = int m" "m < data_sectors newSize"
  shows "ChangeSize h b newSize d =
     bindR (grab True (int (data_sectors newSize) - int m) b) (\<lambda>(r, b1).
       case r of None \<Rightarrow> Inr (Some False, h, b1, d)
       | Some sg \<Rightarrow> bindR (grow (int m) (h\<lparr>numSectors := int (data_sectors newSize), numBytes := newSize\<rparr>) sg d)
           (\<lambda>(h1, d1). Inr (None, h1, b1, d1)))"
proof -
  have "\<not> to_unsigned newSize > MaxFileSize"
    using new by (simp add: MaxFileSize_def hdr_consts SectorSize_def to_unsigned_def)
  moreover have "data_sectors newSize \<le> 30" using new(3) by (rule data_sectors_direct)
  ultimately show ?thesis
    using assms by (simp add: ChangeSize_def divRoundUp_sectors grow_reserve_direct Let_def cong del: option.case_cong_weak)
qed

lemma grab_enough:
  assumes "wf_bitmap b" "NumClear b = Inr c" "int n \<le> c" "n \<le> 30"
  shows "\<exists>ks b'. grab True (int n) b = Inr (Some ks, b') \<and> wf_bitmap b' \<and> length ks = n \<and> distinct ks
     \<and> set ks \<subseteq> {0 ..< numBits b} - marked b \<and> marked b' = marked b \<union> set ks"
  using repeat_find_bitmap [OF assms(1-3)] assms by (auto simp: grab_def hdr_consts)

text \<open>Whatever the header: growth stays in the direct pointers.\<close>

lemma fill_all: "fill slots rem sg d = Inr (xs, r, sg', d') \<Longrightarrow> rem \<le> slots \<Longrightarrow> r = 0 \<and> length xs = rem"
  by (induction slots rem sg d arbitrary: xs rule: fill.induct) auto

lemma grow_keeps_indexes:
  assumes "grow cur h sg d = Inr (h', d')" and "numSectors h \<le> 30"
  shows "L1Index h' = L1Index h \<and> L2Index h' = L2Index h \<and> numSectors h' = numSectors h \<and> numBytes h' = numBytes h"
proof -
  obtain xs rem sg1 d1 where f: "fill (nat (NumDirect - cur)) (nat (numSectors h - cur)) sg d = Inr (xs, rem, sg1, d1)"
    using assms(1) unfolding grow_def by (auto simp del: fill.simps)
  have "rem = 0" using fill_all [OF f] assms(2) by (simp add: hdr_consts)
  then show ?thesis using assms(1) f by (auto simp: grow_def Let_def)
qed

section \<open>Properties\<close>

text \<open>C8: \<open>ChangeSize\<close> makes a file longer, for a new size of up to 3840 bytes and a free map with enough clear bits.  The data sectors of the file
  are the old ones, in the same order, followed by new ones; these are different from each other, were clear in the map, are marked there
  now, and are zero; no other sector of the disk changes, so the old bytes of the file stay.  The routine then ends without a return value.\<close>

theorem ChangeSize_grows:
  assumes wf: "wf_bitmap b" and nb: "numBits b \<le> NumSectors" and f: "file_layout h d js"
    and new: "numBytes h < newSize" "0 \<le> newSize" "newSize \<le> 3840" and more: "length js < data_sectors newSize"
    and c: "NumClear b = Inr c" and enough: "int (data_sectors newSize - length js) \<le> c"
  shows "\<exists>h' b' d' ks. ChangeSize h b newSize d = Inr (None, h', b', d')
     \<and> FileLength h' = newSize \<and> file_layout h' d' (js @ ks) \<and> length (js @ ks) = data_sectors newSize
     \<and> distinct ks \<and> set ks \<subseteq> {0 ..< numBits b} - marked b
     \<and> wf_bitmap b' \<and> marked b' = marked b \<union> set ks
     \<and> (\<forall>s \<in> set ks. d' s = replicate 128 0) \<and> (\<forall>s. s \<notin> set ks \<longrightarrow> d' s = d s)"
proof -
  define n where "n = data_sectors newSize"
  have n: "n \<le> 30" "length js < n" using data_sectors_direct [OF new(3)] more by (simp_all add: n_def)
  have le: "data_sectors newSize - length js \<le> 30" using n by (simp add: n_def)
  obtain ks b' where ks: "grab True (int (n - length js)) b = Inr (Some ks, b')" "wf_bitmap b'" "length ks = n - length js"
    "distinct ks" "set ks \<subseteq> {0 ..< numBits b} - marked b" "marked b' = marked b \<union> set ks"
    using grab_enough [OF wf c enough le] unfolding n_def by blast
  have v: "valid_sectors ks" using ks(5) nb by (auto simp: valid_sectors_def)
  define h' where "h' = h\<lparr>numSectors := int n, numBytes := newSize,
    dataSectors := take (length js) (dataSectors h) @ ks @ drop n (dataSectors h)\<rparr>"
  have "numSectors h = int (length js)" using f by (simp add: file_layout_def)
  then have "ChangeSize h b newSize d = Inr (None, h', b', zap ks d)"
    using ChangeSize_direct [OF new, of "length js" b d] ks(1,3) n v
      grow_direct [of "h\<lparr>numSectors := int n, numBytes := newSize\<rparr>" n "length js" ks d]
    by (simp add: n_def [symmetric] h'_def of_nat_diff)
  moreover have "file_layout h' (zap ks d) (js @ ks)"
    using layout_grown [OF f, of ks newSize "zap ks d"] n ks(3) by (simp add: h'_def)
  moreover have "FileLength h' = newSize" by (simp add: h'_def FileLength_def)
  ultimately show ?thesis
    using ks n by (intro exI [of _ h'] exI [of _ b'] exI [of _ "zap ks d"] exI [of _ ks]) (simp add: n_def)
qed

theorem ChangeSize_grows_witness:
  "\<exists>b h' b' d' ks. new_BitMap 64 [0, 0] = Inr b
     \<and> ChangeSize blank_header b 300 (\<lambda>_. []) = Inr (None, h', b', d') \<and> file_layout h' d' ks \<and> length ks = 3"
proof -
  obtain b where b: "new_BitMap 64 [0, 0] = Inr b" "wf_bitmap b" "numBits b = 64" "NumClear b = Inr 64"
    using fresh_BitMap [of 64 "[0, 0]"] by (auto simp: divRoundUp_def)
  have n: "data_sectors 300 = 3" by (simp add: data_sectors_def)
  have p: "numBits b \<le> NumSectors" "file_layout blank_header (\<lambda>_. []) []" "numBytes blank_header < 300"
    "0 \<le> (300 :: int)" "300 \<le> (3840 :: int)" "length ([] :: int list) < data_sectors 300"
    "int (data_sectors 300 - length ([] :: int list)) \<le> 64"
    using b(3) by (simp_all add: n disk_consts blank_header_def file_layout_def)
  show ?thesis using ChangeSize_grows [OF b(2) p(1-6) b(4) p(7)] b(1) n by force
qed

text \<open>C9: what \<open>ChangeSize\<close> never does, for any header, free map and disk.  A new size below zero or above 3840 bytes is refused, although
  \<open>Allocate\<close> makes files of up to 1086 sectors; nothing ever changes the pointers to the index blocks, and a file that gets new
  sectors has at most 30 of them, so the code for index blocks does not run; when the answer is a \<open>bool\<close>, the disk and the
  number of sectors are the same, and on \<open>false\<close> the header is; and a file that gets new sectors never gets an answer.\<close>

theorem ChangeSize_direct_only:
  assumes "ChangeSize h b newSize d = Inr (r, h', b', d')" and "is_int32 newSize"
  shows "(newSize < 0 \<or> 3840 < newSize \<longrightarrow> r = Some False \<and> h' = h \<and> b' = b \<and> d' = d)
    \<and> L1Index h' = L1Index h \<and> L2Index h' = L2Index h
    \<and> (numSectors h' = numSectors h \<or> r = None \<and> numSectors h' \<le> 30)
    \<and> (r \<noteq> None \<longrightarrow> d' = d \<and> numSectors h' = numSectors h) \<and> (r = Some False \<longrightarrow> h' = h)"
proof (cases "0 \<le> newSize \<and> newSize \<le> 3840")
  case False
  then have "to_unsigned newSize > MaxFileSize" using to_unsigned_range [OF assms(2)] by linarith
  then show ?thesis using assms(1) False by (auto simp: ChangeSize_def)
next
  case True
  then have "to_unsigned newSize \<le> MaxFileSize" using to_unsigned_range [OF assms(2)] by blast
  moreover have "divRoundUp newSize SectorSize \<le> 30"
    using True data_sectors_direct [of newSize] by (simp add: divRoundUp_sectors)
  ultimately show ?thesis
    using assms(1) True grow_keeps_indexes [of "numSectors h" "h\<lparr>numSectors := divRoundUp newSize SectorSize, numBytes := newSize\<rparr>"]
    by (auto simp: ChangeSize_def Let_def split: if_splits option.splits)
qed

text \<open>A file of 31 sectors, one more than the direct pointers have.\<close>

theorem ChangeSize_direct_only_witness:
  "\<exists>r h' b' d'. ChangeSize blank_header \<lparr>numBits = 32, numWords = 1, bits = [2]\<rparr> 3841 (\<lambda>_. []) = Inr (r, h', b', d')
    \<and> r = Some False \<and> h' = blank_header \<and> b' = \<lparr>numBits = 32, numWords = 1, bits = [2]\<rparr>"
proof -
  have i: "is_int32 3841" by (simp add: is_int32_def)
  have "\<exists>r h' b' d'. ChangeSize blank_header b 3841 d = Inr (r, h', b', d')" for b d
    by (simp add: ChangeSize_def MaxFileSize_def hdr_consts SectorSize_def to_unsigned_def)
  then show ?thesis using ChangeSize_direct_only [OF _ i] by fastforce
qed

end
