(* ===== verification/Machine.thy ===== *)
theory Machine
  imports Bitmap Disk
begin

text \<open>
  machine/machine.cc, machine/translate.cc and userprog/exception.cc: the registers and memory of
  the simulated MIPS, address translation through a TLB that the kernel refills from the page
  table, and memory access with swapping.  The page table of the running address space and
  \<open>machine->pageTable\<close> are one array (\<open>AddrSpace::RestoreState\<close> copies the pointer).  Exceptions
  call the kernel's handler, which may refill the TLB, replace a page or stop the run.  Physical
  addresses from \<open>MemorySize\<close> on live in the swap file, a UNIX file in the configuration with a
  TLB (FILESYS_STUB): a read returns the bytes there are, a write beyond the end extends it.
\<close>

section \<open>State\<close>

record TranslationEntry =
  virtualPage :: int
  physicalPage :: int
  valid :: bool
  readOnly :: bool
  use :: bool
  dirty :: bool
  hitRate :: int
  NRU_N :: int

definition PageSize :: int where "PageSize = SectorSize"
definition NumPhysPages :: int where "NumPhysPages = 32"
definition MemorySize :: int where "MemorySize = NumPhysPages * PageSize"
definition TLBSize :: nat where "TLBSize = 4"

lemmas machine_consts = PageSize_def NumPhysPages_def MemorySize_def TLBSize_def SectorSize_def

datatype ExceptionType =
    NoException | SyscallException | PageFaultException | TLBPageFaultException
  | PTEPageFaultException | ReadOnlyException | BusErrorException | AddressErrorException
  | OverflowException | IllegalInstrException | NumExceptionTypes

definition StackReg :: nat where "StackReg = 29"
definition RetAddrReg :: nat where "RetAddrReg = 31"
definition HiReg :: nat where "HiReg = 32"
definition LoReg :: nat where "LoReg = 33"
definition PCReg :: nat where "PCReg = 34"
definition NextPCReg :: nat where "NextPCReg = 35"
definition PrevPCReg :: nat where "PrevPCReg = 36"
definition LoadReg :: nat where "LoadReg = 37"
definition LoadValueReg :: nat where "LoadValueReg = 38"
definition BadVAddrReg :: nat where "BadVAddrReg = 39"
definition NumTotalRegs :: nat where "NumTotalRegs = 40"

lemmas reg_consts = StackReg_def RetAddrReg_def HiReg_def LoReg_def PCReg_def NextPCReg_def
  PrevPCReg_def LoadReg_def LoadValueReg_def BadVAddrReg_def NumTotalRegs_def

text \<open>The member \<open>entry\<close> points into the TLB or the page table, or is NULL.\<close>

datatype entry_ptr = Null | InTLB nat | InTable nat

record Machine =
  registers :: "u32 list"
  mainMemory :: "u8 list"
  disk :: "u8 list"
  swap :: "u8 list"
  noffCodeOffset :: int
  tlb :: "TranslationEntry list option"
  pageTable :: "TranslationEntry list"
  vpn :: int
  offset :: int
  pageFrame :: int
  pageTableFrame :: int
  entry :: entry_ptr
  hit_count :: int
  userMode :: bool
  phys_map :: BitMap      \<comment> \<open>the kernel's \<open>bitmap\<close> of physical pages\<close>

section \<open>Registers\<close>

definition ReadRegister :: "Machine \<Rightarrow> int \<Rightarrow> u32 res" where
  "ReadRegister m num = (if 0 \<le> num \<and> num < int NumTotalRegs then Inr (registers m ! nat num) else Inl AssertFail)"

definition WriteRegister :: "Machine \<Rightarrow> int \<Rightarrow> u32 \<Rightarrow> Machine res" where
  "WriteRegister m num value =
     (if 0 \<le> num \<and> num < int NumTotalRegs then Inr (m\<lparr>registers := (registers m)[nat num := value]\<rparr>) else Inl AssertFail)"

definition DelayedLoad :: "Machine \<Rightarrow> u32 \<Rightarrow> u32 \<Rightarrow> Machine res" where
  "DelayedLoad m nextReg nextValue =
     (let target = sint (registers m ! LoadReg) in
      if 0 \<le> target \<and> target < int NumTotalRegs
      then Inr (m\<lparr>registers := (registers m)[nat target := registers m ! LoadValueReg,
                    LoadReg := nextReg, LoadValueReg := nextValue, 0 := 0]\<rparr>)
      else Inl BadAccess)"

text \<open>The constructor; \<open>created\<close> is the answer of \<open>fileSystem->Create\<close>, \<open>f\<close> the new swap file, and \<open>junk\<close> what the
  TLB, \<open>disk\<close> and \<open>pageTableFrame\<close> hold.\<close>

definition new_Machine :: "bool \<Rightarrow> bool \<Rightarrow> u8 list \<Rightarrow> TranslationEntry list \<Rightarrow> u8 list \<Rightarrow> int \<Rightarrow> BitMap \<Rightarrow> Machine res" where
  "new_Machine use_tlb created f junkT junkD junkF b =
     (if created
      then Inr \<lparr>registers = replicate NumTotalRegs 0, mainMemory = replicate (nat MemorySize) 0, disk = junkD, swap = f,
        noffCodeOffset = 0, tlb = (if use_tlb then Some (map (\<lambda>e. e\<lparr>valid := False, hitRate := 0\<rparr>) junkT) else None),
        pageTable = [], vpn = 0, offset = 0, pageFrame = 0, pageTableFrame = junkF, entry = Null, hit_count = 1,
        userMode = False, phys_map = b\<rparr>
      else Inl AssertFail)"

section \<open>Replacement\<close>

definition nru_class :: "TranslationEntry \<Rightarrow> int" where
  "nru_class e = (if \<not> use e \<and> \<not> dirty e then 0 else if \<not> use e \<and> dirty e then 1
     else if use e \<and> \<not> dirty e then 2 else 3)"

text \<open>\<open>SortTLB\<close> and \<open>SortPTE\<close> run the same loop over the TLB and over the page table.\<close>

definition sort_entries :: "TranslationEntry list \<Rightarrow> TranslationEntry list" where
  "sort_entries t = map (\<lambda>e. e\<lparr>NRU_N := nru_class e\<rparr>) t"

definition SortTLB :: "Machine \<Rightarrow> Machine" where
  "SortTLB m = m\<lparr>tlb := map_option sort_entries (tlb m)\<rparr>"

definition SortPTE :: "Machine \<Rightarrow> Machine" where
  "SortPTE m = m\<lparr>pageTable := sort_entries (pageTable m)\<rparr>"

text \<open>\<open>min = 0; for (i...) if (t[i].NRU_N < t[min].NRU_N) min = i;\<close>\<close>

definition nru_min :: "TranslationEntry list \<Rightarrow> nat" where
  "nru_min t = foldl (\<lambda>m i. if NRU_N (t ! i) < NRU_N (t ! m) then i else m) 0 [0..<length t]"

definition SwitchOutTLB :: "TranslationEntry list \<Rightarrow> nat" where "SwitchOutTLB t = nru_min t"
definition LRU_PTE :: "Machine \<Rightarrow> nat" where "LRU_PTE m = nru_min (pageTable m)"

definition ClearRBit :: "Machine \<Rightarrow> Machine res" where
  "ClearRBit m = (case tlb m of None \<Rightarrow> Inl BadAccess
     | Some t \<Rightarrow> Inr (m\<lparr>tlb := Some (map (\<lambda>e. e\<lparr>use := False\<rparr>) t),
                       pageTable := map (\<lambda>e. e\<lparr>use := False\<rparr>) (pageTable m)\<rparr>))"

text \<open>\<open>TLBSwap\<close> gives the valid entry with the lowest \<open>hitRate\<close> to a page; without a valid entry below the
  start value its index stays -1.\<close>

definition lowest_hits :: "TranslationEntry list \<Rightarrow> nat option" where
  "lowest_hits t = snd (foldl (\<lambda>(mn, i) k. if valid (t ! k) \<and> hitRate (t ! k) < mn then (hitRate (t ! k), Some k) else (mn, i))
     (1000000, None) [0..<length t])"

definition TLBSwap :: "u32 \<Rightarrow> Machine \<Rightarrow> Machine res" where
  "TLBSwap badVAddr m = (case tlb m of None \<Rightarrow> Inr m
     | Some t \<Rightarrow> (case lowest_hits t of None \<Rightarrow> Inl BadAccess
         | Some i \<Rightarrow> Inr (m\<lparr>tlb := Some (t[i := (t ! i)\<lparr>virtualPage := uint badVAddr div PageSize, hitRate := 0\<rparr>])\<rparr>)))"

text \<open>\<open>AddrSpace::SwitchPageTable\<close>: give the entry to the faulting page, release its old frame.\<close>

definition SwitchPageTable :: "nat \<Rightarrow> Machine \<Rightarrow> Machine res" where
  "SwitchPageTable frameNum m =
     (if frameNum < length (pageTable m)
      then let old = physicalPage (pageTable m ! frameNum) in
        bindR (Test (phys_map m) (vpn m)) (\<lambda>t.
        bindR (if t then Mark (phys_map m) (vpn m) else Inr (phys_map m)) (\<lambda>b1.
        if vpn m = -1 then Inl AssertFail
        else bindR (Clear b1 old) (\<lambda>b2.
          Inr (m\<lparr>phys_map := b2,
                 pageTable := (pageTable m)[frameNum := (pageTable m ! frameNum)
                   \<lparr>physicalPage := vpn m, virtualPage := vpn m, valid := True,
                    use := False, dirty := False, readOnly := False\<rparr>]\<rparr>))))
      else Inl BadAccess)"

definition UpdatePageTable :: "Machine \<Rightarrow> Machine res" where
  "UpdatePageTable m =
     (let m1 = SortPTE m; f = LRU_PTE m1 in SwitchPageTable f (m1\<lparr>pageTableFrame := int f\<rparr>))"

section \<open>Exceptions\<close>

definition trap :: "(Machine \<Rightarrow> Machine res) \<Rightarrow> u32 \<Rightarrow> Machine \<Rightarrow> Machine res" where
  "trap handler badVAddr m =
     bindR (DelayedLoad (m\<lparr>registers := (registers m)[BadVAddrReg := badVAddr]\<rparr>) 0 0) (\<lambda>m1.
     bindR (handler (m1\<lparr>userMode := False\<rparr>)) (\<lambda>m2. Inr (m2\<lparr>userMode := True\<rparr>)))"

text \<open>In \<open>TranslatePTE\<close> the exception is \<open>PTEPageFaultException\<close>, whose handler is \<open>UpdatePageTable\<close>.\<close>

definition TranslatePTE :: "Machine \<Rightarrow> Machine res" where
  "TranslatePTE m =
     (let m0 = m\<lparr>pageTableFrame := vpn m\<rparr> in
      bindR (if vpn m \<ge> int (length (pageTable m))
               \<or> vpn m \<noteq> to_unsigned (virtualPage (pageTable m ! nat (vpn m)))
               \<or> \<not> valid (pageTable m ! nat (vpn m))
             then trap UpdatePageTable (word_of_int (vpn m * PageSize + offset m)) m0
             else Inr m0) (\<lambda>m1.
      if \<not> to_unsigned (pageTableFrame m1) < int (length (pageTable m1)) then Inl AssertFail
      else if \<not> valid (pageTable m1 ! nat (pageTableFrame m1)) then Inl AssertFail
      else Inr (m1\<lparr>entry := InTable (nat (pageTableFrame m1))\<rparr>)))"

definition SC_Halt :: u32 where "SC_Halt = 0"

definition ExceptionHandler :: "ExceptionType \<Rightarrow> Machine \<Rightarrow> Machine res" where
  "ExceptionHandler which m =
     bindR (ReadRegister m 2) (\<lambda>type.
     if which = SyscallException \<and> type = SC_Halt then Inl MachineHalt
     else if which = TLBPageFaultException then TranslatePTE m
     else if which = PTEPageFaultException then UpdatePageTable m
     else Inl AssertFail)"

definition RaiseException :: "ExceptionType \<Rightarrow> u32 \<Rightarrow> Machine \<Rightarrow> Machine res" where
  "RaiseException which badVAddr m = trap (ExceptionHandler which) badVAddr m"

section \<open>Translation\<close>

definition the_entry :: "Machine \<Rightarrow> TranslationEntry res" where
  "the_entry m = (case entry m of Null \<Rightarrow> Inl BadAccess
     | InTLB i \<Rightarrow> (case tlb m of Some t \<Rightarrow> if i < length t then Inr (t ! i) else Inl BadAccess | None \<Rightarrow> Inl BadAccess)
     | InTable i \<Rightarrow> if i < length (pageTable m) then Inr (pageTable m ! i) else Inl BadAccess)"

definition set_entry :: "Machine \<Rightarrow> TranslationEntry \<Rightarrow> Machine" where
  "set_entry m e = (case entry m of Null \<Rightarrow> m
     | InTLB i \<Rightarrow> m\<lparr>tlb := map_option (\<lambda>t. t[i := e]) (tlb m)\<rparr>
     | InTable i \<Rightarrow> m\<lparr>pageTable := (pageTable m)[i := e]\<rparr>)"

text \<open>The first invalid slot, or else the victim of \<open>SwitchOutTLB\<close>; all members but \<open>hitRate\<close> and
  \<open>NRU_N\<close> are copied.\<close>

definition free_slot :: "TranslationEntry list \<Rightarrow> nat" where
  "free_slot t = length (takeWhile valid t)"

definition UpdateTLB :: "Machine \<Rightarrow> Machine res" where
  "UpdateTLB m =
     (case tlb m of None \<Rightarrow> Inl BadAccess
      | Some t \<Rightarrow>
        let i0 = free_slot t;
            (t1, i) = (if i0 = TLBSize then (sort_entries t, SwitchOutTLB (sort_entries t)) else (t, i0)) in
        bindR (the_entry (m\<lparr>tlb := Some t1\<rparr>)) (\<lambda>e.
        Inr (m\<lparr>tlb := Some (t1[i := (t1 ! i)\<lparr>virtualPage := virtualPage e, physicalPage := physicalPage e,
               valid := valid e, readOnly := readOnly e, use := use e, dirty := dirty e\<rparr>])\<rparr>)))"

fun tlb_lookup :: "nat \<Rightarrow> TranslationEntry list \<Rightarrow> int \<Rightarrow> nat option" where
  "tlb_lookup i [] v = None"
| "tlb_lookup i (e # t) v =
     (if valid e \<and> to_unsigned (virtualPage e) = v then Some i else tlb_lookup (i + 1) t v)"

text \<open>The part of \<open>Translate\<close> from the permission check on.\<close>

definition finish_translate :: "bool \<Rightarrow> bool \<Rightarrow> Machine \<Rightarrow> (ExceptionType \<times> int \<times> Machine) res" where
  "finish_translate writing tlb_miss m =
     bindR (the_entry m) (\<lambda>e.
     if readOnly e \<and> writing then Inr (ReadOnlyException, 0, m)
     else
       let m1 = m\<lparr>pageFrame := to_unsigned (physicalPage e)\<rparr>;
           m2 = set_entry m1 (e\<lparr>use := True, dirty := dirty e \<or> writing\<rparr>);
           physAddr = sint (word_of_int (pageFrame m1 * PageSize + offset m1) :: u32)
       in bindR (if tlb_miss then UpdateTLB m2 else Inr m2) (\<lambda>m3. Inr (NoException, physAddr, m3)))"

definition Translate :: "u32 \<Rightarrow> nat \<Rightarrow> bool \<Rightarrow> Machine \<Rightarrow> (ExceptionType \<times> int \<times> Machine) res" where
  "Translate virtAddr sz writing m =
     (if sz = 4 \<and> virtAddr AND 3 \<noteq> 0 \<or> sz = 2 \<and> virtAddr AND 1 \<noteq> 0
      then Inr (AddressErrorException, 0, m)
      else
        let v = uint virtAddr div PageSize;
            m1 = m\<lparr>vpn := v, offset := uint virtAddr mod PageSize\<rparr> in
        case tlb m of
          None \<Rightarrow>
            if v \<ge> int (length (pageTable m)) then Inr (AddressErrorException, 0, m1)
            else if \<not> valid (pageTable m ! nat v) then Inr (PTEPageFaultException, 0, m1)
            else finish_translate writing True (m1\<lparr>entry := InTable (nat v)\<rparr>)
        | Some t \<Rightarrow>
            (case tlb_lookup 0 t v of
               Some i \<Rightarrow> finish_translate writing False (m1\<lparr>entry := InTLB i, hit_count := hit_count m + 1\<rparr>)
             | None \<Rightarrow>
                 bindR (RaiseException TLBPageFaultException virtAddr (m1\<lparr>entry := Null\<rparr>)) (\<lambda>m2.
                 finish_translate writing True m2)))"

section \<open>Memory access\<close>

text \<open>A \<open>char\<close> is signed, so the one-byte case extends the sign.\<close>

fun word_of_bytes :: "u8 list \<Rightarrow> u32" where
  "word_of_bytes [a] = scast a"
| "word_of_bytes [a, b] = or (ucast a) (push_bit 8 (ucast b))"
| "word_of_bytes bs = bytes_word bs"

definition unix_ReadAt :: "u8 list \<Rightarrow> u8 list \<Rightarrow> nat \<Rightarrow> int \<Rightarrow> u8 list res" where
  "unix_ReadAt f into n position =
     (if position < 0 then Inl AssertFail else Inr (overlay 0 (take n (drop (nat position) f)) into))"

definition unix_WriteAt :: "u8 list \<Rightarrow> u8 list \<Rightarrow> int \<Rightarrow> u8 list res" where
  "unix_WriteAt f bs position =
     (if position < 0 then Inl AssertFail
      else let p = nat position in Inr (overlay p bs (f @ replicate (p + length bs - length f) 0)))"

definition load_phys :: "Machine \<Rightarrow> nat \<Rightarrow> int \<Rightarrow> (u32 \<times> Machine) res" where
  "load_phys m sz pa =
     (if sz \<notin> {1, 2, 4} then Inl AssertFail
      else if pa \<ge> MemorySize
      then bindR (unix_ReadAt (swap m) (disk m) sz (pa - noffCodeOffset m)) (\<lambda>bs.
             Inr (word_of_bytes (take sz bs), m\<lparr>disk := bs\<rparr>))
      else if pa < 0 \<or> pa + int sz > int (length (mainMemory m)) then Inl BadAccess
      else Inr (word_of_bytes (take sz (drop (nat pa) (mainMemory m))), m))"

text \<open>For a swapped page the value is assigned to the single byte \<open>disk[0]\<close>, as the source does.\<close>

definition store_phys :: "Machine \<Rightarrow> nat \<Rightarrow> int \<Rightarrow> u32 \<Rightarrow> Machine res" where
  "store_phys m sz pa value =
     (if sz \<notin> {1, 2, 4} then Inl AssertFail
      else if pa \<ge> MemorySize
      then let bs = (disk m)[0 := ucast value] in
        bindR (unix_WriteAt (swap m) (take sz bs) (pa - noffCodeOffset m)) (\<lambda>f.
          Inr (m\<lparr>disk := bs, swap := f\<rparr>))
      else if pa < 0 \<or> pa + int sz > int (length (mainMemory m)) then Inl BadAccess
      else Inr (m\<lparr>mainMemory := overlay (nat pa) (take sz (word_bytes value)) (mainMemory m)\<rparr>))"

text \<open>\<open>Translate\<close>, then trap on an exception, with the retry that only a \<open>PageFaultException\<close> gets.\<close>

definition translate_or_trap :: "u32 \<Rightarrow> nat \<Rightarrow> bool \<Rightarrow> Machine \<Rightarrow> (int option \<times> Machine) res" where
  "translate_or_trap addr sz writing m =
     bindR (Translate addr sz writing m) (\<lambda>(ex, pa, m1).
     if ex = NoException then Inr (Some pa, m1)
     else bindR (RaiseException ex addr m1) (\<lambda>m2.
       if ex = PageFaultException
       then bindR (Translate addr sz True m2) (\<lambda>(ex2, pa2, m3).
              Inr (if ex2 = NoException then Some pa2 else None, m3))
       else Inr (None, m2)))"

definition ReadMem :: "u32 \<Rightarrow> nat \<Rightarrow> Machine \<Rightarrow> (u32 option \<times> Machine) res" where
  "ReadMem addr sz m =
     bindR (translate_or_trap addr sz False m) (\<lambda>(r, m1).
     case r of None \<Rightarrow> Inr (None, m1)
     | Some pa \<Rightarrow> bindR (load_phys m1 sz pa) (\<lambda>(v, m2). Inr (Some v, m2)))"

definition WriteMem :: "u32 \<Rightarrow> nat \<Rightarrow> u32 \<Rightarrow> Machine \<Rightarrow> (bool \<times> Machine) res" where
  "WriteMem addr sz value m =
     bindR (translate_or_trap addr sz True m) (\<lambda>(r, m1).
     case r of None \<Rightarrow> Inr (False, m1)
     | Some pa \<Rightarrow> bindR (store_phys m1 sz pa value) (\<lambda>m2. Inr (True, m2)))"


section \<open>Well-formed machines\<close>

definition wf_machine :: "Machine \<Rightarrow> bool" where
  "wf_machine m \<longleftrightarrow> length (registers m) = NumTotalRegs
     \<and> 0 \<le> sint (registers m ! LoadReg) \<and> sint (registers m ! LoadReg) < 32
     \<and> length (mainMemory m) = 4096 \<and> length (disk m) = 4
     \<and> (case tlb m of None \<Rightarrow> True | Some t \<Rightarrow> length t = TLBSize)"

lemma DelayedLoad_ok:
  assumes "wf_machine m"
  shows "DelayedLoad m nr nv = Inr (m\<lparr>registers := (registers m)[nat (sint (registers m ! LoadReg)) := registers m ! LoadValueReg,
     LoadReg := nr, LoadValueReg := nv, 0 := 0]\<rparr>)"
  using assms by (simp add: DelayedLoad_def wf_machine_def Let_def NumTotalRegs_def)

lemma DelayedLoad_zero:
  assumes "wf_machine m" "DelayedLoad m nr nv = Inr m'" "0 \<le> sint nr" "sint nr < 32"
  shows "wf_machine m' \<and> registers m' ! 0 = 0"
  using assms DelayedLoad_ok [OF assms(1), of nr nv]
  by (auto simp: wf_machine_def reg_consts nth_list_update)

section \<open>Replacement picks the best class\<close>

lemma nru_min_spec:
  assumes "t \<noteq> []"
  shows "nru_min t < length t \<and> (\<forall>j < length t. NRU_N (t ! nru_min t) \<le> NRU_N (t ! j))
    \<and> (\<forall>j < nru_min t. NRU_N (t ! nru_min t) < NRU_N (t ! j))"
proof -
  let ?f = "\<lambda>m i. if NRU_N (t ! i) < NRU_N (t ! m) then i else m"
  have "n \<le> length t \<Longrightarrow> (let r = foldl ?f 0 [0..<n] in (n = 0 \<longrightarrow> r = 0) \<and> (0 < n \<longrightarrow> r < n)
      \<and> (\<forall>j < n. NRU_N (t ! r) \<le> NRU_N (t ! j)) \<and> (\<forall>j < r. NRU_N (t ! r) < NRU_N (t ! j)))" for n
  proof (induction n)
    case 0
    then show ?case by simp
  next
    case (Suc n)
    then show ?case by (auto simp: Let_def less_Suc_eq split: if_splits) 
  qed
  from this [of "length t"] show ?thesis using assms by (simp add: nru_min_def Let_def)
qed


section \<open>A translation that hits the TLB\<close>

lemma tlb_lookup_Some:
  "tlb_lookup k t v = Some i \<Longrightarrow> k \<le> i \<and> i < k + length t \<and> valid (t ! (i - k)) \<and> to_unsigned (virtualPage (t ! (i - k))) = v"
proof (induction k t v rule: tlb_lookup.induct)
  case (2 k e t v)
  then show ?case by (cases "valid e \<and> to_unsigned (virtualPage e) = v") (auto simp: nth_Cons' Suc_le_eq)
qed simp

text \<open>Marking the entry as used changes neither the pages nor the validity, so the next lookup hits it again.\<close>

lemma tlb_lookup_touch:
  "tlb_lookup k t v = Some i \<Longrightarrow> valid e \<Longrightarrow> virtualPage e = virtualPage (t ! (i - k)) \<Longrightarrow>
     tlb_lookup k (t[i - k := e]) v = Some i"
proof (induction k t v rule: tlb_lookup.induct)
  case (2 k e' t v)
  show ?case
  proof (cases "valid e' \<and> to_unsigned (virtualPage e') = v")
    case True
    with 2 show ?thesis by simp
  next
    case False
    with 2 have l: "tlb_lookup (k + 1) t v = Some i" by simp
    from tlb_lookup_Some [OF l] have "k + 1 \<le> i" by simp
    then have "i - k = Suc (i - (k + 1))" by arith
    then show ?thesis using 2 False l by auto
  qed
qed simp

definition aligned :: "u32 \<Rightarrow> nat \<Rightarrow> bool" where
  "aligned a n \<longleftrightarrow> (n = 1 \<or> n = 2 \<or> n = 4) \<and> uint a mod int n = 0"

lemma aligned_and: "aligned a n \<Longrightarrow> \<not> (n = 4 \<and> a AND 3 \<noteq> 0 \<or> n = 2 \<and> a AND 1 \<noteq> 0)"
proof -
  assume al: "aligned a n"
  have "a AND 3 = take_bit 2 a" "a AND 1 = take_bit 1 a"
    by (simp_all add: take_bit_eq_mask mask_eq_decr_exp)
  moreover have "uint a mod 4 = 0 \<Longrightarrow> take_bit 2 a = 0" "uint a mod 2 = 0 \<Longrightarrow> take_bit 1 a = 0"
    by (simp_all add: word_uint_eq_iff take_bit_eq_mod uint_mod)
  ultimately show ?thesis using al by (auto simp: aligned_def)
qed

definition touched :: "TranslationEntry \<Rightarrow> bool \<Rightarrow> TranslationEntry" where
  "touched e writing = e\<lparr>use := True, dirty := dirty e \<or> writing\<rparr>"

definition after_hit :: "Machine \<Rightarrow> TranslationEntry list \<Rightarrow> nat \<Rightarrow> u32 \<Rightarrow> bool \<Rightarrow> Machine" where
  "after_hit m t i a writing = m\<lparr>vpn := uint a div 128, offset := uint a mod 128, entry := InTLB i,
     hit_count := hit_count m + 1, pageFrame := to_unsigned (physicalPage (t ! i)),
     tlb := Some (t[i := touched (t ! i) writing])\<rparr>"

lemma Translate_hit:
  assumes al: "aligned a n" and t: "tlb m = Some t" "tlb_lookup 0 t (uint a div 128) = Some i"
    and ro: "\<not> (readOnly (t ! i) \<and> writing)"
  shows "Translate a n writing m = Inr (NoException,
     sint (word_of_int (to_unsigned (physicalPage (t ! i)) * 128 + uint a mod 128) :: u32), after_hit m t i a writing)"
proof -
  have i: "i < length t" using tlb_lookup_Some [OF t(2)] by simp
  show ?thesis
    unfolding Translate_def if_not_P [OF aligned_and [OF al]]
    using t i ro
    by (simp add: machine_consts finish_translate_def the_entry_def set_entry_def after_hit_def touched_def Let_def)
qed

text \<open>The physical address of a resident page.\<close>

lemma resident_address:
  assumes al: "aligned a n" and f: "0 \<le> f" "f < 32"
  shows "sint (word_of_int (to_unsigned f * 128 + uint a mod 128) :: u32) = f * 128 + uint a mod 128"
    and "0 \<le> f * 128 + uint a mod 128" "f * 128 + uint a mod 128 + int n \<le> 4096"
proof -
  have b: "0 \<le> uint a mod 128" "uint a mod 128 < 128" by simp_all
  have "(128 :: int) mod int n = 0" using al by (auto simp: aligned_def)
  then have "(uint a mod 128) mod int n = 0"
    using al by (auto simp: aligned_def mod_mod_cancel dvd_eq_mod_eq_0)
  then have "uint a mod 128 + int n \<le> 128"
    using al b unfolding aligned_def by (elim conjE disjE) (simp_all, presburger+)
  then show "f * 128 + uint a mod 128 + int n \<le> 4096" using f by linarith
  show "0 \<le> f * 128 + uint a mod 128" using f b by simp
  have "is_int32 (f * 128 + uint a mod 128)" unfolding is_int32_def using f b by linarith
  moreover have "to_unsigned f = f" using f by (simp add: to_unsigned_def)
  ultimately show "sint (word_of_int (to_unsigned f * 128 + uint a mod 128) :: u32) = f * 128 + uint a mod 128"
    by (simp only: sint_of_int32)
qed


text \<open>The value a load of n bytes returns after a store of a word.\<close>

definition loaded :: "nat \<Rightarrow> u32 \<Rightarrow> u32" where
  "loaded n v = word_of_bytes (take n (word_bytes v))"

lemma loaded_eq:
  "loaded 4 v = v" "loaded 2 v = v AND 0xFFFF" "loaded 1 v = scast (ucast v :: u8)"
proof -
  show "loaded 4 v = v"
    using bytes_word_word_bytes [of v] by (simp add: loaded_def word_bytes_def)
  show "loaded 2 v = v AND 0xFFFF"
  proof -
    have "v AND 0xFFFF = take_bit 16 v" by (simp add: take_bit_eq_mask mask_eq_decr_exp)
    moreover have "loaded 2 v = take_bit 16 v"
      by (rule bit_word_eqI) (auto simp: loaded_def word_bytes_def bit_simps)
    ultimately show ?thesis by simp
  qed
  show "loaded 1 v = scast (ucast v :: u8)" by (simp add: loaded_def word_bytes_def)
qed

lemma store_load:
  assumes "n \<in> {1, 2, 4}" "0 \<le> pa" "pa + int n \<le> int (length (mainMemory m))" "pa < MemorySize"
  shows "store_phys m n pa v = Inr (m\<lparr>mainMemory := overlay (nat pa) (take n (word_bytes v)) (mainMemory m)\<rparr>)"
    and "load_phys (m\<lparr>mainMemory := overlay (nat pa) (take n (word_bytes v)) (mainMemory m)\<rparr>) n pa =
      Inr (loaded n v, m\<lparr>mainMemory := overlay (nat pa) (take n (word_bytes v)) (mainMemory m)\<rparr>)"
proof -
  have len: "length (take n (word_bytes v)) = n" using assms(1) by auto
  have fit: "nat pa + length (take n (word_bytes v)) \<le> length (mainMemory m)" unfolding len using assms(2,3) by linarith
  then have "take n (drop (nat pa) (overlay (nat pa) (take n (word_bytes v)) (mainMemory m))) = take n (word_bytes v)"
    using len by (simp add: overlay_def)
  then show "store_phys m n pa v = Inr (m\<lparr>mainMemory := overlay (nat pa) (take n (word_bytes v)) (mainMemory m)\<rparr>)"
    "load_phys (m\<lparr>mainMemory := overlay (nat pa) (take n (word_bytes v)) (mainMemory m)\<rparr>) n pa =
      Inr (loaded n v, m\<lparr>mainMemory := overlay (nat pa) (take n (word_bytes v)) (mainMemory m)\<rparr>)"
    using assms fit by (auto simp: store_phys_def load_phys_def loaded_def)
qed


section \<open>Victims of not-recently-used replacement\<close>

definition best_victim :: "TranslationEntry list \<Rightarrow> nat \<Rightarrow> bool" where
  "best_victim t i \<longleftrightarrow> i < length t \<and> (\<forall>j < length t. nru_class (t ! i) \<le> nru_class (t ! j))
     \<and> (\<forall>j < i. nru_class (t ! i) < nru_class (t ! j))"

lemma length_sort_entries [simp]: "length (sort_entries t) = length t"
  by (simp add: sort_entries_def)

lemma nth_sort_entries [simp]: "i < length t \<Longrightarrow> sort_entries t ! i = (t ! i)\<lparr>NRU_N := nru_class (t ! i)\<rparr>"
  by (simp add: sort_entries_def)

lemma nru_min_sorted: "t \<noteq> [] \<Longrightarrow> best_victim t (nru_min (sort_entries t))"
proof -
  assume "t \<noteq> []"
  then have "sort_entries t \<noteq> []" by (simp add: sort_entries_def)
  from nru_min_spec [OF this] show ?thesis by (auto simp: best_victim_def)
qed

section \<open>A translation that misses the TLB\<close>

lemma tlb_lookup_sorted [simp]: "tlb_lookup k (sort_entries t) v = tlb_lookup k t v"
  by (induction k t v rule: tlb_lookup.induct) (simp_all add: sort_entries_def)

lemma tlb_lookup_insert:
  "tlb_lookup k t v = None \<Longrightarrow> i < length t \<Longrightarrow> valid e \<Longrightarrow> to_unsigned (virtualPage e) = v \<Longrightarrow>
     tlb_lookup k (t[i := e]) v = Some (k + i)"
proof (induction k t v arbitrary: i rule: tlb_lookup.induct)
  case (2 k e' t v)
  then have nm: "\<not> (valid e' \<and> to_unsigned (virtualPage e') = v)" by (auto split: if_splits)
  with 2 show ?case by (cases i) auto
qed simp

text \<open>The slot \<open>UpdateTLB\<close> fills, and the table it fills it in.\<close>

definition refill_slot :: "TranslationEntry list \<Rightarrow> nat" where
  "refill_slot t = (if free_slot t = TLBSize then nru_min (sort_entries t) else free_slot t)"

definition refill_base :: "TranslationEntry list \<Rightarrow> TranslationEntry list" where
  "refill_base t = (if free_slot t = TLBSize then sort_entries t else t)"

definition copied :: "TranslationEntry \<Rightarrow> TranslationEntry \<Rightarrow> TranslationEntry" where
  "copied old e = old\<lparr>virtualPage := virtualPage e, physicalPage := physicalPage e, valid := valid e,
     readOnly := readOnly e, use := use e, dirty := dirty e\<rparr>"

lemma refill_slot_less: "length t = TLBSize \<Longrightarrow> refill_slot t < TLBSize"
proof -
  assume l: "length t = TLBSize"
  then have "t \<noteq> []" by (auto simp: TLBSize_def)
  from nru_min_sorted [OF this] have "nru_min (sort_entries t) < TLBSize" using l by (simp add: best_victim_def)
  moreover have "free_slot t \<le> TLBSize" using length_takeWhile_le [of valid t] l by (simp add: free_slot_def)
  ultimately show ?thesis by (auto simp: refill_slot_def)
qed

lemma refill_slot_victim: "length t = TLBSize \<Longrightarrow> valid (t ! refill_slot t) \<Longrightarrow> best_victim t (refill_slot t)"
proof -
  assume l: "length t = TLBSize" and v: "valid (t ! refill_slot t)"
  have "free_slot t = TLBSize"
  proof (rule ccontr)
    assume ne: "free_slot t \<noteq> TLBSize"
    then have "length (takeWhile valid t) < length t"
      using length_takeWhile_le [of valid t] l by (simp add: free_slot_def)
    from nth_length_takeWhile [OF this] show False using v ne by (simp add: refill_slot_def free_slot_def)
  qed
  moreover have "t \<noteq> []" using l by (auto simp: TLBSize_def)
  ultimately show ?thesis using nru_min_sorted by (simp add: refill_slot_def)
qed

lemma UpdateTLB_eq:
  assumes "tlb m = Some t" "entry m = InTable k" "k < length (pageTable m)"
  shows "UpdateTLB m = Inr (m\<lparr>tlb := Some ((refill_base t)[refill_slot t :=
     copied (refill_base t ! refill_slot t) (pageTable m ! k)])\<rparr>)"
  using assms by (simp add: UpdateTLB_def refill_base_def refill_slot_def copied_def SwitchOutTLB_def
      the_entry_def Let_def)

text \<open>The kernel's handling of a TLB fault on a page that is in the page table.\<close>

definition page_resident :: "Machine \<Rightarrow> int \<Rightarrow> bool" where
  "page_resident m v \<longleftrightarrow> 0 \<le> v \<and> v < int (length (pageTable m)) \<and> valid (pageTable m ! nat v)
     \<and> to_unsigned (virtualPage (pageTable m ! nat v)) = v"

definition after_fault :: "Machine \<Rightarrow> u32 \<Rightarrow> Machine" where
  "after_fault m a = m\<lparr>registers := (registers m)[BadVAddrReg := a, nat (sint (registers m ! LoadReg)) := registers m ! LoadValueReg,
     LoadReg := 0, LoadValueReg := 0, 0 := 0], pageTableFrame := vpn m, entry := InTable (nat (vpn m)), userMode := True\<rparr>"

lemma trap_eq:
  assumes "wf_machine m"
  shows "trap h a m = bindR (h (m\<lparr>registers := (registers m)[BadVAddrReg := a,
      nat (sint (registers m ! LoadReg)) := registers m ! LoadValueReg, LoadReg := 0, LoadValueReg := 0, 0 := 0],
      userMode := False\<rparr>)) (\<lambda>m2. Inr (m2\<lparr>userMode := True\<rparr>))"
proof -
  have "wf_machine (m\<lparr>registers := (registers m)[BadVAddrReg := a]\<rparr>)"
    using assms by (simp add: wf_machine_def reg_consts)
  from DelayedLoad_ok [OF this] show ?thesis by (simp add: trap_def reg_consts)
qed

lemma TLB_fault_resident:
  assumes wf: "wf_machine m" and r: "page_resident m (vpn m)"
  shows "RaiseException TLBPageFaultException a m = Inr (after_fault m a)"
proof -
  have "length (registers m) = 40" using wf by (simp add: wf_machine_def NumTotalRegs_def)
  moreover have "to_unsigned (vpn m) = vpn m" using r by (auto simp: page_resident_def to_unsigned_def)
  ultimately show ?thesis using r
    by (simp add: RaiseException_def trap_eq [OF wf] ExceptionHandler_def ReadRegister_def TranslatePTE_def
        after_fault_def page_resident_def reg_consts Let_def)
qed

lemma Translate_refill:
  assumes wf: "wf_machine m" and al: "aligned a n" and t: "tlb m = Some t"
    and miss: "tlb_lookup 0 t (uint a div 128) = None"
    and r: "page_resident m (uint a div 128)"
    and ro: "\<not> (readOnly (pageTable m ! nat (uint a div 128)) \<and> writing)"
  defines "e \<equiv> pageTable m ! nat (uint a div 128)"
  shows "\<exists>m'. Translate a n writing m = Inr (NoException,
      sint (word_of_int (to_unsigned (physicalPage e) * 128 + uint a mod 128) :: u32), m')
    \<and> tlb m' = Some ((refill_base t)[refill_slot t := copied (refill_base t ! refill_slot t) (touched e writing)])
    \<and> pageTable m' = (pageTable m)[nat (uint a div 128) := touched e writing]
    \<and> mainMemory m' = mainMemory m \<and> swap m' = swap m"
proof -
  let ?v = "uint a div 128"
  let ?m1 = "m\<lparr>vpn := ?v, offset := uint a mod 128, entry := Null\<rparr>"
  have wf1: "wf_machine ?m1" using wf by (simp add: wf_machine_def)
  have r1: "page_resident ?m1 (vpn ?m1)" using r by (simp add: page_resident_def)
  let ?m2 = "after_fault ?m1 a"
  have f: "RaiseException TLBPageFaultException a ?m1 = Inr ?m2" by (rule TLB_fault_resident [OF wf1 r1])
  have "Translate a n writing m = finish_translate writing True ?m2"
    unfolding Translate_def if_not_P [OF aligned_and [OF al]]
    using t miss f by (simp add: machine_consts Let_def)
  moreover have "nat ?v < length (pageTable m)" using r by (simp add: page_resident_def nat_less_iff)
  ultimately show ?thesis using ro t
    by (simp add: finish_translate_def the_entry_def set_entry_def after_fault_def touched_def e_def Let_def
        UpdateTLB_eq [of _ t "nat ?v"] machine_consts)
qed


section \<open>Replacing a page\<close>

text \<open>The page fault can be served: the victim's frame and the page's own number are positions of the map.\<close>

definition replaceable :: "Machine \<Rightarrow> bool" where
  "replaceable m \<longleftrightarrow> wf_bitmap (phys_map m) \<and> 0 \<le> vpn m \<and> vpn m < numBits (phys_map m) \<and> pageTable m \<noteq> []
     \<and> (\<forall>e \<in> set (pageTable m). 0 \<le> physicalPage e \<and> physicalPage e < numBits (phys_map m))"

lemma UpdatePageTable_spec:
  assumes r: "replaceable m"
  defines "f \<equiv> nru_min (sort_entries (pageTable m))"
  shows "\<exists>b. UpdatePageTable m = Inr (m\<lparr>pageTableFrame := int f, phys_map := b,
        pageTable := (sort_entries (pageTable m))[f := (sort_entries (pageTable m) ! f)
          \<lparr>physicalPage := vpn m, virtualPage := vpn m, valid := True, use := False, dirty := False, readOnly := False\<rparr>]\<rparr>)
    \<and> wf_bitmap b \<and> numBits b = numBits (phys_map m)
    \<and> marked b = marked (phys_map m) - {physicalPage (pageTable m ! f)} \<and> best_victim (pageTable m) f"
proof -
  let ?b = "phys_map m" and ?old = "physicalPage (pageTable m ! f)"
  have v: "best_victim (pageTable m) f" unfolding f_def using r by (intro nru_min_sorted) (simp add: replaceable_def)
  then have fl: "f < length (pageTable m)" by (simp add: best_victim_def)
  have wf: "wf_bitmap ?b" and vp: "0 \<le> vpn m" "vpn m < numBits ?b" using r by (auto simp: replaceable_def)
  have old: "0 \<le> ?old" "?old < numBits ?b" using r fl by (auto simp: replaceable_def)
  obtain b1 where b1: "Mark ?b (vpn m) = Inr b1" using Mark_ok [OF vp] by blast
  define b where "b = (if is_marked ?b (vpn m) then b1 else ?b)"
  have bf: "(if is_marked ?b (vpn m) then Mark ?b (vpn m) else Inr ?b) = Inr b" using b1 by (simp add: b_def)
  have b: "wf_bitmap b" "numBits b = numBits ?b" "marked b = marked ?b"
    using wf vp Mark_wf [OF wf b1] Mark_frame [OF b1] marked_Mark [OF wf b1] by (auto simp: b_def marked_def)
  then obtain b2 where b2: "Clear b ?old = Inr b2" using Clear_ok [of ?old b] old by auto
  have "UpdatePageTable m = Inr (m\<lparr>pageTableFrame := int f, phys_map := b2,
        pageTable := (sort_entries (pageTable m))[f := (sort_entries (pageTable m) ! f)
          \<lparr>physicalPage := vpn m, virtualPage := vpn m, valid := True, use := False, dirty := False, readOnly := False\<rparr>]\<rparr>)"
    using fl vp b2 bf
    by (cases "is_marked ?b (vpn m)")
      (simp_all add: UpdatePageTable_def SortPTE_def LRU_PTE_def SwitchPageTable_def Let_def Test_spec flip: f_def)
  then show ?thesis using v Clear_wf [OF b(1) b2] Clear_frame [OF b2] marked_Clear [OF b(1) b2] b by auto
qed

lemma Translate_page_fault:
  assumes wf: "wf_machine m" and al: "aligned a n" and t: "tlb m = Some t"
    and miss: "tlb_lookup 0 t (uint a div 128) = None"
    and nr: "\<not> page_resident m (uint a div 128)"
    and rp: "replaceable (m\<lparr>vpn := uint a div 128\<rparr>)" and small: "length (pageTable m) < 4294967296"
  defines "f \<equiv> nru_min (sort_entries (pageTable m))"
  shows "\<exists>m'. Translate a n writing m = Inr (NoException, sint a, m')
    \<and> best_victim (pageTable m) f
    \<and> valid (pageTable m' ! f) \<and> virtualPage (pageTable m' ! f) = uint a div 128
    \<and> physicalPage (pageTable m' ! f) = uint a div 128
    \<and> marked (phys_map m') = marked (phys_map m) - {physicalPage (pageTable m ! f)}"
proof -
  let ?v = "uint a div 128"
  let ?m1 = "m\<lparr>vpn := ?v, offset := uint a mod 128, entry := Null\<rparr>"
  let ?m2 = "m\<lparr>vpn := ?v, offset := uint a mod 128, entry := Null,
      registers := (registers m)[BadVAddrReg := a, nat (sint (registers m ! LoadReg)) := registers m ! LoadValueReg,
        LoadReg := 0, LoadValueReg := 0, 0 := 0], userMode := False\<rparr>"
  have lr: "length (registers m) = 40" using wf by (simp add: wf_machine_def NumTotalRegs_def)
  have wf1: "wf_machine ?m1" using wf by (simp add: wf_machine_def)
  have wf2: "wf_machine (?m2\<lparr>pageTableFrame := ?v\<rparr>)" using wf by (auto simp: wf_machine_def reg_consts nth_list_update)
  have vu: "to_unsigned ?v = ?v" 
  proof -
    have "0 \<le> uint a" "uint a < 4294967296" using uint_lt2p [of a] by simp_all
    then have "0 \<le> ?v" "?v < 4294967296" by linarith+
    then show ?thesis by (rule to_unsigned_id)
  qed
  define regs where "regs = (registers ?m2)[BadVAddrReg := word_of_int (?v * PageSize + uint a mod 128),
        nat (sint (registers ?m2 ! LoadReg)) := registers ?m2 ! LoadValueReg, LoadReg := 0, LoadValueReg := 0, 0 := 0]"
  let ?m3 = "?m2\<lparr>pageTableFrame := ?v, registers := regs, userMode := False\<rparr>"
  have "replaceable ?m3" using rp by (simp add: replaceable_def)
  from UpdatePageTable_spec [OF this]
  obtain b where u: "UpdatePageTable ?m3 = Inr (?m3\<lparr>pageTableFrame := int f, phys_map := b,
        pageTable := (sort_entries (pageTable m))[f := (sort_entries (pageTable m) ! f)
          \<lparr>physicalPage := ?v, virtualPage := ?v, valid := True, use := False, dirty := False, readOnly := False\<rparr>]\<rparr>)"
    and b: "marked b = marked (phys_map m) - {physicalPage (pageTable m ! f)}" and bv: "best_victim (pageTable m) f"
    by (auto simp: f_def)
  have fl: "f < length (pageTable m)" using bv by (simp add: best_victim_def)
  let ?m4 = "?m3\<lparr>pageTableFrame := int f, phys_map := b,
        pageTable := (sort_entries (pageTable m))[f := (sort_entries (pageTable m) ! f)
          \<lparr>physicalPage := ?v, virtualPage := ?v, valid := True, use := False, dirty := False, readOnly := False\<rparr>],
        userMode := True\<rparr>"
  have tr: "trap UpdatePageTable (word_of_int (?v * PageSize + uint a mod 128)) (?m2\<lparr>pageTableFrame := ?v\<rparr>) = Inr ?m4"
    using u by (simp add: trap_eq [OF wf2] regs_def)
  have uf: "to_unsigned (int f) = int f" using fl small by (simp add: to_unsigned_def)
  have c: "?v \<ge> int (length (pageTable m)) \<or> ?v \<noteq> to_unsigned (virtualPage (pageTable m ! nat ?v)) \<or> \<not> valid (pageTable m ! nat ?v)"
  proof -
    have "0 \<le> ?v" by (simp only: uint_ge_0 pos_imp_zdiv_nonneg_iff zero_less_numeral)
    then show ?thesis using nr unfolding page_resident_def linorder_not_less [symmetric] by metis
  qed
  have tp: "TranslatePTE ?m2 = Inr (?m4\<lparr>entry := InTable f\<rparr>)"
    using c tr uf fl by (simp add: TranslatePTE_def Let_def)
  have f1: "RaiseException TLBPageFaultException a ?m1 = Inr (?m4\<lparr>entry := InTable f\<rparr>)"
    using tp lr by (simp add: RaiseException_def trap_eq [OF wf1] ExceptionHandler_def ReadRegister_def NumTotalRegs_def)
  have "Translate a n writing m = finish_translate writing True (?m4\<lparr>entry := InTable f\<rparr>)"
    unfolding Translate_def if_not_P [OF aligned_and [OF al]]
    using t miss f1 by (simp add: machine_consts Let_def)
  moreover have "(word_of_int ?v * 128 + word_of_int (uint a mod 128) :: u32) = a"
    by (metis div_mult_mod_eq of_int_add of_int_mult of_int_numeral word_of_int_uint)
  ultimately show ?thesis using fl t vu b bv
    by (simp add: finish_translate_def the_entry_def set_entry_def touched_def Let_def
        UpdateTLB_eq [of _ t f] machine_consts)
qed


section \<open>Every memory access keeps the machine sound\<close>

definition sound_machine :: "Machine \<Rightarrow> bool" where
  "sound_machine m \<longleftrightarrow> wf_machine m \<and> registers m ! 0 = 0"

lemma new_Machine_sound:
  "new_Machine use_tlb created f junkT junkD junkF b = Inr m \<Longrightarrow> length junkT = TLBSize \<Longrightarrow> length junkD = 4 \<Longrightarrow> sound_machine m"
  by (auto simp: new_Machine_def sound_machine_def wf_machine_def reg_consts machine_consts nat_mult_distrib split: if_splits)

lemma TLBSwap_sound: "TLBSwap a m = Inr m' \<Longrightarrow> sound_machine m \<Longrightarrow> sound_machine m'"
  by (auto simp: TLBSwap_def sound_machine_def wf_machine_def split: option.splits)

text \<open>The members a machine's soundness does not read.\<close>

lemma sound_irrelevant [simp]:
  "sound_machine (m\<lparr>vpn := x\<rparr>) = sound_machine m"
  "sound_machine (m\<lparr>offset := x\<rparr>) = sound_machine m"
  "sound_machine (m\<lparr>pageFrame := x\<rparr>) = sound_machine m"
  "sound_machine (m\<lparr>pageTableFrame := x\<rparr>) = sound_machine m"
  "sound_machine (m\<lparr>entry := e\<rparr>) = sound_machine m"
  "sound_machine (m\<lparr>hit_count := x\<rparr>) = sound_machine m"
  "sound_machine (m\<lparr>userMode := b\<rparr>) = sound_machine m"
  "sound_machine (m\<lparr>phys_map := bm\<rparr>) = sound_machine m"
  "sound_machine (m\<lparr>pageTable := t\<rparr>) = sound_machine m"
  "sound_machine (m\<lparr>swap := f\<rparr>) = sound_machine m"
  by (simp_all add: sound_machine_def wf_machine_def)

lemma sound_tlb: "sound_machine m \<Longrightarrow> (\<And>t'. t = Some t' \<Longrightarrow> length t' = TLBSize) \<Longrightarrow> sound_machine (m\<lparr>tlb := t\<rparr>)"
  by (simp add: sound_machine_def wf_machine_def split: option.splits)

lemma sound_tlb_length: "sound_machine m \<Longrightarrow> tlb m = Some t \<Longrightarrow> length t = TLBSize"
  by (simp add: sound_machine_def wf_machine_def)

lemma sound_BadVAddr: "sound_machine m \<Longrightarrow> sound_machine (m\<lparr>registers := (registers m)[BadVAddrReg := a]\<rparr>)"
  by (simp add: sound_machine_def wf_machine_def reg_consts)

lemma trap_sound:
  assumes s: "sound_machine m" and t: "trap h a m = Inr m'"
    and h: "\<And>x y. sound_machine x \<Longrightarrow> h x = Inr y \<Longrightarrow> sound_machine y"
  shows "sound_machine m'"
proof -
  obtain m1 m2 where d: "DelayedLoad (m\<lparr>registers := (registers m)[BadVAddrReg := a]\<rparr>) 0 0 = Inr m1"
    and m2: "h (m1\<lparr>userMode := False\<rparr>) = Inr m2" "m' = m2\<lparr>userMode := True\<rparr>"
    using t by (auto simp: trap_def)
  have "sound_machine m1"
    using DelayedLoad_zero [OF _ d] sound_BadVAddr [OF s] by (simp add: sound_machine_def)
  then show ?thesis using h [OF _ m2(1)] m2(2) by simp
qed

lemma UpdatePageTable_sound: "UpdatePageTable m = Inr m' \<Longrightarrow> sound_machine m \<Longrightarrow> sound_machine m'"
  by (auto simp: UpdatePageTable_def SwitchPageTable_def SortPTE_def Let_def split: if_splits)

lemma trap_UpdatePageTable_sound:
  "trap UpdatePageTable a m = Inr m' \<Longrightarrow> sound_machine m \<Longrightarrow> sound_machine m'"
  using trap_sound UpdatePageTable_sound by blast

lemma TranslatePTE_sound: "TranslatePTE m = Inr m' \<Longrightarrow> sound_machine m \<Longrightarrow> sound_machine m'"
  by (auto simp: TranslatePTE_def Let_def split: if_splits dest!: trap_UpdatePageTable_sound)

lemma ExceptionHandler_sound: "ExceptionHandler ex m = Inr m' \<Longrightarrow> sound_machine m \<Longrightarrow> sound_machine m'"
  by (auto simp: ExceptionHandler_def split: if_splits dest: TranslatePTE_sound UpdatePageTable_sound)

lemma RaiseException_sound: "RaiseException ex a m = Inr m' \<Longrightarrow> sound_machine m \<Longrightarrow> sound_machine m'"
  unfolding RaiseException_def using trap_sound ExceptionHandler_sound by blast

lemma UpdateTLB_sound: "UpdateTLB m = Inr m' \<Longrightarrow> sound_machine m \<Longrightarrow> sound_machine m'"
  by (auto simp: UpdateTLB_def Let_def split: option.splits if_splits prod.splits
      intro!: sound_tlb dest: sound_tlb_length)

lemma set_entry_sound: "sound_machine m \<Longrightarrow> sound_machine (set_entry m e)"
  by (auto simp: set_entry_def split: entry_ptr.splits intro!: sound_tlb dest: sound_tlb_length)

lemma finish_translate_sound:
  "finish_translate w miss m = Inr (ex, pa, m') \<Longrightarrow> sound_machine m \<Longrightarrow> sound_machine m'"
  by (auto simp: finish_translate_def Let_def split: if_splits intro: set_entry_sound
      dest!: UpdateTLB_sound [OF _ set_entry_sound])

lemma Translate_sound: "Translate a n w m = Inr (ex, pa, m') \<Longrightarrow> sound_machine m \<Longrightarrow> sound_machine m'"
  by (auto simp: Translate_def Let_def split: if_splits option.splits
      dest!: finish_translate_sound RaiseException_sound)

lemma translate_or_trap_sound: "translate_or_trap a n w m = Inr (r, m') \<Longrightarrow> sound_machine m \<Longrightarrow> sound_machine m'"
  by (auto simp: translate_or_trap_def split: if_splits dest!: Translate_sound RaiseException_sound)

lemma sound_disk: "sound_machine m \<Longrightarrow> length bs = 4 \<Longrightarrow> sound_machine (m\<lparr>disk := bs\<rparr>)"
  by (simp add: sound_machine_def wf_machine_def)

lemma sound_memory: "sound_machine m \<Longrightarrow> length bs = 4096 \<Longrightarrow> sound_machine (m\<lparr>mainMemory := bs\<rparr>)"
  by (simp add: sound_machine_def wf_machine_def)

lemma sound_lengths: "sound_machine m \<Longrightarrow> length (disk m) = 4 \<and> length (mainMemory m) = 4096"
  by (simp add: sound_machine_def wf_machine_def)

lemma load_phys_sound: "load_phys m n pa = Inr (v, m') \<Longrightarrow> sound_machine m \<Longrightarrow> sound_machine m'"
  using sound_lengths [of m]
  by (auto simp: load_phys_def unix_ReadAt_def overlay_def split: if_splits intro!: sound_disk)

lemma store_phys_sound: "store_phys m n pa v = Inr m' \<Longrightarrow> sound_machine m \<Longrightarrow> sound_machine m'"
  using sound_lengths [of m]
  by (auto simp: store_phys_def unix_WriteAt_def Let_def nat_le_iff split: if_splits
      intro!: sound_disk sound_memory length_overlay [THEN trans])

lemma ReadMem_sound: "ReadMem a n m = Inr (r, m') \<Longrightarrow> sound_machine m \<Longrightarrow> sound_machine m'"
  by (auto simp: ReadMem_def split: option.splits dest!: translate_or_trap_sound load_phys_sound)

lemma WriteMem_sound: "WriteMem a n v m = Inr (r, m') \<Longrightarrow> sound_machine m \<Longrightarrow> sound_machine m'"
  by (auto simp: WriteMem_def split: option.splits dest!: translate_or_trap_sound store_phys_sound)

lemmas machine_sound = RaiseException_sound ReadMem_sound WriteMem_sound

section \<open>Properties\<close>

definition sample_entry :: "int \<Rightarrow> bool \<Rightarrow> TranslationEntry" where
  "sample_entry p v = \<lparr>virtualPage = p, physicalPage = p, valid = v, readOnly = False, use = False, dirty = False,
     hitRate = 0, NRU_N = 0\<rparr>"

definition sample_machine :: Machine where
  "sample_machine = \<lparr>registers = replicate 40 0, mainMemory = replicate 4096 0, disk = replicate 4 0, swap = [],
     noffCodeOffset = 0, tlb = Some [sample_entry 0 True, sample_entry 0 False, sample_entry 0 False, sample_entry 0 False],
     pageTable = [sample_entry 0 True, sample_entry 1 True], vpn = 0, offset = 0, pageFrame = 0, pageTableFrame = 0,
     entry = Null, hit_count = 1, userMode = True, phys_map = \<lparr>numBits = 32, numWords = 1, bits = [3]\<rparr>\<rparr>"

lemma sample_tlb: "tlb sample_machine = Some [sample_entry 0 True, sample_entry 0 False, sample_entry 0 False, sample_entry 0 False]"
  by (simp add: sample_machine_def)

lemma sample_wf: "wf_machine sample_machine"
  by (simp add: wf_machine_def sample_machine_def reg_consts machine_consts)

text \<open>Not-recently-used replacement, in the TLB and in the page table alike, evicts the first entry
  of the lowest class that is present (unused and clean, unused and dirty, used and clean, used and dirty).\<close>

theorem NRU_victim:
  assumes "tlb m = Some t" "t \<noteq> []" "pageTable m \<noteq> []"
  shows "\<exists>t'. tlb (SortTLB m) = Some t' \<and> best_victim t (SwitchOutTLB t') \<and> best_victim (pageTable m) (LRU_PTE (SortPTE m))"
  using assms nru_min_sorted by (simp add: SortTLB_def SortPTE_def SwitchOutTLB_def LRU_PTE_def)

theorem NRU_victim_witness:
  "best_victim (pageTable sample_machine) (LRU_PTE (SortPTE sample_machine))"
  using NRU_victim [OF sample_tlb] by (auto simp: sample_machine_def)

text \<open>C15: an aligned store of 1, 2 or 4 bytes to a writable page that the TLB holds and that lies in
  physical memory succeeds, changes exactly the n bytes at the translated address, and a load from
  the same address then returns the stored value, cut to n bytes (a byte sign-extended).\<close>

theorem WriteMem_ReadMem:
  assumes wf: "wf_machine m" and al: "aligned a n" and t: "tlb m = Some t" "tlb_lookup 0 t (uint a div 128) = Some i"
    and ro: "\<not> readOnly (t ! i)" and f: "0 \<le> physicalPage (t ! i)" "physicalPage (t ! i) < 32"
  shows "\<exists>m1 m2. WriteMem a n v m = Inr (True, m1)
    \<and> mainMemory m1 = overlay (nat (physicalPage (t ! i) * 128 + uint a mod 128)) (take n (word_bytes v)) (mainMemory m)
    \<and> registers m1 = registers m
    \<and> ReadMem a n m1 = Inr (Some (loaded n v), m2) \<and> mainMemory m2 = mainMemory m1 \<and> registers m2 = registers m"
proof -
  let ?pa = "physicalPage (t ! i) * 128 + uint a mod 128"
  let ?mem = "overlay (nat ?pa) (take n (word_bytes v)) (mainMemory m)"
  note pa = resident_address [OF al f]
  let ?h = "after_hit m t i a True"
  have tr: "Translate a n True m = Inr (NoException, ?pa, ?h)"
    using Translate_hit [OF al t] ro pa(1) by simp
  have n: "n \<in> {1, 2, 4}" using al by (auto simp: aligned_def)
  have len: "length (mainMemory ?h) = 4096" using wf by (simp add: wf_machine_def after_hit_def)
  have b: "?pa + int n \<le> int (length (mainMemory ?h))" "?pa < MemorySize"
    using pa(3) n unfolding len by (auto simp: machine_consts)
  note sl = store_load [OF n pa(2) b, of v]
  let ?m1 = "?h\<lparr>mainMemory := ?mem\<rparr>"
  have w: "WriteMem a n v m = Inr (True, ?m1)"
    using tr sl(1) by (simp add: WriteMem_def translate_or_trap_def after_hit_def)
  have i: "i < length t" "valid (t ! i)" using tlb_lookup_Some [OF t(2)] by simp_all
  let ?t1 = "t[i := touched (t ! i) True]"
  have t1: "tlb ?m1 = Some ?t1" by (simp add: after_hit_def)
  have l1: "tlb_lookup 0 ?t1 (uint a div 128) = Some i"
    using tlb_lookup_touch [OF t(2), of "touched (t ! i) True"] i by (simp add: touched_def)
  have e1: "physicalPage (?t1 ! i) = physicalPage (t ! i)" using i by (simp add: touched_def)
  let ?h1 = "after_hit ?m1 ?t1 i a False"
  have tr1: "Translate a n False ?m1 = Inr (NoException, ?pa, ?h1)"
    using Translate_hit [OF al t1 l1, of False] pa(1) unfolding e1 by simp
  have "load_phys (?h1\<lparr>mainMemory := ?mem\<rparr>) n ?pa = Inr (loaded n v, ?h1\<lparr>mainMemory := ?mem\<rparr>)"
    using store_load(2) [OF n pa(2), of "?h1\<lparr>mainMemory := mainMemory m\<rparr>" v] b len by (simp add: after_hit_def wf_machine_def)
  moreover have "?h1\<lparr>mainMemory := ?mem\<rparr> = ?h1" by (simp add: after_hit_def)
  ultimately have "ReadMem a n ?m1 = Inr (Some (loaded n v), ?h1)"
    using tr1 by (simp add: ReadMem_def translate_or_trap_def)
  with w show ?thesis by (simp add: after_hit_def)
qed

theorem WriteMem_ReadMem_witness:
  "\<exists>m1 m2. WriteMem 8 4 0x12345678 sample_machine = Inr (True, m1) \<and> ReadMem 8 4 m1 = Inr (Some 0x12345678, m2)"
proof -
  have "aligned 8 4" by (simp add: aligned_def)
  from WriteMem_ReadMem [OF sample_wf this sample_tlb, of 0 "0x12345678"]
  show ?thesis by (auto simp: sample_entry_def to_unsigned_def loaded_eq)
qed

text \<open>C16: a miss in the TLB on a page that is in the page table is repaired by the kernel: the access
  goes to the frame of the page table, the TLB afterwards finds the page at that frame, every other slot
  keeps its mapping, and a valid entry is evicted only when it is the not-recently-used victim.\<close>

theorem TLB_refill:
  assumes "wf_machine m" "aligned a n" "tlb m = Some t" "tlb_lookup 0 t (uint a div 128) = None"
    and "page_resident m (uint a div 128)"
    and "\<not> (readOnly (pageTable m ! nat (uint a div 128)) \<and> writing)"
  shows "\<exists>m' t' i. Translate a n writing m = Inr (NoException,
      sint (word_of_int (to_unsigned (physicalPage (pageTable m ! nat (uint a div 128))) * 128 + uint a mod 128) :: u32), m')
    \<and> tlb m' = Some t' \<and> tlb_lookup 0 t' (uint a div 128) = Some i
    \<and> physicalPage (t' ! i) = physicalPage (pageTable m ! nat (uint a div 128))
    \<and> (\<forall>j < TLBSize. j = i \<or> valid (t' ! j) = valid (t ! j) \<and> virtualPage (t' ! j) = virtualPage (t ! j)
         \<and> physicalPage (t' ! j) = physicalPage (t ! j) \<and> dirty (t' ! j) = dirty (t ! j))
    \<and> (\<not> valid (t ! i) \<or> best_victim t i)"
proof -
  let ?v = "uint a div 128" and ?e = "touched (pageTable m ! nat (uint a div 128)) writing" and ?i = "refill_slot t"
  let ?t' = "(refill_base t)[?i := copied (refill_base t ! ?i) ?e]"
  obtain m' where m': "Translate a n writing m = Inr (NoException,
      sint (word_of_int (to_unsigned (physicalPage (pageTable m ! nat ?v)) * 128 + uint a mod 128) :: u32), m')" "tlb m' = Some ?t'"
    using Translate_refill [OF assms] by blast
  have l: "length t = TLBSize" using assms(1,3) by (simp add: wf_machine_def)
  have i: "?i < length (refill_base t)" using refill_slot_less [OF l] l by (simp add: refill_base_def)
  have none: "tlb_lookup 0 (refill_base t) ?v = None" using assms(4) by (simp add: refill_base_def)
  have "tlb_lookup 0 ?t' ?v = Some ?i"
    using tlb_lookup_insert [OF none i, of "copied (refill_base t ! ?i) ?e"] assms(5)
    by (simp add: copied_def touched_def page_resident_def)
  moreover have "physicalPage (?t' ! ?i) = physicalPage (pageTable m ! nat ?v)"
    using i by (simp add: copied_def touched_def)
  moreover have "j = ?i \<or> valid (?t' ! j) = valid (t ! j) \<and> virtualPage (?t' ! j) = virtualPage (t ! j)
      \<and> physicalPage (?t' ! j) = physicalPage (t ! j) \<and> dirty (?t' ! j) = dirty (t ! j)" if "j < TLBSize" for j
    using that l by (cases "j = ?i") (simp_all add: refill_base_def)
  moreover have "\<not> valid (t ! ?i) \<or> best_victim t ?i" using refill_slot_victim [OF l] by blast
  ultimately show ?thesis using m' by blast
qed

theorem TLB_refill_witness:
  "\<exists>m'. Translate 132 4 False sample_machine = Inr (NoException, 132, m')"
proof -
  have al: "aligned 132 4" by (simp add: aligned_def)
  have l: "tlb_lookup 0 [sample_entry 0 True, sample_entry 0 False, sample_entry 0 False, sample_entry 0 False] (uint (132 :: u32) div 128) = None"
    by (simp add: sample_entry_def to_unsigned_def)
  have r: "page_resident sample_machine (uint (132 :: u32) div 128)"
    by (simp add: page_resident_def sample_machine_def sample_entry_def to_unsigned_def)
  show ?thesis
    using TLB_refill [OF sample_wf al sample_tlb l r, of False]
    by (auto simp: sample_machine_def sample_entry_def to_unsigned_def)
qed

text \<open>C17: a miss on a page that is not in the page table evicts the not-recently-used page-table entry,
  maps the page to the frame with the page's own number, so that the physical address equals the virtual
  one (from \<open>MemorySize\<close> on it is an address of the swap file), and releases the evicted frame; the
  frame with the page's number is not marked, so the map of used frames only ever shrinks.\<close>

theorem page_fault_evicts:
  assumes "wf_machine m" "aligned a n" "tlb m = Some t" "tlb_lookup 0 t (uint a div 128) = None"
    and "\<not> page_resident m (uint a div 128)"
    and "replaceable (m\<lparr>vpn := uint a div 128\<rparr>)" "length (pageTable m) < 4294967296"
  shows "\<exists>m' f. Translate a n writing m = Inr (NoException, sint a, m')
    \<and> best_victim (pageTable m) f
    \<and> valid (pageTable m' ! f) \<and> virtualPage (pageTable m' ! f) = uint a div 128
    \<and> physicalPage (pageTable m' ! f) = uint a div 128
    \<and> marked (phys_map m') = marked (phys_map m) - {physicalPage (pageTable m ! f)}"
  using Translate_page_fault [OF assms] by blast

theorem page_fault_evicts_witness:
  "\<exists>m' f. Translate 260 4 True sample_machine = Inr (NoException, 260, m') \<and> best_victim (pageTable sample_machine) f
     \<and> marked (phys_map m') = marked (phys_map sample_machine) - {physicalPage (pageTable sample_machine ! f)}"
proof -
  have al: "aligned 260 4" by (simp add: aligned_def)
  have l: "tlb_lookup 0 [sample_entry 0 True, sample_entry 0 False, sample_entry 0 False, sample_entry 0 False] (uint (260 :: u32) div 128) = None"
    by (simp add: sample_entry_def to_unsigned_def)
  have r: "\<not> page_resident sample_machine (uint (260 :: u32) div 128)"
    "replaceable (sample_machine\<lparr>vpn := uint (260 :: u32) div 128\<rparr>)" "length (pageTable sample_machine) < 4294967296"
    by (simp_all add: page_resident_def replaceable_def sample_machine_def sample_entry_def wf_bitmap_def divRoundUp_def)
  show ?thesis using page_fault_evicts [OF sample_wf al sample_tlb l r, of True] by auto
qed

text \<open>Without a TLB (\<open>tlb\<close> is NULL) no translation ever succeeds: \<open>tlb_miss\<close> starts out true, so a
  lookup that the page table answers goes on to \<open>UpdateTLB\<close>, which dereferences the missing TLB.\<close>

theorem Translate_without_TLB:
  assumes "tlb m = None"
  shows "(\<forall>ex pa m'. Translate a n writing m = Inr (ex, pa, m') \<longrightarrow> ex \<noteq> NoException)
    \<and> (aligned a n \<and> uint a div 128 < int (length (pageTable m)) \<and> valid (pageTable m ! nat (uint a div 128))
        \<and> \<not> (readOnly (pageTable m ! nat (uint a div 128)) \<and> writing)
      \<longrightarrow> Translate a n writing m = Inl BadAccess)"
proof (intro conjI allI impI)
  show "ex \<noteq> NoException" if "Translate a n writing m = Inr (ex, pa, m')" for ex pa m'
    using that assms
    by (auto simp: Translate_def finish_translate_def set_entry_def UpdateTLB_def Let_def split: if_splits entry_ptr.splits)
  assume h: "aligned a n \<and> uint a div 128 < int (length (pageTable m)) \<and> valid (pageTable m ! nat (uint a div 128))
        \<and> \<not> (readOnly (pageTable m ! nat (uint a div 128)) \<and> writing)"
  then have al: "aligned a n" and l: "nat (uint a div 128) < length (pageTable m)"
    by (simp_all add: nat_less_iff pos_imp_zdiv_nonneg_iff)
  show "Translate a n writing m = Inl BadAccess"
    unfolding Translate_def if_not_P [OF aligned_and [OF al]]
    using h l assms
    by (simp add: machine_consts finish_translate_def the_entry_def set_entry_def UpdateTLB_def Let_def not_le)
qed

theorem Translate_without_TLB_witness:
  "Translate 132 4 False (sample_machine\<lparr>tlb := None\<rparr>) = Inl BadAccess"
  using Translate_without_TLB [of "sample_machine\<lparr>tlb := None\<rparr>" 132 4 False]
  by (simp add: sample_machine_def sample_entry_def aligned_def)

text \<open>A word stored to a page in the swap file does not arrive: only its low byte is put into the
  transfer buffer, so the file receives that byte followed by three bytes of the previous transfer.\<close>

theorem WriteMem_swapped:
  assumes wf: "wf_machine m" and al: "aligned a 4" and t: "tlb m = Some t" "tlb_lookup 0 t (uint a div 128) = Some i"
    and ro: "\<not> readOnly (t ! i)" and f: "32 \<le> physicalPage (t ! i)" "physicalPage (t ! i) < 16777216"
    and off: "noffCodeOffset m = 0"
  shows "\<exists>m1. WriteMem a 4 v m = Inr (True, m1) \<and> mainMemory m1 = mainMemory m
    \<and> take 4 (drop (nat (physicalPage (t ! i) * 128 + uint a mod 128)) (swap m1)) = ucast v # tl (disk m)"
proof -
  let ?pa = "physicalPage (t ! i) * 128 + uint a mod 128"
  let ?h = "after_hit m t i a True" and ?bs = "(disk m)[0 := ucast v]"
  have u: "to_unsigned (physicalPage (t ! i)) = physicalPage (t ! i)" using f by (simp add: to_unsigned_def)
  have lt: "0 \<le> uint a mod 128" "uint a mod 128 < 128" by simp_all
  then have pa: "is_int32 ?pa" "4096 \<le> ?pa" using f by (auto simp: is_int32_def)
  have tr: "Translate a 4 True m = Inr (NoException, ?pa, ?h)"
    using Translate_hit [OF al t, of True] ro unfolding u sint_of_int32 [OF pa(1)] by simp
  have d: "length (disk m) = 4" using wf by (simp add: wf_machine_def)
  then have bs: "take 4 ?bs = ?bs" "?bs = ucast v # tl (disk m)" by (cases "disk m"; simp)+
  define sw where "sw = overlay (nat ?pa) ?bs (swap m @ replicate (nat ?pa + 4 - length (swap m)) 0)"
  have "WriteMem a 4 v m = Inr (True, ?h\<lparr>disk := ?bs, swap := sw\<rparr>)"
    using tr pa(2) bs(1) off d
    by (simp add: WriteMem_def translate_or_trap_def store_phys_def unix_WriteAt_def machine_consts after_hit_def sw_def Let_def)
  moreover have "take 4 (drop (nat ?pa) sw) = ?bs"
    using d by (simp add: sw_def overlay_def)
  ultimately show ?thesis unfolding bs(2) by (simp add: after_hit_def)
qed

theorem WriteMem_swapped_witness:
  "\<exists>m1. WriteMem 4096 4 0x11223344 (sample_machine\<lparr>tlb := Some [sample_entry 32 True, sample_entry 0 False,
       sample_entry 0 False, sample_entry 0 False]\<rparr>) = Inr (True, m1)
     \<and> take 4 (drop 4096 (swap m1)) = [0x44, 0, 0, 0]"
proof -
  let ?t = "[sample_entry 32 True, sample_entry 0 False, sample_entry 0 False, sample_entry 0 False]"
  let ?m = "sample_machine\<lparr>tlb := Some ?t\<rparr>"
  have wf: "wf_machine ?m" using sample_wf by (simp add: wf_machine_def sample_tlb TLBSize_def)
  have al: "aligned 4096 4" by (simp add: aligned_def)
  have d: "tl (disk ?m) = [0, 0, 0]" "noffCodeOffset ?m = 0" by (simp_all add: sample_machine_def numeral_eq_Suc)
  have c: "(287454020 :: u8) = 68" by simp
  show ?thesis
    using WriteMem_swapped [OF wf al, of ?t 0 "0x11223344"] d c by (auto simp: sample_entry_def to_unsigned_def)
qed

end
