(* ===== verification/MipsMult.thy ===== *)
theory MipsMult
  imports Nachos_Prelude
begin

text \<open>
  The multiplication of the simulated MIPS (\<open>Mult\<close> in machine/mipssim.cc): 32 steps of shift and
  add on a pair of words.  \<open>w64\<close> reads such a pair as one 64-bit word, in which the carry, the
  shift across the words and the two's complement of the pair are ordinary arithmetic.  The
  section on signed overflow reads the sign tests of the add and subtract instructions.
\<close>

unbundle bit_operations_syntax

section \<open>The code\<close>

text \<open>The loop over the bits of a: n iterations are left.\<close>

fun mult_loop :: "nat \<Rightarrow> u32 \<Rightarrow> u32 \<Rightarrow> u32 \<Rightarrow> u32 \<Rightarrow> u32 \<Rightarrow> u32 \<times> u32" where
  "mult_loop 0 a bHi bLo hi lo = (hi, lo)"
| "mult_loop (Suc n) a bHi bLo hi lo =
     (let (hi1, lo1) =
          (if a AND 1 \<noteq> 0
           then (let lo' = lo + bLo; hi' = (if lo' < bLo then hi + 1 else hi) in (hi' + bHi, lo'))
           else (hi, lo))
      in if a AND 1 \<noteq> 0 \<and> a AND 0xfffffffe = 0 then (hi1, lo1)
         else mult_loop n (signed_drop_bit 1 a)
                (let b = push_bit 1 bHi in if bLo AND 0x80000000 \<noteq> 0 then b OR 1 else b)
                (push_bit 1 bLo) hi1 lo1)"

definition Mult :: "u32 \<Rightarrow> u32 \<Rightarrow> bool \<Rightarrow> u32 \<times> u32" where
  "Mult a b signedArith =
     (if a = 0 \<or> b = 0 then (0, 0)
      else
        let negative = (signedArith \<and> ((sint a < 0) \<noteq> (sint b < 0)));
            a1 = (if signedArith \<and> sint a < 0 then - a else a);
            b1 = (if signedArith \<and> sint b < 0 then - b else b);
            (hi, lo) = mult_loop 32 a1 0 b1 0 0
        in if negative
           then (let lo1 = NOT lo + 1 in (if lo1 = 0 then NOT hi + 1 else NOT hi, lo1))
           else (hi, lo))"


section \<open>Pairs of words as 64-bit words\<close>

definition up :: "u32 \<Rightarrow> 64 word" where "up x = word_of_int (uint x * 4294967296)"
definition w64 :: "u32 \<Rightarrow> u32 \<Rightarrow> 64 word" where "w64 hi lo = up hi + word_of_int (uint lo)"

lemma uint_w64: "uint (w64 hi lo) = uint hi * 4294967296 + uint lo"
proof -
  have a: "0 \<le> uint hi" "0 \<le> uint lo" "uint hi < 4294967296" "uint lo < 4294967296"
    using uint_lt2p [of hi] uint_lt2p [of lo] by simp_all
  have "w64 hi lo = word_of_int (uint hi * 4294967296 + uint lo)" by (simp add: w64_def up_def)
  then have "uint (w64 hi lo) = (uint hi * 4294967296 + uint lo) mod 18446744073709551616"
    by (simp only: uint_word_of_int) simp
  with a show ?thesis by (subst (asm) mod_pos_pos_trivial; linarith)
qed

lemma word64_eq_iff: "(word_of_int x :: 64 word) = word_of_int y \<longleftrightarrow> x mod 18446744073709551616 = y mod 18446744073709551616"
  by (simp add: word_of_int_eq_iff take_bit_eq_mod)

lemma up_of_int: "up (word_of_int k) = word_of_int (k * 4294967296)"
proof -
  have "(k mod 4294967296) * 4294967296 = (k * 4294967296) mod (4294967296 * 4294967296)"
    by (rule mult_mod_left)
  then show ?thesis by (simp only: up_def uint_word_of_int word64_eq_iff) simp
qed

lemma up_simps: "up (x + y) = up x + up y" "up 1 = 4294967296" "up 0 = 0" "up (- x) = - up x"
proof -
  have "up (x + y) = up (word_of_int (uint x + uint y))" by simp
  also have "\<dots> = up x + up y" by (simp only: up_of_int) (simp add: up_def algebra_simps)
  finally show "up (x + y) = up x + up y" .
  have "up (- x) = up (word_of_int (- uint x))" by simp
  also have "\<dots> = - up x" by (simp only: up_of_int) (simp add: up_def)
  finally show "up (- x) = - up x" .
qed (simp_all add: up_def)

lemma up_double: "up (x * 2) = up x * 2"
  using up_simps(1) [of x x] by (simp flip: mult_2_right)

lemma w64_add:
  "w64 ((if lo + bLo < bLo then hi + 1 else hi) + bHi) (lo + bLo) = w64 hi lo + w64 bHi bLo"
proof -
  have b: "0 \<le> uint lo" "0 \<le> uint bLo" "uint lo < 4294967296" "uint bLo < 4294967296"
    using uint_lt2p [of bLo] uint_lt2p [of lo] by simp_all
  have "(word_of_int (uint (lo + bLo)) :: 64 word) + (if lo + bLo < bLo then 4294967296 else 0)
     = word_of_int (uint lo) + word_of_int (uint bLo)"
    using b by (auto simp: uint_plus_if' word_less_def split: if_splits)
  then show ?thesis by (auto simp: w64_def up_simps algebra_simps split: if_splits)
qed

lemma top_bit: "x AND 0x80000000 \<noteq> 0 \<longleftrightarrow> 2147483648 \<le> uint (x :: u32)"
proof -
  have b: "0 \<le> uint x" "uint x < 4294967296" using uint_lt2p [of x] by simp_all
  have "x AND 0x80000000 \<noteq> 0 \<longleftrightarrow> bit x 31" using and_exp_eq_0_iff_not_bit [of x 31] by simp
  also have "\<dots> \<longleftrightarrow> odd (uint x div 2147483648)"
    using bit_uint_iff [of x 31] by (simp add: bit_iff_odd)
  also have "\<dots> \<longleftrightarrow> 2147483648 \<le> uint x"
  proof (cases "2147483648 \<le> uint x")
    case True
    have "uint x div 2147483648 = 1"
      by (rule int_div_pos_eq [of _ _ _ "uint x - 2147483648"]) (use True b in linarith)+
    with True show ?thesis by simp
  next
    case False
    then have "uint x div 2147483648 = 0" using b by (intro div_pos_pos_trivial) simp_all
    with False show ?thesis by simp
  qed
  finally show ?thesis .
qed

lemma w64_shift:
  "w64 (if bLo AND 0x80000000 \<noteq> 0 then push_bit 1 bHi OR 1 else push_bit 1 bHi) (push_bit 1 bLo) = 2 * w64 bHi bLo"
proof -
  have b: "0 \<le> uint bLo" "uint bLo < 4294967296" using uint_lt2p [of bLo] by simp_all
  have p: "push_bit 1 x = x + x" for x :: u32 by (simp add: push_bit_eq_mult)
  have o: "push_bit 1 bHi OR 1 = bHi + bHi + 1" 
  proof -
    have "push_bit 1 bHi AND 1 = 0" by (rule bit_word_eqI) (simp only: bit_and_iff bit_push_bit_iff bit_1_iff, auto)
    from disjunctive_add_eq_or [OF this] show ?thesis unfolding p by (rule sym)
  qed
  have c: "bLo AND 0x80000000 \<noteq> 0 \<longleftrightarrow> 2147483648 \<le> uint bLo" by (simp add: top_bit)
  have "uint (bLo + bLo) = (if 2147483648 \<le> uint bLo then 2 * uint bLo - 4294967296 else 2 * uint bLo)"
    using b by (simp only: uint_plus_if') auto
  then have "(word_of_int (uint (bLo + bLo)) :: 64 word) + (if 2147483648 \<le> uint bLo then 4294967296 else 0) = 2 * word_of_int (uint bLo)"
    by (simp only:) auto
  then show ?thesis unfolding c o unfolding p by (auto simp: w64_def up_simps algebra_simps up_double split: if_splits)
qed

lemma w64_neg: "w64 (if NOT lo + 1 = 0 then NOT hi + 1 else NOT hi) (NOT lo + 1) = - w64 hi lo"
proof -
  have n: "NOT x + 1 = - x" for x :: u32 by (simp add: minus_eq_not_plus_1)
  have h: "NOT hi = - hi - 1" by (simp add: not_eq_complement)
  have up1: "up (- hi - 1) = - up hi - 4294967296" using up_simps(1) [of "- hi" "- 1"] up_simps(4) [of 1] by (simp add: up_simps)
  show ?thesis
  proof (cases "lo = 0")
    case True
    then show ?thesis unfolding n by (simp add: w64_def up_simps)
  next
    case False
    then have "uint lo \<noteq> 0" "uint lo mod 4294967296 = uint lo"
      using uint_lt2p [of lo] by (simp_all add: unsigned_eq_0_iff)
    then have "uint (- lo) = 4294967296 - uint lo" by (simp add: uint_word_ariths zmod_zminus1_eq_if)
    with False show ?thesis unfolding n unfolding h by (simp add: w64_def up1)
  qed
qed

lemma shift_mod:
  assumes "n < 32"
  shows "uint (signed_drop_bit 1 a) mod 2 ^ n = (uint (a :: u32) div 2) mod 2 ^ n"
proof -
  have "take_bit n (signed_drop_bit 1 a) = take_bit n (drop_bit 1 a)"
    by (rule bit_word_eqI) (use assms in \<open>auto simp: bit_simps\<close>)
  then have "uint (take_bit n (signed_drop_bit 1 a)) = uint (take_bit n (drop_bit 1 a))" by (rule arg_cong)
  then have "take_bit n (uint (signed_drop_bit 1 a)) = take_bit n (uint (drop_bit 1 a))"
    by (simp only: unsigned_take_bit_eq)
  moreover have "uint (drop_bit 1 a) = uint a div 2" by (simp add: drop_bit_eq_div uint_div)
  ultimately show ?thesis by (simp only: take_bit_eq_mod)
qed

lemma low_bit: "a AND 1 \<noteq> 0 \<longleftrightarrow> odd (uint (a :: u32))"
proof -
  have "a AND 1 \<noteq> 0 \<longleftrightarrow> bit a 0" using and_exp_eq_0_iff_not_bit [of a 0] by simp
  also have "\<dots> \<longleftrightarrow> odd (uint a)" using bit_uint_iff [of a 0] by (simp add: bit_0)
  finally show ?thesis .
qed

lemma only_low_bit: "a AND 0xfffffffe = 0 \<Longrightarrow> odd (uint a) \<Longrightarrow> a = (1 :: u32)"
proof -
  assume h: "a AND 0xfffffffe = 0" "odd (uint a)"
  have "bit a 0" using h(2) bit_uint_iff [of a 0] by (simp add: bit_0)
  show "a = 1"
  proof (rule bit_word_eqI)
    fix n assume n: "n < LENGTH(32)"
    have m: "(0xfffffffe :: u32) = NOT 1" by simp
    have "\<not> bit (a AND 0xfffffffe) n" using h(1) by simp
    then show "bit a n \<longleftrightarrow> bit 1 n" using n \<open>bit a 0\<close> unfolding m by (auto simp: bit_simps)
  qed
qed

lemma mod_double: "k mod 2 ^ Suc n = k mod 2 + 2 * ((k div 2) mod 2 ^ n)" for k :: int
  using zmod_zmult2_eq [of "2 ^ n" k 2] by simp

lemma mult_loop_spec:
  "n \<le> 32 \<Longrightarrow> mult_loop n a bHi bLo hi lo = (h, l) \<Longrightarrow>
     w64 h l = w64 hi lo + w64 bHi bLo * word_of_int (uint a mod 2 ^ n)"
proof (induction n arbitrary: a bHi bLo hi lo)
  case (Suc n)
  let ?hi1 = "(if a AND 1 \<noteq> 0 then (if lo + bLo < bLo then hi + 1 else hi) + bHi else hi)"
    and ?lo1 = "(if a AND 1 \<noteq> 0 then lo + bLo else lo)"
  have one: "w64 ?hi1 ?lo1 = w64 hi lo + w64 bHi bLo * word_of_int (uint a mod 2)"
    using w64_add [of lo bLo hi bHi] by (simp add: low_bit odd_iff_mod_2_eq_one even_iff_mod_2_eq_zero)
  show ?case
  proof (cases "a AND 1 \<noteq> 0 \<and> a AND 0xfffffffe = 0")
    case True
    then have "a = 1" using only_low_bit low_bit by blast
    moreover have "h = ?hi1 \<and> l = ?lo1" using Suc.prems(2) True by (cases "lo + bLo < bLo") (auto simp: Let_def)
    moreover have "(1 :: int) mod 2 ^ Suc n = 1"
      by (rule mod_pos_pos_trivial [OF zero_le_one one_less_power]) simp_all
    ultimately show ?thesis using one by simp
  next
    case False
    have loop: "mult_loop n (signed_drop_bit 1 a)
       (if bLo AND 0x80000000 \<noteq> 0 then push_bit 1 bHi OR 1 else push_bit 1 bHi) (push_bit 1 bLo) ?hi1 ?lo1 = (h, l)"
      using Suc.prems(2) False by (auto simp: Let_def)
    have "w64 h l = w64 ?hi1 ?lo1 + 2 * w64 bHi bLo * word_of_int (uint (signed_drop_bit 1 a) mod 2 ^ n)"
      using Suc.IH [OF _ loop] Suc.prems(1) unfolding w64_shift by simp
    also have "uint (signed_drop_bit 1 a) mod 2 ^ n = (uint a div 2) mod 2 ^ n"
      using Suc.prems(1) by (intro shift_mod) simp
    finally show ?thesis unfolding one mod_double by (simp add: algebra_simps)
  qed
qed (simp add: up_simps)


lemma sint_range: "- 2147483648 \<le> sint (x :: u32)" "sint x < 2147483648"
  using sint_greater_eq [of x] sint_less [of x] by simp_all

lemma sint_neg_uint: "sint x < 0 \<Longrightarrow> sint x = - uint (- x :: u32)"
proof -
  assume n: "sint x < 0"
  have "uint (- x) = uint (word_of_int (- sint x) :: u32)" by simp
  also have "\<dots> = (- sint x) mod 4294967296" by (simp only: uint_word_of_int) simp
  also have "\<dots> = - sint x" using n sint_range [of x] by (intro mod_pos_pos_trivial) simp_all
  finally show ?thesis by simp
qed

lemma sint_nonneg_uint: "\<not> sint x < 0 \<Longrightarrow> sint x = uint (x :: u32)"
proof -
  assume n: "\<not> sint x < 0"
  have "uint x = uint (word_of_int (sint x) :: u32)" by simp
  also have "\<dots> = sint x mod 4294967296" by (simp only: uint_word_of_int) simp
  also have "\<dots> = sint x" using n sint_range [of x] by (intro mod_pos_pos_trivial) simp_all
  finally show ?thesis by simp
qed

lemma Mult_w64:
  assumes "Mult a b s = (hi, lo)"
  shows "w64 hi lo = (if s then word_of_int (sint a * sint b) else word_of_int (uint a * uint b))"
proof (cases "a = 0 \<or> b = 0")
  case True
  with assms show ?thesis by (auto simp: Mult_def up_simps w64_def)
next
  case False
  define a1 where "a1 = (if s \<and> sint a < 0 then - a else a)"
  define b1 where "b1 = (if s \<and> sint b < 0 then - b else b)"
  define ng where "ng \<longleftrightarrow> s \<and> ((sint a < 0) \<noteq> (sint b < 0))"
  obtain h l where m: "mult_loop 32 a1 0 b1 0 0 = (h, l)" by fastforce
  have "uint a1 mod 2 ^ 32 = uint a1" using uint_lt2p [of a1] by simp
  with mult_loop_spec [OF order_refl m] have v: "w64 h l = word_of_int (uint a1 * uint b1)"
    by (simp add: w64_def up_simps)
  have r: "w64 hi lo = (if ng then - w64 h l else w64 h l)"
    using assms False m w64_neg [of l h] unfolding a1_def b1_def ng_def
    by (auto simp: Mult_def Let_def split: if_splits)
  show ?thesis
  proof (cases s)
    case False
    then show ?thesis using r v by (simp add: ng_def a1_def b1_def)
  next
    case True
    have "sint a * sint b = (if ng then - (uint a1 * uint b1) else uint a1 * uint b1)"
      using True sint_nonneg_uint [of a] sint_nonneg_uint [of b] sint_neg_uint [of a] sint_neg_uint [of b]
      by (auto simp: ng_def a1_def b1_def)
    then show ?thesis using r v True by (auto simp: of_int_minus)
  qed
qed


lemma w64_signed: "w64 hi lo = word_of_int (sint hi * 4294967296 + uint lo)"
proof -
  have "up hi = up (word_of_int (sint hi))" by simp
  then have "up hi = word_of_int (sint hi * 4294967296)" by (simp only: up_of_int)
  then show ?thesis by (simp add: w64_def)
qed

lemma sint64_inj:
  assumes "(word_of_int x :: 64 word) = word_of_int y"
    and "- 9223372036854775808 \<le> x" "x < 9223372036854775808" "- 9223372036854775808 \<le> y" "y < 9223372036854775808"
  shows "x = y"
proof -
  have "sint (word_of_int z :: 64 word) = z" if "- 9223372036854775808 \<le> z" "z < 9223372036854775808" for z
    using that by (simp add: signed_take_bit_int_eq_self sint_sbintrunc')
  then show ?thesis using assms by metis
qed

lemma Mult_spec:
  assumes "Mult a b s = (hi, lo)"
  shows "if s then sint hi * 4294967296 + uint lo = sint a * sint b else uint hi * 4294967296 + uint lo = uint a * uint b"
proof (cases s)
  case True
  have r: "- 2147483648 \<le> sint a" "sint a \<le> 2147483647" "- 2147483648 \<le> sint b" "sint b \<le> 2147483647"
    "- 2147483648 \<le> sint hi" "sint hi \<le> 2147483647" "0 \<le> uint lo" "uint lo < 4294967296"
    using sint_range [of a] sint_range [of b] sint_range [of hi] uint_lt2p [of lo] by simp_all
  have "\<bar>sint a\<bar> \<le> 2147483648" "\<bar>sint b\<bar> \<le> 2147483648" using r by simp_all
  then have "\<bar>sint a\<bar> * \<bar>sint b\<bar> \<le> 2147483648 * 2147483648" by (intro mult_mono) simp_all
  then have "\<bar>sint a * sint b\<bar> \<le> 4611686018427387904" by (simp add: abs_mult)
  then have "- 9223372036854775808 \<le> sint a * sint b" "sint a * sint b < 9223372036854775808" by linarith+
  moreover have "- 9223372036854775808 \<le> sint hi * 4294967296 + uint lo" "sint hi * 4294967296 + uint lo < 9223372036854775808"
    using r by linarith+
  moreover have "(word_of_int (sint hi * 4294967296 + uint lo) :: 64 word) = word_of_int (sint a * sint b)"
    using Mult_w64 [OF assms] True unfolding w64_signed by simp
  ultimately show ?thesis using True sint64_inj by simp
next
  case False
  have r: "0 \<le> uint a" "uint a \<le> 4294967295" "0 \<le> uint b" "uint b \<le> 4294967295"
    using uint_lt2p [of a] uint_lt2p [of b] by simp_all
  then have "uint a * uint b \<le> 4294967295 * 4294967295" by (intro mult_mono) simp_all
  moreover have "0 \<le> uint a * uint b" using r by simp
  ultimately have "uint (word_of_int (uint a * uint b) :: 64 word) = uint a * uint b"
    by (simp only: uint_word_of_int) (rule mod_pos_pos_trivial, simp_all)
  moreover have "w64 hi lo = word_of_int (uint a * uint b)" using Mult_w64 [OF assms] False by simp
  ultimately show ?thesis using False uint_w64 [of hi lo] by simp
qed

section \<open>Signed overflow\<close>

definition sign_bit :: "u32 \<Rightarrow> bool" where "sign_bit x \<longleftrightarrow> x AND 0x80000000 \<noteq> 0"
lemma uint_sint_cases: "uint (x :: u32) = (if sint x < 0 then sint x + 4294967296 else sint x)"
proof (cases "sint x < 0")
  case True
  have "(4294967296 :: u32) = 0" by simp
  then have "word_of_int (sint x + 4294967296) = x" by (simp only: of_int_add of_int_numeral) simp
  then have "uint x = uint (word_of_int (sint x + 4294967296) :: u32)" by (simp only:)
  also have "\<dots> = (sint x + 4294967296) mod 4294967296" by (simp only: uint_word_of_int) simp
  also have "\<dots> = sint x + 4294967296"
    using True sint_range [of x] by (intro mod_pos_pos_trivial) simp_all
  finally show ?thesis using True by simp
qed (simp add: sint_nonneg_uint)

lemma sign_bit_iff: "sign_bit x \<longleftrightarrow> sint x < 0"
  unfolding sign_bit_def top_bit uint_sint_cases using sint_range [of x] by auto

lemma sign_bit_xor: "sign_bit (x XOR y) \<longleftrightarrow> sign_bit x \<noteq> sign_bit y"
proof -
  have "sign_bit z \<longleftrightarrow> bit z 31" for z using and_exp_eq_0_iff_not_bit [of z 31] by (simp add: sign_bit_def)
  then show ?thesis by (simp add: bit_xor_iff)
qed

definition wrap32 :: "int \<Rightarrow> int" where
  "wrap32 s = (if s < - 2147483648 then s + 4294967296 else if 2147483648 \<le> s then s - 4294967296 else s)"

lemma sint_of_wrap: "- 4294967296 \<le> s \<Longrightarrow> s < 4294967296 + 2147483648 \<Longrightarrow> sint (word_of_int s :: u32) = wrap32 s"
proof -
  assume s: "- 4294967296 \<le> s" "s < 4294967296 + 2147483648"
  have "(word_of_int s :: u32) = word_of_int (wrap32 s)" by (simp add: wrap32_def)
  moreover have "is_int32 (wrap32 s)" using s by (simp add: is_int32_def wrap32_def)
  ultimately show ?thesis using sint_of_int32 by simp
qed

lemma sint_plus: "sint (a + b :: u32) = wrap32 (sint a + sint b)"
  using sint_of_wrap [of "sint a + sint b"] sint_range [of a] sint_range [of b] by simp

lemma sint_minus: "sint (a - b :: u32) = wrap32 (sint a - sint b)"
  using sint_of_wrap [of "sint a - sint b"] sint_range [of a] sint_range [of b] by simp

lemma add_overflow:
  "(\<not> sign_bit (a XOR b) \<and> sign_bit (a XOR (a + b))) \<longleftrightarrow> \<not> is_int32 (sint a + sint b)"
  "(\<not> sign_bit (a XOR b) \<and> sign_bit (b XOR (a + b))) \<longleftrightarrow> \<not> is_int32 (sint a + sint b)"
  unfolding sign_bit_xor unfolding sign_bit_iff sint_plus wrap32_def is_int32_def
  using sint_range [of a] sint_range [of b] by auto

lemma sub_overflow:
  "(sign_bit (a XOR b) \<and> sign_bit (a XOR (a - b))) \<longleftrightarrow> \<not> is_int32 (sint a - sint b)"
  unfolding sign_bit_xor unfolding sign_bit_iff sint_minus wrap32_def is_int32_def
  using sint_range [of a] sint_range [of b] by auto

section \<open>Properties\<close>

text \<open>C18: \<open>Mult\<close> returns the full 64-bit product in the pair (hi, lo), of the signed or of the unsigned
  readings of its operands as asked, for all operands, \<open>INT_MIN\<close> included.\<close>

theorem Mult_product:
  "case Mult a b signedArith of (hi, lo) \<Rightarrow>
    if signedArith then sint hi * 2 ^ 32 + uint lo = sint a * sint b
    else uint hi * 2 ^ 32 + uint lo = uint a * uint b"
  using Mult_spec [of a b signedArith "fst (Mult a b signedArith)" "snd (Mult a b signedArith)"]
  by (cases signedArith) (simp_all add: case_prod_beta)

end
