(* ===== verification/MipsDecode.thy ===== *)
theory MipsDecode
  imports MipsMult
begin

text \<open>
  Instruction decoding of the simulated MIPS (machine/mipssim.h and \<open>Instruction::Decode\<close> in
  machine/mipssim.cc): the operation codes, the two translation tables and the splitting of a word
  into its fields.  The assembler words of the last section are the usual MIPS formats, against
  which \<open>Decode\<close> is proved to be the inverse.
\<close>

unbundle bit_operations_syntax

section \<open>Decoding\<close>

datatype (plugins only: code size) OpCode =
    OP_ADD | OP_ADDI | OP_ADDIU | OP_ADDU | OP_AND | OP_ANDI | OP_BEQ | OP_BGEZ | OP_BGEZAL
  | OP_BGTZ | OP_BLEZ | OP_BLTZ | OP_BLTZAL | OP_BNE | OP_DIV | OP_DIVU | OP_J | OP_JAL
  | OP_JALR | OP_JR | OP_LB | OP_LBU | OP_LH | OP_LHU | OP_LUI | OP_LW | OP_LWL
  | OP_LWR | OP_MFHI | OP_MFLO | OP_MTHI | OP_MTLO | OP_MULT | OP_MULTU | OP_NOR | OP_OR
  | OP_ORI | OP_RFE | OP_SB | OP_SH | OP_SLL | OP_SLLV | OP_SLT | OP_SLTI | OP_SLTIU
  | OP_SLTU | OP_SRA | OP_SRAV | OP_SRL | OP_SRLV | OP_SUB | OP_SUBU | OP_SW | OP_SWL
  | OP_SWR | OP_XOR | OP_XORI | OP_SYSCALL | OP_UNIMP | OP_RES | SPECIAL | BCOND

datatype Format = IFMT | JFMT | RFMT

definition opTable :: "(OpCode \<times> Format) list" where
  "opTable =
    [(SPECIAL, RFMT), (BCOND, IFMT), (OP_J, JFMT), (OP_JAL, JFMT), (OP_BEQ, IFMT), (OP_BNE, IFMT),
     (OP_BLEZ, IFMT), (OP_BGTZ, IFMT), (OP_ADDI, IFMT), (OP_ADDIU, IFMT), (OP_SLTI, IFMT), (OP_SLTIU, IFMT),
     (OP_ANDI, IFMT), (OP_ORI, IFMT), (OP_XORI, IFMT), (OP_LUI, IFMT), (OP_UNIMP, IFMT), (OP_UNIMP, IFMT),
     (OP_UNIMP, IFMT), (OP_UNIMP, IFMT), (OP_RES, IFMT), (OP_RES, IFMT), (OP_RES, IFMT), (OP_RES, IFMT),
     (OP_RES, IFMT), (OP_RES, IFMT), (OP_RES, IFMT), (OP_RES, IFMT), (OP_RES, IFMT), (OP_RES, IFMT),
     (OP_RES, IFMT), (OP_RES, IFMT), (OP_LB, IFMT), (OP_LH, IFMT), (OP_LWL, IFMT), (OP_LW, IFMT),
     (OP_LBU, IFMT), (OP_LHU, IFMT), (OP_LWR, IFMT), (OP_RES, IFMT), (OP_SB, IFMT), (OP_SH, IFMT),
     (OP_SWL, IFMT), (OP_SW, IFMT), (OP_RES, IFMT), (OP_RES, IFMT), (OP_SWR, IFMT), (OP_RES, IFMT),
     (OP_UNIMP, IFMT), (OP_UNIMP, IFMT), (OP_UNIMP, IFMT), (OP_UNIMP, IFMT), (OP_RES, IFMT), (OP_RES, IFMT),
     (OP_RES, IFMT), (OP_RES, IFMT), (OP_UNIMP, IFMT), (OP_UNIMP, IFMT), (OP_UNIMP, IFMT), (OP_UNIMP, IFMT),
     (OP_RES, IFMT), (OP_RES, IFMT), (OP_RES, IFMT), (OP_RES, IFMT)]"

definition specialTable :: "OpCode list" where
  "specialTable =
    [OP_SLL, OP_RES, OP_SRL, OP_SRA, OP_SLLV, OP_RES, OP_SRLV, OP_SRAV,
     OP_JR, OP_JALR, OP_RES, OP_RES, OP_SYSCALL, OP_UNIMP, OP_RES, OP_RES,
     OP_MFHI, OP_MTHI, OP_MFLO, OP_MTLO, OP_RES, OP_RES, OP_RES, OP_RES,
     OP_MULT, OP_MULTU, OP_DIV, OP_DIVU, OP_RES, OP_RES, OP_RES, OP_RES,
     OP_ADD, OP_ADDU, OP_SUB, OP_SUBU, OP_AND, OP_OR, OP_XOR, OP_NOR,
     OP_RES, OP_RES, OP_SLT, OP_SLTU, OP_RES, OP_RES, OP_RES, OP_RES,
     OP_RES, OP_RES, OP_RES, OP_RES, OP_RES, OP_RES, OP_RES, OP_RES,
     OP_RES, OP_RES, OP_RES, OP_RES, OP_RES, OP_RES, OP_RES, OP_RES]"

record Instruction =
  ivalue :: u32
  opCode :: OpCode
  rs :: nat
  rt :: nat
  rd :: nat
  extra :: u32

definition field :: "nat \<Rightarrow> nat \<Rightarrow> u32 \<Rightarrow> nat" where
  "field k n w = unat (drop_bit k w AND mask n)"

definition Decode :: "u32 \<Rightarrow> Instruction" where
  "Decode w =
     (let (oc, format) = opTable ! field 26 6 w;
          ex = (case format of
                  IFMT \<Rightarrow> (let e = w AND 0xffff in if e AND 0x8000 \<noteq> 0 then e OR 0xffff0000 else e)
                | RFMT \<Rightarrow> drop_bit 6 w AND 0x1f
                | JFMT \<Rightarrow> w AND 0x3ffffff);
          oc2 = (if oc = SPECIAL then specialTable ! field 0 6 w
                 else if oc = BCOND then
                   (let i = w AND 0x1f0000 in
                    if i = 0 then OP_BLTZ else if i = 0x10000 then OP_BGEZ
                    else if i = 0x100000 then OP_BLTZAL else if i = 0x110000 then OP_BGEZAL
                    else OP_UNIMP)
                 else oc)
      in \<lparr>ivalue = w, opCode = oc2, rs = field 21 5 w, rt = field 16 5 w, rd = field 11 5 w, extra = ex\<rparr>)"

definition IndexToAddr :: "u32 \<Rightarrow> u32" where "IndexToAddr x = push_bit 2 x"

section \<open>Fields as digits\<close>

lemma field_less: "field k n w < 2 ^ n"
proof -
  have "drop_bit k w AND mask n = take_bit n (drop_bit k w)" by (simp add: take_bit_eq_mask)
  then show ?thesis by (simp add: field_def unsigned_take_bit_eq take_bit_nat_less_exp)
qed

lemma Decode_regs: "rs (Decode w) < 32" "rt (Decode w) < 32" "rd (Decode w) < 32"
  using field_less [of 21 5 w] field_less [of 16 5 w] field_less [of 11 5 w]
  by (auto simp: Decode_def Let_def split: prod.split)

lemma field_eq: "k < 32 \<Longrightarrow> n < 32 \<Longrightarrow> field k n w = unat w div 2 ^ k mod 2 ^ n"
proof -
  assume k: "k < 32" and n: "n < 32"
  have "drop_bit k w AND mask n = take_bit n (drop_bit k w)" by (simp add: take_bit_eq_mask)
  then have "field k n w = take_bit n (unat (drop_bit k w))" by (simp only: field_def unsigned_take_bit_eq)
  also have "unat (drop_bit k w) = drop_bit k (unat w)" by (rule unat_drop_bit_eq)
  finally show ?thesis by (simp add: take_bit_eq_mod drop_bit_eq_div)
qed

lemma digit: "l < 2 ^ k \<Longrightarrow> f < 2 ^ n \<Longrightarrow> (h * 2 ^ (k + n) + f * 2 ^ k + l) div 2 ^ k mod 2 ^ n = (f :: nat)"
proof -
  assume l: "l < 2 ^ k" and f: "f < 2 ^ n"
  have "h * 2 ^ (k + n) + f * 2 ^ k + l = (h * 2 ^ n + f) * 2 ^ k + l" by (simp add: power_add algebra_simps)
  then show ?thesis using l f by simp
qed

section \<open>Sign extension of immediates\<close>

lemma sign_extend:
  "(let e = w AND 0xffff in if e AND 0x8000 \<noteq> 0 then e OR 0xffff0000 else e) = signed_take_bit 15 (w :: u32)"
proof -
  have m: "(0xffff :: u32) = mask 16" "(0xffff0000 :: u32) = NOT (mask 16)" by (simp_all add: mask_eq_decr_exp)
  have t: "(w AND mask 16) AND 0x8000 \<noteq> 0 \<longleftrightarrow> bit w 15"
    using and_exp_eq_0_iff_not_bit [of "w AND mask 16" 15] by (simp add: bit_simps)
  have n15: "15 \<le> n \<Longrightarrow> n < 16 \<Longrightarrow> n = 15" for n :: nat by simp
  show ?thesis unfolding m Let_def t
    by (rule bit_word_eqI) (auto simp: bit_simps min_def dest: n15)
qed

lemma signed_take_bit_imm:
  assumes "- 32768 \<le> imm" "imm < 32768"
  shows "signed_take_bit 15 (word_of_int (h * 65536 + imm mod 65536) :: u32) = word_of_int imm"
proof -
  have "take_bit 16 (h * 65536 + imm mod 65536) = take_bit 16 imm" by (simp add: take_bit_eq_mod)
  then have "signed_take_bit 15 (h * 65536 + imm mod 65536) = signed_take_bit 15 imm"
    by (simp add: signed_take_bit_eq_iff_take_bit_eq)
  also have "\<dots> = imm" using assms by (intro signed_take_bit_int_eq_self) simp_all
  finally have k: "signed_take_bit 15 (h * 65536 + imm mod 65536) = imm" .
  have "signed_take_bit 15 (word_of_int z :: u32) = word_of_int (signed_take_bit 15 z)" for z
    by (rule bit_word_eqI) (simp add: bit_simps min_def)
  from this [of "h * 65536 + imm mod 65536"] show ?thesis unfolding k .
qed

section \<open>Instruction words\<close>

definition word_I :: "nat \<Rightarrow> nat \<Rightarrow> nat \<Rightarrow> int \<Rightarrow> u32" where
  "word_I oc s t imm = of_nat (((oc * 32 + s) * 32 + t) * 65536 + nat (imm mod 65536))"

definition word_R :: "nat \<Rightarrow> nat \<Rightarrow> nat \<Rightarrow> nat \<Rightarrow> nat \<Rightarrow> u32" where
  "word_R funct s t d sh = of_nat ((((s * 32 + t) * 32 + d) * 32 + sh) * 64 + funct)"

definition word_J :: "nat \<Rightarrow> nat \<Rightarrow> u32" where
  "word_J oc target = of_nat (oc * 67108864 + target)"

lemma unat_of_nat_32: "n < 4294967296 \<Longrightarrow> unat (of_nat n :: u32) = n"
  by (simp add: take_bit_nat_eq_self unsigned_of_nat)

lemma fields_I:
  assumes "oc < 64" "s < 32" "t < 32"
  shows "field 26 6 (word_I oc s t imm) = oc" "field 21 5 (word_I oc s t imm) = s" "field 16 5 (word_I oc s t imm) = t"
proof -
  define l where "l = nat (imm mod 65536)"
  have l: "l < 65536" by (simp add: l_def nat_less_iff)
  have u: "unat (word_I oc s t imm) = ((oc * 32 + s) * 32 + t) * 65536 + l"
    unfolding word_I_def l_def [symmetric]
  proof (rule unat_of_nat_32)
    have "oc \<le> 63" "s \<le> 31" "t \<le> 31" "l \<le> 65535" using assms l by simp_all
    then show "((oc * 32 + s) * 32 + t) * 65536 + l < 4294967296" by (simp add: distrib_right)
  qed
  show "field 26 6 (word_I oc s t imm) = oc"
    using digit [of "(s * 32 + t) * 65536 + l" 26 oc 6 0] assms l by (simp add: field_eq u algebra_simps)
  show "field 21 5 (word_I oc s t imm) = s"
    using digit [of "t * 65536 + l" 21 s 5 oc] assms l by (simp add: field_eq u algebra_simps)
  show "field 16 5 (word_I oc s t imm) = t"
    using digit [of "l" 16 t 5 "oc * 32 + s"] assms l by (simp add: field_eq u algebra_simps)
qed

lemma fields_R:
  assumes "funct < 64" "s < 32" "t < 32" "d < 32" "sh < 32"
  shows "field 26 6 (word_R funct s t d sh) = 0" "field 21 5 (word_R funct s t d sh) = s"
    "field 16 5 (word_R funct s t d sh) = t" "field 11 5 (word_R funct s t d sh) = d"
    "field 6 5 (word_R funct s t d sh) = sh" "field 0 6 (word_R funct s t d sh) = funct"
proof -
  have u: "unat (word_R funct s t d sh) = (((s * 32 + t) * 32 + d) * 32 + sh) * 64 + funct"
    unfolding word_R_def
  proof (rule unat_of_nat_32)
    have "funct \<le> 63" "s \<le> 31" "t \<le> 31" "d \<le> 31" "sh \<le> 31" using assms by simp_all
    then show "(((s * 32 + t) * 32 + d) * 32 + sh) * 64 + funct < 4294967296" by (simp add: distrib_right)
  qed
  note simps = field_eq u algebra_simps
  show "field 26 6 (word_R funct s t d sh) = 0"
    using digit [of "((s * 32 + t) * 32 + d) * 2048 + sh * 64 + funct" 26 0 6 0] assms by (simp add: simps)
  show "field 21 5 (word_R funct s t d sh) = s"
    using digit [of "t * 65536 + d * 2048 + sh * 64 + funct" 21 s 5 0] assms by (simp add: simps)
  show "field 16 5 (word_R funct s t d sh) = t"
    using digit [of "d * 2048 + sh * 64 + funct" 16 t 5 s] assms by (simp add: simps)
  show "field 11 5 (word_R funct s t d sh) = d"
    using digit [of "sh * 64 + funct" 11 d 5 "s * 32 + t"] assms by (simp add: simps)
  show "field 6 5 (word_R funct s t d sh) = sh"
    using digit [of "funct" 6 sh 5 "(s * 32 + t) * 32 + d"] assms by (simp add: simps)
  show "field 0 6 (word_R funct s t d sh) = funct"
    using digit [of 0 0 funct 6 "((s * 32 + t) * 32 + d) * 32 + sh"] assms by (simp add: simps)
qed


lemma Decode_I:
  assumes "oc < 64" "s < 32" "t < 32" "- 32768 \<le> imm" "imm < 32768" "opTable ! oc = (c, IFMT)" "c \<noteq> SPECIAL" "c \<noteq> BCOND"
  shows "opCode (Decode (word_I oc s t imm)) = c \<and> rs (Decode (word_I oc s t imm)) = s
    \<and> rt (Decode (word_I oc s t imm)) = t \<and> extra (Decode (word_I oc s t imm)) = word_of_int imm"
proof -
  have "word_I oc s t imm = word_of_int (int ((oc * 32 + s) * 32 + t) * 65536 + imm mod 65536)"
    by (simp add: word_I_def)
  then have "signed_take_bit 15 (word_I oc s t imm) = word_of_int imm"
    by (simp only: signed_take_bit_imm [OF assms(4,5)])
  then show ?thesis
    using assms fields_I [OF assms(1-3), of imm] sign_extend [of "word_I oc s t imm"]
    by (simp add: Decode_def Let_def)
qed

lemma and_mask_of_nat: "w AND mask n = of_nat (unat (w AND mask n) :: nat)" for w :: u32
  by simp

lemma Decode_R:
  assumes "funct < 64" "s < 32" "t < 32" "d < 32" "sh < 32"
  shows "opCode (Decode (word_R funct s t d sh)) = specialTable ! funct \<and> rs (Decode (word_R funct s t d sh)) = s
    \<and> rt (Decode (word_R funct s t d sh)) = t \<and> rd (Decode (word_R funct s t d sh)) = d
    \<and> extra (Decode (word_R funct s t d sh)) = of_nat sh"
proof -
  have o0: "opTable ! 0 = (SPECIAL, RFMT)" by (simp add: opTable_def)
  have m: "(0x1f :: u32) = mask 5" by (simp add: mask_eq_decr_exp)
  have "drop_bit 6 (word_R funct s t d sh) AND mask 5 = of_nat (field 6 5 (word_R funct s t d sh))"
    by (simp add: field_def)
  then show ?thesis
    using fields_R [OF assms] o0 by (simp add: Decode_def Let_def m)
qed

lemma Decode_J:
  assumes "oc = 2 \<or> oc = 3" "target < 67108864"
  shows "opCode (Decode (word_J oc target)) = (if oc = 2 then OP_J else OP_JAL)
    \<and> extra (Decode (word_J oc target)) = of_nat target"
proof -
  have u: "unat (word_J oc target) = oc * 67108864 + target"
    unfolding word_J_def by (rule unat_of_nat_32) (use assms in linarith)
  have f: "field 26 6 (word_J oc target) = oc"
    using digit [of target 26 oc 6 0] assms by (auto simp: field_eq u)
  have m: "(0x3ffffff :: u32) = mask 26" by (simp add: mask_eq_decr_exp)
  have t: "field 0 26 (word_J oc target) = target" using assms by (auto simp: field_eq u)
  have "word_J oc target AND mask 26 = of_nat (field 0 26 (word_J oc target))" by (simp add: field_def)
  then have "word_J oc target AND mask 26 = of_nat target" unfolding t .
  then show ?thesis using assms f by (auto simp: Decode_def Let_def m opTable_def)
qed

section \<open>Properties\<close>

text \<open>C19: \<open>Decode\<close> inverts the MIPS instruction formats: from an immediate, register or jump word it
  recovers the operation that the translation tables give for its code, every register field, and
  the immediate (sign-extended), the shift amount or the jump target.\<close>

theorem Decode_encoded:
  "(oc < 64 \<and> s < 32 \<and> t < 32 \<and> - 32768 \<le> imm \<and> imm < 32768 \<and> snd (opTable ! oc) = IFMT \<and> fst (opTable ! oc) \<noteq> BCOND
      \<longrightarrow> (let i = Decode (word_I oc s t imm) in opCode i = fst (opTable ! oc) \<and> rs i = s \<and> rt i = t \<and> sint (extra i) = imm))
    \<and> (funct < 64 \<and> s < 32 \<and> t < 32 \<and> d < 32 \<and> sh < 32
      \<longrightarrow> (let i = Decode (word_R funct s t d sh) in
           opCode i = specialTable ! funct \<and> rs i = s \<and> rt i = t \<and> rd i = d \<and> unat (extra i) = sh))
    \<and> ((oc = 2 \<or> oc = 3) \<and> target < 2 ^ 26
      \<longrightarrow> (let i = Decode (word_J oc target) in opCode i = (if oc = 2 then OP_J else OP_JAL) \<and> unat (extra i) = target))"
proof (intro conjI impI)
  assume a: "oc < 64 \<and> s < 32 \<and> t < 32 \<and> - 32768 \<le> imm \<and> imm < 32768 \<and> snd (opTable ! oc) = IFMT \<and> fst (opTable ! oc) \<noteq> BCOND"
  have "\<forall>p \<in> set opTable. snd p = IFMT \<longrightarrow> fst p \<noteq> SPECIAL" by (simp add: opTable_def)
  moreover have "opTable ! oc \<in> set opTable" using a by (intro nth_mem) (simp add: opTable_def)
  ultimately have ns: "fst (opTable ! oc) \<noteq> SPECIAL" using a by blast
  have "sint (word_of_int imm :: u32) = imm" using a by (intro sint_of_int32) (simp add: is_int32_def)
  moreover have "opTable ! oc = (fst (opTable ! oc), IFMT)" using a by (simp add: prod_eq_iff)
  ultimately show "let i = Decode (word_I oc s t imm) in opCode i = fst (opTable ! oc) \<and> rs i = s \<and> rt i = t \<and> sint (extra i) = imm"
    using Decode_I [of oc s t imm "fst (opTable ! oc)"] a ns unfolding Let_def by presburger
next
  assume "funct < 64 \<and> s < 32 \<and> t < 32 \<and> d < 32 \<and> sh < 32"
  then show "let i = Decode (word_R funct s t d sh) in
      opCode i = specialTable ! funct \<and> rs i = s \<and> rt i = t \<and> rd i = d \<and> unat (extra i) = sh"
    using Decode_R [of funct s t d sh] by (simp add: unat_of_nat_32)
next
  assume "(oc = 2 \<or> oc = 3) \<and> target < 2 ^ 26"
  then show "let i = Decode (word_J oc target) in opCode i = (if oc = 2 then OP_J else OP_JAL) \<and> unat (extra i) = target"
    using Decode_J [of oc target] by (simp add: unat_of_nat_32)
qed

theorem Decode_encoded_witness:
  "opCode (Decode (word_I 35 29 8 (- 4))) = OP_LW \<and> sint (extra (Decode (word_I 35 29 8 (- 4)))) = - 4"
proof -
  have "opTable ! 35 = (OP_LW, IFMT)" by (simp add: opTable_def)
  then show ?thesis using Decode_encoded [of 35 29 8 "- 4" 0 0 0 0] by (simp add: Let_def)
qed

end
