(* ===== verification/MipsSim.thy ===== *)
theory MipsSim
  imports Machine MipsDecode
begin

text \<open>
  machine/mipssim.cc and mipssim.h: the instruction set of the simulated MIPS.  \<open>execute\<close> is the switch of \<open>Machine::OneInstruction\<close> (one
  equation per case label, errors and traps included), and \<open>OneInstruction\<close> adds fetch, the delayed load
  and the program counters.  The loop of \<open>Machine::Run\<close> is in \<open>UserSteps\<close>.  Registers are 32-bit words, so that C's signed
  addition wraps as on the host; \<open>>>\<close> on an \<open>int\<close> is the arithmetic shift.
\<close>

unbundle bit_operations_syntax

section \<open>Execution\<close>

definition reg :: "Machine \<Rightarrow> nat \<Rightarrow> u32" where "reg m k = registers m ! k"

definition set_reg :: "nat \<Rightarrow> u32 \<Rightarrow> Machine \<Rightarrow> Machine" where
  "set_reg k v m = m\<lparr>registers := (registers m)[k := v]\<rparr>"

text \<open>How the switch is left: by \<open>return\<close> after a trap, or by \<open>break\<close> with the delayed load and the
  program counter to install.\<close>

datatype outcome = Trapped Machine | Executed Machine u32 u32 u32

definition retire :: "u32 \<Rightarrow> Machine \<Rightarrow> outcome res" where "retire pcAfter m = Inr (Executed m 0 0 pcAfter)"

definition raise_exc :: "ExceptionType \<Rightarrow> u32 \<Rightarrow> Machine \<Rightarrow> outcome res" where
  "raise_exc which a m = bindR (RaiseException which a m) (\<lambda>m1. Inr (Trapped m1))"

definition branch :: "bool \<Rightarrow> Instruction \<Rightarrow> u32 \<Rightarrow> Machine \<Rightarrow> outcome res" where
  "branch taken i pcAfter m =
     retire (if taken then reg m NextPCReg + IndexToAddr (extra i) else pcAfter) m"

definition read_mem :: "u32 \<Rightarrow> nat \<Rightarrow> Machine \<Rightarrow> (u32 \<Rightarrow> Machine \<Rightarrow> outcome res) \<Rightarrow> outcome res" where
  "read_mem a n m k = bindR (ReadMem a n m) (\<lambda>(r, m1). case r of None \<Rightarrow> Inr (Trapped m1) | Some v \<Rightarrow> k v m1)"

definition write_mem :: "u32 \<Rightarrow> nat \<Rightarrow> u32 \<Rightarrow> u32 \<Rightarrow> Machine \<Rightarrow> outcome res" where
  "write_mem a n v pcAfter m = bindR (WriteMem a n v m) (\<lambda>(ok, m1). if ok then retire pcAfter m1 else Inr (Trapped m1))"

text \<open>The register a partial load merges with: the delayed load in flight, if it goes to the same register.\<close>

definition merge_base :: "Instruction \<Rightarrow> Machine \<Rightarrow> u32" where
  "merge_base i m = (if reg m LoadReg = of_nat (rt i) then reg m LoadValueReg else reg m (rt i))"

definition set_less :: "nat \<Rightarrow> bool \<Rightarrow> Machine \<Rightarrow> Machine" where
  "set_less k b m = set_reg k (if b then 1 else 0) m"

definition load_delayed :: "Instruction \<Rightarrow> u32 \<Rightarrow> u32 \<Rightarrow> Machine \<Rightarrow> outcome res" where
  "load_delayed i v pcAfter m = Inr (Executed m (of_nat (rt i)) v pcAfter)"

definition set_hilo :: "u32 \<times> u32 \<Rightarrow> Machine \<Rightarrow> Machine" where
  "set_hilo p m = set_reg LoReg (snd p) (set_reg HiReg (fst p) m)"

text \<open>The longer cases of the switch; \<open>LB\<close>/\<open>LBU\<close> and \<open>LH\<close>/\<open>LHU\<close> share a label, as in the code.\<close>

definition exec_ADD :: "Instruction \<Rightarrow> u32 \<Rightarrow> Machine \<Rightarrow> outcome res" where
  "exec_ADD i pc m =
     (let a = reg m (rs i); b = reg m (rt i); sum = a + b in
      if \<not> sign_bit (a XOR b) \<and> sign_bit (a XOR sum) then raise_exc OverflowException 0 m
      else retire pc (set_reg (rd i) sum m))"

definition exec_ADDI :: "Instruction \<Rightarrow> u32 \<Rightarrow> Machine \<Rightarrow> outcome res" where
  "exec_ADDI i pc m =
     (let a = reg m (rs i); b = extra i; sum = a + b in
      if \<not> sign_bit (a XOR b) \<and> sign_bit (b XOR sum) then raise_exc OverflowException 0 m
      else retire pc (set_reg (rt i) sum m))"

definition exec_DIV :: "Instruction \<Rightarrow> u32 \<Rightarrow> Machine \<Rightarrow> outcome res" where
  "exec_DIV i pc m =
     (let a = sint (reg m (rs i)); b = sint (reg m (rt i)) in
      if b = 0 then retire pc (set_reg HiReg 0 (set_reg LoReg 0 m))
      else if a = - 2147483648 \<and> b = - 1 then Inl HostTrap
      else retire pc (set_reg HiReg (word_of_int (a smod b)) (set_reg LoReg (word_of_int (a sdiv b)) m)))"

definition exec_DIVU :: "Instruction \<Rightarrow> u32 \<Rightarrow> Machine \<Rightarrow> outcome res" where
  "exec_DIVU i pc m =
     (let a = reg m (rs i); b = reg m (rt i) in
      if b = 0 then retire pc (set_reg HiReg 0 (set_reg LoReg 0 m))
      else retire pc (set_reg HiReg (a mod b) (set_reg LoReg (a div b) m)))"

definition exec_LW :: "Instruction \<Rightarrow> u32 \<Rightarrow> Machine \<Rightarrow> outcome res" where
  "exec_LW i pc m =
     (let tmp = reg m (rs i) + extra i in
      if tmp AND 3 \<noteq> 0 then raise_exc AddressErrorException tmp m
      else read_mem tmp 4 m (\<lambda>v m1. load_delayed i v pc m1))"

definition exec_LWL :: "Instruction \<Rightarrow> u32 \<Rightarrow> Machine \<Rightarrow> outcome res" where
  "exec_LWL i pc m =
     (let tmp = reg m (rs i) + extra i in
      if tmp AND 3 \<noteq> 0 then Inl AssertFail
      else read_mem tmp 4 m (\<lambda>v m1.
        let old = merge_base i m1; k = tmp AND 3 in
        load_delayed i (if k = 0 then v else if k = 1 then (old AND 0xff) OR push_bit 8 v
          else if k = 2 then (old AND 0xffff) OR push_bit 16 v
          else (old AND 0xffffff) OR push_bit 24 v) pc m1))"

definition exec_LWR :: "Instruction \<Rightarrow> u32 \<Rightarrow> Machine \<Rightarrow> outcome res" where
  "exec_LWR i pc m =
     (let tmp = reg m (rs i) + extra i in
      if tmp AND 3 \<noteq> 0 then Inl AssertFail
      else read_mem tmp 4 m (\<lambda>v m1.
        let old = merge_base i m1; k = tmp AND 3 in
        load_delayed i (if k = 0 then (old AND 0xffffff00) OR (signed_drop_bit 24 v AND 0xff)
          else if k = 1 then (old AND 0xffff0000) OR (signed_drop_bit 16 v AND 0xffff)
          else if k = 2 then (old AND 0xff000000) OR (signed_drop_bit 8 v AND 0xffffff)
          else v) pc m1))"

definition exec_SUB :: "Instruction \<Rightarrow> u32 \<Rightarrow> Machine \<Rightarrow> outcome res" where
  "exec_SUB i pc m =
     (let a = reg m (rs i); b = reg m (rt i); diff = a - b in
      if sign_bit (a XOR b) \<and> sign_bit (a XOR diff) then raise_exc OverflowException 0 m
      else retire pc (set_reg (rd i) diff m))"

definition exec_SWL :: "Instruction \<Rightarrow> u32 \<Rightarrow> Machine \<Rightarrow> outcome res" where
  "exec_SWL i pc m =
     (let tmp = reg m (rs i) + extra i in
      if tmp AND 3 \<noteq> 0 then Inl AssertFail
      else read_mem (tmp AND NOT 3) 4 m (\<lambda>v m1.
        let r = reg m1 (rt i); k = tmp AND 3 in
        write_mem (tmp AND NOT 3) 4 (if k = 0 then r
          else if k = 1 then (v AND 0xff000000) OR (signed_drop_bit 8 r AND 0xffffff)
          else if k = 2 then (v AND 0xffff0000) OR (signed_drop_bit 16 r AND 0xffff)
          else (v AND 0xffffff00) OR (signed_drop_bit 24 r AND 0xff)) pc m1))"

definition exec_SWR :: "Instruction \<Rightarrow> u32 \<Rightarrow> Machine \<Rightarrow> outcome res" where
  "exec_SWR i pc m =
     (let tmp = reg m (rs i) + extra i in
      if tmp AND 3 \<noteq> 0 then Inl AssertFail
      else read_mem (tmp AND NOT 3) 4 m (\<lambda>v m1.
        let r = reg m1 (rt i); k = tmp AND 3 in
        write_mem (tmp AND NOT 3) 4 (if k = 0 then (v AND 0xffffff) OR push_bit 24 r
          else if k = 1 then (v AND 0xffff) OR push_bit 16 r
          else if k = 2 then (v AND 0xff) OR push_bit 8 r
          else r) pc m1))"

definition exec_LB :: "bool \<Rightarrow> Instruction \<Rightarrow> u32 \<Rightarrow> Machine \<Rightarrow> outcome res" where
  "exec_LB sx i pc m =
     read_mem (reg m (rs i) + extra i) 1 m (\<lambda>v m1.
       load_delayed i (if v AND 0x80 \<noteq> 0 \<and> sx then v OR 0xffffff00 else v AND 0xff) pc m1)"

definition exec_LH :: "bool \<Rightarrow> Instruction \<Rightarrow> u32 \<Rightarrow> Machine \<Rightarrow> outcome res" where
  "exec_LH sx i pc m =
     (let tmp = reg m (rs i) + extra i in
      if tmp AND 1 \<noteq> 0 then raise_exc AddressErrorException tmp m
      else read_mem tmp 2 m (\<lambda>v m1.
        load_delayed i (if v AND 0x8000 \<noteq> 0 \<and> sx then v OR 0xffff0000 else v AND 0xffff) pc m1))"

lemmas exec_defs = exec_ADD_def exec_ADDI_def exec_DIV_def exec_DIVU_def exec_LB_def exec_LH_def exec_LW_def exec_LWL_def exec_LWR_def exec_SUB_def exec_SWL_def exec_SWR_def

text \<open>The switch.\<close>

primrec execute :: "OpCode \<Rightarrow> Instruction \<Rightarrow> u32 \<Rightarrow> Machine \<Rightarrow> outcome res" where
  "execute OP_ADD i pc m = exec_ADD i pc m"
| "execute OP_ADDI i pc m = exec_ADDI i pc m"
| "execute OP_ADDIU i pc m = retire pc (set_reg (rt i) (reg m (rs i) + extra i) m)"
| "execute OP_ADDU i pc m = retire pc (set_reg (rd i) (reg m (rs i) + reg m (rt i)) m)"
| "execute OP_AND i pc m = retire pc (set_reg (rd i) (reg m (rs i) AND reg m (rt i)) m)"
| "execute OP_ANDI i pc m = retire pc (set_reg (rt i) (reg m (rs i) AND (extra i AND 0xffff)) m)"
| "execute OP_BEQ i pc m = branch (reg m (rs i) = reg m (rt i)) i pc m"
| "execute OP_BGEZ i pc m = branch (\<not> sign_bit (reg m (rs i))) i pc m"
| "execute OP_BGEZAL i pc m =
     (let m1 = set_reg 31 (reg m NextPCReg + 4) m in branch (\<not> sign_bit (reg m1 (rs i))) i pc m1)"
| "execute OP_BGTZ i pc m = branch (0 < sint (reg m (rs i))) i pc m"
| "execute OP_BLEZ i pc m = branch (sint (reg m (rs i)) \<le> 0) i pc m"
| "execute OP_BLTZ i pc m = branch (sign_bit (reg m (rs i))) i pc m"
| "execute OP_BLTZAL i pc m =
     (let m1 = set_reg 31 (reg m NextPCReg + 4) m in branch (sign_bit (reg m1 (rs i))) i pc m1)"
| "execute OP_BNE i pc m = branch (reg m (rs i) \<noteq> reg m (rt i)) i pc m"
| "execute OP_DIV i pc m = exec_DIV i pc m"
| "execute OP_DIVU i pc m = exec_DIVU i pc m"
| "execute OP_J i pc m = retire ((pc AND 0xf0000000) OR IndexToAddr (extra i)) m"
| "execute OP_JAL i pc m =
     retire ((pc AND 0xf0000000) OR IndexToAddr (extra i)) (set_reg 31 (reg m NextPCReg + 4) m)"
| "execute OP_JALR i pc m =
     (let m1 = set_reg (rd i) (reg m NextPCReg + 4) m in retire (reg m1 (rs i)) m1)"
| "execute OP_JR i pc m = retire (reg m (rs i)) m"
| "execute OP_LB i pc m = exec_LB True i pc m"
| "execute OP_LBU i pc m = exec_LB False i pc m"
| "execute OP_LH i pc m = exec_LH True i pc m"
| "execute OP_LHU i pc m = exec_LH False i pc m"
| "execute OP_LUI i pc m = retire pc (set_reg (rt i) (push_bit 16 (extra i)) m)"
| "execute OP_LW i pc m = exec_LW i pc m"
| "execute OP_LWL i pc m = exec_LWL i pc m"
| "execute OP_LWR i pc m = exec_LWR i pc m"
| "execute OP_MFHI i pc m = retire pc (set_reg (rd i) (reg m HiReg) m)"
| "execute OP_MFLO i pc m = retire pc (set_reg (rd i) (reg m LoReg) m)"
| "execute OP_MTHI i pc m = retire pc (set_reg HiReg (reg m (rs i)) m)"
| "execute OP_MTLO i pc m = retire pc (set_reg LoReg (reg m (rs i)) m)"
| "execute OP_MULT i pc m = retire pc (set_hilo (Mult (reg m (rs i)) (reg m (rt i)) True) m)"
| "execute OP_MULTU i pc m = retire pc (set_hilo (Mult (reg m (rs i)) (reg m (rt i)) False) m)"
| "execute OP_NOR i pc m = retire pc (set_reg (rd i) (NOT (reg m (rs i) OR reg m (rt i))) m)"
| "execute OP_OR i pc m = retire pc (set_reg (rd i) (reg m (rs i) OR reg m (rs i)) m)"
| "execute OP_ORI i pc m = retire pc (set_reg (rt i) (reg m (rs i) OR (extra i AND 0xffff)) m)"
| "execute OP_RFE i pc m = Inl AssertFail"
| "execute OP_SB i pc m = write_mem (reg m (rs i) + extra i) 1 (reg m (rt i)) pc m"
| "execute OP_SH i pc m = write_mem (reg m (rs i) + extra i) 2 (reg m (rt i)) pc m"
| "execute OP_SLL i pc m = retire pc (set_reg (rd i) (push_bit (unat (extra i)) (reg m (rt i))) m)"
| "execute OP_SLLV i pc m = retire pc (set_reg (rd i) (push_bit (unat (reg m (rs i) AND 0x1f)) (reg m (rt i))) m)"
| "execute OP_SLT i pc m = retire pc (set_less (rd i) (sint (reg m (rs i)) < sint (reg m (rt i))) m)"
| "execute OP_SLTI i pc m = retire pc (set_less (rt i) (sint (reg m (rs i)) < sint (extra i)) m)"
| "execute OP_SLTIU i pc m = retire pc (set_less (rt i) (reg m (rs i) < extra i) m)"
| "execute OP_SLTU i pc m = retire pc (set_less (rd i) (reg m (rs i) < reg m (rt i)) m)"
| "execute OP_SRA i pc m = retire pc (set_reg (rd i) (signed_drop_bit (unat (extra i)) (reg m (rt i))) m)"
| "execute OP_SRAV i pc m = retire pc (set_reg (rd i) (signed_drop_bit (unat (reg m (rs i) AND 0x1f)) (reg m (rt i))) m)"
| "execute OP_SRL i pc m = retire pc (set_reg (rd i) (signed_drop_bit (unat (extra i)) (reg m (rt i))) m)"
| "execute OP_SRLV i pc m = retire pc (set_reg (rd i) (signed_drop_bit (unat (reg m (rs i) AND 0x1f)) (reg m (rt i))) m)"
| "execute OP_SUB i pc m = exec_SUB i pc m"
| "execute OP_SUBU i pc m = retire pc (set_reg (rd i) (reg m (rs i) - reg m (rt i)) m)"
| "execute OP_SW i pc m = write_mem (reg m (rs i) + extra i) 4 (reg m (rt i)) pc m"
| "execute OP_SWL i pc m = exec_SWL i pc m"
| "execute OP_SWR i pc m = exec_SWR i pc m"
| "execute OP_XOR i pc m = retire pc (set_reg (rd i) (reg m (rs i) XOR reg m (rt i)) m)"
| "execute OP_XORI i pc m = retire pc (set_reg (rt i) (reg m (rs i) XOR (extra i AND 0xffff)) m)"
| "execute OP_SYSCALL i pc m = raise_exc SyscallException 0 m"
| "execute OP_UNIMP i pc m = raise_exc IllegalInstrException 0 m"
| "execute OP_RES i pc m = raise_exc IllegalInstrException 0 m"
| "execute SPECIAL i pc m = Inl AssertFail"
| "execute BCOND i pc m = Inl AssertFail"

text \<open>The end of \<open>OneInstruction\<close>: the delayed load of the previous instruction, then the counters.\<close>

definition finish :: "outcome \<Rightarrow> Machine res" where
  "finish out = (case out of Trapped m \<Rightarrow> Inr m
     | Executed m nextLoadReg nextLoadValue pcAfter \<Rightarrow>
         bindR (DelayedLoad m nextLoadReg nextLoadValue) (\<lambda>m1.
           Inr (let m2 = set_reg PrevPCReg (reg m1 PCReg) m1;
                    m3 = set_reg PCReg (reg m2 NextPCReg) m2
                in set_reg NextPCReg pcAfter m3)))"

definition OneInstruction :: "Machine \<Rightarrow> Machine res" where
  "OneInstruction m =
     bindR (ReadMem (reg m PCReg) 4 m) (\<lambda>(r, m1).
     case r of None \<Rightarrow> Inr m1
     | Some raw \<Rightarrow> bindR (execute (opCode (Decode raw)) (Decode raw) (reg m1 NextPCReg + 4) m1) finish)"

section \<open>Every instruction keeps the machine sound\<close>

definition good_outcome :: "outcome \<Rightarrow> bool" where
  "good_outcome out = (case out of Trapped m \<Rightarrow> sound_machine m
     | Executed m nr nv pc \<Rightarrow> wf_machine m \<and> 0 \<le> sint nr \<and> sint nr < 32)"

lemma sint_of_nat_32: "k < 32 \<Longrightarrow> sint (of_nat k :: u32) = int k"
  using sint_of_int32 [of "int k"] by (simp add: is_int32_def)

lemma wf_set_reg: "wf_machine m \<Longrightarrow> k \<noteq> LoadReg \<Longrightarrow> wf_machine (set_reg k v m)"
  by (simp add: set_reg_def wf_machine_def)

lemma sound_wf: "sound_machine m \<Longrightarrow> wf_machine m" by (simp add: sound_machine_def)

lemma reg_not_load: "k < 32 \<Longrightarrow> k \<noteq> LoadReg" "HiReg \<noteq> LoadReg" "LoReg \<noteq> LoadReg"
  by (simp_all add: reg_consts)

lemma retire_good: "retire pc m = Inr out \<Longrightarrow> wf_machine m \<Longrightarrow> good_outcome out"
  by (auto simp: retire_def good_outcome_def)

lemma raise_exc_good: "raise_exc ex a m = Inr out \<Longrightarrow> sound_machine m \<Longrightarrow> good_outcome out"
  by (auto simp: raise_exc_def good_outcome_def dest: RaiseException_sound)

lemma branch_good: "branch b i pc m = Inr out \<Longrightarrow> wf_machine m \<Longrightarrow> good_outcome out"
  by (auto simp: branch_def intro: retire_good)

lemma load_delayed_good: "load_delayed i v pc m = Inr out \<Longrightarrow> wf_machine m \<Longrightarrow> rt i < 32 \<Longrightarrow> good_outcome out"
  by (auto simp: load_delayed_def good_outcome_def sint_of_nat_32)

lemma read_mem_good:
  "read_mem a n m k = Inr out \<Longrightarrow> sound_machine m \<Longrightarrow>
     (\<And>v m1. k v m1 = Inr out \<Longrightarrow> sound_machine m1 \<Longrightarrow> good_outcome out) \<Longrightarrow> good_outcome out"
  by (auto simp: read_mem_def good_outcome_def dest!: ReadMem_sound split: option.splits)

lemma write_mem_good: "write_mem a n v pc m = Inr out \<Longrightarrow> sound_machine m \<Longrightarrow> good_outcome out"
  by (auto simp: write_mem_def good_outcome_def retire_def sound_wf dest!: WriteMem_sound split: if_splits)

lemmas good_intros = retire_good raise_exc_good branch_good load_delayed_good read_mem_good write_mem_good

lemma execute_good:
  assumes "sound_machine m" "rt i < 32" "rd i < 32" "execute oc i pc m = Inr out"
  shows "good_outcome out"
  using assms
  by (cases oc) (auto simp: exec_defs Let_def set_less_def set_hilo_def sound_wf wf_set_reg reg_not_load
      split: if_splits elim!: good_intros)


lemma finish_sound: "finish out = Inr m' \<Longrightarrow> good_outcome out \<Longrightarrow> sound_machine m'"
proof (cases out)
  case (Trapped m)
  then show "finish out = Inr m' \<Longrightarrow> good_outcome out \<Longrightarrow> sound_machine m'"
    by (simp add: finish_def good_outcome_def)
next
  case (Executed m nr nv pc)
  assume f: "finish out = Inr m'" and g: "good_outcome out"
  then obtain m1 where d: "DelayedLoad m nr nv = Inr m1"
    and m': "m' = set_reg NextPCReg pc (set_reg PCReg (reg (set_reg PrevPCReg (reg m1 PCReg) m1) NextPCReg)
       (set_reg PrevPCReg (reg m1 PCReg) m1))"
    using Executed by (auto simp: finish_def Let_def)
  have "wf_machine m1 \<and> registers m1 ! 0 = 0"
    using DelayedLoad_zero [OF _ d] g Executed by (simp add: good_outcome_def)
  then show "sound_machine m'"
    unfolding m' by (simp add: sound_machine_def wf_set_reg reg_consts) (simp add: set_reg_def)
qed

lemma OneInstruction_sound: "OneInstruction m = Inr m' \<Longrightarrow> sound_machine m \<Longrightarrow> sound_machine m'"
  by (auto simp: OneInstruction_def split: option.splits dest!: ReadMem_sound
      elim!: finish_sound execute_good [rotated -1] intro: Decode_regs)

section \<open>Properties\<close>

text \<open>The trapping instructions \<open>ADD\<close>, \<open>ADDI\<close> and \<open>SUB\<close> write the exact signed result whenever it is a
  32-bit integer, and raise an overflow exception, with no register written, exactly when it is not.\<close>

theorem ADD_SUB_overflow:
  "let a = sint (reg m (rs i)); b = sint (reg m (rt i)); e = sint (extra i) in
    execute OP_ADD i pc m = (if is_int32 (a + b) then retire pc (set_reg (rd i) (word_of_int (a + b)) m)
       else raise_exc OverflowException 0 m)
    \<and> execute OP_ADDI i pc m = (if is_int32 (a + e) then retire pc (set_reg (rt i) (word_of_int (a + e)) m)
       else raise_exc OverflowException 0 m)
    \<and> execute OP_SUB i pc m = (if is_int32 (a - b) then retire pc (set_reg (rd i) (word_of_int (a - b)) m)
       else raise_exc OverflowException 0 m)"
  unfolding Let_def execute.simps exec_defs add_overflow sub_overflow by simp

lemma signed_drop_bit_logical:
  "k < 32 \<Longrightarrow> signed_drop_bit k v = drop_bit k v \<longleftrightarrow> k = 0 \<or> \<not> sign_bit (v :: u32)"
proof -
  assume k: "k < 32"
  have b: "sign_bit v \<longleftrightarrow> bit v 31" using and_exp_eq_0_iff_not_bit [of v 31] by (simp add: sign_bit_def)
  show ?thesis
  proof (cases "k = 0 \<or> \<not> sign_bit v")
    case True
    then have "signed_drop_bit k v = drop_bit k v"
      by (intro bit_word_eqI) (auto simp: bit_simps b dest: bit_imp_le_length)
    with True show ?thesis by simp
  next
    case False
    then have "bit (signed_drop_bit k v) 31" "\<not> bit (drop_bit k v) 31"
      using k by (auto simp: bit_simps b dest: bit_imp_le_length)
    with False show ?thesis by metis
  qed
qed

text \<open>Two operations are not the MIPS ones.  \<open>OR\<close> ignores its second operand, so that it gives the or
  only when that operand has no bit of its own; and the logical right shifts \<open>SRL\<close> and \<open>SRLV\<close> shift an
  \<open>int\<close>, so that a nonzero shift of a value with the sign bit set gives a wrong result.\<close>

theorem OR_and_SRL_wrong:
  assumes "unat (extra i) < 32"
  shows "\<exists>r s t. execute OP_OR i pc m = retire pc (set_reg (rd i) r m)
      \<and> (r = reg m (rs i) OR reg m (rt i) \<longleftrightarrow> reg m (rt i) AND NOT (reg m (rs i)) = 0)
    \<and> execute OP_SRL i pc m = retire pc (set_reg (rd i) s m)
      \<and> (s = drop_bit (unat (extra i)) (reg m (rt i)) \<longleftrightarrow> extra i = 0 \<or> 0 \<le> sint (reg m (rt i)))
    \<and> execute OP_SRLV i pc m = retire pc (set_reg (rd i) t m)
      \<and> (t = drop_bit (unat (reg m (rs i) AND 0x1f)) (reg m (rt i))
           \<longleftrightarrow> reg m (rs i) AND 0x1f = 0 \<or> 0 \<le> sint (reg m (rt i)))"
proof -
  have o: "a = a OR b \<longleftrightarrow> b AND NOT a = 0" for a b :: u32
  proof
    assume h: "a = a OR b"
    have "bit b n \<Longrightarrow> bit a n" for n using h by (metis bit_or_iff)
    then show "b AND NOT a = 0" by (intro bit_word_eqI) (auto simp: bit_simps)
  next
    assume h: "b AND NOT a = 0"
    have "\<not> bit (b AND NOT a) n" for n by (simp add: h)
    then show "a = a OR b" by (intro bit_word_eqI) (auto simp: bit_simps dest: bit_imp_le_length)
  qed
  have l: "unat (x AND 0x1f) < 32" for x :: u32 using field_less [of 0 5 x] by (simp add: field_def mask_eq_decr_exp)
  have z: "unat x = 0 \<longleftrightarrow> x = 0" for x :: u32 by (simp add: unsigned_eq_0_iff)
  have sh: "signed_drop_bit (unat x) v = drop_bit (unat x) v \<longleftrightarrow> x = 0 \<or> 0 \<le> sint v" if "unat x < 32" for x v :: u32
    unfolding signed_drop_bit_logical [OF that] sign_bit_iff z by auto
  show ?thesis
    using o [of "reg m (rs i)" "reg m (rt i)"] sh [OF assms, of "reg m (rt i)"] sh [OF l, of "reg m (rs i)" "reg m (rt i)"]
    by auto
qed

theorem OR_and_SRL_wrong_witness:
  "\<exists>s. execute OP_SRL \<lparr>ivalue = 0, opCode = OP_SRL, rs = 0, rt = 2, rd = 3, extra = 4\<rparr> 0
        (sample_machine\<lparr>registers := (replicate 40 0)[2 := 0xf0000000]\<rparr>)
      = retire 0 (set_reg 3 s (sample_machine\<lparr>registers := (replicate 40 0)[2 := 0xf0000000]\<rparr>)) \<and> s \<noteq> 0x0f000000"
proof -
  let ?i = "\<lparr>ivalue = 0, opCode = OP_SRL, rs = 0, rt = 2, rd = 3, extra = 4\<rparr>"
  let ?m = "sample_machine\<lparr>registers := (replicate 40 0)[2 := 0xf0000000]\<rparr>"
  have r: "reg ?m 2 = 0xf0000000" by (simp add: reg_def)
  have d: "drop_bit 4 (0xf0000000 :: u32) = 0x0f000000" by (simp add: drop_bit_eq_div)
  show ?thesis using OR_and_SRL_wrong [of ?i 0 ?m] r d by auto
qed

end
