(* ===== verification/MipsInterp.thy ===== *)
theory MipsInterp
  imports MipsSim
begin

text \<open>
  bin/execute.c with bin/encode.h, bin/instr.h and bin/int.h: the stand-alone interpreter of MIPS
  programs.  One round of the loop of \<open>runprogram\<close> fetches, advances the program counters and runs the three nested
  switches.  \<open>Reg\<close>, \<open>HI\<close> and \<open>LO\<close> are C \<open>int\<close>s, so \<open>>>\<close> is an arithmetic shift unless the code casts to
  \<open>unsigned\<close>; the shift instructions of the i386 take the count modulo 32.  Memory is 16 MB from \<open>memoffset\<close> on, where
  unaligned accesses are fine; an access outside it is undefined.  What \<open>system_trap\<close> does is
  the argument \<open>syscall\<close>, for it hands the call on to the UNIX of the host.
\<close>

unbundle bit_operations_syntax

section \<open>Operation codes\<close>

datatype (plugins only: code size) I_op =
    I_SPECIAL | I_BCOND | I_J | I_JAL | I_BEQ | I_BNE | I_BLEZ | I_BGTZ | I_ADDI | I_ADDIU | I_SLTI | I_SLTIU
  | I_ANDI | I_ORI | I_XORI | I_LUI | I_COP0 | I_COP1 | I_COP2 | I_COP3 | I_LB | I_LH | I_LWL | I_LW | I_LBU | I_LHU
  | I_LWR | I_SB | I_SH | I_SWL | I_SW | I_SWR | I_LWC0 | I_LWC1 | I_LWC2 | I_LWC3 | I_SWC0 | I_SWC1 | I_SWC2 | I_SWC3

datatype (plugins only: code size) I_special =
    I_SLL | I_SRL | I_SRA | I_SLLV | I_SRLV | I_SRAV | I_JR | I_JALR | I_SYSCALL | I_BREAK | I_MFHI | I_MTHI | I_MFLO
  | I_MTLO | I_MULT | I_MULTU | I_DIV | I_DIVU | I_ADD | I_ADDU | I_SUB | I_SUBU | I_AND | I_OR | I_XOR | I_NOR
  | I_SLT | I_SLTU

datatype (plugins only: code size) I_bcond = I_BLTZ | I_BGEZ | I_BLTZAL | I_BGEZAL

text \<open>The numbers, which the source writes in octal.\<close>

definition I_ops :: "(nat \<times> I_op) list" where
  "I_ops = [(0, I_SPECIAL), (1, I_BCOND), (2, I_J), (3, I_JAL), (4, I_BEQ), (5, I_BNE), (6, I_BLEZ), (7, I_BGTZ),
     (8, I_ADDI), (9, I_ADDIU), (10, I_SLTI), (11, I_SLTIU), (12, I_ANDI), (13, I_ORI), (14, I_XORI), (15, I_LUI),
     (16, I_COP0), (17, I_COP1), (18, I_COP2), (19, I_COP3), (32, I_LB), (33, I_LH), (34, I_LWL), (35, I_LW),
     (36, I_LBU), (37, I_LHU), (38, I_LWR), (40, I_SB), (41, I_SH), (42, I_SWL), (43, I_SW), (46, I_SWR),
     (48, I_LWC0), (49, I_LWC1), (50, I_LWC2), (51, I_LWC3), (56, I_SWC0), (57, I_SWC1), (58, I_SWC2), (59, I_SWC3)]"

definition I_specials :: "(nat \<times> I_special) list" where
  "I_specials = [(0, I_SLL), (2, I_SRL), (3, I_SRA), (4, I_SLLV), (6, I_SRLV), (7, I_SRAV), (8, I_JR), (9, I_JALR),
     (12, I_SYSCALL), (13, I_BREAK), (16, I_MFHI), (17, I_MTHI), (18, I_MFLO), (19, I_MTLO), (24, I_MULT), (25, I_MULTU),
     (26, I_DIV), (27, I_DIVU), (32, I_ADD), (33, I_ADDU), (34, I_SUB), (35, I_SUBU), (36, I_AND), (37, I_OR), (38, I_XOR),
     (39, I_NOR), (42, I_SLT), (43, I_SLTU)]"

definition I_bconds :: "(nat \<times> I_bcond) list" where
  "I_bconds = [(0, I_BLTZ), (1, I_BGEZ), (16, I_BLTZAL), (17, I_BGEZAL)]"

text \<open>The macros of instr.h.\<close>

definition i_rd :: "u32 \<Rightarrow> nat" where "i_rd i = unat (signed_drop_bit 11 i AND 0x1f)"
definition i_rt :: "u32 \<Rightarrow> nat" where "i_rt i = unat (signed_drop_bit 16 i AND 0x1f)"
definition i_rs :: "u32 \<Rightarrow> nat" where "i_rs i = unat (signed_drop_bit 21 i AND 0x1f)"
definition shamt :: "u32 \<Rightarrow> nat" where "shamt i = unat (signed_drop_bit 6 i AND 0x1f)"
definition immed :: "u32 \<Rightarrow> u32" where "immed i = (if i AND 0x8000 \<noteq> 0 then i OR 0xffff8000 else i AND 0x7fff)"

section \<open>State\<close>

record interp =
  Reg :: "u32 list"
  HI :: u32
  LO :: u32
  mem :: "u32 \<Rightarrow> u8"
  pc :: u32
  npc :: u32

text \<open>\<open>exit(2)\<close> with one of two messages, or the run is undefined or dies.\<close>

datatype interp_error = Unimplemented | NoCoprocessor | Fault fault

type_synonym 's i_res = "interp_error + 's"

definition bindI :: "'a i_res \<Rightarrow> ('a \<Rightarrow> 'b i_res) \<Rightarrow> 'b i_res" where
  "bindI m f = (case m of Inl e \<Rightarrow> Inl e | Inr x \<Rightarrow> f x)"

lemma bindI_simps [simp]: "bindI (Inl e) f = Inl e" "bindI (Inr x) f = f x"
  by (simp_all add: bindI_def)

lemma bindI_eq_Inr [simp]: "bindI m f = Inr y \<longleftrightarrow> (\<exists>x. m = Inr x \<and> f x = Inr y)"
  by (cases m) simp_all

definition MEMSIZE :: int where "MEMSIZE = 16777216"
definition memoffset :: int where "memoffset = 0x10000000"

definition in_mem :: "u32 \<Rightarrow> nat \<Rightarrow> bool" where
  "in_mem a n \<longleftrightarrow> memoffset \<le> uint a \<and> uint a + int n \<le> memoffset + MEMSIZE"

definition load_bytes :: "nat \<Rightarrow> u32 \<Rightarrow> interp \<Rightarrow> u8 list i_res" where
  "load_bytes n a s = (if in_mem a n then Inr (map (\<lambda>k. mem s (a + of_nat k)) [0..<n]) else Inl (Fault BadAccess))"

definition store_bytes :: "nat \<Rightarrow> u32 \<Rightarrow> u32 \<Rightarrow> interp \<Rightarrow> interp i_res" where
  "store_bytes n a v s = (if in_mem a n
     then Inr (s\<lparr>mem := (\<lambda>b. if unat (b - a) < n then word_bytes v ! unat (b - a) else mem s b)\<rparr>) else Inl (Fault BadAccess))"

text \<open>\<open>char\<close> and \<open>short\<close> are signed.\<close>

definition extend_sign :: "nat \<Rightarrow> u32 \<Rightarrow> u32" where "extend_sign n v = signed_take_bit (n - 1) v"

definition fetch :: "u32 \<Rightarrow> interp \<Rightarrow> u32 i_res" where
  "fetch a s = bindI (load_bytes 4 a s) (\<lambda>bs. Inr (bytes_word bs))"
definition usfetch :: "u32 \<Rightarrow> interp \<Rightarrow> u32 i_res" where
  "usfetch a s = bindI (load_bytes 2 a s) (\<lambda>bs. Inr (bytes_word (bs @ [0, 0])))"
definition sfetch :: "u32 \<Rightarrow> interp \<Rightarrow> u32 i_res" where
  "sfetch a s = bindI (usfetch a s) (\<lambda>v. Inr (extend_sign 16 v))"
definition ucfetch :: "u32 \<Rightarrow> interp \<Rightarrow> u32 i_res" where
  "ucfetch a s = bindI (load_bytes 1 a s) (\<lambda>bs. Inr (bytes_word (bs @ [0, 0, 0])))"
definition cfetch :: "u32 \<Rightarrow> interp \<Rightarrow> u32 i_res" where
  "cfetch a s = bindI (ucfetch a s) (\<lambda>v. Inr (extend_sign 8 v))"

section \<open>Execution\<close>

definition get_Reg :: "interp \<Rightarrow> nat \<Rightarrow> u32" where "get_Reg s k = Reg s ! k"
definition set_Reg :: "nat \<Rightarrow> u32 \<Rightarrow> interp \<Rightarrow> interp" where "set_Reg k v s = s\<lparr>Reg := (Reg s)[k := v]\<rparr>"

definition of_bool32 :: "bool \<Rightarrow> u32" where "of_bool32 b = (if b then 1 else 0)"

definition shift_count :: "u32 \<Rightarrow> nat" where "shift_count v = unat (v AND 0x1f)"

text \<open>The halves \<open>t1l\<close>, \<open>t1h\<close> of a product and its high word, in \<open>int\<close> arithmetic.\<close>

definition low16 :: "u32 \<Rightarrow> u32" where "low16 t = t AND 0xffff"
definition high16 :: "u32 \<Rightarrow> u32" where "high16 t = signed_drop_bit 16 t AND 0xffff"

definition mult_HI :: "u32 \<Rightarrow> u32 \<Rightarrow> u32" where
  "mult_HI t1 t2 = high16 t1 * high16 t2 + signed_drop_bit 16 (high16 t1 * low16 t2) + signed_drop_bit 16 (high16 t2 * low16 t1)"

definition mult_signed :: "u32 \<Rightarrow> u32 \<Rightarrow> u32 \<times> u32" where
  "mult_signed a b =
     (let neg1 = sint a < 0; t1 = (if neg1 then - a else a);
          neg = (if sint b < 0 then \<not> neg1 else neg1); t2 = (if sint b < 0 then - b else b);
          lo = t1 * t2; hi = mult_HI t1 t2
      in if neg then (let lo1 = NOT lo + 1; hi1 = NOT hi in (if lo1 = 0 then hi1 + 1 else hi1, lo1)) else (hi, lo))"

definition mult_unsigned :: "u32 \<Rightarrow> u32 \<Rightarrow> u32 \<times> u32" where
  "mult_unsigned a b = (mult_HI a b, a * b)"

text \<open>The host's divide instruction traps on a zero divisor and on an overflow.\<close>

definition div_signed :: "u32 \<Rightarrow> u32 \<Rightarrow> (u32 \<times> u32) i_res" where
  "div_signed a b = (if b = 0 \<or> sint a = - 2147483648 \<and> sint b = - 1 then Inl (Fault HostTrap)
     else Inr (word_of_int (sint a smod sint b), word_of_int (sint a sdiv sint b)))"

definition div_unsigned :: "u32 \<Rightarrow> u32 \<Rightarrow> (u32 \<times> u32) i_res" where
  "div_unsigned a b = (if b = 0 then Inl (Fault HostTrap) else Inr (a mod b, a div b))"

definition set_HILO :: "u32 \<times> u32 \<Rightarrow> interp \<Rightarrow> interp" where
  "set_HILO p s = s\<lparr>LO := snd p, HI := fst p\<rparr>"

text \<open>The inner switch on the function code; \<open>d\<close> writes the register \<open>rd\<close>.\<close>

definition exec_special :: "(interp \<Rightarrow> interp i_res) \<Rightarrow> I_special \<Rightarrow> u32 \<Rightarrow> u32 \<Rightarrow> interp \<Rightarrow> interp i_res" where
  "exec_special syscall oc i xpc s =
     (let a = get_Reg s (i_rs i); b = get_Reg s (i_rt i); d = (\<lambda>v. Inr (set_Reg (i_rd i) v s)) in
      case oc of
        I_SLL \<Rightarrow> d (push_bit (shamt i) b)
      | I_SRL \<Rightarrow> d (drop_bit (shamt i) b)
      | I_SRA \<Rightarrow> d (signed_drop_bit (shamt i) b)
      | I_SLLV \<Rightarrow> d (push_bit (shift_count a) b)
      | I_SRLV \<Rightarrow> d (drop_bit (shift_count a) b)
      | I_SRAV \<Rightarrow> d (signed_drop_bit (shift_count a) b)
      | I_JR \<Rightarrow> Inr (s\<lparr>npc := a\<rparr>)
      | I_JALR \<Rightarrow> Inr (set_Reg (i_rd i) (xpc + 8) (s\<lparr>npc := a\<rparr>))
      | I_SYSCALL \<Rightarrow> syscall s
      | I_BREAK \<Rightarrow> syscall s
      | I_MFHI \<Rightarrow> d (HI s)
      | I_MTHI \<Rightarrow> Inr (s\<lparr>HI := a\<rparr>)
      | I_MFLO \<Rightarrow> d (LO s)
      | I_MTLO \<Rightarrow> Inr (s\<lparr>LO := a\<rparr>)
      | I_MULT \<Rightarrow> Inr (set_HILO (mult_signed a b) s)
      | I_MULTU \<Rightarrow> Inr (set_HILO (mult_unsigned a b) s)
      | I_DIV \<Rightarrow> bindI (div_signed a b) (\<lambda>p. Inr (set_HILO p s))
      | I_DIVU \<Rightarrow> bindI (div_unsigned a b) (\<lambda>p. Inr (set_HILO p s))
      | I_ADD \<Rightarrow> d (a + b)
      | I_ADDU \<Rightarrow> d (a + b)
      | I_SUB \<Rightarrow> d (a - b)
      | I_SUBU \<Rightarrow> d (a - b)
      | I_AND \<Rightarrow> d (a AND b)
      | I_OR \<Rightarrow> d (a OR b)
      | I_XOR \<Rightarrow> d (a XOR b)
      | I_NOR \<Rightarrow> d (NOT (a OR b))
      | I_SLT \<Rightarrow> d (of_bool32 (sint a < sint b))
      | I_SLTU \<Rightarrow> d (of_bool32 (a < b)))"

text \<open>\<open>npc = xpc + 4 + (immed(instr) << 2)\<close> if the condition holds.\<close>

definition branch_if :: "bool \<Rightarrow> u32 \<Rightarrow> u32 \<Rightarrow> interp \<Rightarrow> interp" where
  "branch_if b i xpc s = (if b then s\<lparr>npc := xpc + 4 + push_bit 2 (immed i)\<rparr> else s)"

definition exec_bcond :: "I_bcond \<Rightarrow> u32 \<Rightarrow> u32 \<Rightarrow> interp \<Rightarrow> interp" where
  "exec_bcond oc i xpc s =
     (let s1 = set_Reg 31 (xpc + 8) s in
      case oc of
        I_BLTZ \<Rightarrow> branch_if (sint (get_Reg s (i_rs i)) < 0) i xpc s
      | I_BGEZ \<Rightarrow> branch_if (0 \<le> sint (get_Reg s (i_rs i))) i xpc s
      | I_BLTZAL \<Rightarrow> branch_if (sint (get_Reg s1 (i_rs i)) < 0) i xpc s1
      | I_BGEZAL \<Rightarrow> branch_if (0 \<le> sint (get_Reg s1 (i_rs i))) i xpc s1)"

definition jump_target :: "u32 \<Rightarrow> u32 \<Rightarrow> u32" where
  "jump_target i xpc = (xpc AND 0xf0000000) OR push_bit 2 (i AND 0x03ffffff)"

text \<open>Partial loads; \<open>-1 >> k\<close> is -1 in C.\<close>

definition exec_lwl :: "u32 \<Rightarrow> interp \<Rightarrow> interp i_res" where
  "exec_lwl i s =
     (let a = get_Reg s (i_rs i) + immed i; t = i_rt i;
          s1 = set_Reg t (get_Reg s t AND signed_drop_bit (unat (8 * (- a AND 3))) (- 1)) s in
      bindI (fetch (a AND 0xfffffffc) s1) (\<lambda>v.
        Inr (set_Reg t (get_Reg s1 t OR push_bit (unat (8 * (a AND 3))) v) s1)))"

definition exec_lwr :: "u32 \<Rightarrow> interp \<Rightarrow> interp i_res" where
  "exec_lwr i s =
     (let a = get_Reg s (i_rs i) + immed i; t = i_rt i;
          s1 = set_Reg t (get_Reg s t AND push_bit (unat (8 * (a AND 3))) (- 1)) s;
          s2 = (if a AND 3 = 0 then set_Reg t 0 s1 else s1) in
      bindI (fetch (a AND 0xfffffffc) s2) (\<lambda>v.
        Inr (set_Reg t (get_Reg s2 t OR signed_drop_bit (unat (8 * (- a AND 3))) v) s2)))"

definition exec_op :: "(interp \<Rightarrow> interp i_res) \<Rightarrow> I_op \<Rightarrow> u32 \<Rightarrow> u32 \<Rightarrow> interp \<Rightarrow> interp i_res" where
  "exec_op syscall oc i xpc s =
     (let a = get_Reg s (i_rs i); b = get_Reg s (i_rt i); im = immed i; t = (\<lambda>v. Inr (set_Reg (i_rt i) v s));
          ld = (\<lambda>f. bindI (f (a + im) s) t); cond = (\<lambda>c. Inr (branch_if c i xpc s)) in
      case oc of
        I_SPECIAL \<Rightarrow> (case map_of I_specials (unat (i AND 0x3f)) of None \<Rightarrow> Inl Unimplemented
            | Some f \<Rightarrow> exec_special syscall f i xpc s)
      | I_BCOND \<Rightarrow> (case map_of I_bconds (i_rt i) of None \<Rightarrow> Inl Unimplemented | Some f \<Rightarrow> Inr (exec_bcond f i xpc s))
      | I_J \<Rightarrow> Inr (s\<lparr>npc := jump_target i xpc\<rparr>)
      | I_JAL \<Rightarrow> Inr (set_Reg 31 (xpc + 8) (s\<lparr>npc := jump_target i xpc\<rparr>))
      | I_BEQ \<Rightarrow> cond (a = b)
      | I_BNE \<Rightarrow> cond (a \<noteq> b)
      | I_BLEZ \<Rightarrow> cond (sint a \<le> 0)
      | I_BGTZ \<Rightarrow> cond (0 < sint a)
      | I_ADDI \<Rightarrow> t (a + im)
      | I_ADDIU \<Rightarrow> t (a + im)
      | I_SLTI \<Rightarrow> t (of_bool32 (sint a < sint im))
      | I_SLTIU \<Rightarrow> t (of_bool32 (a < im))
      | I_ANDI \<Rightarrow> t (a AND im)
      | I_ORI \<Rightarrow> t (a OR im)
      | I_XORI \<Rightarrow> t (a XOR im)
      | I_LUI \<Rightarrow> t (push_bit 16 i)
      | I_LB \<Rightarrow> ld cfetch
      | I_LH \<Rightarrow> ld sfetch
      | I_LWL \<Rightarrow> exec_lwl i s
      | I_LW \<Rightarrow> ld fetch
      | I_LBU \<Rightarrow> ld ucfetch
      | I_LHU \<Rightarrow> ld usfetch
      | I_LWR \<Rightarrow> exec_lwr i s
      | I_SB \<Rightarrow> store_bytes 1 (a + im) b s
      | I_SH \<Rightarrow> store_bytes 2 (a + im) b s
      | I_SW \<Rightarrow> store_bytes 4 (a + im) b s
      | I_SWL \<Rightarrow> Inl Unimplemented
      | I_SWR \<Rightarrow> Inl Unimplemented
      | _ \<Rightarrow> Inl NoCoprocessor)"

text \<open>One round of the loop: \<open>xpc\<close> is the instruction's own address.\<close>

definition exec_instr :: "(interp \<Rightarrow> interp i_res) \<Rightarrow> u32 \<Rightarrow> u32 \<Rightarrow> interp \<Rightarrow> interp i_res" where
  "exec_instr syscall i xpc s =
     (if i = 0 then Inr s
      else case map_of I_ops (unat (signed_drop_bit 26 i AND 0x3f)) of None \<Rightarrow> Inl Unimplemented
        | Some oc \<Rightarrow> exec_op syscall oc i xpc s)"

definition interp_step :: "(interp \<Rightarrow> interp i_res) \<Rightarrow> interp \<Rightarrow> interp i_res" where
  "interp_step syscall s =
     (let xpc = pc s; s1 = s\<lparr>pc := npc s, npc := npc s + 4\<rparr> in
      bindI (fetch xpc s1) (\<lambda>i. exec_instr syscall i xpc (s1\<lparr>Reg := (Reg s1)[0 := 0]\<rparr>)))"

fun interp_run :: "(interp \<Rightarrow> interp i_res) \<Rightarrow> nat \<Rightarrow> interp \<Rightarrow> interp i_res" where
  "interp_run syscall 0 s = Inr s"
| "interp_run syscall (Suc n) s = bindI (interp_step syscall s) (interp_run syscall n)"

section \<open>Start\<close>

text \<open>The loop over the arguments: the string to \<open>ai\<close>, its address to \<open>aci\<close>.\<close>

fun store_string :: "u32 \<Rightarrow> u8 list \<Rightarrow> interp \<Rightarrow> interp i_res" where
  "store_string a [] s = store_bytes 1 a 0 s"
| "store_string a (c # cs) s = bindI (store_bytes 1 a (ucast c) s) (store_string (a + 1) cs)"

fun store_args :: "u8 list list \<Rightarrow> u32 \<Rightarrow> u32 \<Rightarrow> interp \<Rightarrow> interp i_res" where
  "store_args [] aci ai s = Inr s"
| "store_args (v # argv) aci ai s =
     bindI (store_string ai v s) (\<lambda>s1.
     bindI (store_bytes 4 aci ai s1) (store_args argv (aci + 4) (ai + of_nat (length v) + 1)))"

definition start_state :: "u32 \<Rightarrow> u8 list list \<Rightarrow> interp \<Rightarrow> interp i_res" where
  "start_state startpc argv s =
     (let i = word_of_int (MEMSIZE - 1024 + memoffset);
          s1 = set_Reg 29 i (s\<lparr>pc := startpc, npc := startpc + 4\<rparr>) in
      bindI (store_bytes 4 i (of_nat (length argv)) s1) (store_args argv (i + 4) (i + 4 + 32)))"

section \<open>The logarithm of the statistics\<close>

definition ilog2_step :: "u32 \<Rightarrow> nat \<Rightarrow> u32 \<times> nat \<Rightarrow> u32 \<times> nat" where
  "ilog2_step m k p = (case p of (i, l) \<Rightarrow> if i AND m \<noteq> 0 then (i AND m, l + k) else (i, l))"

definition ilog2 :: "u32 \<Rightarrow> nat" where
  "ilog2 i = (if i = 0 then 0
     else snd (ilog2_step 0xaaaaaaaa 1 (ilog2_step 0xcccccccc 2 (ilog2_step 0xf0f0f0f0 4
       (ilog2_step 0xff00ff00 8 (ilog2_step 0xffff0000 16 (i, 1)))))))"


section \<open>Fields\<close>

lemma shifted_field: "k + n \<le> 32 \<Longrightarrow> signed_drop_bit k (i :: u32) AND mask n = drop_bit k i AND mask n"
  by (rule bit_word_eqI) (auto simp: bit_simps)

lemma mask_numerals: "mask 5 = (0x1f :: u32)" "mask 6 = (0x3f :: u32)"
  by (simp_all add: mask_eq_exp_minus_1)

lemma interp_fields:
  "i_rd i = field 11 5 i" "i_rt i = field 16 5 i" "i_rs i = field 21 5 i" "shamt i = field 6 5 i"
  "unat (signed_drop_bit 26 i AND 0x3f) = field 26 6 i" "unat (i AND 0x3f) = field 0 6 i"
  using shifted_field [of 11 5 i] shifted_field [of 16 5 i] shifted_field [of 21 5 i] shifted_field [of 6 5 i] shifted_field [of 26 6 i]
  by (simp_all add: i_rd_def i_rt_def i_rs_def shamt_def field_def mask_numerals)

lemma field_5_less: "field k 5 w < 32" using field_less [of k 5 w] by simp
lemma field_6_less: "field k 6 w < 64" using field_less [of k 6 w] by simp

lemma immed_extra: "immed i = (let e = i AND 0xffff in if e AND 0x8000 \<noteq> 0 then e OR 0xffff0000 else e)"
proof -
  have m: "(0x8000 :: u32) = 2 ^ 15" "(0xffff8000 :: u32) = NOT (mask 15)" "(0x7fff :: u32) = mask 15"
    "(0xffff :: u32) = mask 16" "(0xffff0000 :: u32) = NOT (mask 16)"
    by (simp_all add: mask_eq_exp_minus_1)
  have b: "i AND 0x8000 \<noteq> 0 \<longleftrightarrow> bit i 15" "(i AND 0xffff) AND 0x8000 \<noteq> 0 \<longleftrightarrow> bit i 15"
    using and_exp_eq_0_iff_not_bit [of i 15] and_exp_eq_0_iff_not_bit [of "i AND mask 16" 15]
    unfolding m by (simp_all add: bit_simps)
  have eq: "i OR NOT (mask 15) = (i AND mask 16) OR NOT (mask 16)" if "bit i 15"
    by (rule bit_word_eqI) (use that in \<open>auto simp: bit_simps less_Suc_eq eval_nat_numeral\<close>)
  have eq2: "i AND mask 15 = i AND mask 16" if "\<not> bit i 15"
    by (rule bit_word_eqI) (use that in \<open>auto simp: bit_simps less_Suc_eq eval_nat_numeral\<close>)
  show ?thesis unfolding immed_def Let_def b using eq eq2 unfolding m(2-5) by simp
qed

definition mips_special :: "I_special \<Rightarrow> OpCode" where
  "mips_special f = (case f of I_SLL \<Rightarrow> OP_SLL | I_SRL \<Rightarrow> OP_SRL | I_SRA \<Rightarrow> OP_SRA | I_SLLV \<Rightarrow> OP_SLLV | I_SRLV \<Rightarrow> OP_SRLV
     | I_SRAV \<Rightarrow> OP_SRAV | I_JR \<Rightarrow> OP_JR | I_JALR \<Rightarrow> OP_JALR | I_SYSCALL \<Rightarrow> OP_SYSCALL | I_BREAK \<Rightarrow> OP_UNIMP | I_MFHI \<Rightarrow> OP_MFHI
     | I_MTHI \<Rightarrow> OP_MTHI | I_MFLO \<Rightarrow> OP_MFLO | I_MTLO \<Rightarrow> OP_MTLO | I_MULT \<Rightarrow> OP_MULT | I_MULTU \<Rightarrow> OP_MULTU | I_DIV \<Rightarrow> OP_DIV
     | I_DIVU \<Rightarrow> OP_DIVU | I_ADD \<Rightarrow> OP_ADD | I_ADDU \<Rightarrow> OP_ADDU | I_SUB \<Rightarrow> OP_SUB | I_SUBU \<Rightarrow> OP_SUBU | I_AND \<Rightarrow> OP_AND
     | I_OR \<Rightarrow> OP_OR | I_XOR \<Rightarrow> OP_XOR | I_NOR \<Rightarrow> OP_NOR | I_SLT \<Rightarrow> OP_SLT | I_SLTU \<Rightarrow> OP_SLTU)"

definition mips_op :: "I_op \<Rightarrow> OpCode" where
  "mips_op oc = (case oc of I_SPECIAL \<Rightarrow> SPECIAL | I_BCOND \<Rightarrow> BCOND | I_J \<Rightarrow> OP_J | I_JAL \<Rightarrow> OP_JAL | I_BEQ \<Rightarrow> OP_BEQ
     | I_BNE \<Rightarrow> OP_BNE | I_BLEZ \<Rightarrow> OP_BLEZ | I_BGTZ \<Rightarrow> OP_BGTZ | I_ADDI \<Rightarrow> OP_ADDI | I_ADDIU \<Rightarrow> OP_ADDIU | I_SLTI \<Rightarrow> OP_SLTI
     | I_SLTIU \<Rightarrow> OP_SLTIU | I_ANDI \<Rightarrow> OP_ANDI | I_ORI \<Rightarrow> OP_ORI | I_XORI \<Rightarrow> OP_XORI | I_LUI \<Rightarrow> OP_LUI | I_LB \<Rightarrow> OP_LB
     | I_LH \<Rightarrow> OP_LH | I_LWL \<Rightarrow> OP_LWL | I_LW \<Rightarrow> OP_LW | I_LBU \<Rightarrow> OP_LBU | I_LHU \<Rightarrow> OP_LHU | I_LWR \<Rightarrow> OP_LWR | I_SB \<Rightarrow> OP_SB
     | I_SH \<Rightarrow> OP_SH | I_SWL \<Rightarrow> OP_SWL | I_SW \<Rightarrow> OP_SW | I_SWR \<Rightarrow> OP_SWR | _ \<Rightarrow> OP_UNIMP)"

text \<open>The two programs use the same numbers.\<close>

lemma tables_agree:
  "list_all (\<lambda>(n, oc). opTable ! n = (mips_op oc, if oc = I_J \<or> oc = I_JAL then JFMT else if oc = I_SPECIAL then RFMT else IFMT)) I_ops"
  "list_all (\<lambda>(n, f). specialTable ! n = mips_special f) I_specials"
  by code_simp+

lemma map_of_table: "map_of t n = Some x \<Longrightarrow> list_all P t \<Longrightarrow> P (n, x)"
  by (auto simp: list_all_iff dest: map_of_SomeD)

lemma Decode_op:
  assumes "map_of I_ops (unat (signed_drop_bit 26 i AND 0x3f)) = Some oc"
  shows "rs (Decode i) = i_rs i" "rt (Decode i) = i_rt i" "rd (Decode i) = i_rd i"
    "oc \<noteq> I_SPECIAL \<Longrightarrow> oc \<noteq> I_BCOND \<Longrightarrow> opCode (Decode i) = mips_op oc"
    "oc \<notin> {I_SPECIAL, I_J, I_JAL} \<Longrightarrow> extra (Decode i) = immed i"
    "oc = I_J \<or> oc = I_JAL \<Longrightarrow> extra (Decode i) = i AND 0x03ffffff"
    "oc = I_SPECIAL \<Longrightarrow> extra (Decode i) = of_nat (shamt i)"
    "oc = I_SPECIAL \<Longrightarrow> map_of I_specials (unat (i AND 0x3f)) = Some f \<Longrightarrow> opCode (Decode i) = mips_special f"
    "oc = I_BCOND \<Longrightarrow> map_of I_bconds (i_rt i) = Some g \<Longrightarrow> opCode (Decode i) =
       (case g of I_BLTZ \<Rightarrow> OP_BLTZ | I_BGEZ \<Rightarrow> OP_BGEZ | I_BLTZAL \<Rightarrow> OP_BLTZAL | I_BGEZAL \<Rightarrow> OP_BGEZAL)"
proof -
  have t: "opTable ! field 26 6 i = (mips_op oc, if oc = I_J \<or> oc = I_JAL then JFMT else if oc = I_SPECIAL then RFMT else IFMT)"
    using map_of_table [OF assms tables_agree(1)] unfolding interp_fields(5) by simp
  show "rs (Decode i) = i_rs i" "rt (Decode i) = i_rt i" "rd (Decode i) = i_rd i"
    by (simp_all add: Decode_def Let_def interp_fields split: prod.split)
  show "oc \<noteq> I_SPECIAL \<Longrightarrow> oc \<noteq> I_BCOND \<Longrightarrow> opCode (Decode i) = mips_op oc"
    using t by (cases oc) (simp_all add: Decode_def mips_op_def)
  show "oc \<notin> {I_SPECIAL, I_J, I_JAL} \<Longrightarrow> extra (Decode i) = immed i"
    using t by (simp add: Decode_def immed_extra Let_def)
  show "oc = I_J \<or> oc = I_JAL \<Longrightarrow> extra (Decode i) = i AND 0x03ffffff"
    using t by (auto simp: Decode_def)
  show "oc = I_SPECIAL \<Longrightarrow> extra (Decode i) = of_nat (shamt i)"
  proof -
    assume oc: "oc = I_SPECIAL"
    have "of_nat (shamt i) = drop_bit 6 i AND 0x1f" unfolding interp_fields(4) field_def mask_numerals by simp
    then show ?thesis using t oc by (simp add: Decode_def)
  qed
  show "oc = I_SPECIAL \<Longrightarrow> map_of I_specials (unat (i AND 0x3f)) = Some f \<Longrightarrow> opCode (Decode i) = mips_special f"
  proof -
    assume oc: "oc = I_SPECIAL" and f: "map_of I_specials (unat (i AND 0x3f)) = Some f"
    have "specialTable ! field 0 6 i = mips_special f"
      using map_of_table [OF f tables_agree(2)] unfolding interp_fields(6) by simp
    then show ?thesis using t oc by (simp add: Decode_def mips_op_def)
  qed
  show "oc = I_BCOND \<Longrightarrow> map_of I_bconds (i_rt i) = Some g \<Longrightarrow> opCode (Decode i) =
       (case g of I_BLTZ \<Rightarrow> OP_BLTZ | I_BGEZ \<Rightarrow> OP_BGEZ | I_BLTZAL \<Rightarrow> OP_BLTZAL | I_BGEZAL \<Rightarrow> OP_BGEZAL)"
  proof -
    assume oc: "oc = I_BCOND" and g: "map_of I_bconds (i_rt i) = Some g"
    have "i AND 0x1f0000 = push_bit 16 (of_nat (field 16 5 i))"
    proof -
      have "(0x1f0000 :: u32) = push_bit 16 (mask 5)" by (simp add: mask_numerals push_bit_eq_mult)
      moreover have "i AND push_bit 16 (mask 5) = push_bit 16 (drop_bit 16 i AND mask 5)"
        by (rule bit_word_eqI) (auto simp: bit_simps)
      moreover have "drop_bit 16 i AND mask 5 = of_nat (field 16 5 i)" by (simp add: field_def)
      ultimately show ?thesis by simp
    qed
    moreover have "i_rt i \<in> {0, 1, 16, 17}" using g by (auto simp: I_bconds_def split: if_splits)
    ultimately show ?thesis
      using t oc g by (auto simp: Decode_def mips_op_def I_bconds_def interp_fields Let_def)
  qed
qed

section \<open>Against the machine of Nachos\<close>

text \<open>\<open>executed s m p\<close>: after the switch, before the delayed load and the counters; \<open>p\<close> is the machine's \<open>pcAfter\<close>.\<close>

definition executed :: "interp \<Rightarrow> Machine \<Rightarrow> u32 \<Rightarrow> bool" where
  "executed s m p \<longleftrightarrow> wf_machine m \<and> reg m LoadReg = 0 \<and> length (Reg s) = 32
     \<and> (\<forall>k \<in> {1..<32}. Reg s ! k = reg m k) \<and> HI s = reg m HiReg \<and> LO s = reg m LoReg \<and> pc s = reg m NextPCReg \<and> npc s = p"

definition sim :: "interp \<Rightarrow> Machine \<Rightarrow> bool" where
  "sim s m \<longleftrightarrow> wf_machine m \<and> reg m LoadReg = 0 \<and> reg m 0 = 0 \<and> length (Reg s) = 32
     \<and> (\<forall>k \<in> {1..<32}. Reg s ! k = reg m k) \<and> HI s = reg m HiReg \<and> LO s = reg m LoReg
     \<and> pc s = reg m PCReg \<and> npc s = reg m NextPCReg"

lemma wf_reg: "wf_machine m \<Longrightarrow> length (registers m) = 40"
  by (simp add: wf_machine_def reg_consts)

lemma reg_set_reg: "wf_machine m \<Longrightarrow> k < 40 \<Longrightarrow> reg (set_reg k v m) j = (if j = k then v else reg m j)"
  using wf_reg by (auto simp: reg_def set_reg_def)

lemma executed_set:
  assumes "executed s m p" "k < 32"
  shows "executed (set_Reg k v s) (set_reg k v m) p"
proof -
  have wf: "wf_machine m" using assms(1) by (simp add: executed_def)
  have "wf_machine (set_reg k v m)" using wf_set_reg [OF wf reg_not_load(1)] assms(2) by (simp add: reg_consts)
  then show ?thesis using assms
    by (auto simp: executed_def set_Reg_def nth_list_update reg_set_reg [OF wf] reg_consts)
qed

lemma executed_hilo:
  assumes "executed s m p"
  shows "executed (s\<lparr>HI := v\<rparr>) (set_reg HiReg v m) p" "executed (s\<lparr>LO := v\<rparr>) (set_reg LoReg v m) p"
    "executed (s\<lparr>npc := q\<rparr>) m q"
proof -
  have wf: "wf_machine m" using assms(1) by (simp add: executed_def)
  have "wf_machine (set_reg HiReg v m)" "wf_machine (set_reg LoReg v m)" using wf_set_reg [OF wf] by (simp_all add: reg_consts)
  then show "executed (s\<lparr>HI := v\<rparr>) (set_reg HiReg v m) p" "executed (s\<lparr>LO := v\<rparr>) (set_reg LoReg v m) p"
    "executed (s\<lparr>npc := q\<rparr>) m q"
    using assms by (auto simp: executed_def reg_set_reg [OF wf] reg_consts)
qed

text \<open>\<open>both\<close>: the interpreter goes on, the machine retires, and the states agree.\<close>

definition both :: "interp i_res \<Rightarrow> outcome res \<Rightarrow> bool" where
  "both r q \<longleftrightarrow> (\<exists>s m p. r = Inr s \<and> q = retire p m \<and> executed s m p)"

lemma bothI: "executed s m p \<Longrightarrow> both (Inr s) (retire p m)"
  unfolding both_def by blast

lemma both_finish:
  assumes "both r q"
  shows "\<exists>s m. r = Inr s \<and> bindR q finish = Inr m \<and> sim s m"
proof -
  obtain s m p where r: "r = Inr s" "q = retire p m" and e: "executed s m p" using assms by (auto simp: both_def)
  have wf: "wf_machine m" and l: "registers m ! LoadReg = 0" using e by (simp_all add: executed_def reg_def)
  let ?m1 = "m\<lparr>registers := (registers m)[0 := registers m ! LoadValueReg, LoadReg := 0, LoadValueReg := 0, 0 := 0]\<rparr>"
  have d: "DelayedLoad m 0 0 = Inr ?m1" using DelayedLoad_ok [OF wf, of 0 0] l by simp
  have wf1: "wf_machine ?m1 \<and> registers ?m1 ! 0 = 0" using DelayedLoad_zero [OF wf d] by simp
  let ?m2 = "set_reg PrevPCReg (reg ?m1 PCReg) ?m1"
  let ?m3 = "set_reg PCReg (reg ?m2 NextPCReg) ?m2"
  let ?m4 = "set_reg NextPCReg p ?m3"
  have "bindR q finish = Inr ?m4" by (simp add: r(2) retire_def finish_def d Let_def)
  moreover have "wf_machine ?m4" using wf1 by (simp add: wf_set_reg reg_consts)
  then have "sim s ?m4" using e wf_reg [OF wf] by (auto simp: sim_def executed_def reg_def set_reg_def reg_consts nth_list_update)
  ultimately show ?thesis using r(1) by blast
qed

text \<open>Conditions under which the two programs do the same: \<open>a\<close> and \<open>b\<close> are the registers \<open>rs\<close> and \<open>rt\<close>, and \<open>seq\<close> says that the
  instruction is not in a delay slot.\<close>

definition agree_special :: "I_special \<Rightarrow> u32 \<Rightarrow> u32 \<Rightarrow> u32 \<Rightarrow> bool \<Rightarrow> bool" where
  "agree_special f i a b seq = (case f of
      I_SYSCALL \<Rightarrow> False | I_BREAK \<Rightarrow> False | I_MULT \<Rightarrow> False | I_MULTU \<Rightarrow> False
    | I_SRL \<Rightarrow> shamt i = 0 \<or> 0 \<le> sint b
    | I_SRLV \<Rightarrow> shift_count a = 0 \<or> 0 \<le> sint b
    | I_OR \<Rightarrow> b AND NOT a = 0
    | I_ADD \<Rightarrow> is_int32 (sint a + sint b)
    | I_SUB \<Rightarrow> is_int32 (sint a - sint b)
    | I_DIV \<Rightarrow> b \<noteq> 0 \<and> \<not> (sint a = - 2147483648 \<and> sint b = - 1)
    | I_DIVU \<Rightarrow> b \<noteq> 0
    | I_JALR \<Rightarrow> seq \<and> i_rs i \<noteq> i_rd i
    | _ \<Rightarrow> True)"

definition agree_op :: "I_op \<Rightarrow> u32 \<Rightarrow> u32 \<Rightarrow> u32 \<Rightarrow> bool \<Rightarrow> u32 \<Rightarrow> bool" where
  "agree_op oc i a b seq xpc = (case oc of
      I_SPECIAL \<Rightarrow> (case map_of I_specials (unat (i AND 0x3f)) of None \<Rightarrow> False | Some f \<Rightarrow> agree_special f i a b seq)
    | I_BCOND \<Rightarrow> (case map_of I_bconds (i_rt i) of None \<Rightarrow> False
        | Some g \<Rightarrow> seq \<or> g = I_BLTZ \<and> 0 \<le> sint a \<or> g = I_BGEZ \<and> sint a < 0)
    | I_J \<Rightarrow> seq \<and> (xpc + 8) AND 0xf0000000 = xpc AND 0xf0000000
    | I_JAL \<Rightarrow> seq \<and> (xpc + 8) AND 0xf0000000 = xpc AND 0xf0000000
    | I_BEQ \<Rightarrow> seq \<or> a \<noteq> b | I_BNE \<Rightarrow> seq \<or> a = b | I_BLEZ \<Rightarrow> seq \<or> 0 < sint a | I_BGTZ \<Rightarrow> seq \<or> sint a \<le> 0
    | I_ADDI \<Rightarrow> is_int32 (sint a + sint (immed i))
    | I_ADDIU \<Rightarrow> True | I_SLTI \<Rightarrow> True | I_SLTIU \<Rightarrow> True | I_LUI \<Rightarrow> True
    | I_ANDI \<Rightarrow> i AND 0x8000 = 0 \<or> a AND 0xffff0000 = 0 | I_ORI \<Rightarrow> i AND 0x8000 = 0 | I_XORI \<Rightarrow> i AND 0x8000 = 0
    | _ \<Rightarrow> False)"

definition agreeing :: "u32 \<Rightarrow> Machine \<Rightarrow> bool" where
  "agreeing i m \<longleftrightarrow> i = 0 \<or> (case map_of I_ops (unat (signed_drop_bit 26 i AND 0x3f)) of None \<Rightarrow> False
     | Some oc \<Rightarrow> agree_op oc i (reg m (i_rs i)) (reg m (i_rt i)) (reg m NextPCReg = reg m PCReg + 4) (reg m PCReg))"

lemma exec_ADD_SUB_ok:
  "is_int32 (sint (reg m (rs i)) + sint (reg m (rt i))) \<Longrightarrow> exec_ADD i p m = retire p (set_reg (rd i) (reg m (rs i) + reg m (rt i)) m)"
  "is_int32 (sint (reg m (rs i)) + sint (extra i)) \<Longrightarrow> exec_ADDI i p m = retire p (set_reg (rt i) (reg m (rs i) + extra i) m)"
  "is_int32 (sint (reg m (rs i)) - sint (reg m (rt i))) \<Longrightarrow> exec_SUB i p m = retire p (set_reg (rd i) (reg m (rs i) - reg m (rt i)) m)"
  unfolding Let_def exec_defs add_overflow sub_overflow by simp_all

lemma absorb_or: "b AND NOT a = 0 \<Longrightarrow> a OR b = (a :: u32)"
proof -
  assume h: "b AND NOT a = 0"
  have "\<not> bit (b AND NOT a) n" for n by (simp add: h)
  then show "a OR b = a" by (intro bit_word_eqI) (auto simp: bit_simps dest: bit_imp_le_length)
qed

lemma i_reg_less: "i_rd i < 32" "i_rs i < 32" "i_rt i < 32" "shamt i < 32"
  unfolding interp_fields using field_5_less by simp_all

lemma unat_shamt: "unat (of_nat (shamt i) :: u32) = shamt i"
  using i_reg_less(4) [of i] by (simp add: unat_of_nat)

lemma shift_count_less: "shift_count v < 32"
  using field_5_less [of 0 v] by (simp add: shift_count_def field_def mask_numerals)

lemma logical_shift: "k < 32 \<Longrightarrow> k = 0 \<or> 0 \<le> sint b \<Longrightarrow> drop_bit k b = signed_drop_bit k (b :: u32)"
  using signed_drop_bit_logical [of k b] sign_bit_iff [of b] by auto

lemmas special_simps = exec_special_def Let_def agree_special_def mips_special_def

lemma special_agrees:
  assumes "executed s m (reg m NextPCReg + 4)" "\<And>k. k < 32 \<Longrightarrow> get_Reg s k = reg m k"
    and "map_of I_ops (unat (signed_drop_bit 26 i AND 0x3f)) = Some I_SPECIAL" "map_of I_specials (unat (i AND 0x3f)) = Some f"
    and "agree_special f i (reg m (i_rs i)) (reg m (i_rt i)) (reg m NextPCReg = reg m PCReg + 4)"
  shows "both (exec_special sys f i (reg m PCReg) s) (execute (mips_special f) (Decode i) (reg m NextPCReg + 4) m)"
proof -
  note D = Decode_op [OF assms(3)]
  have r: "get_Reg s (i_rs i) = reg m (i_rs i)" "get_Reg s (i_rt i) = reg m (i_rt i)" using assms(2) i_reg_less by simp_all
  note set = executed_set [OF assms(1) i_reg_less(1)] executed_hilo [OF assms(1)]
  have hl: "executed (set_HILO p s) (set_reg HiReg (fst p) (set_reg LoReg (snd p) m)) (reg m NextPCReg + 4)" for p
    using executed_hilo(1) [OF executed_hilo(2) [OF assms(1)]] by (simp add: set_HILO_def)
  have hi: "HI s = reg m HiReg" "LO s = reg m LoReg" using assms(1) by (simp_all add: executed_def)
  have wf: "wf_machine m" using assms(1) by (simp add: executed_def)
  have ex: "extra (Decode i) = of_nat (shamt i)" using D(7) by simp
  have jr: "executed (set_Reg (i_rd i) v (s\<lparr>npc := q\<rparr>)) (set_reg (i_rd i) v m) q" for v q
    using executed_set [OF executed_hilo(3) [OF assms(1)] i_reg_less(1)] .
  have rd40: "i_rd i < 40" using i_reg_less(1) [of i] by simp
  have z: "sint (reg m (i_rt i)) = 0 \<Longrightarrow> reg m (i_rt i) = 0" by (simp add: signed_eq_0_iff)
  note calc = exec_ADD_SUB_ok(1,3) [where i = "Decode i", unfolded D(1-3)]
  show ?thesis
  proof (cases "f \<in> {I_JALR, I_ADD, I_SUB}")
    case True
    then show ?thesis
      using assms(5) set hl jr r
      by (auto simp: special_simps D(1-3) calc i_reg_less rd40 reg_set_reg [OF wf] add.commute [of 8] intro!: bothI)
  next
    case False
    then show ?thesis
      using assms(5) set hl hi r z
      by (cases f) (auto simp: special_simps D(1-3) ex unat_shamt exec_defs set_less_def of_bool32_def shift_count_def [symmetric] div_signed_def
        div_unsigned_def absorb_or logical_shift i_reg_less shift_count_less intro!: bothI)
  qed
qed

lemma immed_low: "i AND 0x8000 = 0 \<Longrightarrow> immed i AND 0xffff = immed i"
  by (simp add: immed_def mask_numerals and.assoc)

lemma immed_low_AND:
  assumes "a AND 0xffff0000 = 0"
  shows "a AND (immed i AND 0xffff) = a AND immed i"
proof -
  have "(0xffff0000 :: u32) = NOT (mask 16)" by (simp add: mask_eq_exp_minus_1)
  then have "a AND NOT (mask 16) = 0" using assms by metis
  then have b: "\<not> bit (a AND NOT (mask 16)) n" for n by simp
  have "n < 16" if "bit a n" for n using that b [of n] by (auto simp: bit_simps dest: bit_imp_le_length)
  then have "a AND (immed i AND mask 16) = a AND immed i" by (intro bit_word_eqI) (auto simp: bit_simps)
  then show ?thesis by (simp add: mask_eq_exp_minus_1)
qed

lemma immed_high: "push_bit 16 (immed i) = push_bit 16 i"
proof -
  have m: "(0x8000 :: u32) = 2 ^ 15" "(0xffff8000 :: u32) = NOT (mask 15)" "(0x7fff :: u32) = mask 15"
    by (simp_all add: mask_eq_exp_minus_1)
  have b: "i AND 0x8000 \<noteq> 0 \<longleftrightarrow> bit i 15" using and_exp_eq_0_iff_not_bit [of i 15] unfolding m by simp
  have n: "n - 16 = 15" if "n < 32" "16 \<le> n" "\<not> n - 16 < 15" for n :: nat using that by simp
  have "push_bit 16 (i OR NOT (mask 15)) = push_bit 16 i" if "bit i 15"
    by (rule bit_word_eqI) (use that n in \<open>auto simp: bit_simps, metis\<close>)
  moreover have "push_bit 16 (i AND mask 15) = push_bit 16 i" if "\<not> bit i 15"
    by (rule bit_word_eqI) (use that n in \<open>auto simp: bit_simps, metis\<close>)
  ultimately show ?thesis unfolding immed_def b unfolding m by simp
qed

lemma op_agrees:
  assumes "executed s m (reg m NextPCReg + 4)" "\<And>k. k < 32 \<Longrightarrow> get_Reg s k = reg m k"
    and "map_of I_ops (unat (signed_drop_bit 26 i AND 0x3f)) = Some oc"
    and "agree_op oc i (reg m (i_rs i)) (reg m (i_rt i)) (reg m NextPCReg = reg m PCReg + 4) (reg m PCReg)"
  shows "both (exec_op sys oc i (reg m PCReg) s) (execute (opCode (Decode i)) (Decode i) (reg m NextPCReg + 4) m)"
proof (cases "oc = I_SPECIAL \<or> oc = I_BCOND")
  case True
  then show ?thesis
  proof
    assume oc: "oc = I_SPECIAL"
    obtain f where f: "map_of I_specials (unat (i AND 0x3f)) = Some f"
      and ag: "agree_special f i (reg m (i_rs i)) (reg m (i_rt i)) (reg m NextPCReg = reg m PCReg + 4)"
      using assms(4) oc by (auto simp: agree_op_def split: option.splits)
    have "opCode (Decode i) = mips_special f" using Decode_op(8) [OF assms(3) oc f] .
    then show ?thesis
      using special_agrees [OF assms(1,2) assms(3) [unfolded oc] f ag] by (simp add: exec_op_def oc f Let_def)
  next
    assume oc: "oc = I_BCOND"
    obtain g where g: "map_of I_bconds (i_rt i) = Some g"
      and seq: "reg m NextPCReg = reg m PCReg + 4 \<or> g = I_BLTZ \<and> 0 \<le> sint (reg m (i_rs i)) \<or> g = I_BGEZ \<and> sint (reg m (i_rs i)) < 0"
      using assms(4) oc by (auto simp: agree_op_def split: option.splits)
    note D = Decode_op [OF assms(3)]
    have wf: "wf_machine m" using assms(1) by (simp add: executed_def)
    have s0: "get_Reg s (i_rs i) = reg m (i_rs i)" using assms(2) i_reg_less(2) by simp
    show ?thesis
    proof (cases "reg m NextPCReg = reg m PCReg + 4")
      case True
      have br: "both (Inr (branch_if c i (reg m PCReg) s')) (branch c (Decode i) (reg m NextPCReg + 4) m')"
        if "executed s' m' (reg m NextPCReg + 4)" "reg m' NextPCReg = reg m NextPCReg" for c s' m'
        using that executed_hilo(3) [OF that(1)] D(5) True oc
        by (auto simp: branch_if_def branch_def IndexToAddr_def add.assoc intro!: bothI)
      have ex: "executed (set_Reg 31 v s) (set_reg 31 v m) (reg m NextPCReg + 4)" for v
        using executed_set [OF assms(1)] by simp
      have s31: "get_Reg (set_Reg 31 v s) (i_rs i) = reg (set_reg 31 v m) (i_rs i)" for v
        using assms(1,2) i_reg_less(2) [of i]
        by (auto simp: get_Reg_def set_Reg_def executed_def reg_set_reg [OF wf] nth_list_update)
      have n: "reg (set_reg 31 v m) NextPCReg = reg m NextPCReg" for v by (simp add: reg_set_reg [OF wf] reg_consts)
      show ?thesis
        using D(9) [OF oc g] br [OF assms(1) refl] br [OF ex n] s31 i_reg_less(2) [of i] True assms(2) D(1)
        by (cases g) (simp_all add: exec_op_def oc g Let_def exec_bcond_def sign_bit_iff not_less add.commute [of 8])
    next
      case False
      then have "g = I_BLTZ \<and> 0 \<le> sint (reg m (i_rs i)) \<or> g = I_BGEZ \<and> sint (reg m (i_rs i)) < 0" using seq by blast
      then show ?thesis
        using D(9) [OF oc g] s0 D(1) bothI [OF assms(1)]
        by (auto simp: exec_op_def oc g Let_def exec_bcond_def branch_if_def branch_def sign_bit_iff)
    qed
  qed
next
  case False
  note D = Decode_op [OF assms(3)]
  have r: "get_Reg s (i_rs i) = reg m (i_rs i)" "get_Reg s (i_rt i) = reg m (i_rt i)" using assms(2) i_reg_less by simp_all
  have set: "executed (set_Reg (i_rt i) v s) (set_reg (i_rt i) v m) (reg m NextPCReg + 4)" for v
    using executed_set [OF assms(1) i_reg_less(3)] .
  have npc: "executed (s\<lparr>npc := q\<rparr>) m q" "executed (set_Reg 31 v (s\<lparr>npc := q\<rparr>)) (set_reg 31 v m) q" for v q
    using executed_hilo(3) [OF assms(1)] executed_set [OF executed_hilo(3) [OF assms(1)]] by simp_all
  note calc = exec_ADD_SUB_ok(2) [where i = "Decode i", unfolded D(1-3)]
  show ?thesis
    using False assms(1,4) set npc r D(4-6)
    by (cases oc) (auto simp: exec_op_def agree_op_def mips_op_def Let_def D(1-3) calc set_less_def of_bool32_def immed_low immed_low_AND immed_high
        branch_if_def branch_def IndexToAddr_def jump_target_def add.assoc not_less add.commute [of 8] intro!: bothI)
qed

lemma NOP_agrees: "execute (opCode (Decode 0)) (Decode 0) p m = retire p (set_reg 0 (push_bit 0 (reg m 0)) m)"
proof -
  have "Decode 0 = \<lparr>ivalue = 0, opCode = OP_SLL, rs = 0, rt = 0, rd = 0, extra = 0\<rparr>" by code_simp
  then show ?thesis by simp
qed

text \<open>C38: one round of \<open>bin/execute.c\<close>'s loop and one \<open>OneInstruction\<close> of the Nachos machine, from
  states that agree on all registers, HI, LO and the two program counters, decode the word alike and end in states
  that agree again, under a condition on the instruction and its operands (\<open>agreeing\<close>) that is sufficient and makes no
  claim about the rest.  It covers the instructions without memory access, multiplication or trap.  The cases where
  the two sources differ are among those it leaves out: overflow, a zero divisor, a logical immediate that is negative as 16 bits, the two
  bugs in OR and SRL, and taken branches and jumps in delay slots and at the end of a 256 MB region.\<close>

theorem simulators_agree:
  assumes "sim s m" "agreeing i m"
  shows "\<exists>s' m'. exec_instr syscall i (pc s) (s\<lparr>pc := npc s, npc := npc s + 4, Reg := (Reg s)[0 := 0]\<rparr>) = Inr s'
    \<and> bindR (execute (opCode (Decode i)) (Decode i) (reg m NextPCReg + 4) m) finish = Inr m' \<and> sim s' m'"
proof -
  let ?s = "s\<lparr>pc := npc s, npc := npc s + 4, Reg := (Reg s)[0 := 0]\<rparr>"
  have pc: "pc s = reg m PCReg" and e: "executed ?s m (reg m NextPCReg + 4)"
    using assms(1) by (auto simp: sim_def executed_def)
  have g: "get_Reg ?s k = reg m k" if "k < 32" for k
    using assms(1) that by (cases "k = 0") (auto simp: sim_def get_Reg_def)
  have "both (exec_instr syscall i (pc s) ?s) (execute (opCode (Decode i)) (Decode i) (reg m NextPCReg + 4) m)"
  proof (cases "i = 0")
    case True
    have "set_reg 0 (push_bit 0 (reg m 0)) m = m" by (simp add: set_reg_def reg_def)
    then show ?thesis using bothI [OF e] True by (simp add: exec_instr_def NOP_agrees)
  next
    case False
    then obtain oc where oc: "map_of I_ops (unat (signed_drop_bit 26 i AND 0x3f)) = Some oc"
      and ag: "agree_op oc i (reg m (i_rs i)) (reg m (i_rt i)) (reg m NextPCReg = reg m PCReg + 4) (reg m PCReg)"
      using assms(2) by (auto simp: agreeing_def split: option.splits)
    then show ?thesis using op_agrees [OF e g oc ag] False by (simp add: exec_instr_def pc)
  qed
  then show ?thesis using both_finish by blast
qed

text \<open>At reset with r1 = 7: \<open>addiu r2, r1, -5\<close>.\<close>

definition sample_interp :: interp where
  "sample_interp = \<lparr>Reg = replicate 32 0, HI = 0, LO = 0, mem = (\<lambda>_. 0), pc = 0, npc = 4\<rparr>"

lemma sample_sim: "sim (set_Reg 1 7 sample_interp) (set_reg 1 7 (set_reg NextPCReg 4 sample_machine))"
  by (auto simp: sim_def sample_interp_def set_Reg_def set_reg_def reg_def reg_consts sample_machine_def wf_machine_def TLBSize_def nth_list_update)

theorem simulators_agree_witness:
  "\<exists>s' m'. exec_instr Inr 0x2422fffb 0 ((set_Reg 1 7 sample_interp)\<lparr>pc := 4, npc := 8\<rparr>) = Inr s'
    \<and> get_Reg s' 2 = 2 \<and> sim s' m'"
proof -
  let ?s = "set_Reg 1 7 sample_interp"
  let ?m = "set_reg 1 7 (set_reg NextPCReg 4 sample_machine)"
  have a: "agreeing 0x2422fffb ?m" by code_simp
  have s: "pc ?s = 0" "npc ?s = 4" "(Reg ?s)[0 := 0] = Reg ?s" "?s\<lparr>pc := 4, npc := 8, Reg := Reg ?s\<rparr> = ?s\<lparr>pc := 4, npc := 8\<rparr>"
    by (simp_all add: sample_interp_def set_Reg_def list_eq_iff_nth_eq nth_list_update)
  have x: "case exec_instr Inr 0x2422fffb 0 (?s\<lparr>pc := 4, npc := 8\<rparr>) of Inl _ \<Rightarrow> False | Inr s' \<Rightarrow> get_Reg s' 2 = 2"
    by code_simp
  from simulators_agree [OF sample_sim a, of Inr] show ?thesis
    using x s by auto
qed

section \<open>Memory and registers stay within their arrays\<close>

definition confined :: "interp \<Rightarrow> interp \<Rightarrow> bool" where
  "confined s s' \<longleftrightarrow> length (Reg s') = length (Reg s) \<and> (\<forall>a. \<not> in_mem a 1 \<longrightarrow> mem s' a = mem s a)"

lemma confined_refl [simp]: "confined s s" by (simp add: confined_def)

lemma confined_trans: "confined s s' \<Longrightarrow> confined s' s'' \<Longrightarrow> confined s s''" by (simp add: confined_def)

lemma confined_updates [simp]:
  "confined s (set_Reg k v s') = confined s s'" "confined s (s'\<lparr>npc := q\<rparr>) = confined s s'" "confined s (s'\<lparr>pc := q\<rparr>) = confined s s'"
  "confined s (s'\<lparr>HI := v\<rparr>) = confined s s'" "confined s (s'\<lparr>LO := v\<rparr>) = confined s s'"
  "confined s (branch_if c i x s') = confined s s'" "confined s (set_HILO p s') = confined s s'"
  by (simp_all add: confined_def set_Reg_def branch_if_def set_HILO_def)

lemma in_mem_bytes:
  assumes "in_mem a n" "unat (b - a) < n"
  shows "in_mem b 1"
proof -
  have "int (unat (b - a)) = uint (b - a)" by simp
  then have k: "uint (b - a) < int n" "0 \<le> uint (b - a)" using assms(2) by linarith+
  have r: "memoffset \<le> uint a" "uint a + int n \<le> memoffset + MEMSIZE" using assms(1) by (simp_all add: in_mem_def)
  have "memoffset + MEMSIZE \<le> 2 ^ 32" "0 \<le> uint a" by (simp_all add: memoffset_def MEMSIZE_def)
  then have s: "0 \<le> uint a + uint (b - a)" "uint a + uint (b - a) < 2 ^ 32" using k r by linarith+
  have "uint (a + (b - a)) = (uint a + uint (b - a)) mod 2 ^ LENGTH(32)" by (rule uint_word_ariths(1))
  moreover have "LENGTH(32) = 32" by simp
  ultimately have "uint b = uint a + uint (b - a)" using mod_pos_pos_trivial [OF s] by simp
  then show ?thesis unfolding in_mem_def using k r by linarith
qed

lemma store_bytes_confined: "store_bytes n a v s = Inr s' \<Longrightarrow> confined s s'"
  by (auto simp: store_bytes_def confined_def dest: in_mem_bytes split: if_splits)

definition confines :: "(interp \<Rightarrow> interp i_res) \<Rightarrow> bool" where
  "confines f \<longleftrightarrow> (\<forall>s s'. f s = Inr s' \<longrightarrow> confined s s')"

lemma confinesD: "confines f \<Longrightarrow> f s = Inr s' \<Longrightarrow> confined s s'" by (simp add: confines_def)

lemma exec_special_confined:
  assumes "confines syscall" "exec_special syscall f i x s = Inr s'" shows "confined s s'"
  using assms(2) by (cases f) (auto simp: exec_special_def Let_def dest: confinesD [OF assms(1)])

lemma exec_bcond_confined: "confined s (exec_bcond f i x s)"
  by (cases f) (simp_all add: exec_bcond_def Let_def)

lemma exec_op_confined:
  assumes "confines syscall" "exec_op syscall oc i x s = Inr s'" shows "confined s s'"
  using assms(2)
  by (cases oc) (auto simp: exec_op_def Let_def exec_lwl_def exec_lwr_def exec_bcond_confined split: option.splits
      dest: exec_special_confined [OF assms(1)] store_bytes_confined)

lemma interp_step_confined:
  assumes "confines syscall" "interp_step syscall s = Inr s'" shows "confined s s'"
proof -
  obtain i where "exec_instr syscall i (pc s) (s\<lparr>pc := npc s, npc := npc s + 4, Reg := (Reg s)[0 := 0]\<rparr>) = Inr s'"
    using assms(2) by (auto simp: interp_step_def Let_def)
  moreover have "confined s (s\<lparr>pc := npc s, npc := npc s + 4, Reg := (Reg s)[0 := 0]\<rparr>)" by (simp add: confined_def)
  ultimately show ?thesis
    using confined_trans exec_op_confined [OF assms(1)] by (auto simp: exec_instr_def split: if_splits option.splits)
qed

text \<open>However long a program runs, the interpreter keeps its 32 registers and writes no byte of the host outside the 16 MB of \<open>memory\<close>,
  provided that the system calls do so.\<close>

theorem interp_run_confined:
  assumes "\<And>s s'. syscall s = Inr s' \<Longrightarrow> confined s s'" "interp_run syscall n s = Inr s'"
  shows "confined s s'"
proof -
  have c: "confines syscall" using assms(1) by (simp add: confines_def)
  show ?thesis using assms(2)
  proof (induction n arbitrary: s)
    case (Suc n)
    then obtain s1 where "interp_step syscall s = Inr s1" "interp_run syscall n s1 = Inr s'" by auto
    then show ?case using interp_step_confined [OF c] Suc.IH confined_trans by blast
  qed simp
qed

section \<open>Multiplication\<close>

text \<open>The high word against the 64-bit product, by the 16-bit halves.\<close>

lemma uint_high16: "uint (high16 t) = uint t div 65536" and uint_low16: "uint (low16 t) = uint t mod 65536"
proof -
  have m: "(0xffff :: u32) = mask 16" by (simp add: mask_eq_exp_minus_1)
  have "high16 t = drop_bit 16 t" unfolding high16_def m by (rule bit_word_eqI) (auto simp: bit_simps dest: bit_imp_le_length)
  then have "uint (high16 t) = drop_bit 16 (take_bit 32 (uint t))" by (simp only: unsigned_drop_bit_eq) simp
  moreover have "take_bit 32 (uint t) = uint t"
    by (rule take_bit_int_eq_self) (use uint_range_size [of t] in \<open>simp_all add: word_size\<close>)
  ultimately show "uint (high16 t) = uint t div 65536" by (simp add: drop_bit_eq_div)
  show "uint (low16 t) = uint t mod 65536" unfolding low16_def m take_bit_eq_mask [symmetric] unsigned_take_bit_eq by (simp add: take_bit_eq_mod)
qed

lemma half_ranges: "0 \<le> uint (t :: u32) div 65536" "uint t div 65536 < 65536" "0 \<le> uint t mod 65536" "uint t mod 65536 < 65536"
proof -
  have "0 \<le> uint t" "uint t < 65536 * 65536" using uint_range_size [of t] by (simp_all add: word_size)
  then show "0 \<le> uint t div 65536" "uint t div 65536 < 65536" by linarith+
qed simp_all

lemma half_product:
  fixes x y :: int
  assumes "0 \<le> x" "x < 65536" "0 \<le> y" "y < 65536"
  shows "0 \<le> x * y" "x * y < 4294967296"
proof -
  show "0 \<le> x * y" using assms by simp
  have "x * y \<le> 65535 * 65535" by (rule mult_mono) (use assms in auto)
  then show "x * y < 4294967296" by simp
qed

lemma word_of_int_sint: "word_of_int (sint w) = (w :: u32)"
  by (rule bit_word_eqI) (simp add: bit_simps)

lemma sar16_product:
  assumes "uint a * uint b < 4294967296"
  shows "(signed_drop_bit 16 (a * b) :: u32) = word_of_int (uint a * uint b div 65536 - (if 2147483648 \<le> uint a * uint b then 65536 else 0))"
proof -
  have u: "uint (a * b) = uint a * uint b" using assms by (simp add: uint_word_ariths(3))
  have "sint (signed_drop_bit 16 (a * b)) = sint (a * b) div 65536" by (simp add: sint_signed_drop_bit_eq drop_bit_eq_div)
  then have "signed_drop_bit 16 (a * b) = (word_of_int (sint (a * b) div 65536) :: u32)" by (metis word_of_int_sint)
  moreover have "sint (a * b) = uint a * uint b - (if 2147483648 \<le> uint a * uint b then 4294967296 else 0)"
    using uint_sint_cases [of "a * b"] sint_range [of "a * b"] u uint_range_size [of "a * b"] by (auto split: if_splits)
  moreover have "(x - 4294967296) div 65536 = x div 65536 - 65536" for x :: int
    using div_mult_self1 [of 65536 x "- 65536"] by simp
  ultimately show ?thesis by simp
qed

lemma high_product:
  fixes h k l r :: int
  assumes "0 \<le> l * r"
  shows "(h * 65536 + l) * (k * 65536 + r) div 2 ^ 32 =
    h * k + h * r div 65536 + k * l div 65536 + (h * r mod 65536 + k * l mod 65536 + l * r div 65536) div 65536"
proof -
  have w: "(2 :: int) ^ 32 = 65536 * 65536" by simp
  have "(h * 65536 + l) * (k * 65536 + r) = (h * k * 65536 + h * r + k * l) * 65536 + l * r" by (simp add: algebra_simps)
  then have "(h * 65536 + l) * (k * 65536 + r) div (65536 * 65536) = (h * k * 65536 + h * r + k * l + l * r div 65536) div 65536"
    by (simp only: zdiv_zmult2_eq) simp
  also have "\<dots> = h * k + h * r div 65536 + k * l div 65536 + (h * r mod 65536 + k * l mod 65536 + l * r div 65536) div 65536"
  proof -
    have "(x * 65536 + p + q + s) div 65536 = x + p div 65536 + q div 65536 + (p mod 65536 + q mod 65536 + s) div 65536" for x p q s :: int
    proof -
      have "x * 65536 + p + q + s = (x + p div 65536 + q div 65536) * 65536 + (p mod 65536 + q mod 65536 + s)"
        using div_mult_mod_eq [of p 65536] div_mult_mod_eq [of q 65536] by (simp only: distrib_right)
      then show ?thesis by (simp only: div_mult_self3)
    qed
    then show ?thesis by blast
  qed
  finally show ?thesis unfolding w .
qed

lemma uint_u32: "uint (word_of_int x :: u32) = x mod 2 ^ 32"
  by (simp add: uint_word_of_int)

lemma rearrange: "x + y + z + c - c - (s + t) = x + (y - s) + (z - t)" for x y z c s t :: int
  by simp

text \<open>The unsigned multiplication of \<open>bin/execute.c\<close>: LO is exact; HI is the true high word less the carry that the code drops when it shifts the
  two cross products separately, and less 65536 for each cross product that reaches 2147483648, which the code shifts as a negative \<open>int\<close>.\<close>

theorem mult_unsigned_exact:
  "let h = uint a div 65536; l = uint a mod 65536; k = uint b div 65536; r = uint b mod 65536;
       carry = (h * r mod 65536 + k * l mod 65536 + l * r div 65536) div 65536;
       signs = (if 2147483648 \<le> h * r then 65536 else 0) + (if 2147483648 \<le> k * l then 65536 else 0)
   in uint (snd (mult_unsigned a b)) = uint a * uint b mod 2 ^ 32
    \<and> uint (fst (mult_unsigned a b)) = (uint a * uint b div 2 ^ 32 - carry - signs) mod 2 ^ 32"
proof -
  let ?h = "uint a div 65536" and ?l = "uint a mod 65536" and ?k = "uint b div 65536" and ?r = "uint b mod 65536"
  note bd = half_product [OF half_ranges(1,2) [of a] half_ranges(3,4) [of b]] half_product [OF half_ranges(1,2) [of b] half_ranges(3,4) [of a]]
  have "0 \<le> ?l * ?r" by (rule mult_nonneg_nonneg) (rule half_ranges)+
  then have p: "uint a * uint b div 2 ^ 32 = ?h * ?k + ?h * ?r div 65536 + ?k * ?l div 65536
      + (?h * ?r mod 65536 + ?k * ?l mod 65536 + ?l * ?r div 65536) div 65536"
    by (rule high_product [of ?l ?r ?h ?k, unfolded div_mult_mod_eq])
  have s1: "signed_drop_bit 16 (high16 a * low16 b) = (word_of_int (?h * ?r div 65536 - (if 2147483648 \<le> ?h * ?r then 65536 else 0)) :: u32)"
    using sar16_product [of "high16 a" "low16 b"] bd unfolding uint_high16 uint_low16 by blast
  have s2: "signed_drop_bit 16 (high16 b * low16 a) = (word_of_int (?k * ?l div 65536 - (if 2147483648 \<le> ?k * ?l then 65536 else 0)) :: u32)"
    using sar16_product [of "high16 b" "low16 a"] bd unfolding uint_high16 uint_low16 by blast
  have s0: "high16 a * high16 b = word_of_int (?h * ?k)"
    by (metis uint_high16 word_of_int_uint wi_hom_mult)
  have "mult_HI a b = word_of_int (?h * ?k + (?h * ?r div 65536 - (if 2147483648 \<le> ?h * ?r then 65536 else 0))
      + (?k * ?l div 65536 - (if 2147483648 \<le> ?k * ?l then 65536 else 0)))"
    unfolding mult_HI_def s0 s1 s2 by (simp only: wi_hom_add)
  then have "uint (mult_HI a b) = (?h * ?k + (?h * ?r div 65536 - (if 2147483648 \<le> ?h * ?r then 65536 else 0))
      + (?k * ?l div 65536 - (if 2147483648 \<le> ?k * ?l then 65536 else 0))) mod 2 ^ 32"
    by (simp only: uint_u32)
  moreover have "uint (a * b) = uint a * uint b mod 2 ^ 32" by (simp add: uint_word_ariths(3))
  ultimately show ?thesis unfolding Let_def mult_unsigned_def fst_conv snd_conv p rearrange by blast
qed

text \<open>\<open>sw r1, 0(r1)\<close> at the first address of the memory.\<close>

definition sample_store :: interp where
  "sample_store = (set_Reg 1 0x10000010 sample_interp)\<lparr>pc := 0x10000000, npc := 0x10000004,
     mem := (\<lambda>a. if a = 0x10000002 then 0x21 else if a = 0x10000003 then 0xac else 0)\<rparr>"

lemma sample_store_runs: "case interp_run Inr 1 sample_store of Inl _ \<Rightarrow> False | Inr s' \<Rightarrow> mem s' 0x10000013 = 0x10"
  by code_simp

theorem interp_run_confined_witness:
  "\<exists>s'. interp_run Inr 1 sample_store = Inr s' \<and> mem s' 0x10000013 = 0x10 \<and> length (Reg s') = 32 \<and> mem s' 0x0fffffff = 0"
proof -
  obtain s' where r: "interp_run Inr 1 sample_store = Inr s'" and m: "mem s' 0x10000013 = 0x10"
    using sample_store_runs by (cases "interp_run Inr 1 sample_store") simp_all
  have "confined sample_store s'" by (rule interp_run_confined [OF _ r]) simp
  moreover have "length (Reg sample_store) = 32" "mem sample_store 0x0fffffff = 0" "\<not> in_mem 0x0fffffff 1"
    by (simp_all add: sample_store_def sample_interp_def set_Reg_def in_mem_def memoffset_def)
  ultimately show ?thesis using r m by (simp add: confined_def)
qed

end
