(* ===== verification/Disasm.thy ===== *)
theory Disasm
  imports MipsInterp
begin

text \<open>
  The two routines that print an instruction: \<open>dump_ascii\<close> of the disassembler (bin/d.c, with the tables of bin/opstrings.c) and
  the trace of the simulator (machine/mipssim.cc with \<open>opStrings\<close> of mipssim.h).  What \<open>printf\<close> writes is the value of a
  function.  The theorem compares the two texts.
\<close>

unbundle bit_operations_syntax

section \<open>printf\<close>

definition hex_digit :: "nat \<Rightarrow> char" where "hex_digit n = ''0123456789abcdef'' ! n"

text \<open>\<open>%08x\<close>, \<open>%x\<close> and \<open>%d\<close>.\<close>

definition hex8 :: "u32 \<Rightarrow> string" where
  "hex8 w = map (\<lambda>k. hex_digit (unat (take_bit 4 (drop_bit (4 * k) w)))) [7, 6, 5, 4, 3, 2, 1, 0]"

definition hex :: "u32 \<Rightarrow> string" where
  "hex w = (let s = dropWhile (\<lambda>c. c = CHR ''0'') (hex8 w) in if s = [] then ''0'' else s)"

fun dec_nat :: "nat \<Rightarrow> string" where
  "dec_nat n = (if n < 10 then [hex_digit n] else dec_nat (n div 10) @ [hex_digit (n mod 10)])"

declare dec_nat.simps [simp del]

definition dec :: "int \<Rightarrow> string" where
  "dec n = (if n < 0 then ''-'' @ dec_nat (nat (- n)) else dec_nat (nat n))"

text \<open>A format whose only conversion is \<open>%d\<close>.\<close>

function print_d :: "string \<Rightarrow> int list \<Rightarrow> string" where
  "print_d [] xs = []"
| "print_d (c # cs) xs =
     (if c = CHR ''%'' \<and> xs \<noteq> [] then dec (hd xs) @ print_d (tl cs) (tl xs) else c # print_d cs xs)"
  by pat_completeness auto

termination by (relation "measure (\<lambda>(cs, _). length cs)") auto

section \<open>The disassembler\<close>

definition tab :: string where "tab = [CHR 0x09]"

definition normalops :: "string list" where
  "normalops = [''special'', ''bcond'', ''j'', ''jal'', ''beq'', ''bne'', ''blez'', ''bgtz'', ''addi'', ''addiu'', ''slti'', ''sltiu'',
    ''andi'', ''ori'', ''xori'', ''lui'', ''cop0'', ''cop1'', ''cop2'', ''cop3'', ''024'', ''025'', ''026'', ''027'', ''030'',
    ''031'', ''032'', ''033'', ''034'', ''035'', ''036'', ''037'', ''lb'', ''lh'', ''lwl'', ''lw'', ''lbu'', ''lhu'', ''lwr'',
    ''047'', ''sb'', ''sh'', ''swl'', ''sw'', ''054'', ''055'', ''swr'', ''057'', ''lwc0'', ''lwc1'', ''lwc2'', ''lwc3'',
    ''064'', ''065'', ''066'', ''067'', ''swc0'', ''swc1'', ''swc2'', ''swc3'', ''074'', ''075'', ''076'', ''077'']"

definition specialops :: "string list" where
  "specialops = [''sll'', ''001'', ''srl'', ''sra'', ''sllv'', ''005'', ''srlv'', ''srav'', ''jr'', ''jalr'', ''012'', ''013'',
    ''syscall'', ''break'', ''016'', ''017'', ''mfhi'', ''mthi'', ''mflo'', ''mtlo'', ''024'', ''025'', ''026'', ''027'',
    ''mult'', ''multu'', ''div'', ''divu'', ''034'', ''035'', ''036'', ''037'', ''add'', ''addu'', ''sub'', ''subu'', ''and'',
    ''or'', ''xor'', ''nor'', ''050'', ''051'', ''slt'', ''sltu'', ''054'', ''055'', ''056'', ''057'', ''060'', ''061'',
    ''062'', ''063'', ''064'', ''065'', ''066'', ''067'', ''070'', ''071'', ''072'', ''073'', ''074'', ''075'', ''076'',
    ''077'']"

definition regstrings :: "string list" where
  "regstrings = [''0'', ''r1'', ''r2'', ''r3'', ''r4'', ''r5'', ''r6'', ''r7'', ''r8'', ''r9'', ''r10'', ''r11'', ''r12'', ''r13'',
    ''r14'', ''r15'', ''r16'', ''r17'', ''r18'', ''r19'', ''r20'', ''r21'', ''r22'', ''r23'', ''r24'', ''r25'', ''r26'',
    ''r27'', ''gp'', ''sp'', ''r30'', ''r31'']"

definition R :: "nat \<Rightarrow> string" where "R i = regstrings ! i"

text \<open>The macros for jumps and branches.\<close>

definition off26 :: "u32 \<Rightarrow> u32" where "off26 i = push_bit 2 (i AND 0x3ffffff)"
definition top4 :: "u32 \<Rightarrow> u32" where "top4 i = i AND 0xf0000000"
definition off16 :: "u32 \<Rightarrow> u32" where "off16 i = push_bit 2 (immed i)"

text \<open>The operands, by the \<open>switch\<close> on the operation.\<close>

definition dis_special :: "I_special \<Rightarrow> u32 \<Rightarrow> string" where
  "dis_special f i =
     (if f \<in> {I_SLL, I_SRL, I_SRA} then R (i_rd i) @ '','' @ R (i_rt i) @ '',0x'' @ hex (of_nat (shamt i))
      else if f \<in> {I_SLLV, I_SRLV, I_SRAV} then R (i_rd i) @ '','' @ R (i_rt i) @ '','' @ R (i_rs i)
      else if f \<in> {I_JR, I_JALR, I_MFLO, I_MTLO} then R (i_rs i)
      else if f \<in> {I_SYSCALL, I_BREAK} then []
      else if f \<in> {I_MFHI, I_MTHI} then R (i_rd i)
      else if f \<in> {I_MULT, I_MULTU, I_DIV, I_DIVU} then R (i_rs i) @ '','' @ R (i_rt i)
      else R (i_rd i) @ '','' @ R (i_rs i) @ '','' @ R (i_rt i))"

definition dis_op :: "I_op \<Rightarrow> u32 \<Rightarrow> u32 \<Rightarrow> string" where
  "dis_op oc i pc0 =
     (if oc \<in> {I_J, I_JAL} then hex8 (top4 pc0 OR off26 i)
      else if oc \<in> {I_BEQ, I_BNE} then R (i_rt i) @ '','' @ R (i_rs i) @ '','' @ hex8 (off16 i + pc0 + 4)
      else if oc \<in> {I_ADDI, I_ADDIU, I_SLTI, I_SLTIU, I_ANDI, I_ORI, I_XORI}
      then R (i_rt i) @ '','' @ R (i_rs i) @ '',0x'' @ hex (immed i)
      else if oc = I_LUI then R (i_rt i) @ '',0x'' @ hex (immed i)
      else if oc \<in> {I_SPECIAL, I_BCOND, I_BLEZ, I_BGTZ, I_COP0, I_COP1, I_COP2, I_COP3} then []
      else R (i_rt i) @ '',0x'' @ hex (immed i) @ ''('' @ R (i_rs i) @ '')'')"

definition bcond_name :: "nat \<Rightarrow> string" where
  "bcond_name n = (case map_of I_bconds n of None \<Rightarrow> ''BCOND'' | Some g \<Rightarrow>
     (case g of I_BLTZ \<Rightarrow> ''bltz'' | I_BGEZ \<Rightarrow> ''bgez'' | I_BLTZAL \<Rightarrow> ''bltzal'' | I_BGEZAL \<Rightarrow> ''bgezal''))"

definition dump_ascii :: "bool \<Rightarrow> u32 \<Rightarrow> u32 \<Rightarrow> string" where
  "dump_ascii longdis i pc0 =
     (if longdis then hex8 pc0 @ '': '' @ hex8 i @ ''  '' else []) @ tab @
     (let opcode = unat (drop_bit 26 i) in
      if i = 0 then ''nop''
      else if map_of I_ops opcode = Some I_SPECIAL then
        (let opcode = unat (i AND 0x3f) in specialops ! opcode @ tab @
          (case map_of I_specials opcode of None \<Rightarrow> [] | Some f \<Rightarrow> dis_special f i))
      else if map_of I_ops opcode = Some I_BCOND then
        bcond_name (i_rt i) @ tab @ R (i_rs i) @ '','' @ hex8 (off16 i + pc0 + 4)
      else normalops ! opcode @ tab @
        (case map_of I_ops opcode of None \<Rightarrow> [] | Some oc \<Rightarrow> dis_op oc i pc0))"

section \<open>The trace of the simulator\<close>

datatype RegType = NONE | RS | RT | RD | EXTRA

fun TypeToReg :: "RegType \<Rightarrow> Instruction \<Rightarrow> int" where
  "TypeToReg RS x = int (rs x)"
| "TypeToReg RT x = int (rt x)"
| "TypeToReg RD x = int (rd x)"
| "TypeToReg EXTRA x = sint (extra x)"
| "TypeToReg NONE x = -1"

text \<open>The numbers 15, 30 and 33 of the table are no operation; 100 and 101 are behind its end.\<close>

fun opStrings :: "OpCode \<Rightarrow> string \<times> RegType list" where
  "opStrings OP_ADD = (''ADD r%d,r%d,r%d'', [RD, RS, RT])"
| "opStrings OP_ADDI = (''ADDI r%d,r%d,%d'', [RT, RS, EXTRA])"
| "opStrings OP_ADDIU = (''ADDIU r%d,r%d,%d'', [RT, RS, EXTRA])"
| "opStrings OP_ADDU = (''ADDU r%d,r%d,r%d'', [RD, RS, RT])"
| "opStrings OP_AND = (''AND r%d,r%d,r%d'', [RD, RS, RT])"
| "opStrings OP_ANDI = (''ANDI r%d,r%d,%d'', [RT, RS, EXTRA])"
| "opStrings OP_BEQ = (''BEQ r%d,r%d,%d'', [RS, RT, EXTRA])"
| "opStrings OP_BGEZ = (''BGEZ r%d,%d'', [RS, EXTRA, NONE])"
| "opStrings OP_BGEZAL = (''BGEZAL r%d,%d'', [RS, EXTRA, NONE])"
| "opStrings OP_BGTZ = (''BGTZ r%d,%d'', [RS, EXTRA, NONE])"
| "opStrings OP_BLEZ = (''BLEZ r%d,%d'', [RS, EXTRA, NONE])"
| "opStrings OP_BLTZ = (''BLTZ r%d,%d'', [RS, EXTRA, NONE])"
| "opStrings OP_BLTZAL = (''BLTZAL r%d,%d'', [RS, EXTRA, NONE])"
| "opStrings OP_BNE = (''BNE r%d,r%d,%d'', [RS, RT, EXTRA])"
| "opStrings OP_DIV = (''DIV r%d,r%d'', [RS, RT, NONE])"
| "opStrings OP_DIVU = (''DIVU r%d,r%d'', [RS, RT, NONE])"
| "opStrings OP_J = (''J %d'', [EXTRA, NONE, NONE])"
| "opStrings OP_JAL = (''JAL %d'', [EXTRA, NONE, NONE])"
| "opStrings OP_JALR = (''JALR r%d,r%d'', [RD, RS, NONE])"
| "opStrings OP_JR = (''JR r%d,r%d'', [RD, RS, NONE])"
| "opStrings OP_LB = (''LB r%d,%d(r%d)'', [RT, EXTRA, RS])"
| "opStrings OP_LBU = (''LBU r%d,%d(r%d)'', [RT, EXTRA, RS])"
| "opStrings OP_LH = (''LH r%d,%d(r%d)'', [RT, EXTRA, RS])"
| "opStrings OP_LHU = (''LHU r%d,%d(r%d)'', [RT, EXTRA, RS])"
| "opStrings OP_LUI = (''LUI r%d,%d'', [RT, EXTRA, NONE])"
| "opStrings OP_LW = (''LW r%d,%d(r%d)'', [RT, EXTRA, RS])"
| "opStrings OP_LWL = (''LWL r%d,%d(r%d)'', [RT, EXTRA, RS])"
| "opStrings OP_LWR = (''LWR r%d,%d(r%d)'', [RT, EXTRA, RS])"
| "opStrings OP_MFHI = (''MFHI r%d'', [RD, NONE, NONE])"
| "opStrings OP_MFLO = (''MFLO r%d'', [RD, NONE, NONE])"
| "opStrings OP_MTHI = (''MTHI r%d'', [RS, NONE, NONE])"
| "opStrings OP_MTLO = (''MTLO r%d'', [RS, NONE, NONE])"
| "opStrings OP_MULT = (''MULT r%d,r%d'', [RS, RT, NONE])"
| "opStrings OP_MULTU = (''MULTU r%d,r%d'', [RS, RT, NONE])"
| "opStrings OP_NOR = (''NOR r%d,r%d,r%d'', [RD, RS, RT])"
| "opStrings OP_OR = (''OR r%d,r%d,r%d'', [RD, RS, RT])"
| "opStrings OP_ORI = (''ORI r%d,r%d,%d'', [RT, RS, EXTRA])"
| "opStrings OP_RFE = (''RFE'', [NONE, NONE, NONE])"
| "opStrings OP_SB = (''SB r%d,%d(r%d)'', [RT, EXTRA, RS])"
| "opStrings OP_SH = (''SH r%d,%d(r%d)'', [RT, EXTRA, RS])"
| "opStrings OP_SLL = (''SLL r%d,r%d,%d'', [RD, RT, EXTRA])"
| "opStrings OP_SLLV = (''SLLV r%d,r%d,r%d'', [RD, RT, RS])"
| "opStrings OP_SLT = (''SLT r%d,r%d,r%d'', [RD, RS, RT])"
| "opStrings OP_SLTI = (''SLTI r%d,r%d,%d'', [RT, RS, EXTRA])"
| "opStrings OP_SLTIU = (''SLTIU r%d,r%d,%d'', [RT, RS, EXTRA])"
| "opStrings OP_SLTU = (''SLTU r%d,r%d,r%d'', [RD, RS, RT])"
| "opStrings OP_SRA = (''SRA r%d,r%d,%d'', [RD, RT, EXTRA])"
| "opStrings OP_SRAV = (''SRAV r%d,r%d,r%d'', [RD, RT, RS])"
| "opStrings OP_SRL = (''SRL r%d,r%d,%d'', [RD, RT, EXTRA])"
| "opStrings OP_SRLV = (''SRLV r%d,r%d,r%d'', [RD, RT, RS])"
| "opStrings OP_SUB = (''SUB r%d,r%d,r%d'', [RD, RS, RT])"
| "opStrings OP_SUBU = (''SUBU r%d,r%d,r%d'', [RD, RS, RT])"
| "opStrings OP_SW = (''SW r%d,%d(r%d)'', [RT, EXTRA, RS])"
| "opStrings OP_SWL = (''SWL r%d,%d(r%d)'', [RT, EXTRA, RS])"
| "opStrings OP_SWR = (''SWR r%d,%d(r%d)'', [RT, EXTRA, RS])"
| "opStrings OP_XOR = (''XOR r%d,r%d,r%d'', [RD, RS, RT])"
| "opStrings OP_XORI = (''XORI r%d,r%d,%d'', [RT, RS, EXTRA])"
| "opStrings OP_SYSCALL = (''SYSCALL'', [NONE, NONE, NONE])"
| "opStrings OP_UNIMP = (''Unimplemented'', [NONE, NONE, NONE])"
| "opStrings OP_RES = (''Reserved'', [NONE, NONE, NONE])"

definition trace :: "u32 \<Rightarrow> Instruction \<Rightarrow> string res" where
  "trace PC x =
     (if opCode x = SPECIAL \<or> opCode x = BCOND then Inl AssertFail
      else let str = opStrings (opCode x) in
        Inr (''At PC = 0x'' @ hex PC @ '': '' @ print_d (fst str) (map (\<lambda>a. TypeToReg a x) (snd str)) @ [CHR 0x0A]))"

section \<open>The names of the operations\<close>

text \<open>The first word of what stands behind the address; the disassembler writes small letters.\<close>

definition first_word :: "string \<Rightarrow> string" where
  "first_word = takeWhile (\<lambda>c. c \<noteq> CHR '' '' \<and> c \<noteq> CHR 0x09 \<and> c \<noteq> CHR 0x0A)"

definition capital :: "char \<Rightarrow> char" where
  "capital c = (case map_of (zip ''abcdefghijklmnopqrstuvwxyz'' ''ABCDEFGHIJKLMNOPQRSTUVWXYZ'') c of None \<Rightarrow> c | Some d \<Rightarrow> d)"

definition same_name :: "string \<Rightarrow> OpCode \<Rightarrow> bool" where
  "same_name s oc \<longleftrightarrow> map capital s = first_word (fst (opStrings oc)) \<and> first_word s = s
     \<and> CHR ''%'' \<notin> set (first_word (fst (opStrings oc)))"

lemma special_names: "list_all (\<lambda>(n, f). f = I_BREAK \<or> same_name (specialops ! n) (mips_special f)) I_specials"
  by code_simp

lemma op_names:
  "list_all (\<lambda>(n, oc). oc \<in> {I_SPECIAL, I_BCOND, I_COP0, I_COP1, I_COP2, I_COP3, I_LWC0, I_LWC1, I_LWC2, I_LWC3, I_SWC0, I_SWC1, I_SWC2, I_SWC3}
     \<or> same_name (normalops ! n) (mips_op oc)) I_ops"
  by code_simp

lemma bcond_names:
  "list_all (\<lambda>(n, g). same_name (bcond_name n) (case g of I_BLTZ \<Rightarrow> OP_BLTZ | I_BGEZ \<Rightarrow> OP_BGEZ | I_BLTZAL \<Rightarrow> OP_BLTZAL
     | I_BGEZAL \<Rightarrow> OP_BGEZAL)) I_bconds"
  by code_simp

lemma first_word_tab: "first_word s = s \<Longrightarrow> first_word (s @ tab @ x) = s"
  by (simp add: first_word_def tab_def takeWhile_eq_all_conv takeWhile_append2)

lemma first_word_printed: "CHR ''%'' \<notin> set (first_word s) \<Longrightarrow> first_word (print_d s xs @ [CHR 0x0A]) = first_word s"
  by (induction s xs rule: print_d.induct) (auto simp: first_word_def split: if_splits)

lemma trace_name:
  assumes "same_name s (opCode x)" "opCode x \<noteq> SPECIAL" "opCode x \<noteq> BCOND"
  shows "\<exists>line. trace PC x = Inr (''At PC = 0x'' @ hex PC @ '': '' @ line) \<and> map capital (first_word (s @ tab @ y)) = first_word line"
  using assms first_word_printed [of "fst (opStrings (opCode x))"] first_word_tab [of s y]
  by (auto simp: trace_def same_name_def Let_def)

lemma mips_op_real: "oc \<noteq> I_SPECIAL \<Longrightarrow> oc \<noteq> I_BCOND \<Longrightarrow> mips_op oc \<noteq> SPECIAL \<and> mips_op oc \<noteq> BCOND"
  by (cases oc) (simp_all add: mips_op_def)

lemma mips_special_real: "mips_special f \<noteq> SPECIAL \<and> mips_special f \<noteq> BCOND"
  by (cases f) (simp_all add: mips_special_def)

lemma opcode_field: "unat (drop_bit 26 i) = unat (signed_drop_bit 26 i AND 0x3f)" for i :: u32
proof -
  have "drop_bit 26 i = drop_bit 26 i AND mask 6" by (rule bit_word_eqI) (auto simp: bit_simps dest: bit_imp_le_length)
  then show ?thesis using shifted_field [of 26 6 i] by (simp add: mask_numerals)
qed

section \<open>Properties\<close>

definition coprocessor :: "I_op set" where
  "coprocessor = {I_COP0, I_COP1, I_COP2, I_COP3, I_LWC0, I_LWC1, I_LWC2, I_LWC3, I_SWC0, I_SWC1, I_SWC2, I_SWC3}"

text \<open>C39: the disassembler and the trace of the simulator name the same operation (in small letters and in capitals), for every instruction
  word but \<open>nop\<close>, \<open>break\<close>, the coprocessor instructions, and the words that are no instruction.\<close>

theorem disassembler_names:
  assumes nop: "i \<noteq> 0" and op: "map_of I_ops (unat (drop_bit 26 i)) = Some oc" "oc \<notin> coprocessor"
    and special: "oc = I_SPECIAL \<Longrightarrow> map_of I_specials (unat (i AND 0x3f)) = Some f \<and> f \<noteq> I_BREAK"
    and bcond: "oc = I_BCOND \<Longrightarrow> map_of I_bconds (i_rt i) = Some g"
  shows "\<exists>line. trace PC (Decode i) = Inr (''At PC = 0x'' @ hex PC @ '': '' @ line)
    \<and> map capital (first_word (tl (dump_ascii False i pc0))) = first_word line"
proof -
  note D = Decode_op [OF op(1) [unfolded opcode_field]]
  consider "oc = I_SPECIAL" | "oc = I_BCOND" | "oc \<noteq> I_SPECIAL" "oc \<noteq> I_BCOND" by blast
  then show ?thesis
  proof cases
    case 1
    then have f: "map_of I_specials (unat (i AND 0x3f)) = Some f" "f \<noteq> I_BREAK" using special by simp_all
    then have "same_name (specialops ! unat (i AND 0x3f)) (opCode (Decode i))"
      using map_of_table [OF f(1) special_names] D(8) [OF 1 f(1)] by simp
    from trace_name [OF this] show ?thesis
      using nop op(1) 1 f D(8) [OF 1 f(1)] mips_special_real [of f] by (simp add: dump_ascii_def tab_def Let_def)
  next
    case 2
    note g = bcond [OF 2]
    have "same_name (bcond_name (i_rt i)) (opCode (Decode i))"
      using map_of_table [OF g bcond_names] D(9) [OF 2 g] by simp
    from trace_name [OF this] show ?thesis
      using nop op(1) 2 D(9) [OF 2 g] by (cases g) (simp_all add: dump_ascii_def tab_def Let_def)
  next
    case 3
    have "same_name (normalops ! unat (drop_bit 26 i)) (opCode (Decode i))"
      using map_of_table [OF op(1) op_names] D(4) [OF 3] 3 op(2) by (auto simp: coprocessor_def)
    from trace_name [OF this] show ?thesis
      using nop op(1) 3 D(4) [OF 3] mips_op_real [OF 3] by (simp add: dump_ascii_def tab_def Let_def)
  qed
qed

text \<open>\<open>addiu r2,r3,-4\<close>.\<close>

theorem disassembler_names_witness:
  "\<exists>line. trace 0 (Decode 0x2462fffc) = Inr (''At PC = 0x'' @ hex 0 @ '': '' @ line)
    \<and> map capital (first_word (tl (dump_ascii False 0x2462fffc 0))) = first_word line"
  by (rule disassembler_names [of _ I_ADDIU]) (simp_all add: I_ops_def coprocessor_def drop_bit_eq_div)

text \<open>\<open>mflo r5\<close> moves to \<open>rd\<close>; the disassembler prints \<open>rs\<close>, register 0.  The trace has it right.\<close>

theorem disassembler_wrong_register:
  "dump_ascii False 0x2812 0 = tab @ ''mflo'' @ tab @ ''0''"
  "trace 0 (Decode 0x2812) = Inr (''At PC = 0x0: MFLO r5'' @ [CHR 0x0A])"
  by code_simp+

end
