(* ===== verification/NachosList.thy ===== *)
theory NachosList
  imports Nachos_Prelude "HOL-Library.Multiset"
begin

text \<open>
  threads/list.cc and its template copy threads/mylist.h: singly linked lists of items with a
  sort key.  The elements live in an explicit store, because \<open>first\<close>, \<open>last\<close> and the \<open>next\<close>
  members alias each other; \<open>list_rep\<close> reads a list of (key, item) pairs off the store, and each
  operation is proved to implement the operation on such lists that the scheduler, the interrupt
  queue and the synchronization objects rely on.  The two sources differ in the direction of the
  comparison in \<open>SortedInsert\<close> only, so that comparison is a parameter.
\<close>

section \<open>State\<close>

record 'a ListElement =
  next_elem :: "nat option"
  key :: int
  item :: 'a

text \<open>The store of elements; \<open>new\<close> hands out addresses that were never used.\<close>

record 'a element_store =
  cells :: "nat \<rightharpoonup> 'a ListElement"
  fresh :: nat

record List =
  first_elem :: "nat option"
  last_elem :: "nat option"

definition new_List :: List where
  "new_List = \<lparr>first_elem = None, last_elem = None\<rparr>"

definition new_ListElement :: "'a \<Rightarrow> int \<Rightarrow> 'a element_store \<Rightarrow> nat \<times> 'a element_store" where
  "new_ListElement x sortKey h =
     (fresh h, h\<lparr>cells := (cells h)(fresh h \<mapsto> \<lparr>next_elem = None, key = sortKey, item = x\<rparr>), fresh := Suc (fresh h)\<rparr>)"

definition set_next :: "nat \<Rightarrow> nat option \<Rightarrow> 'a element_store \<Rightarrow> 'a element_store res" where
  "set_next p q h = (case cells h p of None \<Rightarrow> Inl BadAccess
     | Some e \<Rightarrow> Inr (h\<lparr>cells := (cells h)(p \<mapsto> e\<lparr>next_elem := q\<rparr>)\<rparr>))"

section \<open>Operations\<close>

definition IsEmpty :: "List \<Rightarrow> bool" where "IsEmpty l \<longleftrightarrow> first_elem l = None"

text \<open>\<open>last->next = element; last = element;\<close>\<close>

definition link_last :: "nat \<Rightarrow> List \<times> 'a element_store \<Rightarrow> (List \<times> 'a element_store) res" where
  "link_last a s = (case s of (l, h) \<Rightarrow> (case last_elem l of None \<Rightarrow> Inl BadAccess
     | Some z \<Rightarrow> bindR (set_next z (Some a) h) (\<lambda>h1. Inr (l\<lparr>last_elem := Some a\<rparr>, h1))))"

definition Append :: "'a \<Rightarrow> List \<times> 'a element_store \<Rightarrow> (List \<times> 'a element_store) res" where
  "Append x s = (case s of (l, h) \<Rightarrow>
     let (a, h1) = new_ListElement x 0 h in
     if IsEmpty l then Inr (\<lparr>first_elem = Some a, last_elem = Some a\<rparr>, h1)
     else link_last a (l, h1))"

definition Prepend :: "'a \<Rightarrow> List \<times> 'a element_store \<Rightarrow> (List \<times> 'a element_store) res" where
  "Prepend x s = (case s of (l, h) \<Rightarrow>
     let (a, h1) = new_ListElement x 0 h in
     if IsEmpty l then Inr (\<lparr>first_elem = Some a, last_elem = Some a\<rparr>, h1)
     else bindR (set_next a (first_elem l) h1) (\<lambda>h2. Inr (l\<lparr>first_elem := Some a\<rparr>, h2)))"

text \<open>The loop of \<open>SortedInsert\<close>: from \<open>ptr\<close>, the element after which the new one is put, and
  whether the end was reached.  \<open>before\<close> is \<open><\<close> in list.cc and \<open>>\<close> in mylist.h.  On a cyclic chain
  the loop does not return, which is the value \<open>None\<close>.\<close>

partial_function (option) find_place :: "(int \<Rightarrow> int \<Rightarrow> bool) \<Rightarrow> int \<Rightarrow> 'a element_store \<Rightarrow> nat \<Rightarrow> (nat \<times> bool) res option" where
  "find_place before k h p = (case cells h p of None \<Rightarrow> Some (Inl BadAccess)
     | Some e \<Rightarrow> (case next_elem e of None \<Rightarrow> Some (Inr (p, True))
        | Some q \<Rightarrow> (case cells h q of None \<Rightarrow> Some (Inl BadAccess)
           | Some f \<Rightarrow> if before k (key f) then Some (Inr (p, False)) else find_place before k h q)))"

definition sorted_insert :: "(int \<Rightarrow> int \<Rightarrow> bool) \<Rightarrow> 'a \<Rightarrow> int \<Rightarrow> List \<times> 'a element_store \<Rightarrow> (List \<times> 'a element_store) res option" where
  "sorted_insert before x sortKey s = (case s of (l, h) \<Rightarrow>
     let (a, h1) = new_ListElement x sortKey h in
     case first_elem l of
       None \<Rightarrow> Some (Inr (\<lparr>first_elem = Some a, last_elem = Some a\<rparr>, h1))
     | Some f \<Rightarrow> (case cells h1 f of None \<Rightarrow> Some (Inl BadAccess)
        | Some e \<Rightarrow>
          if before sortKey (key e)
          then Some (bindR (set_next a (Some f) h1) (\<lambda>h2. Inr (l\<lparr>first_elem := Some a\<rparr>, h2)))
          else map_option (\<lambda>r. bindR r (\<lambda>(p, at_end).
                 if at_end then link_last a (l, h1)
                 else (case cells h1 p of None \<Rightarrow> Inl BadAccess
                   | Some g \<Rightarrow> bindR (set_next a (next_elem g) h1) (\<lambda>h2.
                               bindR (set_next p (Some a) h2) (\<lambda>h3. Inr (l, h3))))))
               (find_place before sortKey h1 f)))"

definition SortedInsert :: "'a \<Rightarrow> int \<Rightarrow> List \<times> 'a element_store \<Rightarrow> (List \<times> 'a element_store) res option" where
  "SortedInsert = sorted_insert (<)"

definition MyList_SortedInsert :: "'a \<Rightarrow> int \<Rightarrow> List \<times> 'a element_store \<Rightarrow> (List \<times> 'a element_store) res option" where
  "MyList_SortedInsert = sorted_insert (>)"

text \<open>NULL on an empty list; \<open>delete\<close> takes the element out of the store.\<close>

definition SortedRemove :: "List \<times> 'a element_store \<Rightarrow> (('a \<times> int) option \<times> List \<times> 'a element_store) res" where
  "SortedRemove s = (case s of (l, h) \<Rightarrow> (case first_elem l of None \<Rightarrow> Inr (None, l, h)
     | Some f \<Rightarrow> (case cells h f of None \<Rightarrow> Inl BadAccess
        | Some e \<Rightarrow>
          let l1 = (if first_elem l = last_elem l then \<lparr>first_elem = None, last_elem = None\<rparr>
                    else l\<lparr>first_elem := next_elem e\<rparr>)
          in Inr (Some (item e, key e), l1, h\<lparr>cells := (cells h)(f := None)\<rparr>))))"

definition Remove :: "List \<times> 'a element_store \<Rightarrow> ('a option \<times> List \<times> 'a element_store) res" where
  "Remove s = bindR (SortedRemove s) (\<lambda>(r, s1). Inr (map_option fst r, s1))"

text \<open>\<open>Mapcar\<close> calls the function on the items in the order of the list.\<close>

partial_function (option) mapcar_from :: "('a \<Rightarrow> 's \<Rightarrow> 's) \<Rightarrow> nat option \<Rightarrow> 'a element_store \<Rightarrow> 's \<Rightarrow> 's res option" where
  "mapcar_from func p h s = (case p of None \<Rightarrow> Some (Inr s)
     | Some q \<Rightarrow> (case cells h q of None \<Rightarrow> Some (Inl BadAccess)
        | Some e \<Rightarrow> mapcar_from func (next_elem e) h (func (item e) s)))"

definition Mapcar :: "('a \<Rightarrow> 's \<Rightarrow> 's) \<Rightarrow> List \<times> 'a element_store \<Rightarrow> 's \<Rightarrow> 's res option" where
  "Mapcar func s st = (case s of (l, h) \<Rightarrow> mapcar_from func (first_elem l) h st)"

text \<open>\<open>~List\<close>: \<open>while (Remove() != NULL);\<close> (an item NULL would also end the loop; items are never NULL here).\<close>

partial_function (option) delete_List :: "List \<times> 'a element_store \<Rightarrow> (List \<times> 'a element_store) res option" where
  "delete_List s = (case Remove s of Inl e \<Rightarrow> Some (Inl e)
     | Inr (None, s1) \<Rightarrow> Some (Inr s1)
     | Inr (Some x, s1) \<Rightarrow> delete_List s1)"

section \<open>The list an element store holds\<close>

fun chain :: "'a element_store \<Rightarrow> nat option \<Rightarrow> nat list \<Rightarrow> bool" where
  "chain h p [] \<longleftrightarrow> p = None"
| "chain h p (a # as) \<longleftrightarrow> p = Some a \<and> (case cells h a of None \<Rightarrow> False | Some e \<Rightarrow> chain h (next_elem e) as)"

definition entry_at :: "'a element_store \<Rightarrow> nat \<Rightarrow> int \<times> 'a" where
  "entry_at h a = (case cells h a of Some e \<Rightarrow> (key e, item e))"

definition rep_at :: "List \<times> 'a element_store \<Rightarrow> nat list \<Rightarrow> (int \<times> 'a) list \<Rightarrow> bool" where
  "rep_at s as xs \<longleftrightarrow> chain (snd s) (first_elem (fst s)) as \<and> distinct as
     \<and> last_elem (fst s) = (if as = [] then None else Some (last as))
     \<and> (\<forall>a \<in> set as. a < fresh (snd s)) \<and> xs = map (entry_at (snd s)) as"

definition list_rep :: "List \<times> 'a element_store \<Rightarrow> (int \<times> 'a) list \<Rightarrow> bool" where
  "list_rep s xs \<longleftrightarrow> (\<exists>as. rep_at s as xs)"

text \<open>Where \<open>SortedInsert\<close> puts a pair: before the first entry whose key comes strictly after.\<close>

definition insert_place :: "(int \<Rightarrow> int \<Rightarrow> bool) \<Rightarrow> int \<times> 'a \<Rightarrow> (int \<times> 'a) list \<Rightarrow> (int \<times> 'a) list" where
  "insert_place before kx xs =
     takeWhile (\<lambda>y. \<not> before (fst kx) (fst y)) xs @ kx # dropWhile (\<lambda>y. \<not> before (fst kx) (fst y)) xs"

lemma insert_place_simps [simp]:
  "insert_place before kx [] = [kx]"
  "insert_place before kx (y # ys) = (if before (fst kx) (fst y) then kx # y # ys else y # insert_place before kx ys)"
  by (simp_all add: insert_place_def)

lemma chain_frame: "(\<And>b. b \<in> set as \<Longrightarrow> cells h' b = cells h b) \<Longrightarrow> chain h' q as = chain h q as"
  by (induction as arbitrary: q) (auto split: option.splits)

lemma entry_frame: "cells h' b = cells h b \<Longrightarrow> entry_at h' b = entry_at h b"
  by (simp add: entry_at_def)

lemma chain_cells: "chain h q as \<Longrightarrow> a \<in> set as \<Longrightarrow> \<exists>e. cells h a = Some e"
  by (induction as arbitrary: q) (auto split: option.splits)

text \<open>Linking a new element after \<open>p\<close>.\<close>

lemma chain_insert:
  assumes "chain h q (us @ p # vs)" "distinct (us @ p # vs)" "a \<notin> set (us @ p # vs)" "cells h p = Some g"
    and "cells h' p = Some (g\<lparr>next_elem := Some a\<rparr>)" "cells h' a = Some ea" "next_elem ea = next_elem g"
    and "\<And>b. b \<noteq> p \<Longrightarrow> b \<noteq> a \<Longrightarrow> cells h' b = cells h b"
  shows "chain h' q (us @ p # a # vs)"
  using assms(1-3)
proof (induction us arbitrary: q)
  case Nil
  then have "chain h' (next_elem g) vs = chain h (next_elem g) vs"
    by (intro chain_frame assms(8)) auto
  with Nil show ?case using assms(4-7) by simp
next
  case (Cons b us)
  then have "cells h' b = cells h b" by (intro assms(8)) auto
  with Cons show ?case by (auto split: option.splits)
qed

lemma fresh_not_in: "rep_at (l, h) as xs \<Longrightarrow> fresh h \<notin> set as"
  by (auto simp: rep_at_def)

lemma rep_empty: "rep_at (l, h) as xs \<Longrightarrow> IsEmpty l \<longleftrightarrow> as = []"
  by (cases as) (auto simp: rep_at_def IsEmpty_def)

lemma rep_singleton: "rep_at (\<lparr>first_elem = Some (fresh h), last_elem = Some (fresh h)\<rparr>, snd (new_ListElement x k h)) [fresh h] [(k, x)]"
  by (simp add: rep_at_def new_ListElement_def entry_at_def)

lemma rep_insert_after:
  assumes r: "rep_at (l, h) (us @ p # vs) xs" and g: "cells h p = Some g"
    and h': "cells h' = (cells h)(p \<mapsto> g\<lparr>next_elem := Some (fresh h)\<rparr>, fresh h \<mapsto> \<lparr>next_elem = next_elem g, key = k, item = x\<rparr>)"
    and fr: "fresh h' = Suc (fresh h)"
    and l': "first_elem l' = first_elem l" "last_elem l' = Some (last (p # fresh h # vs))"
  shows "rep_at (l', h') (us @ p # fresh h # vs)
    (take (Suc (length us)) xs @ (k, x) # drop (Suc (length us)) xs)"
proof -
  have na: "fresh h \<notin> set (us @ p # vs)" using fresh_not_in [OF r] .
  have d: "distinct (us @ p # vs)" using r by (simp add: rep_at_def)
  have oth: "cells h' b = cells h b" if "b \<noteq> p" "b \<noteq> fresh h" for b using that by (simp add: h')
  have c: "chain h' (first_elem l) (us @ p # fresh h # vs)"
  proof (rule chain_insert [OF _ d na g])
    show "chain h (first_elem l) (us @ p # vs)" using r by (simp add: rep_at_def)
    show "cells h' p = Some (g\<lparr>next_elem := Some (fresh h)\<rparr>)" using na by (simp add: h')
    show "cells h' (fresh h) = Some \<lparr>next_elem = next_elem g, key = k, item = x\<rparr>" by (simp add: h')
  qed (use oth in auto)
  have ep: "entry_at h' p = entry_at h p" using na g by (simp add: entry_at_def h')
  have ea: "entry_at h' (fresh h) = (k, x)" by (simp add: entry_at_def h')
  have eo: "map (entry_at h') bs = map (entry_at h) bs" if "p \<notin> set bs" "fresh h \<notin> set bs" for bs
    using that by (auto intro!: entry_frame oth)
  have "map (entry_at h') (us @ p # fresh h # vs) = take (Suc (length us)) xs @ (k, x) # drop (Suc (length us)) xs"
    using r d na by (simp add: rep_at_def ep ea eo)
  then show ?thesis using r d na c l' fr by (auto simp: rep_at_def intro: less_SucI)
qed

lemma link_last_rep:
  assumes r: "rep_at (l, h) as xs" and ne: "as \<noteq> []"
  shows "\<exists>s'. link_last (fresh h) (l, snd (new_ListElement x k h)) = Inr s' \<and> rep_at s' (as @ [fresh h]) (xs @ [(k, x)])"
proof -
  obtain us z where as: "as = us @ [z]" using ne by (cases as rule: rev_cases) auto
  obtain g where g: "cells h z = Some g" using r as chain_cells [of h "first_elem l" as z] by (auto simp: rep_at_def)
  have nx: "next_elem g = None"
  proof -
    have "chain h q (us @ [z]) \<Longrightarrow> next_elem g = None" for q
      using g by (induction us arbitrary: q) (auto split: option.splits)
    with r as show ?thesis by (auto simp: rep_at_def)
  qed
  have z: "z \<noteq> fresh h" "last_elem l = Some z" using r as by (auto simp: rep_at_def)
  let ?h' = "h\<lparr>cells := (cells h)(fresh h \<mapsto> \<lparr>next_elem = None, key = k, item = x\<rparr>, z \<mapsto> g\<lparr>next_elem := Some (fresh h)\<rparr>),
     fresh := Suc (fresh h)\<rparr>"
  have "link_last (fresh h) (l, snd (new_ListElement x k h)) = Inr (l\<lparr>last_elem := Some (fresh h)\<rparr>, ?h')"
    using g z by (simp add: link_last_def new_ListElement_def set_next_def)
  moreover have "rep_at (l\<lparr>last_elem := Some (fresh h)\<rparr>, ?h') (us @ z # fresh h # []) (take (Suc (length us)) xs @ (k, x) # drop (Suc (length us)) xs)"
    using z nx by (intro rep_insert_after [OF _ g]) (use r as in \<open>auto simp: fun_upd_twist\<close>)
  moreover have "length xs = Suc (length us)" using r as by (simp add: rep_at_def)
  ultimately show ?thesis using as by simp
qed

lemma Append_rep:
  assumes "list_rep s xs"
  shows "\<exists>s'. Append x s = Inr s' \<and> list_rep s' (xs @ [(0, x)])"
proof -
  obtain l h as where s: "s = (l, h)" and r: "rep_at (l, h) as xs" using assms by (cases s) (auto simp: list_rep_def)
  show ?thesis
  proof (cases "as = []")
    case True
    then have "xs = []" using r by (simp add: rep_at_def)
    with True rep_empty [OF r] rep_singleton [of h x 0] s show ?thesis
      by (auto simp: Append_def new_ListElement_def list_rep_def)
  next
    case False
    with link_last_rep [OF r False, of x 0] rep_empty [OF r] s show ?thesis
      by (auto simp: Append_def new_ListElement_def list_rep_def)
  qed
qed

lemma rep_cons:
  assumes r: "rep_at (l, h) as xs" and ne: "as \<noteq> []"
  shows "\<exists>h'. set_next (fresh h) (first_elem l) (snd (new_ListElement x k h)) = Inr h'
    \<and> rep_at (l\<lparr>first_elem := Some (fresh h)\<rparr>, h') (fresh h # as) ((k, x) # xs)"
proof -
  let ?h' = "h\<lparr>fresh := Suc (fresh h), cells := (cells h)(fresh h \<mapsto> \<lparr>next_elem = first_elem l, key = k, item = x\<rparr>)\<rparr>"
  have na: "fresh h \<notin> set as" using fresh_not_in [OF r] .
  have c: "chain ?h' q as = chain h q as" for q using na by (intro chain_frame) auto
  have e: "map (entry_at ?h') as = map (entry_at h) as" using na by (auto intro!: entry_frame)
  have "rep_at (l\<lparr>first_elem := Some (fresh h)\<rparr>, ?h') (fresh h # as) ((k, x) # xs)"
    using r ne na c e by (auto simp: rep_at_def entry_at_def)
  then show ?thesis by (simp add: set_next_def new_ListElement_def)
qed

lemma Prepend_rep:
  assumes "list_rep s xs"
  shows "\<exists>s'. Prepend x s = Inr s' \<and> list_rep s' ((0, x) # xs)"
proof -
  obtain l h as where s: "s = (l, h)" and r: "rep_at (l, h) as xs" using assms by (cases s) (auto simp: list_rep_def)
  show ?thesis
  proof (cases "as = []")
    case True
    then have "xs = []" using r by (simp add: rep_at_def)
    with True rep_empty [OF r] rep_singleton [of h x 0] s show ?thesis
      by (auto simp: Prepend_def new_ListElement_def list_rep_def)
  next
    case False
    with rep_cons [OF r False, of x 0] rep_empty [OF r] s show ?thesis
      by (auto simp: Prepend_def new_ListElement_def list_rep_def)
  qed
qed


section \<open>SortedInsert and SortedRemove\<close>

lemma find_place_chain:
  assumes "chain h (Some p) (p # as)"
  shows "find_place before k h p =
    Some (Inr (last (p # takeWhile (\<lambda>a. \<not> before k (fst (entry_at h a))) as), \<forall>a \<in> set as. \<not> before k (fst (entry_at h a))))"
  using assms
proof (induction as arbitrary: p)
  case Nil
  then show ?case by (subst find_place.simps) (auto split: option.splits)
next
  case (Cons b as)
  then obtain e f where e: "cells h p = Some e" "next_elem e = Some b" "cells h b = Some f" "chain h (next_elem f) as"
    by (auto split: option.splits)
  then have kb: "fst (entry_at h b) = key f" by (simp add: entry_at_def)
  have "find_place before k h p = (if before k (key f) then Some (Inr (p, False)) else find_place before k h b)"
    using e by (subst find_place.simps) simp
  with Cons.IH [of b] e kb show ?case by auto
qed

lemma insert_after_rep:
  assumes r: "rep_at (l, h) (us @ p # v # vs) xs" and g: "cells h p = Some g"
  shows "\<exists>h2 h3. set_next (fresh h) (next_elem g) (snd (new_ListElement x k h)) = Inr h2
    \<and> set_next p (Some (fresh h)) h2 = Inr h3
    \<and> rep_at (l, h3) (us @ p # fresh h # v # vs) (take (Suc (length us)) xs @ (k, x) # drop (Suc (length us)) xs)"
proof -
  have p: "p \<noteq> fresh h" using r by (auto simp: rep_at_def)
  let ?h3 = "h\<lparr>fresh := Suc (fresh h), cells := (cells h)(p \<mapsto> g\<lparr>next_elem := Some (fresh h)\<rparr>,
      fresh h \<mapsto> \<lparr>next_elem = next_elem g, key = k, item = x\<rparr>)\<rparr>"
  have "rep_at (l, ?h3) (us @ p # fresh h # v # vs) (take (Suc (length us)) xs @ (k, x) # drop (Suc (length us)) xs)"
    by (rule rep_insert_after [OF r g]) (use r in \<open>auto simp: rep_at_def\<close>)
  then show ?thesis using p g by (simp add: set_next_def new_ListElement_def fun_upd_twist)
qed

lemma takeWhile_split: "takeWhile P as \<noteq> as \<Longrightarrow> \<exists>v vs. as = takeWhile P as @ v # vs \<and> \<not> P v"
  by (induction as) auto

lemma insert_place_skip:
  "\<forall>y \<in> set ys. \<not> before k (fst y) \<Longrightarrow> insert_place before (k, x) (ys @ zs) = ys @ insert_place before (k, x) zs"
  by (induction ys) auto

text \<open>The list that is not empty, after the new element has been made: its first element, and where the loop stops.\<close>

lemma sorted_insert_scan:
  fixes before :: "int \<Rightarrow> int \<Rightarrow> bool"
  assumes r: "rep_at (l, h) (f # bs) xs" and new: "new_ListElement x k h = (fresh h, h1)"
  defines "ts \<equiv> takeWhile (\<lambda>a. \<not> before k (fst (entry_at h a))) bs"
  obtains e where "first_elem l = Some f" "cells h1 f = Some e" "\<forall>a \<in> set (f # bs). cells h1 a = cells h a"
    "xs = (key e, item e) # map (entry_at h) bs"
    "find_place before k h1 f = Some (Inr (last (f # ts), \<forall>a \<in> set bs. \<not> before k (fst (entry_at h a))))"
proof -
  have na: "fresh h \<notin> set (f # bs)" by (rule fresh_not_in [OF r])
  have same: "cells h1 b = cells h b" if "b \<in> set (f # bs)" for b
    using new that na by (auto simp: new_ListElement_def)
  have f: "first_elem l = Some f" "chain h (Some f) (f # bs)" using r by (auto simp: rep_at_def)
  obtain e where e: "cells h1 f = Some e" using same chain_cells [OF f(2), of f] by auto
  have xs: "xs = (key e, item e) # map (entry_at h) bs" using r e same [of f] by (simp add: rep_at_def entry_at_def)
  have c1: "chain h1 (Some f) (f # bs)" using f same chain_frame [of "f # bs" h1 h "Some f"] by simp
  have en: "entry_at h1 a = entry_at h a" if "a \<in> set bs" for a using same [of a] that by (intro entry_frame) simp
  have "takeWhile (\<lambda>a. \<not> before k (fst (entry_at h1 a))) bs = ts"
    unfolding ts_def using en by (intro takeWhile_cong) auto
  then have "find_place before k h1 f = Some (Inr (last (f # ts), \<forall>a \<in> set bs. \<not> before k (fst (entry_at h a))))"
    using find_place_chain [OF c1, of before k] en by simp
  then show ?thesis using that f(1) e same xs by blast
qed

lemma sorted_insert_middle:
  fixes before :: "int \<Rightarrow> int \<Rightarrow> bool"
  assumes r: "rep_at (l, h) (f # bs) xs" and new: "new_ListElement x k h = (fresh h, h1)"
    and some: "\<not> (\<forall>a \<in> set bs. \<not> before k (fst (entry_at h a)))"
  defines "ts \<equiv> takeWhile (\<lambda>a. \<not> before k (fst (entry_at h a))) bs"
  obtains g h2 h3 where "cells h1 (last (f # ts)) = Some g" "set_next (fresh h) (next_elem g) h1 = Inr h2"
    "set_next (last (f # ts)) (Some (fresh h)) h2 = Inr h3"
    "list_rep (l, h3) (hd xs # insert_place before (k, x) (map (entry_at h) bs))"
proof -
  have "ts \<noteq> bs" unfolding ts_def using some by (metis takeWhile_eq_all_conv)
  from takeWhile_split [OF this [unfolded ts_def]] obtain v vs
    where bs: "bs = ts @ v # vs" "before k (fst (entry_at h v))" unfolding ts_def by auto
  obtain us q where uq: "f # ts = us @ [q]" by (cases "f # ts" rule: rev_cases) auto
  have as: "f # bs = us @ q # v # vs" using bs(1) uq by (metis append.assoc append_Cons append_Nil)
  obtain g where g: "cells h q = Some g" using r as chain_cells [of h "first_elem l" "f # bs" q] by (auto simp: rep_at_def)
  have q: "last (f # ts) = q" using uq by (metis last_snoc)
  have "fresh h \<noteq> q" using fresh_not_in [OF r] as by auto
  then have g1: "cells h1 q = Some g" using g new by (auto simp: new_ListElement_def)
  obtain h2 h3 where h3: "set_next (fresh h) (next_elem g) h1 = Inr h2" "set_next q (Some (fresh h)) h2 = Inr h3"
    "rep_at (l, h3) (us @ q # fresh h # v # vs) (take (Suc (length us)) xs @ (k, x) # drop (Suc (length us)) xs)"
    using insert_after_rep [OF r [unfolded as] g, of x k] new by auto
  have l: "length us = length ts" using uq by (metis length_append_singleton length_Cons nat.inject)
  have "xs = entry_at h f # map (entry_at h) bs" using r by (simp add: rep_at_def)
  then have xs: "xs = hd xs # map (entry_at h) ts @ entry_at h v # map (entry_at h) vs" using bs(1)
    by (metis list.sel(1) list.simps(9) map_append)
  have "\<forall>y \<in> set (map (entry_at h) ts). \<not> before k (fst y)" by (auto simp: ts_def dest: set_takeWhileD)
  then have
    "insert_place before (k, x) (map (entry_at h) ts @ map (entry_at h) (v # vs)) =
      map (entry_at h) ts @ insert_place before (k, x) (map (entry_at h) (v # vs))"
    by (rule insert_place_skip)
  then have "insert_place before (k, x) (map (entry_at h) bs) = map (entry_at h) ts @ (k, x) # entry_at h v # map (entry_at h) vs"
    using bs(2) by (subst bs(1)) simp
  then have "hd xs # insert_place before (k, x) (map (entry_at h) bs) = take (Suc (length us)) xs @ (k, x) # drop (Suc (length us)) xs"
    unfolding l by (subst (2 3) xs) simp
  then show ?thesis using that g1 h3 q by (auto simp: list_rep_def)
qed

lemma sorted_insert_rep:
  assumes "list_rep s xs"
  shows "\<exists>s'. sorted_insert before x k s = Some (Inr s') \<and> list_rep s' (insert_place before (k, x) xs)"
proof -
  obtain l h as where s: "s = (l, h)" and r: "rep_at (l, h) as xs" using assms by (cases s) (auto simp: list_rep_def)
  obtain h1 where h1: "new_ListElement x k h = (fresh h, h1)" by (simp add: new_ListElement_def)
  show ?thesis
  proof (cases as)
    case Nil
    then have "xs = []" "first_elem l = None" using r by (simp_all add: rep_at_def)
    with rep_singleton [of h x k] s show ?thesis by (auto simp: sorted_insert_def new_ListElement_def list_rep_def)
  next
    case (Cons f bs)
    obtain e where e: "first_elem l = Some f" "cells h1 f = Some e" "xs = (key e, item e) # map (entry_at h) bs"
      "find_place before k h1 f = Some (Inr (last (f # takeWhile (\<lambda>a. \<not> before k (fst (entry_at h a))) bs),
         \<forall>a \<in> set bs. \<not> before k (fst (entry_at h a))))"
      by (rule sorted_insert_scan [OF r [unfolded Cons] h1, of before])
    consider "before k (key e)" | "\<not> before k (key e)" "\<forall>a \<in> set bs. \<not> before k (fst (entry_at h a))"
      | "\<not> before k (key e)" "\<not> (\<forall>a \<in> set bs. \<not> before k (fst (entry_at h a)))" by blast
    then show ?thesis
    proof cases
      case 1
      then show ?thesis using rep_cons [OF r, of x k] Cons s h1 e by (auto simp: sorted_insert_def list_rep_def)
    next
      case 2
      obtain s' where s': "link_last (fresh h) (l, h1) = Inr s'" "rep_at s' (as @ [fresh h]) (xs @ [(k, x)])"
        using link_last_rep [OF r, of x k] Cons h1 by auto
      have "insert_place before (k, x) xs = xs @ [(k, x)]"
        using insert_place_skip [of xs before k x "[]"] 2 e(3) by simp
      then show ?thesis using 2 s h1 e s' by (auto simp: sorted_insert_def list_rep_def)
    next
      case 3
      obtain g h2 h3 where h3: "cells h1 (last (f # takeWhile (\<lambda>a. \<not> before k (fst (entry_at h a))) bs)) = Some g"
        "set_next (fresh h) (next_elem g) h1 = Inr h2"
        "set_next (last (f # takeWhile (\<lambda>a. \<not> before k (fst (entry_at h a))) bs)) (Some (fresh h)) h2 = Inr h3"
        "list_rep (l, h3) (hd xs # insert_place before (k, x) (map (entry_at h) bs))"
        by (rule sorted_insert_middle [where before = before and k = k, OF r [unfolded Cons] h1 3(2)])
      have nf: "(\<forall>a \<in> set bs. \<not> before k (fst (entry_at h a))) = False" using 3(2) by blast
      have "sorted_insert before x k s = Some (Inr (l, h3))"
        using 3(1) s h1 e(1,2) e(4) [unfolded nf] h3(1-3) by (simp add: sorted_insert_def)
      then show ?thesis using h3(4) 3(1) e(3) by auto
    qed
  qed
qed

lemma SortedRemove_rep:
  assumes "list_rep s xs"
  shows "case xs of
      [] \<Rightarrow> \<exists>s'. SortedRemove s = Inr (None, s') \<and> list_rep s' []
    | (k, x) # ys \<Rightarrow> \<exists>s'. SortedRemove s = Inr (Some (x, k), s') \<and> list_rep s' ys"
proof -
  obtain l h as where s: "s = (l, h)" and r: "rep_at (l, h) as xs" using assms by (cases s) (auto simp: list_rep_def)
  show ?thesis
  proof (cases as)
    case Nil
    then show ?thesis using r s assms by (auto simp: rep_at_def SortedRemove_def split: list.splits)
  next
    case (Cons f bs)
    then obtain e where e: "first_elem l = Some f" "cells h f = Some e" "chain h (next_elem e) bs"
      using r by (auto simp: rep_at_def split: option.splits)
    let ?h' = "h\<lparr>cells := (cells h)(f := None)\<rparr>"
    let ?l1 = "if first_elem l = last_elem l then \<lparr>first_elem = None, last_elem = None\<rparr> else l\<lparr>first_elem := next_elem e\<rparr>"
    have nf: "f \<notin> set bs" and d: "distinct bs" and la: "last_elem l = Some (last (f # bs))"
      and fr: "\<forall>a \<in> set bs. a < fresh h" and xs: "xs = (key e, item e) # map (entry_at h) bs"
      using r Cons e by (auto simp: rep_at_def entry_at_def)
    have c: "chain ?h' (next_elem e) bs" using e(3) nf by (subst chain_frame) auto
    have en: "map (entry_at ?h') bs = map (entry_at h) bs" using nf by (auto intro!: entry_frame)
    have one: "first_elem l = last_elem l \<longleftrightarrow> bs = []"
      using e(1) la nf by (auto simp: last_in_set)
    have "rep_at (?l1, ?h') bs (map (entry_at h) bs)"
      using c en d la fr one e(3) by (cases bs) (auto simp: rep_at_def)
    then show ?thesis using s e xs by (auto simp: SortedRemove_def list_rep_def)
  qed
qed


section \<open>The interface the clients rely on\<close>

text \<open>A queue of keyed items, as the ready lists, the pending interrupts and the wait queues use it:
  a state relation \<open>rep\<close> to the list of pairs, and what the operations do to that list.\<close>

locale keyed_queue =
  fixes rep :: "'s \<Rightarrow> (int \<times> 'a) list \<Rightarrow> bool"
    and append :: "'a \<Rightarrow> 's \<Rightarrow> 's res"
    and prepend :: "'a \<Rightarrow> 's \<Rightarrow> 's res"
    and insert_by_key :: "'a \<Rightarrow> int \<Rightarrow> 's \<Rightarrow> 's res option"
    and remove_first :: "'s \<Rightarrow> (('a \<times> int) option \<times> 's) res"
    and before :: "int \<Rightarrow> int \<Rightarrow> bool"
  assumes append_rep: "rep s xs \<Longrightarrow> \<exists>s'. append x s = Inr s' \<and> rep s' (xs @ [(0, x)])"
    and prepend_rep: "rep s xs \<Longrightarrow> \<exists>s'. prepend x s = Inr s' \<and> rep s' ((0, x) # xs)"
    and insert_rep: "rep s xs \<Longrightarrow> \<exists>s'. insert_by_key x k s = Some (Inr s') \<and> rep s' (insert_place before (k, x) xs)"
    and remove_rep: "rep s xs \<Longrightarrow> (case xs of [] \<Rightarrow> \<exists>s'. remove_first s = Inr (None, s') \<and> rep s' []
          | (k, x) # ys \<Rightarrow> \<exists>s'. remove_first s = Inr (Some (x, k), s') \<and> rep s' ys)"
begin

fun insert_all :: "(int \<times> 'a) list \<Rightarrow> 's \<Rightarrow> 's res option" where
  "insert_all [] s = Some (Inr s)"
| "insert_all ((k, x) # ys) s = (case insert_by_key x k s of None \<Rightarrow> None | Some (Inl e) \<Rightarrow> Some (Inl e)
     | Some (Inr s1) \<Rightarrow> insert_all ys s1)"

fun remove_n :: "nat \<Rightarrow> 's \<Rightarrow> (('a \<times> int) list \<times> 's) res" where
  "remove_n 0 s = Inr ([], s)"
| "remove_n (Suc n) s = bindR (remove_first s) (\<lambda>(r, s1). case r of None \<Rightarrow> Inr ([], s1)
     | Some p \<Rightarrow> bindR (remove_n n s1) (\<lambda>(ps, s2). Inr (p # ps, s2)))"

lemma insert_all_rep:
  "rep s xs \<Longrightarrow> \<exists>s'. insert_all ys s = Some (Inr s') \<and> rep s' (foldl (\<lambda>zs y. insert_place before y zs) xs ys)"
proof (induction ys arbitrary: s xs)
  case (Cons y ys)
  obtain k x where y: "y = (k, x)" by (cases y)
  obtain s1 where "insert_by_key x k s = Some (Inr s1)" "rep s1 (insert_place before (k, x) xs)"
    using insert_rep [OF Cons.prems] by blast
  with Cons.IH [of s1] y show ?case by simp
qed auto

lemma remove_n_rep: "rep s xs \<Longrightarrow> \<exists>s'. remove_n n s = Inr (map (\<lambda>(k, x). (x, k)) (take n xs), s') \<and> rep s' (drop n xs)"
proof (induction n arbitrary: s xs)
  case (Suc n)
  show ?case
  proof (cases xs)
    case Nil
    then show ?thesis using remove_rep [OF Suc.prems] by auto
  next
    case (Cons y ys)
    obtain k x where y: "y = (k, x)" by (cases y)
    obtain s1 where "remove_first s = Inr (Some (x, k), s1)" "rep s1 ys"
      using remove_rep [OF Suc.prems] Cons y by auto
    with Suc.IH [of s1 ys] Cons y show ?thesis by auto
  qed
qed auto

text \<open>Filling the empty queue and emptying it again.\<close>

lemma fill_drain:
  assumes "rep s []"
  shows "\<exists>s1 s2. insert_all ys s = Some (Inr s1)
    \<and> remove_n (length ys) s1 = Inr (map (\<lambda>(k, x). (x, k)) (foldl (\<lambda>zs y. insert_place before y zs) [] ys), s2) \<and> rep s2 []"
proof -
  obtain s1 where s1: "insert_all ys s = Some (Inr s1)" "rep s1 (foldl (\<lambda>zs y. insert_place before y zs) [] ys)"
    using insert_all_rep [OF assms] by blast
  have l: "length (foldl (\<lambda>zs y. insert_place before y zs) xs ys) = length xs + length ys" for xs :: "(int \<times> 'a) list"
  proof (induction ys arbitrary: xs)
    case (Cons y ys)
    have "length (insert_place before y xs) = Suc (length xs)"
      by (induction xs) simp_all
    with Cons show ?case by simp
  qed simp
  from remove_n_rep [OF s1(2), of "length ys"] s1 l [of "[]"] show ?thesis by auto
qed

end

interpretation up_list: keyed_queue list_rep Append Prepend SortedInsert SortedRemove "(<)"
  using Append_rep Prepend_rep sorted_insert_rep SortedRemove_rep
  by unfold_locales (auto simp: SortedInsert_def)

interpretation down_list: keyed_queue list_rep Append Prepend MyList_SortedInsert SortedRemove "(>)"
  using Append_rep Prepend_rep sorted_insert_rep SortedRemove_rep
  by unfold_locales (auto simp: MyList_SortedInsert_def)

section \<open>Inserting one by one is a stable sort\<close>

lemma insert_place_sorted:
  "sorted (map fst xs) \<Longrightarrow> sorted (map fst (insert_place (<) (k, x) xs))"
  by (induction xs) (auto simp: insert_place_def dest: set_takeWhileD set_dropWhileD)

lemma insert_place_mset: "mset (insert_place before kx xs) = add_mset kx (mset xs)"
  by (induction xs) simp_all

lemma insert_place_filter:
  "sorted (map fst xs) \<Longrightarrow> filter (\<lambda>y. j = fst y) (insert_place (<) kx xs) =
     filter (\<lambda>y. j = fst y) xs @ (if j = fst kx then [kx] else [])"
proof (induction xs)
  case (Cons y ys)
  have "filter (\<lambda>z. j = fst z) (y # ys) = []" if "fst kx < fst y" "j = fst kx"
    using that Cons.prems by (auto simp: filter_empty_conv)
  with Cons show ?case by auto
qed simp

lemma filter_sort_key: "filter (\<lambda>y. j = fst y) (sort_key fst xs) = filter (\<lambda>y. j = fst y) xs"
  using sort_key_stable [of fst j xs] by (simp add: eq_commute)

lemma insert_place_sort_key: "insert_place (<) kx (sort_key fst xs) = sort_key fst (xs @ [kx])"
proof (rule properties_for_sort_key [symmetric])
  show "mset (insert_place (<) kx (sort_key fst xs)) = mset (xs @ [kx])" by (simp add: insert_place_mset)
  show "sorted (map fst (insert_place (<) kx (sort_key fst xs)))"
    using insert_place_sorted [of "sort_key fst xs" "fst kx" "snd kx"] by simp
  fix y
  show "filter (\<lambda>x. fst y = fst x) (insert_place (<) kx (sort_key fst xs)) = filter (\<lambda>x. fst y = fst x) (xs @ [kx])"
    by (simp add: insert_place_filter filter_sort_key)
qed

lemma insert_all_sorts: "foldl (\<lambda>zs y. insert_place (<) y zs) [] ys = sort_key fst ys"
  by (induction ys rule: rev_induct) (simp_all add: insert_place_sort_key)

section \<open>Properties\<close>

lemma new_List_rep: "list_rep (new_List, \<lparr>cells = Map.empty, fresh = 0\<rparr>) []"
  by (auto simp: list_rep_def rep_at_def new_List_def intro!: exI [of _ "[]"])

lemma Remove_rep:
  assumes "list_rep s xs"
  shows "\<exists>s'. Remove s = Inr (if xs = [] then None else Some (snd (hd xs)), s') \<and> list_rep s' (tl xs)"
  using SortedRemove_rep [OF assms] by (cases xs) (auto simp: Remove_def)

lemma IsEmpty_rep: "list_rep s xs \<Longrightarrow> IsEmpty (fst s) \<longleftrightarrow> xs = []"
proof -
  assume "list_rep s xs"
  then obtain as where r: "rep_at (fst s, snd s) as xs" by (auto simp: list_rep_def)
  then have "as = [] \<longleftrightarrow> xs = []" by (auto simp: rep_at_def)
  with rep_empty [OF r] show ?thesis by simp
qed

text \<open>C21: the pointer code of the list implements the operations on sequences of keyed items: append, prepend,
  insertion before the first entry with a larger (in mylist.h, a smaller) key, which always ends, and
  removal of the front entry, with NULL from an empty list; no operation corrupts the structure.  The comments of
  mylist.h (at the class and at \<open>SortedInsert\<close>) promise increasing order by key; its code puts the larger keys first,
  which is the order the scheduler wants for priorities, and it is the code that is stated here.\<close>

theorem List_refines_sequences:
  assumes "list_rep s xs"
  shows "(\<exists>s'. Append x s = Inr s' \<and> list_rep s' (xs @ [(0, x)]))
    \<and> (\<exists>s'. Prepend x s = Inr s' \<and> list_rep s' ((0, x) # xs))
    \<and> (\<exists>s'. SortedInsert x k s = Some (Inr s') \<and> list_rep s' (insert_place (<) (k, x) xs))
    \<and> (\<exists>s'. MyList_SortedInsert x k s = Some (Inr s') \<and> list_rep s' (insert_place (>) (k, x) xs))
    \<and> (\<exists>s'. Remove s = Inr (if xs = [] then None else Some (snd (hd xs)), s') \<and> list_rep s' (tl xs))
    \<and> (IsEmpty (fst s) \<longleftrightarrow> xs = [])"
  by (intro conjI up_list.append_rep [OF assms] up_list.prepend_rep [OF assms] up_list.insert_rep [OF assms]
      down_list.insert_rep [OF assms] Remove_rep [OF assms] IsEmpty_rep [OF assms])

theorem List_refines_sequences_witness:
  "\<exists>s'. SortedInsert ''a'' 3 (new_List, \<lparr>cells = Map.empty, fresh = 0\<rparr>) = Some (Inr s') \<and> list_rep s' [(3, ''a'')]"
  using List_refines_sequences [OF new_List_rep, of "''a''" 3] by auto

text \<open>C22: entries put into an empty list with \<open>SortedInsert\<close> come out of \<open>SortedRemove\<close> in the order of
  their keys, and first-in first-out among equal keys: the list is a stable priority queue.\<close>

theorem SortedInsert_stable_sort:
  assumes "list_rep s []"
  shows "\<exists>s1 s2. up_list.insert_all ys s = Some (Inr s1)
    \<and> up_list.remove_n (length ys) s1 = Inr (map (\<lambda>(k, x). (x, k)) (sort_key fst ys), s2) \<and> list_rep s2 []"
  using up_list.fill_drain [OF assms, of ys] unfolding insert_all_sorts .

theorem SortedInsert_stable_sort_witness:
  "\<exists>s1 s2. up_list.insert_all [(5, ''a''), (2, ''b''), (5, ''c''), (2, ''d'')] (new_List, \<lparr>cells = Map.empty, fresh = 0\<rparr>) = Some (Inr s1)
    \<and> up_list.remove_n 4 s1 = Inr ([(''b'', 2), (''d'', 2), (''a'', 5), (''c'', 5)], s2)"
proof -
  let ?ys = "[(5 :: int, ''a''), (2, ''b''), (5, ''c''), (2, ''d'')]"
  have k: "map (\<lambda>(k, x). (x, k)) (sort_key fst ?ys) = [(''b'', 2), (''d'', 2), (''a'', 5), (''c'', 5)]" and l: "length ?ys = 4"
    by simp_all
  show ?thesis using SortedInsert_stable_sort [OF new_List_rep, of ?ys] unfolding k l by blast
qed

end
