(* ===== verification/Interrupts.thy ===== *)
theory Interrupts
  imports NachosList Machine
begin

text \<open>
  machine/interrupt.cc and machine/timer.cc: simulated time and the interrupts that are due at some
  later tick.  The pending list is the sorted list of \<open>NachosList\<close>, read as its sequence of (when,
  interrupt) pairs; \<open>SortedInsert\<close> and \<open>SortedRemove\<close> on it are \<open>insert_place (<)\<close> and the head.
  A handler is a function pointer \<open>'f\<close>; what calling it does to the whole system is the argument
  \<open>call\<close>, and \<open>kernel\<close> is the part of the system that this module does not look at.  \<open>machine\<close> is the
  global of that name, \<open>None\<close> for NULL: in the builds without \<open>USER_PROGRAM\<close> there is none.  The loops
  that fire interrupts return \<open>None\<close> when they do not end.  The locale \<open>interrupt_handlers\<close> is the contract of the
  handlers, under which they end; \<open>Devices\<close> interprets it on the handlers of the kernel.
\<close>

section \<open>State\<close>

datatype IntStatus = IntOff | IntOn
datatype MachineStatus = IdleMode | SystemMode | UserMode
datatype IntType = TimerInt | DiskInt | ConsoleWriteInt | ConsoleReadInt | NetworkSendInt | NetworkRecvInt

record 'f PendingInterrupt =
  handler :: 'f
  arg :: int
  when_due :: int   \<comment> \<open>the member \<open>when\<close>\<close>
  type :: IntType

record ('f, 'k) Interrupt =
  level :: IntStatus
  pending :: "(int \<times> 'f PendingInterrupt) list"
  inHandler :: bool
  yieldOnReturn :: bool
  status :: MachineStatus
  stats :: Statistics
  machine :: "Machine option"
  kernel :: 'k

type_synonym ('f, 'k) system = "('f, 'k) Interrupt"
type_synonym ('f, 'k) handlers = "'f \<Rightarrow> int \<Rightarrow> ('f, 'k) system \<Rightarrow> ('f, 'k) system res"

definition new_Interrupt :: "Statistics \<Rightarrow> 'k \<Rightarrow> ('f, 'k) system" where
  "new_Interrupt st k = \<lparr>level = IntOff, pending = [], inHandler = False, yieldOnReturn = False,
     status = SystemMode, stats = st, machine = None, kernel = k\<rparr>"

definition now :: "('f, 'k) system \<Rightarrow> int" where "now s = totalTicks (stats s)"

section \<open>Operations\<close>

definition ChangeLevel :: "IntStatus \<Rightarrow> ('f, 'k) system \<Rightarrow> ('f, 'k) system" where
  "ChangeLevel l s = s\<lparr>level := l\<rparr>"

definition insert_pending :: "int \<Rightarrow> 'f PendingInterrupt \<Rightarrow> ('f, 'k) system \<Rightarrow> ('f, 'k) system" where
  "insert_pending w p s = s\<lparr>pending := insert_place (<) (w, p) (pending s)\<rparr>"

definition Schedule :: "'f \<Rightarrow> int \<Rightarrow> int \<Rightarrow> IntType \<Rightarrow> ('f, 'k) system \<Rightarrow> ('f, 'k) system res" where
  "Schedule f a fromNow ty s =
     (let w = now s + fromNow in
      if fromNow > 0
      then Inr (insert_pending w \<lparr>handler = f, arg = a, when_due = w, type = ty\<rparr> s)
      else Inl AssertFail)"

definition YieldOnReturn :: "('f, 'k) system \<Rightarrow> ('f, 'k) system res" where
  "YieldOnReturn s = (if inHandler s then Inr (s\<lparr>yieldOnReturn := True\<rparr>) else Inl AssertFail)"

text \<open>\<open>stats->idleTicks += when - stats->totalTicks; stats->totalTicks = when;\<close>\<close>

definition advance_clock :: "int \<Rightarrow> ('f, 'k) system \<Rightarrow> ('f, 'k) system" where
  "advance_clock w s = s\<lparr>stats := (stats s)\<lparr>idleTicks := idleTicks (stats s) + (w - now s), totalTicks := w\<rparr>\<rparr>"

text \<open>\<open>if (machine != NULL) machine->DelayedLoad(0, 0);\<close>\<close>

definition machine_DelayedLoad :: "('f, 'k) system \<Rightarrow> ('f, 'k) system res" where
  "machine_DelayedLoad s = (case machine s of None \<Rightarrow> Inr s
     | Some m \<Rightarrow> bindR (DelayedLoad m 0 0) (\<lambda>m1. Inr (s\<lparr>machine := Some m1\<rparr>)))"

text \<open>The call of the handler, with the machine in system mode and the status restored after it.\<close>

definition invoke :: "('f, 'k) handlers \<Rightarrow> MachineStatus \<Rightarrow> 'f PendingInterrupt \<Rightarrow> ('f, 'k) system \<Rightarrow> ('f, 'k) system res" where
  "invoke call old p s =
     bindR (machine_DelayedLoad s) (\<lambda>s0.
     bindR (call (handler p) (arg p) (s0\<lparr>inHandler := True, status := SystemMode\<rparr>)) (\<lambda>s1.
       Inr (s1\<lparr>status := old, inHandler := False\<rparr>)))"

definition CheckIfDue :: "('f, 'k) handlers \<Rightarrow> bool \<Rightarrow> ('f, 'k) system \<Rightarrow> (bool \<times> ('f, 'k) system) res" where
  "CheckIfDue call advanceClock s =
     (if level s \<noteq> IntOff then Inl AssertFail
      else case pending s of
        [] \<Rightarrow> Inr (False, s)
      | (w, p) # rest \<Rightarrow>
          let s1 = s\<lparr>pending := rest\<rparr> in
          if \<not> advanceClock \<and> w > now s then Inr (False, insert_pending w p s1)
          else
            let s2 = (if w > now s then advance_clock w s1 else s1) in
            if status s = IdleMode \<and> type p = TimerInt \<and> rest = []
            then Inr (False, insert_pending w p s2)
            else bindR (invoke call (status s) p s2) (\<lambda>s3. Inr (True, s3)))"

text \<open>\<open>while (CheckIfDue(FALSE));\<close>\<close>

partial_function (option) fire_due :: "('f, 'k) handlers \<Rightarrow> ('f, 'k) system \<Rightarrow> ('f, 'k) system res option" where
  "fire_due call s = (case CheckIfDue call False s of
       Inl e \<Rightarrow> Some (Inl e)
     | Inr (fired, s1) \<Rightarrow> if fired then fire_due call s1 else Some (Inr s1))"

definition bindO :: "'a res option \<Rightarrow> ('a \<Rightarrow> 'b res option) \<Rightarrow> 'b res option" where
  "bindO m f = (case m of None \<Rightarrow> None | Some (Inl e) \<Rightarrow> Some (Inl e) | Some (Inr x) \<Rightarrow> f x)"

definition add_ticks :: "('f, 'k) system \<Rightarrow> ('f, 'k) system" where
  "add_ticks s = s\<lparr>stats :=
     (if status s = SystemMode
      then (stats s)\<lparr>totalTicks := now s + SystemTick, systemTicks := systemTicks (stats s) + SystemTick\<rparr>
      else (stats s)\<lparr>totalTicks := now s + UserTick, userTicks := userTicks (stats s) + UserTick\<rparr>)\<rparr>"

text \<open>\<open>yield\<close> is \<open>currentThread->Yield()\<close>.\<close>

definition OneTick :: "('f, 'k) handlers \<Rightarrow> (('f, 'k) system \<Rightarrow> ('f, 'k) system res option) \<Rightarrow>
    ('f, 'k) system \<Rightarrow> ('f, 'k) system res option" where
  "OneTick call yield s =
     bindO (fire_due call (ChangeLevel IntOff (add_ticks s))) (\<lambda>s1.
       let s2 = ChangeLevel IntOn s1 in
       if yieldOnReturn s2
       then bindO (yield (s2\<lparr>yieldOnReturn := False, status := SystemMode\<rparr>)) (\<lambda>s3.
              Some (Inr (s3\<lparr>status := status s\<rparr>)))
       else Some (Inr s2))"

definition SetLevel :: "('f, 'k) handlers \<Rightarrow> (('f, 'k) system \<Rightarrow> ('f, 'k) system res option) \<Rightarrow>
    IntStatus \<Rightarrow> ('f, 'k) system \<Rightarrow> (IntStatus \<times> ('f, 'k) system) res option" where
  "SetLevel call yield l s =
     (if l = IntOff \<or> \<not> inHandler s
      then let s1 = ChangeLevel l s in
        if l = IntOn \<and> level s = IntOff
        then bindO (OneTick call yield s1) (\<lambda>s2. Some (Inr (level s, s2)))
        else Some (Inr (level s, s1))
      else Some (Inl AssertFail))"

definition Idle :: "('f, 'k) handlers \<Rightarrow> ('f, 'k) system \<Rightarrow> ('f, 'k) system res option" where
  "Idle call s = (case CheckIfDue call True (s\<lparr>status := IdleMode\<rparr>) of
       Inl e \<Rightarrow> Some (Inl e)
     | Inr (fired, s1) \<Rightarrow>
         if fired then bindO (fire_due call s1) (\<lambda>s2. Some (Inr (s2\<lparr>yieldOnReturn := False, status := SystemMode\<rparr>)))
         else Some (Inl MachineHalt))"

section \<open>The timer device\<close>

record 'f Timer =
  randomize :: bool
  timer_handler :: 'f
  timer_arg :: int

definition TimerTicks :: int where "TimerTicks = 100"

text \<open>\<open>r\<close> is the value of \<open>Random()\<close>, which is not negative.\<close>

definition TimeOfNextInterrupt :: "'f Timer \<Rightarrow> int \<Rightarrow> int" where
  "TimeOfNextInterrupt t r = (if randomize t then 1 + r smod (TimerTicks * 2) else TimerTicks sdiv 2)"

text \<open>\<open>self\<close> is the function \<open>TimerHandler\<close>, with the timer as its argument.\<close>

definition new_Timer :: "'f \<Rightarrow> int \<Rightarrow> 'f Timer \<Rightarrow> int \<Rightarrow> ('f, 'k) system \<Rightarrow> ('f, 'k) system res" where
  "new_Timer self this t r s = Schedule self this (TimeOfNextInterrupt t r) TimerInt s"

definition TimerExpired :: "('f, 'k) handlers \<Rightarrow> 'f \<Rightarrow> int \<Rightarrow> 'f Timer \<Rightarrow> int \<Rightarrow> ('f, 'k) system \<Rightarrow> ('f, 'k) system res" where
  "TimerExpired call self this t r s =
     bindR (Schedule self this (TimeOfNextInterrupt t r) TimerInt s) (\<lambda>s1. call (timer_handler t) (timer_arg t) s1)"

section \<open>The due interrupts fire in order\<close>

definition sorted_pending :: "('f, 'k) system \<Rightarrow> bool" where
  "sorted_pending s \<longleftrightarrow> sorted (map fst (pending s))"

text \<open>The interrupts that are due, called one after the other in the order of the list.\<close>

fun run_due :: "('f, 'k) handlers \<Rightarrow> 'f PendingInterrupt list \<Rightarrow> ('f, 'k) system \<Rightarrow> ('f, 'k) system res" where
  "run_due call [] s = Inr s"
| "run_due call (p # ps) s = bindR (invoke call (status s) p (s\<lparr>pending := tl (pending s)\<rparr>)) (run_due call ps)"

definition due :: "('f, 'k) system \<Rightarrow> 'f PendingInterrupt list" where
  "due s = map snd (takeWhile (\<lambda>e. fst e \<le> now s) (pending s))"

lemma insert_later:
  "now s < w \<Longrightarrow> takeWhile (\<lambda>e. fst e \<le> now s) (insert_place (<) (w, p) q) = takeWhile (\<lambda>e. fst e \<le> now s) q"
  by (induction q) auto

lemma inserts_later:
  "\<forall>e \<in> set new. now s < fst e \<Longrightarrow>
     takeWhile (\<lambda>e. fst e \<le> now s) (foldl (\<lambda>q e. insert_place (<) e q) q new) = takeWhile (\<lambda>e. fst e \<le> now s) q"
proof (induction new arbitrary: q)
  case (Cons e new)
  then show ?case using insert_later [of s "fst e" "snd e" q] by simp
qed simp

lemma inserts_sorted:
  "sorted (map fst q) \<Longrightarrow> sorted (map fst (foldl (\<lambda>q e. insert_place (<) e q) q new))"
proof (induction new arbitrary: q)
  case (Cons e new)
  then show ?case using insert_place_sorted [of q "fst e" "snd e"] by simp
qed simp

text \<open>A check that finds the first interrupt not due puts it back behind the others of the same tick.\<close>

definition put_back :: "('f, 'k) system \<Rightarrow> ('f, 'k) system" where
  "put_back s = (case pending s of [] \<Rightarrow> s | (w, p) # rest \<Rightarrow> s\<lparr>pending := insert_place (<) (w, p) rest\<rparr>)"

lemma put_back_mset: "mset (pending (put_back s)) = mset (pending s)"
proof -
  have "mset (insert_place (<) e q) = add_mset e (mset q)" for e :: "int \<times> 'f PendingInterrupt" and q
    by (cases e; induction q) auto
  then show ?thesis by (auto simp: put_back_def split: list.split)
qed

section \<open>The contract of the handlers\<close>

text \<open>The handler has left the interrupt level, the clock and the processor alone, and scheduled the interrupts \<open>new\<close>, all for later.\<close>

definition schedules_later :: "('f, 'k) system \<Rightarrow> ('f, 'k) system \<Rightarrow> bool" where
  "schedules_later s s' \<longleftrightarrow> level s' = level s \<and> now s' = now s \<and> machine s' = machine s
     \<and> (\<exists>new. pending s' = foldl (\<lambda>q e. insert_place (<) e q) (pending s) new \<and> (\<forall>e \<in> set new. now s < fst e))"

definition machine_ok :: "('f, 'k) system \<Rightarrow> bool" where
  "machine_ok s \<longleftrightarrow> (case machine s of None \<Rightarrow> True | Some m \<Rightarrow> sound_machine m)"

text \<open>\<open>ok\<close> is the kernel's invariant while no handler runs.  A handler is called for the first interrupt of the list, taken off it, with
  interrupts off, inside of \<open>inHandler\<close> and in system mode; it keeps the invariant.  The invariant looks neither at the order
  of the list nor at the registers of the processor.\<close>

locale interrupt_handlers =
  fixes call :: "('f, 'k) handlers" and ok :: "('f, 'k) system \<Rightarrow> bool"
  assumes ok_machine: "ok s \<Longrightarrow> machine_ok s"
    and other_machine: "ok s \<Longrightarrow> machine_ok (s\<lparr>machine := mo\<rparr>) \<Longrightarrow> ok (s\<lparr>machine := mo\<rparr>)"
    and reordered: "ok s \<Longrightarrow> mset q = mset (pending s) \<Longrightarrow> ok (s\<lparr>pending := q\<rparr>)"
    and returns: "ok s \<Longrightarrow> level s = IntOff \<Longrightarrow> pending s = (w, p) # rest \<Longrightarrow>
      \<exists>s'. call (handler p) (arg p) (s\<lparr>pending := rest, inHandler := True, status := SystemMode\<rparr>) = Inr s'
        \<and> schedules_later (s\<lparr>pending := rest\<rparr>) s' \<and> ok (s'\<lparr>status := status s, inHandler := False\<rparr>)"
begin

lemma pending_machine: "s\<lparr>pending := q, machine := mo\<rparr> = s\<lparr>machine := mo, pending := q\<rparr>"
  by (cases s) simp

lemma DelayedLoad_returns:
  assumes "ok s"
  shows "\<exists>mo. machine_DelayedLoad (s\<lparr>pending := q\<rparr>) = Inr (s\<lparr>machine := mo, pending := q\<rparr>) \<and> ok (s\<lparr>machine := mo\<rparr>)"
proof (cases "machine s")
  case None
  then have e: "s\<lparr>machine := None, pending := q\<rparr> = s\<lparr>pending := q\<rparr>" by (cases s) simp
  have "ok (s\<lparr>machine := None\<rparr>)" using other_machine [OF assms] by (simp add: machine_ok_def)
  then show ?thesis using None by (intro exI [of _ None]) (simp add: machine_DelayedLoad_def e)
next
  case (Some m)
  then have m: "sound_machine m" using ok_machine [OF assms] by (simp add: machine_ok_def)
  then have wf: "wf_machine m" by (simp add: sound_machine_def)
  obtain m1 where d: "DelayedLoad m 0 0 = Inr m1" using DelayedLoad_ok [OF wf] by blast
  have "sound_machine m1" using DelayedLoad_zero [OF wf d] by (simp add: sound_machine_def)
  then have "ok (s\<lparr>machine := Some m1\<rparr>)" using other_machine [OF assms] by (simp add: machine_ok_def)
  then show ?thesis using Some d by (intro exI [of _ "Some m1"]) (simp add: machine_DelayedLoad_def pending_machine)
qed

lemma invoke_returns:
  assumes s: "ok s" "level s = IntOff" "pending s = (w, p) # rest" "sorted_pending s"
  shows "\<exists>s'. invoke call (status s) p (s\<lparr>pending := rest\<rparr>) = Inr s' \<and> level s' = IntOff \<and> now s' = now s
    \<and> status s' = status s \<and> due s' = due (s\<lparr>pending := rest\<rparr>) \<and> sorted_pending s' \<and> ok s'"
proof -
  obtain mo where d: "machine_DelayedLoad (s\<lparr>pending := rest\<rparr>) = Inr (s\<lparr>machine := mo, pending := rest\<rparr>)" "ok (s\<lparr>machine := mo\<rparr>)"
    using DelayedLoad_returns [OF s(1)] by blast
  obtain s1 where c: "call (handler p) (arg p) (s\<lparr>machine := mo, pending := rest, inHandler := True, status := SystemMode\<rparr>) = Inr s1"
      "schedules_later (s\<lparr>machine := mo, pending := rest\<rparr>) s1" "ok (s1\<lparr>status := status s, inHandler := False\<rparr>)"
    using returns [OF d(2), of w p rest] s(2,3) by auto
  obtain new where n: "level s1 = IntOff" "now s1 = now s" "pending s1 = foldl (\<lambda>q e. insert_place (<) e q) rest new"
      "\<forall>e \<in> set new. now s < fst e"
    using c(2) s(2) by (auto simp: schedules_later_def now_def)
  let ?s' = "s1\<lparr>status := status s, inHandler := False\<rparr>"
  have t: "now ?s' = now s" using n(2) by (simp add: now_def)
  have "due ?s' = due (s\<lparr>pending := rest\<rparr>)"
    unfolding due_def t using n(3) inserts_later [OF n(4)] by (simp add: now_def)
  moreover have "sorted_pending ?s'"
    using inserts_sorted [of rest new] s(3,4) n(3) by (simp add: sorted_pending_def)
  ultimately show ?thesis using c d n(1) t by (simp add: invoke_def)
qed

lemma run_due_spec:
  "ok s \<Longrightarrow> level s = IntOff \<Longrightarrow> sorted_pending s \<Longrightarrow> status s \<noteq> IdleMode \<Longrightarrow>
    \<exists>s'. run_due call (due s) s = Inr s' \<and> fire_due call s = Some (Inr (put_back s'))
      \<and> now s' = now s \<and> level s' = IntOff \<and> status s' = status s \<and> sorted_pending s' \<and> ok s' \<and> (\<forall>e \<in> set (pending s'). now s < fst e)"
proof (induction "length (due s)" arbitrary: s)
  case 0
  have later: "\<forall>e \<in> set (pending s). now s < fst e"
  proof (cases "pending s")
    case (Cons e rest)
    then have "now s < fst e" using 0 by (auto simp: due_def split: if_splits)
    with Cons 0 show ?thesis by (auto simp: sorted_pending_def)
  qed simp
  have "fire_due call s = Some (Inr (put_back s))"
    using 0 later by (subst fire_due.simps)
      (auto simp: CheckIfDue_def put_back_def insert_pending_def split: list.splits)
  with 0 later show ?case by auto
next
  case (Suc n)
  obtain w p rest where pe: "pending s = (w, p) # rest" "w \<le> now s" "due s = p # map snd (takeWhile (\<lambda>e. fst e \<le> now s) rest)"
    using Suc.hyps(2) by (auto simp: due_def split: list.splits if_splits dest!: Suc_length_conv [THEN iffD1])
      (cases "pending s"; auto split: if_splits)
  have d1: "due (s\<lparr>pending := rest\<rparr>) = map snd (takeWhile (\<lambda>e. fst e \<le> now s) rest)" by (simp add: due_def now_def)
  obtain s2 where s2: "invoke call (status s) p (s\<lparr>pending := rest\<rparr>) = Inr s2" "level s2 = IntOff" "now s2 = now s" "status s2 = status s"
    "due s2 = due (s\<lparr>pending := rest\<rparr>)" "sorted_pending s2" "ok s2"
    using invoke_returns [OF Suc.prems(1,2) pe(1) Suc.prems(3)] by blast
  have "n = length (due s2)" using Suc.hyps(2) pe(3) d1 s2(5) by simp
  from Suc.hyps(1) [OF this s2(7,2,6)] s2(4) Suc.prems(4) obtain s' where s':
    "run_due call (due s2) s2 = Inr s'" "fire_due call s2 = Some (Inr (put_back s'))" "now s' = now s2" "level s' = IntOff"
    "status s' = status s2" "sorted_pending s'" "ok s'" "\<forall>e \<in> set (pending s'). now s2 < fst e" by auto
  have "CheckIfDue call False s = Inr (True, s2)"
    using Suc.prems pe s2(1) by (simp add: CheckIfDue_def)
  then have "fire_due call s = fire_due call s2" by (subst fire_due.simps) simp
  moreover have "run_due call (due s) s = run_due call (due s2) s2"
    using pe s2 d1 by simp
  ultimately show ?case using s' s2 by auto
qed

lemma ok_put_back: "ok s \<Longrightarrow> ok (put_back s)"
proof -
  have "put_back s = s\<lparr>pending := pending (put_back s)\<rparr>" by (auto simp: put_back_def split: list.split)
  then show "ok s \<Longrightarrow> ok (put_back s)" using reordered [OF _ put_back_mset] by metis
qed

end

text \<open>Whatever else the handlers do: if they leave the processor and the part \<open>g\<close> of the kernel alone, then firing interrupts keeps
  both, but for the delayed load, after which the processor is still sound.\<close>

definition keeps :: "('f, 'k) handlers \<Rightarrow> ('k \<Rightarrow> 'a) \<Rightarrow> bool" where
  "keeps call g \<longleftrightarrow> (\<forall>f a s s'. call f a s = Inr s' \<longrightarrow> machine s' = machine s \<and> g (kernel s') = g (kernel s))"

definition kept :: "('k \<Rightarrow> 'a) \<Rightarrow> ('f, 'k) system \<Rightarrow> ('f, 'k) system \<Rightarrow> bool" where
  "kept g s s' \<longleftrightarrow> (machine_ok s \<longrightarrow> machine_ok s') \<and> (machine s \<noteq> None \<longrightarrow> machine s' \<noteq> None) \<and> g (kernel s') = g (kernel s)"

lemma kept_trans: "kept g s s' \<Longrightarrow> kept g s' s'' \<Longrightarrow> kept g s s''"
  by (simp add: kept_def)

lemma kept_same: "machine s' = machine s \<Longrightarrow> kernel s' = kernel s \<Longrightarrow> kept g s s'"
  by (simp add: kept_def machine_ok_def)

lemma kept_updates [simp]:
  "kept g (s\<lparr>pending := q\<rparr>) s' = kept g s s'" "kept g (s\<lparr>stats := x\<rparr>) s' = kept g s s'" "kept g (s\<lparr>level := l\<rparr>) s' = kept g s s'"
  "kept g (s\<lparr>status := st\<rparr>) s' = kept g s s'" "kept g (s\<lparr>inHandler := b\<rparr>) s' = kept g s s'"
  "kept g (s\<lparr>yieldOnReturn := b\<rparr>) s' = kept g s s'"
  "kept g s (s'\<lparr>pending := q\<rparr>) = kept g s s'" "kept g s (s'\<lparr>stats := x\<rparr>) = kept g s s'" "kept g s (s'\<lparr>level := l\<rparr>) = kept g s s'"
  "kept g s (s'\<lparr>status := st\<rparr>) = kept g s s'" "kept g s (s'\<lparr>inHandler := b\<rparr>) = kept g s s'"
  "kept g s (s'\<lparr>yieldOnReturn := b\<rparr>) = kept g s s'" "kept g s s"
  by (simp_all add: kept_def machine_ok_def)

lemma machine_DelayedLoad_kept: "machine_DelayedLoad s = Inr s' \<Longrightarrow> kept g s s'"
  by (auto simp: machine_DelayedLoad_def kept_def machine_ok_def sound_machine_def dest: DelayedLoad_zero split: option.splits)

lemma invoke_kept:
  assumes "keeps call g" "invoke call old p s = Inr s'"
  shows "kept g s s'"
proof -
  obtain s0 s1 where d: "machine_DelayedLoad s = Inr s0"
      "call (handler p) (arg p) (s0\<lparr>inHandler := True, status := SystemMode\<rparr>) = Inr s1" "s' = s1\<lparr>status := old, inHandler := False\<rparr>"
    using assms(2) by (auto simp: invoke_def simp del: kept_updates)
  have "machine s1 = machine s0 \<and> g (kernel s1) = g (kernel s0)" using assms(1) d(2) unfolding keeps_def by fastforce
  then have "kept g s0 s'" using d(3) by (simp add: kept_def machine_ok_def)
  with machine_DelayedLoad_kept [OF d(1)] show ?thesis by (rule kept_trans)
qed

lemma CheckIfDue_kept:
  assumes "keeps call g" "CheckIfDue call adv s = Inr (b, s')"
  shows "kept g s s'"
  using assms(2)
  by (auto simp: CheckIfDue_def Let_def insert_pending_def advance_clock_def dest!: invoke_kept [OF assms(1)] split: if_splits list.splits)

lemma fire_due_kept:
  assumes "fire_due call s = Some r" "keeps call g"
  shows "r = Inr s' \<Longrightarrow> kept g s s'"
proof -
  have "keeps call g \<longrightarrow> (\<forall>s'. r = Inr s' \<longrightarrow> kept g s s')"
  proof (rule fire_due.raw_induct [OF _ assms(1)], intro impI allI)
    fix fire call s r s'
    assume ih: "\<And>call s r. fire call s = Some r \<Longrightarrow> keeps call g \<longrightarrow> (\<forall>s'. r = Inr s' \<longrightarrow> kept g s s')"
      and r: "(case CheckIfDue call False s of Inl e \<Rightarrow> Some (Inl e) | Inr (fired, s1) \<Rightarrow> if fired then fire call s1 else Some (Inr s1)) = Some r"
      and l: "keeps call g" "r = Inr s'"
    then obtain b s1 where c: "CheckIfDue call False s = Inr (b, s1)" "if b then fire call s1 = Some r else s' = s1"
      by (auto split: sum.splits prod.splits if_splits)
    have "kept g s s1" by (rule CheckIfDue_kept [OF l(1) c(1)])
    moreover have "kept g s1 s'" if b using ih [of call s1 r] c(2) l that by simp
    ultimately show "kept g s s'" using c(2) kept_trans [of g s s1 s'] by (cases b) simp_all
  qed
  with assms(2) show "r = Inr s' \<Longrightarrow> kept g s s'" by blast
qed

lemma bindO_Inr: "bindO x f = Some (Inr y) \<longleftrightarrow> (\<exists>z. x = Some (Inr z) \<and> f z = Some (Inr y))"
  by (auto simp: bindO_def split: option.splits sum.splits)

lemma OneTick_kept:
  assumes "keeps call g" "OneTick call yield s = Some (Inr s')" "\<And>x y. yield x = Some (Inr y) \<Longrightarrow> kept g x y"
  shows "kept g s s'"
proof -
  obtain s1 where f: "fire_due call (ChangeLevel IntOff (add_ticks s)) = Some (Inr s1)"
    and r: "(if yieldOnReturn s1 then bindO (yield (s1\<lparr>level := IntOn, yieldOnReturn := False, status := SystemMode\<rparr>))
        (\<lambda>s3. Some (Inr (s3\<lparr>status := status s\<rparr>))) else Some (Inr (s1\<lparr>level := IntOn\<rparr>))) = Some (Inr s')"
    using assms(2) by (auto simp: OneTick_def bindO_Inr ChangeLevel_def Let_def)
  have a: "kept g s s1"
    using fire_due_kept [OF f assms(1) refl] by (simp add: ChangeLevel_def add_ticks_def)
  show ?thesis
  proof (cases "yieldOnReturn s1")
    case True
    then obtain s3 where y: "yield (s1\<lparr>level := IntOn, yieldOnReturn := False, status := SystemMode\<rparr>) = Some (Inr s3)" "s' = s3\<lparr>status := status s\<rparr>"
      using r by (auto simp: bindO_Inr)
    then show ?thesis using kept_trans [OF a, of s3] assms(3) [OF y(1)] by simp
  qed (use a r in auto)
qed

lemma Idle_kept:
  assumes "keeps call g" "Idle call s = Some (Inr s')"
  shows "kept g s s'"
proof -
  obtain s1 s2 where c: "CheckIfDue call True (s\<lparr>status := IdleMode\<rparr>) = Inr (True, s1)" "fire_due call s1 = Some (Inr s2)"
      "s' = s2\<lparr>yieldOnReturn := False, status := SystemMode\<rparr>"
    using assms(2) by (auto simp: Idle_def bindO_Inr split: sum.splits if_splits)
  show ?thesis using kept_trans [of g s s1 s2] CheckIfDue_kept [OF assms(1) c(1)] fire_due_kept [OF c(2) assms(1) refl] c(3) by simp
qed

end
