(* ===== verification/Sched.thy ===== *)
theory Sched
  imports Interrupts
begin

text \<open>
  threads/thread.cc, threads/scheduler.cc and the thread tables of threads/system.cc.  Threads are
  records in a store, a pointer to one is its address; the ready lists hold (key, thread) pairs, as
  \<open>NachosList\<close> reads them.  The processor is the \<open>Interrupt\<close> record of \<open>Interrupts\<close> with the
  kernel's globals as its \<open>kernel\<close>.  \<open>SWITCH\<close> is assembly: seen from its caller it returns when
  some other thread switches back, in whatever state the other threads have left, so it is the
  argument \<open>switch_to\<close>; its value \<open>None\<close> says that nobody ever switches back.  The register and
  address space work of the user program build is \<open>save_user\<close> and \<open>restore_user\<close>,
  two more arguments; \<open>UserSteps\<close> gives them their code.
\<close>

section \<open>State\<close>

datatype ThreadStatus = JUST_CREATED | RUNNING | READY | BLOCKED | SUSPENDED

datatype SchedPolicy = SCHED_PRIO_P | SCHED_MLQ | SCHED_SJF | SCHED_SRTN | SCHED_FCFS | SCHED_RR | SCHED_MLFQ | SCHED_PRIO_NP

text \<open>\<open>stack\<close> is the word at the bottom of the allocated stack, \<open>None\<close> for NULL; \<open>start\<close> is the
  function and the argument that \<open>ThreadRoot\<close> finds in \<open>machineState\<close>.\<close>

record Thread =
  usrID :: int
  threadID :: int
  priority :: int
  th_stack :: "u32 option"
  start :: "(int \<times> int) option"
  th_status :: ThreadStatus
  timeleft :: int
  th_level :: int
  timeslice :: int
  preempted :: bool
  interrupted :: bool
  joinList :: "(int \<times> nat) list"

definition MAX_PRIORITY :: int where "MAX_PRIORITY = 20"
definition NORM_PRIORITY :: int where "NORM_PRIORITY = 10"
definition InitialSlice :: int where "InitialSlice = 20"
definition STACK_FENCEPOST :: u32 where "STACK_FENCEPOST = 0xdeadbeef"
definition MaxThreadNum :: nat where "MaxThreadNum = 128"

record Scheduler =
  readyList :: "(int \<times> nat) list"
  readyList_1 :: "(int \<times> nat) list"
  readyList_2 :: "(int \<times> nat) list"
  suspendedList :: "(int \<times> nat) list"
  lastSwitchTime :: int
  policy :: SchedPolicy

definition new_Scheduler :: Scheduler where
  "new_Scheduler = \<lparr>readyList = [], readyList_1 = [], readyList_2 = [], suspendedList = [], lastSwitchTime = 0,
     policy = SCHED_PRIO_P\<rparr>"

text \<open>The globals of system.cc; \<open>user\<close> is the state of the user program build.\<close>

record 'u kernel_state =
  threads :: "nat \<rightharpoonup> Thread"
  next_addr :: nat
  currentThread :: nat
  threadToBeDestroyed :: "nat option"
  tid :: "int list"
  threadPort :: "nat option list"
  threadnum :: int
  scheduler :: Scheduler
  user :: 'u

type_synonym ('f, 'u) sys = "('f, 'u kernel_state) system"

record ('f, 'u) env =
  call_fn :: "('f, 'u kernel_state) handlers"
  sched_fn :: 'f      \<comment> \<open>the function \<open>SchedInterruptHandler\<close>\<close>
  switch_to :: "nat \<Rightarrow> nat \<Rightarrow> ('f, 'u) sys \<Rightarrow> ('f, 'u) sys res option"
  save_user :: "('f, 'u) sys \<Rightarrow> ('f, 'u) sys res"
  restore_user :: "('f, 'u) sys \<Rightarrow> ('f, 'u) sys res"

abbreviation cur :: "('f, 'u) sys \<Rightarrow> nat" where "cur s \<equiv> currentThread (kernel s)"
abbreviation sch :: "('f, 'u) sys \<Rightarrow> Scheduler" where "sch s \<equiv> scheduler (kernel s)"

definition set_sch :: "(Scheduler \<Rightarrow> Scheduler) \<Rightarrow> ('f, 'u) sys \<Rightarrow> ('f, 'u) sys" where
  "set_sch g s = s\<lparr>kernel := (kernel s)\<lparr>scheduler := g (sch s)\<rparr>\<rparr>"

definition thread_at :: "nat \<Rightarrow> ('f, 'u) sys \<Rightarrow> Thread res" where
  "thread_at t s = (case threads (kernel s) t of None \<Rightarrow> Inl BadAccess | Some th \<Rightarrow> Inr th)"

definition upd_thread :: "nat \<Rightarrow> (Thread \<Rightarrow> Thread) \<Rightarrow> ('f, 'u) sys \<Rightarrow> ('f, 'u) sys res" where
  "upd_thread t g s = bindR (thread_at t s) (\<lambda>th.
     Inr (s\<lparr>kernel := (kernel s)\<lparr>threads := (threads (kernel s))(t \<mapsto> g th)\<rparr>\<rparr>))"

definition setStatus :: "nat \<Rightarrow> ThreadStatus \<Rightarrow> ('f, 'u) sys \<Rightarrow> ('f, 'u) sys res" where
  "setStatus t st = upd_thread t (th_status_update (\<lambda>_. st))"

section \<open>Creating and deleting threads\<close>

fun first_zero :: "nat \<Rightarrow> int list \<Rightarrow> nat option" where
  "first_zero i [] = None"
| "first_zero i (x # xs) = (if x = 0 then Some i else first_zero (Suc i) xs)"

definition findFreeThreadID :: "'u kernel_state \<Rightarrow> int \<times> 'u kernel_state" where
  "findFreeThreadID k = (case first_zero 0 (tid k) of None \<Rightarrow> (-1, k)
     | Some i \<Rightarrow> (int i, k\<lparr>tid := (tid k)[i := 1]\<rparr>))"

definition freeThreadID :: "int \<Rightarrow> 'u kernel_state \<Rightarrow> 'u kernel_state res" where
  "freeThreadID i k = (if 0 \<le> i \<and> i < int (length (tid k)) then Inr (k\<lparr>tid := (tid k)[nat i := 0]\<rparr>) else Inl BadAccess)"

definition set_port :: "int \<Rightarrow> nat option \<Rightarrow> 'u kernel_state \<Rightarrow> 'u kernel_state res" where
  "set_port i p k = (if 0 \<le> i \<and> i < int (length (threadPort k))
     then Inr (k\<lparr>threadPort := (threadPort k)[nat i := p]\<rparr>) else Inl BadAccess)"

text \<open>The constructor; it never writes \<open>preempted\<close>, which keeps the value \<open>junk\<close> of the allocated memory.\<close>

definition new_Thread :: "bool \<Rightarrow> ('f, 'u) sys \<Rightarrow> (nat \<times> ('f, 'u) sys) res" where
  "new_Thread junk s =
     (let (i, k1) = findFreeThreadID (kernel s);
          a = next_addr k1;
          th = \<lparr>usrID = i, threadID = i, priority = NORM_PRIORITY, th_stack = None, start = None,
                th_status = JUST_CREATED, timeleft = InitialSlice, th_level = 0, timeslice = InitialSlice,
                preempted = junk, interrupted = False, joinList = []\<rparr>;
          n = threadnum k1 + 1;
          k2 = k1\<lparr>threads := (threads k1)(a \<mapsto> th), next_addr := Suc a, threadnum := n\<rparr>
      in bindR (set_port n (Some a) k2) (\<lambda>k3. Inr (a, s\<lparr>kernel := k3\<rparr>)))"

definition delete_Thread :: "nat \<Rightarrow> ('f, 'u) sys \<Rightarrow> ('f, 'u) sys res" where
  "delete_Thread this s = bindR (thread_at this s) (\<lambda>th.
     if this = cur s then Inl AssertFail
     else bindR (freeThreadID (threadID th) (kernel s)) (\<lambda>k1.
          bindR (set_port (threadnum k1) None k1) (\<lambda>k2.
          Inr (s\<lparr>kernel := k2\<lparr>threadnum := threadnum k2 - 1, threads := (threads k2)(this := None)\<rparr>\<rparr>))))"

definition CheckOverflow :: "nat \<Rightarrow> ('f, 'u) sys \<Rightarrow> unit res" where
  "CheckOverflow t s = bindR (thread_at t s) (\<lambda>th.
     (case th_stack th of None \<Rightarrow> Inr () | Some w \<Rightarrow> if w = STACK_FENCEPOST then Inr () else Inl AssertFail))"

definition StackAllocate :: "nat \<Rightarrow> int \<Rightarrow> int \<Rightarrow> ('f, 'u) sys \<Rightarrow> ('f, 'u) sys res" where
  "StackAllocate t func ar = upd_thread t (\<lambda>th. th\<lparr>th_stack := Some STACK_FENCEPOST, start := Some (func, ar)\<rparr>)"

definition Interrupt_thread :: "nat \<Rightarrow> ('f, 'u) sys \<Rightarrow> ('f, 'u) sys res" where
  "Interrupt_thread t = upd_thread t (interrupted_update (\<lambda>_. True))"

definition Interrupted :: "nat \<Rightarrow> ('f, 'u) sys \<Rightarrow> (bool \<times> ('f, 'u) sys) res" where
  "Interrupted t s = bindR (thread_at t s) (\<lambda>th.
     bindR (upd_thread t (interrupted_update (\<lambda>_. False)) s) (\<lambda>s1. Inr (interrupted th, s1)))"

section \<open>The scheduler\<close>

definition ReadyToRun :: "nat \<Rightarrow> ('f, 'u) sys \<Rightarrow> ('f, 'u) sys res" where
  "ReadyToRun t s = bindR (setStatus t READY s) (\<lambda>s. bindR (thread_at t s) (\<lambda>th.
     let k = MAX_PRIORITY - priority th;
         append = (\<lambda>s. Inr (set_sch (readyList_update (\<lambda>l. l @ [(0, t)])) s));
         sorted_in = (\<lambda>s. Inr (set_sch (readyList_update (insert_place (<) (k, t))) s))
     in case policy (sch s) of
       SCHED_FCFS \<Rightarrow> append s
     | SCHED_RR \<Rightarrow> append s
     | SCHED_PRIO_NP \<Rightarrow> sorted_in s
     | SCHED_PRIO_P \<Rightarrow> sorted_in s
     | SCHED_MLQ \<Rightarrow> sorted_in s
     | SCHED_SRTN \<Rightarrow> append s
     | _ \<Rightarrow>
       if th_level th = 0 then bindR (upd_thread t (timeslice_update (\<lambda>_. 3)) s) append
       else if th_level th = 1 then
         (if preempted th then Inr (set_sch (readyList_1_update (\<lambda>l. (0, t) # l)) s)
          else bindR (upd_thread t (timeslice_update (\<lambda>_. if timeleft th \<le> 4 then timeleft th else 4)) s)
                 (\<lambda>s. Inr (set_sch (readyList_1_update (\<lambda>l. l @ [(0, t)])) s)))
       else if th_level th = 2 then
         (if preempted th then Inr (set_sch (readyList_2_update (\<lambda>l. (0, t) # l)) s)
          else Inr (set_sch (readyList_2_update (\<lambda>l. l @ [(0, t)])) s))
       else Inl AssertFail))"

definition FindNextToRun :: "('f, 'u) sys \<Rightarrow> (nat option \<times> ('f, 'u) sys) res" where
  "FindNextToRun s =
     (if level s \<noteq> IntOff then Inl AssertFail
      else case readyList (sch s) of
        (k, t) # l \<Rightarrow> Inr (Some t, set_sch (readyList_update (\<lambda>_. l)) s)
      | [] \<Rightarrow> (case readyList_1 (sch s) of
          (k, t) # l \<Rightarrow> Inr (Some t, set_sch (readyList_1_update (\<lambda>_. l)) s)
        | [] \<Rightarrow> (case readyList_2 (sch s) of
            (k, t) # l \<Rightarrow> Inr (Some t, set_sch (readyList_2_update (\<lambda>_. l)) s)
          | [] \<Rightarrow> Inr (None, s))))"

text \<open>\<open>Run\<close> up to \<open>SWITCH\<close>, and what it does when \<open>SWITCH\<close> has come back.\<close>

definition Run_out :: "('f, 'u) env \<Rightarrow> nat \<Rightarrow> ('f, 'u) sys \<Rightarrow> ('f, 'u) sys res" where
  "Run_out e nextThread s =
     bindR (save_user e s) (\<lambda>s.
     bindR (CheckOverflow (cur s) s) (\<lambda>_.
     bindR (setStatus nextThread RUNNING (s\<lparr>kernel := (kernel s)\<lparr>currentThread := nextThread\<rparr>\<rparr>)) (\<lambda>s.
     if policy (sch s) = SCHED_MLFQ
     then bindR (thread_at nextThread s) (\<lambda>th. Schedule (sched_fn e) 0 (timeslice th * 10) TimerInt s)
     else Inr s)))"

definition Run_back :: "('f, 'u) env \<Rightarrow> ('f, 'u) sys \<Rightarrow> ('f, 'u) sys res" where
  "Run_back e s =
     bindR (case threadToBeDestroyed (kernel s) of None \<Rightarrow> Inr s
        | Some t \<Rightarrow> bindR (delete_Thread t s) (\<lambda>s. Inr (s\<lparr>kernel := (kernel s)\<lparr>threadToBeDestroyed := None\<rparr>\<rparr>)))
       (restore_user e)"

definition Scheduler_Run :: "('f, 'u) env \<Rightarrow> nat \<Rightarrow> ('f, 'u) sys \<Rightarrow> ('f, 'u) sys res option" where
  "Scheduler_Run e nextThread s =
     bindO (Some (Run_out e nextThread s)) (\<lambda>s1.
     bindO (switch_to e (cur s) nextThread s1) (\<lambda>s2. Some (Run_back e s2)))"

text \<open>The first loop of \<open>Suspend\<close> and \<open>Resume\<close>: the thread found, and the others in front of it, reversed by
  \<open>Prepend\<close>; and the loop that puts them back.  \<open>Prepend\<close> gives an element the key 0.\<close>

fun split_list_at :: "nat \<Rightarrow> (int \<times> nat) list \<Rightarrow> (int \<times> nat) list \<Rightarrow> nat option \<times> (int \<times> nat) list \<times> (int \<times> nat) list" where
  "split_list_at thread [] tmp = (None, [], tmp)"
| "split_list_at thread ((k, t) # l) tmp = (if t = thread then (Some t, l, tmp) else split_list_at thread l ((0, t) # tmp))"

fun put_back_list :: "(int \<times> nat) list \<Rightarrow> (int \<times> nat) list \<Rightarrow> (int \<times> nat) list" where
  "put_back_list [] l = l"
| "put_back_list ((k, t) # tmp) l = put_back_list tmp ((0, t) # l)"

text \<open>\<open>t\<close> is not initialized; on an empty list it has the value \<open>junk\<close> of the stack.\<close>

definition last_removed :: "nat \<Rightarrow> (int \<times> nat) list \<Rightarrow> nat option \<Rightarrow> nat" where
  "last_removed junk tmp found = (case found of Some t \<Rightarrow> t | None \<Rightarrow> (case tmp of [] \<Rightarrow> junk | (k, t) # _ \<Rightarrow> t))"

definition Scheduler_Suspend :: "nat \<Rightarrow> nat \<Rightarrow> ('f, 'u) sys \<Rightarrow> ('f, 'u) sys res" where
  "Scheduler_Suspend junk thread s =
     (let (found, l, tmp) = split_list_at thread (readyList (sch s)) [] in
      bindR (if last_removed junk tmp found = thread
             then bindR (setStatus thread SUSPENDED s) (\<lambda>s.
                  Inr (set_sch (suspendedList_update (\<lambda>u. u @ [(0, thread)])) s))
             else Inr s) (\<lambda>s.
      Inr (set_sch (readyList_update (\<lambda>_. put_back_list tmp l)) s)))"

definition Scheduler_Resume :: "nat \<Rightarrow> nat \<Rightarrow> ('f, 'u) sys \<Rightarrow> ('f, 'u) sys res" where
  "Scheduler_Resume junk thread s =
     (let (found, l, tmp) = split_list_at thread (suspendedList (sch s)) [] in
      bindR (if last_removed junk tmp found = thread
             then bindR (setStatus thread READY s) (\<lambda>s.
                  Inr (set_sch (readyList_update (\<lambda>u. u @ [(0, thread)])) s))
             else Inr s) (\<lambda>s.
      Inr (set_sch (suspendedList_update (\<lambda>_. put_back_list tmp l)) s)))"

definition ShouldISwitch :: "nat \<Rightarrow> nat \<Rightarrow> ('f, 'u) sys \<Rightarrow> bool res" where
  "ShouldISwitch oldThread newThread s =
     (case policy (sch s) of
        SCHED_PRIO_P \<Rightarrow> bindR (thread_at newThread s) (\<lambda>n. bindR (thread_at oldThread s) (\<lambda>o'. Inr (priority n > priority o')))
      | SCHED_MLQ \<Rightarrow> bindR (thread_at newThread s) (\<lambda>n. bindR (thread_at oldThread s) (\<lambda>o'. Inr (priority n > priority o')))
      | _ \<Rightarrow> Inr False)"

text \<open>\<open>SetSchedPolicy\<close>; \<open>self\<close> is the timer's own handler and \<open>t\<close> the address of the new timer.\<close>

definition SetSchedPolicy :: "'f \<Rightarrow> ('f, 'u) env \<Rightarrow> int \<Rightarrow> SchedPolicy \<Rightarrow> ('f, 'u) sys \<Rightarrow> ('f, 'u) sys res" where
  "SetSchedPolicy self e t pol s =
     (let s1 = set_sch (policy_update (\<lambda>_. pol)) s in
      if policy (sch s) = pol then Inr s1
      else if pol = SCHED_RR
      then new_Timer self t \<lparr>randomize = False, timer_handler = sched_fn e, timer_arg = 0\<rparr> 0 s1
      else Inr s1)"

definition Scheduler_InterruptHandler :: "('f, 'u) sys \<Rightarrow> ('f, 'u) sys res" where
  "Scheduler_InterruptHandler s =
     (if policy (sch s) = SCHED_RR \<and> status s \<noteq> IdleMode then YieldOnReturn s else Inr s)"

definition CheckIfHigherEnter :: "('f, 'u) sys \<Rightarrow> (bool \<times> ('f, 'u) sys) res" where
  "CheckIfHigherEnter s = bindR (thread_at (cur s) s) (\<lambda>th.
     if (th_level th = 1 \<and> readyList (sch s) \<noteq> [])
        \<or> (th_level th = 2 \<and> \<not> (readyList (sch s) = [] \<and> readyList_1 (sch s) = []))
     then bindR (upd_thread (cur s) (preempted_update (\<lambda>_. True)) s) (\<lambda>s. Inr (True, s))
     else Inr (False, s))"

text \<open>\<open>TimerInterruptHandler\<close> of system.cc.\<close>

definition TimerInterruptHandler :: "('f, 'u) sys \<Rightarrow> ('f, 'u) sys res" where
  "TimerInterruptHandler s = bindR (upd_thread (cur s) (\<lambda>th. th\<lparr>timeleft := timeleft th - 4\<rparr>) s) (\<lambda>s.
     if status s \<noteq> IdleMode then YieldOnReturn s else Inr s)"

section \<open>Giving up the processor\<close>

lemma bindO_mono [partial_function_mono]:
  fixes B :: "('x \<Rightarrow> 'y option) \<Rightarrow> 'z res option"
  assumes "mono_option B" "\<And>y. mono_option (\<lambda>f. C y f)"
  shows "mono_option (\<lambda>f. bindO (B f) (\<lambda>y. C y f))"
proof (rule monotoneI, goal_cases)
  case (1 f g)
  have b: "option_ord (B f) (B g)" using assms(1) 1 by (simp add: monotone_def)
  have c: "option_ord (C y f) (C y g)" for y using assms(2) 1 by (simp add: monotone_def)
  show ?case
  proof (cases "B f = None")
    case False
    with b have "B g = B f" by (simp add: flat_ord_def)
    then show ?thesis using c False by (auto simp: bindO_def flat_ord_def split: option.splits sum.splits)
  qed (simp add: bindO_def flat_ord_def)
qed

lemma OneTick_mono [partial_function_mono]:
  assumes "\<And>s. mono_option (\<lambda>f. Y f s)"
  shows "mono_option (\<lambda>f. OneTick call (Y f) s)"
  unfolding OneTick_def Let_def
  by (intro bindO_mono if_mono option.const_mono assms)

lemma SetLevel_mono [partial_function_mono]:
  assumes "\<And>s. mono_option (\<lambda>f. Y f s)"
  shows "mono_option (\<lambda>f. SetLevel call (Y f) l s)"
  unfolding SetLevel_def Let_def
  by (intro bindO_mono OneTick_mono if_mono option.const_mono assms)

text \<open>What \<open>Yield\<close> does between the two changes of the interrupt level.\<close>

definition Yield_RR :: "('f, 'u) env \<Rightarrow> nat \<Rightarrow> ('f, 'u) sys \<Rightarrow> ('f, 'u) sys res option" where
  "Yield_RR e this s =
     (let t = now s - lastSwitchTime (sch s);
          s1 = set_sch (lastSwitchTime_update (\<lambda>_. now s)) s in
      bindO (Some (FindNextToRun s1)) (\<lambda>(nextThread, s2).
      bindO (Some (upd_thread this (\<lambda>th. th\<lparr>timeleft := timeleft th - t sdiv 10\<rparr>) s2)) (\<lambda>s3.
      case nextThread of None \<Rightarrow> Some (Inr s3)
      | Some n \<Rightarrow> bindO (Some (ReadyToRun this s3)) (Scheduler_Run e n))))"

definition Yield_PRIO :: "('f, 'u) env \<Rightarrow> nat \<Rightarrow> ('f, 'u) sys \<Rightarrow> ('f, 'u) sys res option" where
  "Yield_PRIO e this s =
     bindO (Some (upd_thread this (\<lambda>th. th\<lparr>priority := priority th - MAX_PRIORITY + threadID th\<rparr>) s)) (\<lambda>s1.
     bindO (Some (FindNextToRun s1)) (\<lambda>(nextThread, s2).
     case nextThread of None \<Rightarrow> Some (Inr s2)
     | Some n \<Rightarrow>
       bindO (Some (thread_at n s2)) (\<lambda>nt.
       bindO (Some (thread_at this s2)) (\<lambda>th.
       if priority nt \<ge> priority th
       then bindO (Some (ReadyToRun this s2)) (Scheduler_Run e n)
       else Some (ReadyToRun n s2)))))"

definition Yield_body :: "('f, 'u) env \<Rightarrow> nat \<Rightarrow> ('f, 'u) sys \<Rightarrow> ('f, 'u) sys res option" where
  "Yield_body e this s =
     (if policy (sch s) = SCHED_RR then Yield_RR e this s
      else if policy (sch s) = SCHED_PRIO_P then Yield_PRIO e this s
      else Some (Inr s))"

text \<open>\<open>SetLevel\<close> may take a tick, whose handlers may ask for a context switch, that is for \<open>Yield\<close> again.\<close>

partial_function (option) Yield :: "('f, 'u) env \<Rightarrow> nat \<Rightarrow> ('f, 'u) sys \<Rightarrow> ('f, 'u) sys res option" where
  "Yield e this s =
     bindO (SetLevel (call_fn e) (\<lambda>s. Yield e (cur s) s) IntOff s) (\<lambda>r.
     if this \<noteq> cur (snd r) then Some (Inl AssertFail)
     else bindO (Yield_body e this (snd r)) (\<lambda>s.
          bindO (SetLevel (call_fn e) (\<lambda>s. Yield e (cur s) s) (fst r) s) (\<lambda>r. Some (Inr (snd r)))))"

definition set_level :: "('f, 'u) env \<Rightarrow> IntStatus \<Rightarrow> ('f, 'u) sys \<Rightarrow> (IntStatus \<times> ('f, 'u) sys) res option" where
  "set_level e = SetLevel (call_fn e) (\<lambda>s. Yield e (cur s) s)"

text \<open>\<open>interrupt->SetLevel(IntOff)\<close>, some work, and the old level again.\<close>

definition with_ints_off :: "('f, 'u) env \<Rightarrow> (('f, 'u) sys \<Rightarrow> ('f, 'u) sys res option) \<Rightarrow> ('f, 'u) sys \<Rightarrow> ('f, 'u) sys res option" where
  "with_ints_off e body s =
     bindO (set_level e IntOff s) (\<lambda>(oldLevel, s).
     bindO (body s) (\<lambda>s. bindO (set_level e oldLevel s) (\<lambda>r. Some (Inr (snd r)))))"

text \<open>The loop \<open>while ((nextThread = scheduler->FindNextToRun()) == NULL) interrupt->Idle();\<close>\<close>

partial_function (option) wait_for_thread :: "('f, 'u) env \<Rightarrow> ('f, 'u) sys \<Rightarrow> (nat \<times> ('f, 'u) sys) res option" where
  "wait_for_thread e s = (case FindNextToRun s of Inl x \<Rightarrow> Some (Inl x)
     | Inr (Some t, s1) \<Rightarrow> Some (Inr (t, s1))
     | Inr (None, s1) \<Rightarrow> (case Idle (call_fn e) s1 of None \<Rightarrow> None
         | Some (Inl x) \<Rightarrow> Some (Inl x)
         | Some (Inr s2) \<Rightarrow> wait_for_thread e s2))"

definition Sleep :: "('f, 'u) env \<Rightarrow> nat \<Rightarrow> ('f, 'u) sys \<Rightarrow> ('f, 'u) sys res option" where
  "Sleep e this s =
     (if this \<noteq> cur s \<or> level s \<noteq> IntOff then Some (Inl AssertFail)
      else bindO (Some (setStatus this BLOCKED s)) (\<lambda>s.
           bindO (wait_for_thread e s) (\<lambda>(n, s). Scheduler_Run e n s)))"

definition Finish :: "('f, 'u) env \<Rightarrow> nat \<Rightarrow> ('f, 'u) sys \<Rightarrow> ('f, 'u) sys res option" where
  "Finish e this s =
     bindO (set_level e IntOff s) (\<lambda>(_, s).
     if this \<noteq> cur s then Some (Inl AssertFail)
     else Sleep e this (s\<lparr>kernel := (kernel s)\<lparr>threadToBeDestroyed := Some (cur s)\<rparr>\<rparr>))"

definition Join :: "('f, 'u) env \<Rightarrow> nat \<Rightarrow> ('f, 'u) sys \<Rightarrow> ('f, 'u) sys res option" where
  "Join e this s =
     (if this = cur s then Some (Inl AssertFail)
      else with_ints_off e (\<lambda>s.
        bindO (Some (setStatus (cur s) BLOCKED s)) (\<lambda>s.
        bindO (Some (upd_thread this (\<lambda>th. th\<lparr>joinList := joinList th @ [(0, cur s)]\<rparr>) s)) (\<lambda>s.
        bindO (wait_for_thread e s) (\<lambda>(n, s). Scheduler_Run e n s)))) s)"

definition Fork :: "('f, 'u) env \<Rightarrow> nat \<Rightarrow> int \<Rightarrow> int \<Rightarrow> ('f, 'u) sys \<Rightarrow> ('f, 'u) sys res option" where
  "Fork e this func ar s =
     bindO (Some (thread_at this s)) (\<lambda>th.
     if threadID th = -1
     then Some (delete_Thread this (s\<lparr>kernel := (kernel s)\<lparr>threadnum := threadnum (kernel s) - 1\<rparr>\<rparr>))
     else bindO (Some (StackAllocate this func ar s)) (with_ints_off e (\<lambda>s.
        bindO (Some (ReadyToRun this s)) (\<lambda>s.
        bindO (Some (ShouldISwitch (cur s) this s)) (\<lambda>answer.
        if answer then Yield e (cur s) s else Some (Inr s))))))"

definition Suspend :: "('f, 'u) env \<Rightarrow> nat \<Rightarrow> nat \<Rightarrow> ('f, 'u) sys \<Rightarrow> ('f, 'u) sys res option" where
  "Suspend e junk this = with_ints_off e (\<lambda>s. Some (Scheduler_Suspend junk this s))"

definition Resume :: "('f, 'u) env \<Rightarrow> nat \<Rightarrow> nat \<Rightarrow> ('f, 'u) sys \<Rightarrow> ('f, 'u) sys res option" where
  "Resume e junk this = with_ints_off e (\<lambda>s.
     if this = cur s then Some (Inl AssertFail) else Some (Scheduler_Resume junk this s))"

text \<open>The threads part of \<open>Initialize\<close>: empty tables, the \<open>Thread\<close> \<open>main\<close>, which is running, interrupts on.\<close>

definition init_kernel :: "'u \<Rightarrow> 'u kernel_state" where
  "init_kernel u = \<lparr>threads = (\<lambda>_. None), next_addr = 1, currentThread = 0, threadToBeDestroyed = None,
     tid = replicate MaxThreadNum 0, threadPort = replicate MaxThreadNum None, threadnum = 0,
     scheduler = new_Scheduler, user = u\<rparr>"

definition Initialize :: "('f, 'u) env \<Rightarrow> bool \<Rightarrow> 'u \<Rightarrow> ('f, 'u) sys res option" where
  "Initialize e junk u =
     bindO (Some (new_Thread junk (new_Interrupt new_Statistics (init_kernel u)))) (\<lambda>(a, s).
     bindO (Some (setStatus a RUNNING (s\<lparr>kernel := (kernel s)\<lparr>currentThread := a\<rparr>\<rparr>))) (\<lambda>s.
     bindO (set_level e IntOn s) (\<lambda>r. Some (Inr (snd r)))))"

section \<open>Lemmas on threads and the ready list\<close>

lemma bindO_simps [simp]:
  "bindO None f = None" "bindO (Some (Inl e)) f = Some (Inl e)" "bindO (Some (Inr x)) f = f x"
  by (simp_all add: bindO_def)

lemma set_level_off [simp]: "level s = IntOff \<Longrightarrow> set_level e IntOff s = Some (Inr (IntOff, s))"
  by (simp add: set_level_def SetLevel_def ChangeLevel_def)

lemma Yield_off:
  assumes "level s = IntOff" "this = cur s"
  shows "Yield e this s = bindO (Yield_body e this s) (\<lambda>s. bindO (set_level e IntOff s) (\<lambda>r. Some (Inr (snd r))))"
proof -
  have "SetLevel (call_fn e) (\<lambda>s. Yield e (cur s) s) IntOff s = Some (Inr (IntOff, s))"
    using assms(1) by (simp add: SetLevel_def ChangeLevel_def)
  then show ?thesis using assms(2) by (subst Yield.simps) (simp add: set_level_def)
qed

definition prio_policy :: "SchedPolicy \<Rightarrow> bool" where
  "prio_policy p \<longleftrightarrow> p \<in> {SCHED_PRIO_P, SCHED_PRIO_NP, SCHED_MLQ}"

definition prio_of :: "('f, 'u) sys \<Rightarrow> nat \<Rightarrow> int" where
  "prio_of s t = (case threads (kernel s) t of None \<Rightarrow> 0 | Some th \<Rightarrow> priority th)"

definition ready_threads :: "('f, 'u) sys \<Rightarrow> nat list" where
  "ready_threads s = map snd (readyList (sch s))"

text \<open>The ready list under a priority policy: live threads in the state READY, each once, the keys
  their distances from the highest priority, in order.\<close>

definition ready_core :: "('f, 'u) sys \<Rightarrow> bool" where
  "ready_core s \<longleftrightarrow> prio_policy (policy (sch s)) \<and> readyList_1 (sch s) = [] \<and> readyList_2 (sch s) = []
     \<and> (\<forall>(k, t) \<in> set (readyList (sch s)). \<exists>th. threads (kernel s) t = Some th \<and> th_status th = READY
           \<and> k = MAX_PRIORITY - priority th)
     \<and> distinct (ready_threads s) \<and> sorted (map fst (readyList (sch s)))"

definition ready_ok :: "('f, 'u) sys \<Rightarrow> bool" where
  "ready_ok s \<longleftrightarrow> ready_core s \<and> cur s \<notin> set (ready_threads s)"

lemma ready_prio: "ready_core s \<Longrightarrow> (k, t) \<in> set (readyList (sch s)) \<Longrightarrow> k = MAX_PRIORITY - prio_of s t"
  by (fastforce simp: ready_core_def prio_of_def)

lemma ready_keys:
  assumes "ready_core s"
  shows "readyList (sch s) = map (\<lambda>t. (MAX_PRIORITY - prio_of s t, t)) (ready_threads s)"
proof -
  have "map (\<lambda>t. (MAX_PRIORITY - prio_of s t, t)) (ready_threads s) = map (\<lambda>e. e) (readyList (sch s))"
    unfolding ready_threads_def map_map using ready_prio [OF assms] by (intro map_cong) auto
  then show ?thesis by simp
qed

lemma ready_sorted:
  assumes "ready_core s"
  shows "sorted (map (\<lambda>t. - prio_of s t) (ready_threads s))"
proof -
  have "sorted (map fst (readyList (sch s)))" using assms by (simp add: ready_core_def)
  then show ?thesis unfolding ready_keys [OF assms] by (simp add: sorted_wrt_map o_def)
qed

lemma ready_best:
  assumes "ready_core s" "ready_threads s = t # ts" "u \<in> set ts"
  shows "prio_of s u \<le> prio_of s t"
  using ready_sorted [OF assms(1)] assms(2,3) by auto

text \<open>The state after \<open>ReadyToRun\<close>.\<close>

definition made_ready :: "nat \<Rightarrow> Thread \<Rightarrow> ('f, 'u) sys \<Rightarrow> ('f, 'u) sys" where
  "made_ready t th s = set_sch (readyList_update (insert_place (<) (MAX_PRIORITY - priority th, t)))
     (s\<lparr>kernel := (kernel s)\<lparr>threads := (threads (kernel s))(t \<mapsto> th\<lparr>th_status := READY\<rparr>)\<rparr>\<rparr>)"

lemma ReadyToRun_prio:
  "prio_policy (policy (sch s)) \<Longrightarrow> threads (kernel s) t = Some th \<Longrightarrow> ReadyToRun t s = Inr (made_ready t th s)"
  by (auto simp: ReadyToRun_def prio_policy_def setStatus_def upd_thread_def thread_at_def made_ready_def)

lemma made_ready_simps [simp]:
  "threads (kernel (made_ready t th s)) = (threads (kernel s))(t \<mapsto> th\<lparr>th_status := READY\<rparr>)"
  "sch (made_ready t th s) = (sch s)\<lparr>readyList := insert_place (<) (MAX_PRIORITY - priority th, t) (readyList (sch s))\<rparr>"
  "cur (made_ready t th s) = cur s" "level (made_ready t th s) = level s"
  "threadToBeDestroyed (kernel (made_ready t th s)) = threadToBeDestroyed (kernel s)"
  by (simp_all add: made_ready_def set_sch_def)

lemma insert_place_set: "set (insert_place before kx xs) = insert kx (set xs)"
  by (induction xs) auto

lemma insert_place_snd_distinct:
  "distinct (map snd xs) \<Longrightarrow> t \<notin> set (map snd xs) \<Longrightarrow> distinct (map snd (insert_place before (k, t) xs))"
  by (induction xs) (auto simp: insert_place_set)

lemma insort_key_map: "insort_key f (g x) (map g ys) = map g (insort_key (\<lambda>u. f (g u)) x ys)"
  by (induction ys) simp_all

lemma sort_key_map: "sort_key f (map g ys) = map g (sort_key (\<lambda>u. f (g u)) ys)"
  by (induction ys) (simp_all add: insort_key_map)

lemma sort_key_shift: "sort_key (\<lambda>u. c - p u) ys = sort_key (\<lambda>u. - p u) ys" for p :: "'a \<Rightarrow> int"
proof -
  have i: "insort_key (\<lambda>u. c - p u) x zs = insort_key (\<lambda>u. - p u) x zs" for x zs
    by (induction zs) simp_all
  show ?thesis by (induction ys) (simp_all add: i)
qed

lemma made_ready_core:
  assumes "ready_core s" "threads (kernel s) t = Some th" "t \<notin> set (ready_threads s)"
  shows "ready_core (made_ready t th s)"
    and "ready_threads (made_ready t th s) = sort_key (\<lambda>u. - prio_of s u) (ready_threads s @ [t])"
proof -
  have d: "distinct (map snd (insert_place (<) (MAX_PRIORITY - priority th, t) (readyList (sch s))))"
    using assms by (intro insert_place_snd_distinct) (auto simp: ready_core_def ready_threads_def)
  have s: "sorted (map fst (insert_place (<) (MAX_PRIORITY - priority th, t) (readyList (sch s))))"
    using assms by (intro insert_place_sorted) (simp add: ready_core_def)
  show "ready_core (made_ready t th s)"
    using assms d s by (fastforce simp: ready_core_def ready_threads_def insert_place_set)
  let ?p = "\<lambda>u. - prio_of s u" and ?k = "\<lambda>u. MAX_PRIORITY - prio_of s u"
  have pt: "prio_of s t = priority th" using assms(2) by (simp add: prio_of_def)
  have "ready_threads (made_ready t th s) = map snd (insert_place (<) (?k t, t) (map (\<lambda>u. (?k u, u)) (ready_threads s)))"
    using ready_keys [OF assms(1)] pt by (simp add: ready_threads_def)
  also have "map (\<lambda>u. (?k u, u)) (ready_threads s) = sort_key fst (map (\<lambda>u. (?k u, u)) (ready_threads s))"
    using ready_sorted [OF assms(1)] by (intro sort_key_id_if_sorted [symmetric]) (simp add: sorted_wrt_map o_def)
  also have "map snd (insert_place (<) (?k t, t) (sort_key fst (map (\<lambda>u. (?k u, u)) (ready_threads s))))
      = map snd (sort_key fst (map (\<lambda>u. (?k u, u)) (ready_threads s @ [t])))"
    by (simp add: insert_place_sort_key)
  also have "\<dots> = sort_key ?p (ready_threads s @ [t])"
    unfolding sort_key_map by (simp add: o_def sort_key_shift)
  finally show "ready_threads (made_ready t th s) = sort_key ?p (ready_threads s @ [t])" .
qed

section \<open>Yield\<close>

definition dispatched :: "nat \<Rightarrow> Thread \<Rightarrow> ('f, 'u) sys \<Rightarrow> ('f, 'u) sys" where
  "dispatched n nt s = s\<lparr>kernel := (kernel s)\<lparr>currentThread := n, threads := (threads (kernel s))(n \<mapsto> nt\<lparr>th_status := RUNNING\<rparr>)\<rparr>\<rparr>"

definition stack_ok :: "Thread \<Rightarrow> bool" where
  "stack_ok th \<longleftrightarrow> th_stack th = None \<or> th_stack th = Some STACK_FENCEPOST"

lemma Run_out_plain:
  assumes "save_user e s = Inr s" "threads (kernel s) (cur s) = Some c" "stack_ok c" "threads (kernel s) n = Some nt"
    and "policy (sch s) \<noteq> SCHED_MLFQ"
  shows "Run_out e n s = Inr (dispatched n nt s)"
proof -
  have "CheckOverflow (cur s) s = Inr ()"
    using assms(2,3) by (auto simp: CheckOverflow_def thread_at_def stack_ok_def)
  with assms show ?thesis
    by (simp add: Run_out_def setStatus_def upd_thread_def thread_at_def dispatched_def)
qed

lemma dispatched_simps [simp]:
  "cur (dispatched n nt s) = n" "level (dispatched n nt s) = level s" "sch (dispatched n nt s) = sch s"
  "threads (kernel (dispatched n nt s)) = (threads (kernel s))(n \<mapsto> nt\<lparr>th_status := RUNNING\<rparr>)"
  "ready_threads (dispatched n nt s) = ready_threads s"
  by (simp_all add: dispatched_def ready_threads_def)

text \<open>Changes to threads that are not on the list.\<close>

lemma ready_core_frame:
  assumes "ready_core s" "sch s' = sch s" "\<And>t. t \<in> set (ready_threads s) \<Longrightarrow> threads (kernel s') t = threads (kernel s) t"
  shows "ready_core s'"
proof -
  have "\<exists>th. threads (kernel s') t = Some th \<and> th_status th = READY \<and> k = MAX_PRIORITY - priority th"
    if "(k, t) \<in> set (readyList (sch s))" for k t
  proof -
    have "t \<in> set (ready_threads s)" using that by (force simp: ready_threads_def)
    with assms(1,3) that show ?thesis by (fastforce simp: ready_core_def)
  qed
  with assms(1,2) show ?thesis by (auto simp: ready_core_def ready_threads_def)
qed

text \<open>Taking the first thread off.\<close>

definition popped :: "('f, 'u) sys \<Rightarrow> ('f, 'u) sys" where
  "popped s = set_sch (readyList_update (\<lambda>_. tl (readyList (sch s)))) s"

lemma popped_simps [simp]:
  "threads (kernel (popped s)) = threads (kernel s)" "cur (popped s) = cur s" "level (popped s) = level s"
  "policy (sch (popped s)) = policy (sch s)" "ready_threads (popped s) = tl (ready_threads s)"
  "readyList (sch (popped s)) = tl (readyList (sch s))"
  "readyList_1 (sch (popped s)) = readyList_1 (sch s)" "readyList_2 (sch (popped s)) = readyList_2 (sch s)"
  by (simp_all add: popped_def set_sch_def ready_threads_def map_tl)

lemma popped_core: "ready_core s \<Longrightarrow> ready_core (popped s)"
  by (cases "readyList (sch s)") (auto simp: ready_core_def ready_threads_def popped_def set_sch_def)

lemma FindNextToRun_prio:
  assumes "level s = IntOff" "ready_core s"
  shows "FindNextToRun s = (case ready_threads s of [] \<Rightarrow> Inr (None, s) | t # _ \<Rightarrow> Inr (Some t, popped s))"
  using assms by (auto simp: FindNextToRun_def ready_core_def ready_threads_def popped_def split: list.splits)

definition aged :: "Thread \<Rightarrow> ('f, 'u) sys \<Rightarrow> ('f, 'u) sys" where
  "aged c s = s\<lparr>kernel := (kernel s)\<lparr>threads := (threads (kernel s))(cur s \<mapsto>
     c\<lparr>priority := priority c - MAX_PRIORITY + threadID c\<rparr>)\<rparr>\<rparr>"

lemma aged_simps [simp]:
  "threads (kernel (aged c s)) = (threads (kernel s))(cur s \<mapsto> c\<lparr>priority := priority c - MAX_PRIORITY + threadID c\<rparr>)"
  "cur (aged c s) = cur s" "level (aged c s) = level s" "sch (aged c s) = sch s" "ready_threads (aged c s) = ready_threads s"
  by (simp_all add: aged_def ready_threads_def)

text \<open>The three outcomes of a \<open>Yield\<close> with preemptive priorities.\<close>

lemma upd_aged:
  "threads (kernel s) (cur s) = Some c \<Longrightarrow>
   upd_thread (cur s) (\<lambda>th. th\<lparr>priority := priority th - MAX_PRIORITY + threadID th\<rparr>) s = Inr (aged c s)"
  by (simp add: upd_thread_def thread_at_def aged_def)

lemma Yield_PRIO_none:
  assumes "ready_ok s" "level s = IntOff" "threads (kernel s) (cur s) = Some c" "ready_threads s = []"
  shows "Yield_PRIO e (cur s) s = Some (Inr (aged c s))"
proof -
  have "ready_core (aged c s)" by (rule ready_core_frame [of s]) (use assms in \<open>auto simp: ready_ok_def\<close>)
  then have "FindNextToRun (aged c s) = Inr (None, aged c s)" using assms by (simp add: FindNextToRun_prio)
  then show ?thesis using upd_aged [OF assms(3)] by (simp add: Yield_PRIO_def)
qed

lemma Yield_PRIO_some:
  assumes "ready_ok s" "level s = IntOff" "threads (kernel s) (cur s) = Some c" "ready_threads s = n # ts"
    and "threads (kernel s) n = Some nt"
  shows "Yield_PRIO e (cur s) s =
    (if priority nt \<ge> priority c - MAX_PRIORITY + threadID c
     then Scheduler_Run e n (made_ready (cur s) (c\<lparr>priority := priority c - MAX_PRIORITY + threadID c\<rparr>) (popped (aged c s)))
     else Some (Inr (made_ready n nt (popped (aged c s)))))"
proof -
  have core: "ready_core (aged c s)" by (rule ready_core_frame [of s]) (use assms in \<open>auto simp: ready_ok_def\<close>)
  have n: "n \<noteq> cur s" using assms(1,4) by (auto simp: ready_ok_def)
  have pol: "prio_policy (policy (sch (popped (aged c s))))" using core by (simp add: ready_core_def)
  have "FindNextToRun (aged c s) = Inr (Some n, popped (aged c s))" using assms core by (simp add: FindNextToRun_prio)
  moreover have "thread_at n (popped (aged c s)) = Inr nt" using assms(5) n by (simp add: thread_at_def)
  moreover have "thread_at (cur s) (popped (aged c s)) = Inr (c\<lparr>priority := priority c - MAX_PRIORITY + threadID c\<rparr>)"
    by (simp add: thread_at_def)
  ultimately show ?thesis
    using upd_aged [OF assms(3)] ReadyToRun_prio [OF pol, of n nt] ReadyToRun_prio [OF pol, of "cur s"] assms(5) n
    by (simp add: Yield_PRIO_def)
qed

lemma prio_of_simps [simp]:
  "threads (kernel s) t = Some th \<Longrightarrow> prio_of (made_ready t th s) u = prio_of s u"
  "threads (kernel s) t = Some th \<Longrightarrow> prio_of (dispatched t th s) u = prio_of s u"
  "prio_of (popped s) u = prio_of s u"
  by (auto simp: prio_of_def)

lemma prio_of_aged: "prio_of (aged c s) u = (if u = cur s then priority c - MAX_PRIORITY + threadID c else prio_of s u)"
  by (simp add: prio_of_def)

lemma set_level_IntOff: "set_level e IntOff s = Some (Inr (level s, s\<lparr>level := IntOff\<rparr>))"
  by (simp add: set_level_def SetLevel_def ChangeLevel_def)

lemma Run_plain:
  assumes "\<forall>s. save_user e s = Inr s" "threads (kernel s) (cur s) = Some c" "stack_ok c" "threads (kernel s) n = Some nt"
    and "policy (sch s) \<noteq> SCHED_MLFQ"
  shows "Scheduler_Run e n s = bindO (switch_to e (cur s) n (dispatched n nt s)) (\<lambda>s2. Some (Run_back e s2))"
  using Run_out_plain [OF _ assms(2-5), of e] assms(1) by (simp add: Scheduler_Run_def)

lemma bindO_assoc: "bindO (bindO m f) g = bindO m (\<lambda>x. bindO (f x) g)"
  by (simp add: bindO_def split: option.splits sum.splits)

lemma ready_live: "ready_core s \<Longrightarrow> t \<in> set (ready_threads s) \<Longrightarrow> \<exists>th. threads (kernel s) t = Some th"
  by (fastforce simp: ready_core_def ready_threads_def)

section \<open>Suspend\<close>

lemma split_list_at_found:
  "t \<notin> set (map snd us) \<Longrightarrow> split_list_at t (us @ (k, t) # vs) tmp = (Some t, vs, rev (map (\<lambda>e. (0, snd e)) us) @ tmp)"
  by (induction us arbitrary: tmp) auto

lemma put_back_list_rev: "put_back_list tmp l = rev (map (\<lambda>e. (0, snd e)) tmp) @ l"
  by (induction tmp arbitrary: l) auto

lemma insert_after_zeros:
  "0 \<le> k \<Longrightarrow> insert_place (<) (k, u) (map (Pair 0) us @ vs) = map (Pair 0) us @ insert_place (<) (k, u) vs"
  by (induction us) auto

section \<open>Thread numbers\<close>

definition live :: "('f, 'u) sys \<Rightarrow> nat set" where "live s = dom (threads (kernel s))"

definition id_of :: "('f, 'u) sys \<Rightarrow> nat \<Rightarrow> int" where
  "id_of s t = (case threads (kernel s) t of None \<Rightarrow> -1 | Some th \<Rightarrow> threadID th)"

text \<open>The numbers of the live threads are exactly the entries of \<open>tid\<close> in use, and no two threads share one.\<close>

definition ids_ok :: "('f, 'u) sys \<Rightarrow> bool" where
  "ids_ok s \<longleftrightarrow> length (tid (kernel s)) = MaxThreadNum \<and> length (threadPort (kernel s)) = MaxThreadNum
     \<and> finite (live s) \<and> (\<forall>t \<in> live s. t < next_addr (kernel s))
     \<and> inj_on (id_of s) (live s)
     \<and> id_of s ` live s = int ` {i. i < MaxThreadNum \<and> tid (kernel s) ! i \<noteq> 0}
     \<and> threadnum (kernel s) = int (card (live s))"

lemma first_zero_Some: "first_zero n xs = Some i \<Longrightarrow> n \<le> i \<and> i - n < length xs \<and> xs ! (i - n) = 0 \<and> (\<forall>j < i - n. xs ! j \<noteq> 0)"
proof (induction xs arbitrary: n)
  case (Cons x xs)
  show ?case
  proof (cases "x = 0")
    case False
    with Cons have "Suc n \<le> i \<and> i - Suc n < length xs \<and> xs ! (i - Suc n) = 0 \<and> (\<forall>j < i - Suc n. xs ! j \<noteq> 0)" by simp
    with False show ?thesis by (auto simp: nth_Cons' Suc_diff_Suc)
  qed (use Cons in auto)
qed simp

lemma first_zero_None: "first_zero n xs = None \<longleftrightarrow> (\<forall>x \<in> set xs. x \<noteq> 0)"
  by (induction xs arbitrary: n) auto

lemma ids_card:
  assumes "ids_ok s"
  shows "card (live s) = card {i. i < MaxThreadNum \<and> tid (kernel s) ! i \<noteq> 0}"
proof -
  have "inj_on (id_of s) (live s)" using assms by (simp add: ids_ok_def)
  then have "card (live s) = card (id_of s ` live s)" by (rule card_image [symmetric])
  also have "id_of s ` live s = int ` {i. i < MaxThreadNum \<and> tid (kernel s) ! i \<noteq> 0}"
    using assms unfolding ids_ok_def by blast
  also have "card \<dots> = card {i. i < MaxThreadNum \<and> tid (kernel s) ! i \<noteq> 0}" by (intro card_image) simp
  finally show ?thesis .
qed

lemma free_id_exists:
  assumes "ids_ok s" "threadnum (kernel s) < int MaxThreadNum"
  shows "\<exists>i. first_zero 0 (tid (kernel s)) = Some i"
proof (rule ccontr)
  assume "\<not> ?thesis"
  then have "\<forall>x \<in> set (tid (kernel s)). x \<noteq> 0" using first_zero_None [of 0] by fastforce
  then have "{i. i < MaxThreadNum \<and> tid (kernel s) ! i \<noteq> 0} = {..<MaxThreadNum}"
    using assms(1) by (auto simp: ids_ok_def)
  then have "card (live s) = MaxThreadNum" using ids_card [OF assms(1)] by simp
  with assms show False by (simp add: ids_ok_def)
qed

definition with_thread :: "bool \<Rightarrow> nat \<Rightarrow> ('f, 'u) sys \<Rightarrow> ('f, 'u) sys" where
  "with_thread junk i s = s\<lparr>kernel := (kernel s)\<lparr>
     threads := (threads (kernel s))(next_addr (kernel s) \<mapsto>
       \<lparr>usrID = int i, threadID = int i, priority = NORM_PRIORITY, th_stack = None, start = None,
        th_status = JUST_CREATED, timeleft = InitialSlice, th_level = 0, timeslice = InitialSlice,
        preempted = junk, interrupted = False, joinList = []\<rparr>),
     next_addr := Suc (next_addr (kernel s)), tid := (tid (kernel s))[i := 1],
     threadPort := (threadPort (kernel s))[nat (threadnum (kernel s) + 1) := Some (next_addr (kernel s))],
     threadnum := threadnum (kernel s) + 1\<rparr>\<rparr>"

lemma new_Thread_eq:
  assumes "ids_ok s" "first_zero 0 (tid (kernel s)) = Some i" "threadnum (kernel s) + 1 < int MaxThreadNum"
  shows "new_Thread junk s = Inr (next_addr (kernel s), with_thread junk i s)"
proof -
  have "0 \<le> threadnum (kernel s)" using assms(1) by (simp add: ids_ok_def)
  then show ?thesis using assms
    by (simp add: new_Thread_def findFreeThreadID_def set_port_def with_thread_def ids_ok_def Let_def)
qed

lemma with_thread_ids:
  assumes ok: "ids_ok s" and i: "i < MaxThreadNum" "tid (kernel s) ! i = 0"
  shows "ids_ok (with_thread junk i s)"
proof -
  let ?s = "with_thread junk i s" and ?a = "next_addr (kernel s)"
  have a: "?a \<notin> live s" using ok by (auto simp: ids_ok_def)
  have lv: "live ?s = insert ?a (live s)" by (auto simp: live_def with_thread_def)
  have ia: "id_of ?s ?a = int i" by (simp add: id_of_def with_thread_def)
  have ib: "id_of ?s t = id_of s t" if "t \<in> live s" for t using that a by (auto simp: id_of_def with_thread_def)
  have "id_of ?s ` live s = id_of s ` live s" by (rule image_cong [OF refl ib])
  then have im: "id_of ?s ` live ?s = insert (int i) (id_of s ` live s)" unfolding lv by (simp add: ia)
  have ni: "int i \<notin> id_of s ` live s" using ok i by (auto simp: ids_ok_def)
  have inj: "inj_on (id_of ?s) (live ?s)"
    unfolding lv inj_on_insert ia using \<open>id_of ?s ` live s = id_of s ` live s\<close> ok ni a inj_on_cong [of "live s" "id_of ?s" "id_of s"] ib
    by (simp add: ids_ok_def)
  have tid': "tid (kernel ?s) = (tid (kernel s))[i := 1]" by (simp add: with_thread_def)
  have "{j. j < MaxThreadNum \<and> tid (kernel ?s) ! j \<noteq> 0} = insert i {j. j < MaxThreadNum \<and> tid (kernel s) ! j \<noteq> 0}"
    unfolding tid' using ok i by (auto simp: ids_ok_def nth_list_update)
  then have use: "id_of ?s ` live ?s = int ` {j. j < MaxThreadNum \<and> tid (kernel ?s) ! j \<noteq> 0}"
    using im ok by (simp add: ids_ok_def)
  have "next_addr (kernel ?s) = Suc ?a" "threadnum (kernel ?s) = threadnum (kernel s) + 1"
    "length (tid (kernel ?s)) = length (tid (kernel s))" "length (threadPort (kernel ?s)) = length (threadPort (kernel s))"
    by (simp_all add: with_thread_def)
  moreover have "\<forall>t \<in> live ?s. t < Suc ?a" "card (live ?s) = Suc (card (live s))" "finite (live ?s)"
    using ok a lv by (auto simp: ids_ok_def intro: less_SucI)
  ultimately show ?thesis using ok inj use by (simp add: ids_ok_def)
qed

text \<open>Deleting a thread.\<close>

definition without_thread :: "nat \<Rightarrow> ('f, 'u) sys \<Rightarrow> ('f, 'u) sys" where
  "without_thread t s = s\<lparr>kernel := (kernel s)\<lparr>
     threads := (threads (kernel s))(t := None), tid := (tid (kernel s))[nat (id_of s t) := 0],
     threadPort := (threadPort (kernel s))[nat (threadnum (kernel s)) := None],
     threadnum := threadnum (kernel s) - 1\<rparr>\<rparr>"

lemma live_id: "ids_ok s \<Longrightarrow> t \<in> live s \<Longrightarrow> 0 \<le> id_of s t \<and> id_of s t < int MaxThreadNum \<and> tid (kernel s) ! nat (id_of s t) \<noteq> 0"
proof -
  assume ok: "ids_ok s" and t: "t \<in> live s"
  then have "id_of s t \<in> int ` {i. i < MaxThreadNum \<and> tid (kernel s) ! i \<noteq> 0}" unfolding ids_ok_def by blast
  then show ?thesis by auto
qed

lemma delete_Thread_eq:
  assumes "ids_ok s" "t \<in> live s" "t \<noteq> cur s" "threadnum (kernel s) < int MaxThreadNum"
  shows "delete_Thread t s = Inr (without_thread t s)"
proof -
  obtain th where th: "threads (kernel s) t = Some th" using assms(2) by (auto simp: live_def)
  have "id_of s t = threadID th" using th by (simp add: id_of_def)
  moreover have "0 \<le> threadnum (kernel s)" using assms(1) by (simp add: ids_ok_def)
  ultimately show ?thesis using assms th live_id [OF assms(1,2)]
    by (simp add: delete_Thread_def thread_at_def freeThreadID_def set_port_def without_thread_def ids_ok_def)
qed

lemma without_thread_ids:
  assumes ok: "ids_ok s" and t: "t \<in> live s"
  shows "ids_ok (without_thread t s)"
proof -
  let ?s = "without_thread t s"
  have lv: "live ?s = live s - {t}" by (auto simp: live_def without_thread_def)
  have ib: "id_of ?s u = id_of s u" if "u \<in> live s - {t}" for u using that by (auto simp: id_of_def without_thread_def)
  have injs: "inj_on (id_of s) (live s)" using ok by (simp add: ids_ok_def)
  have img: "id_of ?s ` live ?s = id_of s ` live s - {id_of s t}"
  proof -
    have "id_of ?s ` (live s - {t}) = id_of s ` (live s - {t})" by (rule image_cong [OF refl ib])
    then show ?thesis unfolding lv using injs t by (auto simp: inj_on_def)
  qed
  have i: "0 \<le> id_of s t" "id_of s t < int MaxThreadNum" using live_id [OF ok t] by auto
  have im: "id_of s ` live s = int ` {i. i < MaxThreadNum \<and> tid (kernel s) ! i \<noteq> 0}" using ok unfolding ids_ok_def by blast
  have tid': "tid (kernel ?s) = (tid (kernel s))[nat (id_of s t) := 0]" by (simp add: without_thread_def)
  have "{j. j < MaxThreadNum \<and> tid (kernel ?s) ! j \<noteq> 0} = {j. j < MaxThreadNum \<and> tid (kernel s) ! j \<noteq> 0} - {nat (id_of s t)}"
    unfolding tid' using ok i by (auto simp: ids_ok_def nth_list_update)
  then have use: "id_of ?s ` live ?s = int ` {j. j < MaxThreadNum \<and> tid (kernel ?s) ! j \<noteq> 0}"
    unfolding img im using i(1) by (simp add: image_set_diff [OF inj_of_nat])
  have "inj_on (id_of ?s) (live ?s)" unfolding lv using inj_on_subset [OF injs, of "live s - {t}"] inj_on_cong [of "live s - {t}" "id_of ?s" "id_of s"] ib
    by blast
  moreover have "card (live ?s) = card (live s) - 1" "card (live s) > 0" "finite (live ?s)"
    using ok t lv by (auto simp: ids_ok_def card_gt_0_iff)
  moreover have "next_addr (kernel ?s) = next_addr (kernel s)" "threadnum (kernel ?s) = threadnum (kernel s) - 1"
    "length (tid (kernel ?s)) = length (tid (kernel s))" "length (threadPort (kernel ?s)) = length (threadPort (kernel s))"
    by (simp_all add: without_thread_def)
  ultimately show ?thesis using ok use lv by (simp add: ids_ok_def of_nat_diff)
qed

section \<open>Properties\<close>

definition sample_thread :: "int \<Rightarrow> int \<Rightarrow> ThreadStatus \<Rightarrow> Thread" where
  "sample_thread i p st = \<lparr>usrID = i, threadID = i, priority = p, th_stack = None, start = None, th_status = st,
     timeleft = 20, th_level = 0, timeslice = 20, preempted = False, interrupted = False, joinList = []\<rparr>"

definition sample_sched :: "(nat, unit) sys" where
  "sample_sched = \<lparr>level = IntOff, pending = [], inHandler = False, yieldOnReturn = False, status = SystemMode,
     stats = new_Statistics, machine = None, kernel = \<lparr>threads = [1 \<mapsto> sample_thread 0 10 RUNNING, 2 \<mapsto> sample_thread 1 15 READY,
         3 \<mapsto> sample_thread 2 12 READY, 4 \<mapsto> sample_thread 3 20 BLOCKED],
       next_addr = 5, currentThread = 1, threadToBeDestroyed = None, tid = [1, 1, 1, 1] @ replicate 124 0,
       threadPort = [None, Some 1, Some 2, Some 3, Some 4] @ replicate 123 None, threadnum = 4,
       scheduler = new_Scheduler\<lparr>readyList := [(5, 2), (8, 3)]\<rparr>, user = ()\<rparr>\<rparr>"

definition sample_env :: "(nat, unit) env" where
  "sample_env = \<lparr>call_fn = (\<lambda>_ _ s. Inr s), sched_fn = 0, switch_to = (\<lambda>_ _ s. Some (Inr s)), save_user = Inr, restore_user = Inr\<rparr>"

lemma sample_sched_facts:
  "policy (sch sample_sched) = SCHED_PRIO_P" "level sample_sched = IntOff"
  by (simp_all add: sample_sched_def new_Scheduler_def)

lemma sample_sched_ready: "ready_ok sample_sched"
  by (simp add: ready_ok_def ready_core_def ready_threads_def prio_policy_def sample_sched_def new_Scheduler_def
      sample_thread_def MAX_PRIORITY_def)

text \<open>\<open>Yield\<close> with a ready thread, in the two cases.\<close>

lemma Yield_keeps:
  assumes "ready_ok s" "policy (sch s) = SCHED_PRIO_P" "level s = IntOff" "threads (kernel s) (cur s) = Some c" "stack_ok c"
    and "\<forall>s. save_user e s = Inr s" "ready_threads s = n # ts" "threads (kernel s) n = Some nt"
    and True: "priority nt < priority c - MAX_PRIORITY + threadID c"
  shows "\<exists>s'. Yield e (cur s) s = Some (Inr s') \<and> cur s' = cur s \<and> ready_ok s' \<and> set (ready_threads s') = set (ready_threads s)
       \<and> (\<forall>u \<in> set (ready_threads s'). prio_of s' u < prio_of s' (cur s'))"
proof -
  let ?c = "c\<lparr>priority := priority c - MAX_PRIORITY + threadID c\<rparr>" and ?s = "popped (aged c s)"
  have core: "ready_core (aged c s)" by (rule ready_core_frame [of s]) (use assms in \<open>auto simp: ready_ok_def\<close>)
  have n: "n \<noteq> cur s" "n \<notin> set ts" "cur s \<notin> set ts" using assms(1,7) by (auto simp: ready_ok_def ready_core_def)
  have pn: "prio_of s n = priority nt" using assms(8) by (simp add: prio_of_def)
  have tn: "threads (kernel ?s) n = Some nt" "threads (kernel ?s) (cur s) = Some ?c" using assms(8) n by auto
  have ts: "ready_threads ?s = ts" using assms(7) by simp
  have best: "prio_of ?s u \<le> priority nt" if "u \<in> set ts" for u
    using ready_best [OF core, of n ts u] that assms(7) n pn by (simp add: prio_of_aged)
  note Y = Yield_PRIO_some [OF assms(1,3,4,7,8), of e]
  let ?s' = "made_ready n nt ?s"
  note mr = made_ready_core [OF popped_core [OF core] tn(1)]
  have "Yield e (cur s) s = Some (Inr ?s')"
    using Y True Yield_off [OF assms(3) refl, of e] assms(2,3) by (simp add: Yield_body_def)
  moreover have "ready_ok ?s'" "set (ready_threads ?s') = set (ready_threads s)"
    using mr ts n assms(7) by (auto simp: ready_ok_def)
  moreover have "\<forall>u \<in> set (ready_threads ?s'). prio_of ?s' u < prio_of ?s' (cur ?s')"
  proof
    fix u assume "u \<in> set (ready_threads ?s')"
    then have "u = n \<or> u \<in> set ts" using mr ts n by auto
    then show "prio_of ?s' u < prio_of ?s' (cur ?s')"
      using best [of u] True tn(1) n pn by (auto simp: prio_of_aged)
  qed
  ultimately show ?thesis by auto
qed

lemma Yield_switches:
  assumes "ready_ok s" "policy (sch s) = SCHED_PRIO_P" "level s = IntOff" "threads (kernel s) (cur s) = Some c" "stack_ok c"
    and "\<forall>s. save_user e s = Inr s" "ready_threads s = n # ts" "threads (kernel s) n = Some nt"
    and False: "\<not> priority nt < priority c - MAX_PRIORITY + threadID c"
  shows "\<exists>s1. Yield e (cur s) s = bindO (switch_to e (cur s) n s1)
           (\<lambda>s2. bindO (Some (Run_back e s2)) (\<lambda>s3. Some (Inr (s3\<lparr>level := IntOff\<rparr>))))
       \<and> cur s1 = n \<and> ready_ok s1 \<and> ready_threads s1 = sort_key (\<lambda>u. - prio_of s1 u) (ts @ [cur s])
       \<and> (\<forall>u \<in> set (ready_threads s1). prio_of s1 u \<le> prio_of s1 (cur s1))"
proof -
  let ?c = "c\<lparr>priority := priority c - MAX_PRIORITY + threadID c\<rparr>" and ?s = "popped (aged c s)"
  have core: "ready_core (aged c s)" by (rule ready_core_frame [of s]) (use assms in \<open>auto simp: ready_ok_def\<close>)
  have n: "n \<noteq> cur s" "n \<notin> set ts" "cur s \<notin> set ts" using assms(1,7) by (auto simp: ready_ok_def ready_core_def)
  have pn: "prio_of s n = priority nt" using assms(8) by (simp add: prio_of_def)
  have tn: "threads (kernel ?s) n = Some nt" "threads (kernel ?s) (cur s) = Some ?c" using assms(8) n by auto
  have ts: "ready_threads ?s = ts" using assms(7) by simp
  have best: "prio_of ?s u \<le> priority nt" if "u \<in> set ts" for u
    using ready_best [OF core, of n ts u] that assms(7) n pn by (simp add: prio_of_aged)
  note Y = Yield_PRIO_some [OF assms(1,3,4,7,8), of e]
  let ?m = "made_ready (cur s) ?c ?s"
  let ?s1 = "dispatched n nt ?m"
  note mr = made_ready_core [OF popped_core [OF core] tn(2)]
  have tm: "threads (kernel ?m) n = Some nt" "threads (kernel ?m) (cur ?m) = Some (?c\<lparr>th_status := READY\<rparr>)"
    using tn n by auto
  have so: "stack_ok (?c\<lparr>th_status := READY\<rparr>)" using assms(5) by (simp add: stack_ok_def)
  have R: "Scheduler_Run e n ?m = bindO (switch_to e (cur s) n ?s1) (\<lambda>s2. Some (Run_back e s2))"
    using Run_plain [OF assms(6) tm(2) so tm(1)] assms(2) by simp
  have "Yield e (cur s) s = bindO (switch_to e (cur s) n ?s1)
         (\<lambda>s2. bindO (Some (Run_back e s2)) (\<lambda>s3. Some (Inr (s3\<lparr>level := IntOff\<rparr>))))"
    using Y False R Yield_off [OF assms(3) refl, of e] assms(2)
    by (simp add: Yield_body_def bindO_assoc set_level_IntOff)
  moreover have "ready_core ?s1" by (rule ready_core_frame [of ?m]) (use mr ts n in auto)
  moreover have rt: "ready_threads ?s1 = sort_key (\<lambda>u. - prio_of ?s1 u) (ts @ [cur s])"
    using mr(2) ts n tm(1) tn(2) by simp
  moreover have "\<forall>u \<in> set (ready_threads ?s1). prio_of ?s1 u \<le> prio_of ?s1 (cur ?s1)"
  proof
    fix u assume "u \<in> set (ready_threads ?s1)"
    then have "u = cur s \<or> u \<in> set ts" using rt by (auto simp del: dispatched_simps)
    then show "prio_of ?s1 u \<le> prio_of ?s1 (cur ?s1)"
      using best [of u] False tm(1) tn(2) n pn by (auto simp: prio_of_aged)
  qed
  moreover have ok: "cur ?s1 \<notin> set (ready_threads ?s1)" using rt n by (simp del: dispatched_simps(5))
  ultimately show ?thesis unfolding ready_ok_def by (intro exI [of _ ?s1] conjI) simp_all
qed

text \<open>C24: with preemptive priorities and interrupts off, \<open>Yield\<close> ages the running thread (its priority drops by 20
  less its number) and keeps it running exactly if no ready thread has at least that priority; the ready
  threads stay the same then.  Otherwise it switches to the first ready thread, which no ready thread
  exceeds in priority, and at the switch the ready list is again in order, with the yielding thread
  behind the others of its priority.  The comments of \<open>Yield\<close> in thread.cc and thread.h say something else: that the
  thread gives up the CPU whenever another one is ready, and goes to the end of the ready list.  Under this policy it does
  neither: it goes on against ready threads of a lower priority, and its place in the list is that of its priority.\<close>

theorem Yield_dispatches_best:
  assumes "ready_ok s" "policy (sch s) = SCHED_PRIO_P" "level s = IntOff" "threads (kernel s) (cur s) = Some c" "stack_ok c"
    and "\<forall>s. save_user e s = Inr s"
  shows "if ready_threads s = [] \<or> prio_of s (hd (ready_threads s)) < priority c - MAX_PRIORITY + threadID c
    then \<exists>s'. Yield e (cur s) s = Some (Inr s') \<and> cur s' = cur s \<and> ready_ok s' \<and> set (ready_threads s') = set (ready_threads s)
       \<and> (\<forall>u \<in> set (ready_threads s'). prio_of s' u < prio_of s' (cur s'))
    else \<exists>s1. Yield e (cur s) s = bindO (switch_to e (cur s) (hd (ready_threads s)) s1)
           (\<lambda>s2. bindO (Some (Run_back e s2)) (\<lambda>s3. Some (Inr (s3\<lparr>level := IntOff\<rparr>))))
       \<and> cur s1 = hd (ready_threads s) \<and> ready_ok s1
       \<and> ready_threads s1 = sort_key (\<lambda>u. - prio_of s1 u) (tl (ready_threads s) @ [cur s])
       \<and> (\<forall>u \<in> set (ready_threads s1). prio_of s1 u \<le> prio_of s1 (cur s1))"
proof (cases "ready_threads s")
  case Nil
  have "ready_core (aged c s)" by (rule ready_core_frame [of s]) (use assms in \<open>auto simp: ready_ok_def\<close>)
  then have "ready_ok (aged c s)" using assms(1) by (simp add: ready_ok_def)
  then show ?thesis
    using Nil Yield_PRIO_none [OF assms(1,3,4) Nil, of e] assms(2) Yield_off [OF assms(3) refl, of e] assms(3)
    by (simp add: Yield_body_def)
next
  case (Cons n ts)
  obtain nt where nt: "threads (kernel s) n = Some nt" using ready_live [of s n] assms(1) Cons by (auto simp: ready_ok_def)
  have pn: "prio_of s n = priority nt" using nt by (simp add: prio_of_def)
  show ?thesis
    using Yield_keeps [OF assms Cons nt] Yield_switches [OF assms Cons nt] pn Cons
    by (cases "priority nt < priority c - MAX_PRIORITY + threadID c") simp_all
qed

theorem Yield_dispatches_best_witness:
  "\<exists>s1. Yield sample_env 1 sample_sched = bindO (switch_to sample_env 1 2 s1)
      (\<lambda>s2. bindO (Some (Run_back sample_env s2)) (\<lambda>s3. Some (Inr (s3\<lparr>level := IntOff\<rparr>))))
    \<and> cur s1 = 2 \<and> ready_ok s1 \<and> set (ready_threads s1) = {1, 3}"
proof -
  have h: "threads (kernel sample_sched) (cur sample_sched) = Some (sample_thread 0 10 RUNNING)"
    "stack_ok (sample_thread 0 10 RUNNING)" "\<forall>s. save_user sample_env s = Inr s"
    by (simp_all add: sample_sched_def sample_thread_def stack_ok_def sample_env_def)
  have v: "ready_threads sample_sched = [2, 3]" "prio_of sample_sched 2 = 15" "cur sample_sched = 1"
    by (simp_all add: ready_threads_def sample_sched_def prio_of_def sample_thread_def)
  have neg: "\<not> (ready_threads sample_sched = [] \<or> prio_of sample_sched (hd (ready_threads sample_sched)) <
      priority (sample_thread 0 10 RUNNING) - MAX_PRIORITY + threadID (sample_thread 0 10 RUNNING))"
    using v by (simp add: sample_thread_def MAX_PRIORITY_def)
  from Yield_dispatches_best [OF sample_sched_ready sample_sched_facts(1,2) h, unfolded if_not_P [OF neg], unfolded v(1,3) list.sel]
  obtain s1 where s1: "Yield sample_env 1 sample_sched = bindO (switch_to sample_env 1 2 s1)
      (\<lambda>s2. bindO (Some (Run_back sample_env s2)) (\<lambda>s3. Some (Inr (s3\<lparr>level := IntOff\<rparr>))))"
    "cur s1 = 2" "ready_ok s1" "ready_threads s1 = sort_key (\<lambda>u. - prio_of s1 u) ([3] @ [1])" by blast
  have "set (ready_threads s1) = {1, 3}" unfolding s1(4) by auto
  with s1(1-3) show ?thesis by blast
qed

text \<open>Suspending a ready thread takes it off the ready list and keeps the order of the others, but the
  threads in front of it come back with the key 0 of \<open>Prepend\<close>: a thread that becomes ready afterwards
  is put behind all of them, however much higher its priority is, and the first of them runs before it.\<close>

theorem Suspend_overrides_priorities:
  assumes "ready_ok s" "level s = IntOff" "ready_threads s = ts @ t # vs"
    and "threads (kernel s) u = Some uth" "u \<notin> set (ts @ t # vs)" "priority uth \<le> MAX_PRIORITY"
  shows "\<exists>s1 s2 ws. Scheduler_Suspend junk t s = Inr s1 \<and> ready_threads s1 = ts @ vs
    \<and> suspendedList (sch s1) = suspendedList (sch s) @ [(0, t)] \<and> map_option th_status (threads (kernel s1) t) = Some SUSPENDED
    \<and> ReadyToRun u s1 = Inr s2 \<and> ready_threads s2 = ts @ ws \<and> u \<in> set ws
    \<and> (ts \<noteq> [] \<longrightarrow> FindNextToRun s2 = Inr (Some (hd ts), popped s2))"
proof -
  have core: "ready_core s" using assms(1) by (simp add: ready_ok_def)
  have "t \<in> set (ready_threads s)" using assms(3) by simp
  then obtain th where th: "threads (kernel s) t = Some th" using ready_live [OF core] by blast
  obtain us k vl where l: "readyList (sch s) = us @ (k, t) # vl" "map snd us = ts" "map snd vl = vs"
    using assms(3) by (auto simp: ready_threads_def map_eq_append_conv map_eq_Cons_conv)
  have nt: "t \<notin> set (map snd us)" using core l by (auto simp: ready_core_def ready_threads_def)
  let ?s1 = "set_sch (readyList_update (\<lambda>_. map (Pair 0) ts @ vl)) (set_sch (suspendedList_update (\<lambda>q. q @ [(0, t)]))
     (s\<lparr>kernel := (kernel s)\<lparr>threads := (threads (kernel s))(t \<mapsto> th\<lparr>th_status := SUSPENDED\<rparr>)\<rparr>\<rparr>))"
  have put: "put_back_list (rev (map (\<lambda>e. (0, snd e)) us)) vl = map (Pair 0) ts @ vl"
    using l(2) by (auto simp: put_back_list_rev rev_map o_def)
  have S: "Scheduler_Suspend junk t s = Inr ?s1"
    using split_list_at_found [OF nt, of k vl "[]"] put l(1) th
    by (simp add: Scheduler_Suspend_def last_removed_def setStatus_def upd_thread_def thread_at_def set_sch_def)
  have f1: "ready_threads ?s1 = ts @ vs" "suspendedList (sch ?s1) = suspendedList (sch s) @ [(0, t)]"
    "threads (kernel ?s1) t = Some (th\<lparr>th_status := SUSPENDED\<rparr>)" "policy (sch ?s1) = policy (sch s)" "level ?s1 = level s"
    "readyList (sch ?s1) = map (Pair 0) ts @ vl" "threads (kernel ?s1) u = Some uth"
    using l assms by (auto simp: ready_threads_def set_sch_def o_def)
  let ?s2 = "made_ready u uth ?s1" and ?ws = "map snd (insert_place (<) (MAX_PRIORITY - priority uth, u) vl)"
  have R: "ReadyToRun u ?s1 = Inr ?s2"
    by (rule ReadyToRun_prio) (use core f1 in \<open>simp_all add: ready_core_def\<close>)
  have rl: "readyList (sch ?s2) = map (Pair 0) ts @ insert_place (<) (MAX_PRIORITY - priority uth, u) vl"
    using f1(6) insert_after_zeros [of "MAX_PRIORITY - priority uth" u ts vl] assms(6) by simp
  have r2: "ready_threads ?s2 = ts @ ?ws" using rl by (simp add: ready_threads_def o_def)
  have u: "u \<in> set ?ws" by (force simp: insert_place_set)
  have F: "FindNextToRun ?s2 = Inr (Some (hd ts), popped ?s2)" if "ts \<noteq> []"
    using that rl assms(2) f1(5) by (cases ts) (auto simp: FindNextToRun_def popped_def)
  show ?thesis using S f1 R r2 u F by (intro exI [of _ ?s1] exI [of _ ?s2] exI [of _ ?ws] conjI) simp_all
qed

theorem Suspend_overrides_priorities_witness:
  "\<exists>s1 s2. Scheduler_Suspend 0 3 sample_sched = Inr s1 \<and> ReadyToRun 4 s1 = Inr s2
    \<and> FindNextToRun s2 = Inr (Some 2, popped s2) \<and> prio_of sample_sched 2 < prio_of sample_sched 4"
proof -
  have h: "ready_threads sample_sched = [2] @ 3 # []" "threads (kernel sample_sched) 4 = Some (sample_thread 3 20 BLOCKED)"
    "4 \<notin> set ([2::nat] @ 3 # [])" "priority (sample_thread 3 20 BLOCKED) \<le> MAX_PRIORITY"
    by (simp_all add: ready_threads_def sample_sched_def sample_thread_def MAX_PRIORITY_def)
  have "prio_of sample_sched 2 < prio_of sample_sched 4" by (simp add: prio_of_def sample_sched_def sample_thread_def)
  with Suspend_overrides_priorities [OF sample_sched_ready sample_sched_facts(2) h, of 0] show ?thesis by auto
qed

text \<open>C25: thread numbers.  While fewer than 127 threads exist, creating one succeeds, with the smallest free number,
  and deleting any thread but the running one succeeds and frees its number; both keep numbers and
  threads in bijection.  Deleting clears the last slot of \<open>threadPort\<close>, whichever thread dies.  With 127
  threads the constructor writes behind the end of \<open>threadPort\<close>, although a number is still free.\<close>

theorem thread_numbers:
  assumes "ids_ok s"
  shows "if threadnum (kernel s) + 1 < int MaxThreadNum
    then \<exists>a s1. new_Thread junk s = Inr (a, s1) \<and> ids_ok s1 \<and> live s1 = insert a (live s) \<and> a \<notin> live s
       \<and> (\<forall>j. 0 \<le> j \<and> j < id_of s1 a \<longrightarrow> j \<in> id_of s ` live s)
       \<and> (\<forall>t \<in> live s1 - {cur s1}. \<exists>s2. delete_Thread t s1 = Inr s2 \<and> ids_ok s2 \<and> live s2 = live s1 - {t}
            \<and> threadPort (kernel s2) = (threadPort (kernel s1))[card (live s1) := None])
    else new_Thread junk s = Inl BadAccess"
proof (cases "threadnum (kernel s) + 1 < int MaxThreadNum")
  case True
  obtain i where i: "first_zero 0 (tid (kernel s)) = Some i" using free_id_exists [OF assms] True by auto
  have i': "i < MaxThreadNum" "tid (kernel s) ! i = 0" "\<forall>j < i. tid (kernel s) ! j \<noteq> 0"
    using first_zero_Some [OF i] assms by (auto simp: ids_ok_def)
  let ?a = "next_addr (kernel s)" and ?s1 = "with_thread junk i s"
  have ok1: "ids_ok ?s1" by (rule with_thread_ids [OF assms i'(1,2)])
  have lv: "live ?s1 = insert ?a (live s)" "?a \<notin> live s" using assms by (auto simp: live_def with_thread_def ids_ok_def)
  have im: "id_of s ` live s = int ` {i. i < MaxThreadNum \<and> tid (kernel s) ! i \<noteq> 0}" using assms unfolding ids_ok_def by blast
  have low: "j \<in> id_of s ` live s" if "0 \<le> j" "j < id_of ?s1 ?a" for j
  proof -
    have "nat j < i" using that by (simp add: id_of_def with_thread_def)
    then have "nat j \<in> {i. i < MaxThreadNum \<and> tid (kernel s) ! i \<noteq> 0}" using i' by simp
    then show ?thesis unfolding im using that(1) by (intro image_eqI [of _ _ "nat j"]) auto
  qed
  have tn: "threadnum (kernel ?s1) = int (card (live ?s1))" using ok1 by (simp add: ids_ok_def)
  have "threadnum (kernel ?s1) < int MaxThreadNum" using True by (simp add: with_thread_def)
  then have del: "\<exists>s2. delete_Thread t ?s1 = Inr s2 \<and> ids_ok s2 \<and> live s2 = live ?s1 - {t}
            \<and> threadPort (kernel s2) = (threadPort (kernel ?s1))[card (live ?s1) := None]" if "t \<in> live ?s1 - {cur ?s1}" for t
    using that delete_Thread_eq [OF ok1, of t] without_thread_ids [OF ok1, of t] tn
    by (intro exI [of _ "without_thread t ?s1"]) (auto simp: live_def without_thread_def)
  show ?thesis using True new_Thread_eq [OF assms i True, of junk] ok1 lv low del by auto
next
  case False
  then show ?thesis using assms
    by (auto simp: new_Thread_def findFreeThreadID_def set_port_def Let_def ids_ok_def split: option.splits)
qed

theorem thread_numbers_witness:
  "\<exists>a s1. new_Thread False (new_Interrupt new_Statistics (init_kernel ()) :: (nat, unit) sys) = Inr (a, s1) \<and> ids_ok s1 \<and> live s1 = {a}"
proof -
  let ?s = "new_Interrupt new_Statistics (init_kernel ()) :: (nat, unit) sys"
  have "live ?s = {}" "threadnum (kernel ?s) + 1 < int MaxThreadNum"
    by (simp_all add: live_def new_Interrupt_def init_kernel_def MaxThreadNum_def)
  moreover have "ids_ok ?s"
    by (simp add: ids_ok_def live_def new_Interrupt_def init_kernel_def)
  ultimately show ?thesis using thread_numbers [of ?s False] by auto
qed

end
