(* ===== verification/Synch.thy ===== *)
theory Synch
  imports Nachos_Prelude
begin

text \<open>
  threads/synch.cc and threads/synchlist.cc.  Every operation runs with interrupts off from its start to
  the next \<open>Sleep\<close> or to its end, so the code between two context switches is one function here: it
  gets the running thread, and returns whether the thread goes to sleep and which threads it passed to
  \<open>ReadyToRun\<close>.  The mutex protects the members of \<open>RWLock\<close>, \<open>Barrier\<close> and \<open>SynchList\<close>, so the code
  between two calls of lock operations is one function as well.  How the threads interleave is in
  \<open>Monitor\<close> and the theories on it; a queue holds the threads of the \<open>List\<close>, in its order.
\<close>

section \<open>Semaphores\<close>

record Semaphore =
  sem_value :: int
  sem_queue :: "nat list"

definition new_Semaphore :: "int \<Rightarrow> Semaphore" where
  "new_Semaphore initialValue = \<lparr>sem_value = initialValue, sem_queue = []\<rparr>"

text \<open>One pass of the loop in \<open>P\<close>: \<open>True\<close> if the thread gets through, \<open>False\<close> if it goes to sleep.\<close>

definition P :: "nat \<Rightarrow> Semaphore \<Rightarrow> bool \<times> Semaphore" where
  "P t x = (if sem_value x = 0 then (False, x\<lparr>sem_queue := sem_queue x @ [t]\<rparr>)
            else (True, x\<lparr>sem_value := sem_value x - 1\<rparr>))"

definition V :: "Semaphore \<Rightarrow> nat list \<times> Semaphore" where
  "V x = (case sem_queue x of
      [] \<Rightarrow> ([], x\<lparr>sem_value := sem_value x + 1\<rparr>)
    | t # ts \<Rightarrow> ([t], x\<lparr>sem_queue := ts, sem_value := sem_value x + 1\<rparr>))"

lemma V_value [simp]: "sem_value (snd (V x)) = sem_value x + 1"
  by (simp add: V_def split: list.split)

lemma V_result: "V x = (ws, y) \<Longrightarrow> sem_value y = sem_value x + 1"
  using V_value [of x] by simp

lemma P_result: "P t x = (got, y) \<Longrightarrow> sem_value y = sem_value x - (if got then 1 else 0) \<and> (got \<longrightarrow> sem_value x \<noteq> 0)"
  by (auto simp: P_def split: if_splits)

section \<open>Locks\<close>

text \<open>\<open>lock_id\<close> is the address of the object, which \<open>Condition\<close> compares.\<close>

record Lock =
  lock_id :: nat
  locked :: Semaphore
  holder :: "nat option"

definition new_Lock :: "nat \<Rightarrow> Lock" where "new_Lock a = \<lparr>lock_id = a, locked = new_Semaphore 1, holder = None\<rparr>"

definition Acquire :: "nat \<Rightarrow> Lock \<Rightarrow> bool \<times> Lock" where
  "Acquire t l = (let (got, x) = P t (locked l) in
     (got, if got then l\<lparr>locked := x, holder := Some t\<rparr> else l\<lparr>locked := x\<rparr>))"

definition Release :: "nat \<Rightarrow> Lock \<Rightarrow> (nat list \<times> Lock) res" where
  "Release t l = (if holder l = Some t
     then (let (ws, x) = V (locked l) in Inr (ws, l\<lparr>holder := None, locked := x\<rparr>))
     else Inl AssertFail)"

definition isHeldByCurrentThread :: "nat \<Rightarrow> Lock \<Rightarrow> bool" where
  "isHeldByCurrentThread t l \<longleftrightarrow> holder l = Some t"

section \<open>Condition variables\<close>

record Condition =
  wait_cond_queue :: "nat list"
  cond_lock :: "nat option"    \<comment> \<open>the member \<open>lock\<close>\<close>

definition new_Condition :: Condition where "new_Condition = \<lparr>wait_cond_queue = [], cond_lock = None\<rparr>"

text \<open>\<open>Wait\<close> up to its \<open>Sleep\<close>; after it the thread calls \<open>Acquire\<close>.\<close>

definition Wait :: "nat \<Rightarrow> Condition \<Rightarrow> Lock \<Rightarrow> (nat list \<times> Condition \<times> Lock) res" where
  "Wait t c l =
     (if \<not> isHeldByCurrentThread t l then Inl AssertFail
      else let c1 = (if wait_cond_queue c = [] then c\<lparr>cond_lock := Some (lock_id l)\<rparr> else c) in
      if cond_lock c1 \<noteq> Some (lock_id l) then Inl AssertFail
      else bindR (Release t l) (\<lambda>(ws, l1). Inr (ws, c1\<lparr>wait_cond_queue := wait_cond_queue c1 @ [t]\<rparr>, l1)))"

definition Signal :: "nat \<Rightarrow> Condition \<Rightarrow> Lock \<Rightarrow> (nat list \<times> Condition) res" where
  "Signal t c l =
     (if \<not> isHeldByCurrentThread t l then Inl AssertFail
      else case wait_cond_queue c of
        [] \<Rightarrow> Inr ([], c)
      | u # us \<Rightarrow> if cond_lock c = Some (lock_id l) then Inr ([u], c\<lparr>wait_cond_queue := us\<rparr>) else Inl AssertFail)"

text \<open>\<open>while (!wait_cond_queue->IsEmpty()) Signal(conditionLock);\<close>\<close>

function signal_all :: "nat \<Rightarrow> Condition \<Rightarrow> Lock \<Rightarrow> (nat list \<times> Condition) res" where
  "signal_all t c l =
     (if wait_cond_queue c = [] then Inr ([], c)
      else bindR (Signal t c l) (\<lambda>(ws, c1). bindR (signal_all t c1 l) (\<lambda>(ws', c2). Inr (ws @ ws', c2))))"
  by pat_completeness auto

termination
  by (relation "measure (\<lambda>(t, c, l). length (wait_cond_queue c))")
    (auto simp: Signal_def split: list.splits if_splits)

declare signal_all.simps [simp del]

definition Broadcast :: "nat \<Rightarrow> Condition \<Rightarrow> Lock \<Rightarrow> (nat list \<times> Condition) res" where
  "Broadcast t c l = (if isHeldByCurrentThread t l then signal_all t c l else Inl AssertFail)"

section \<open>Readers and writers\<close>

record RWLock =
  pendingReaders :: int
  activeReaders :: int
  pendingWriters :: int
  mutex :: Lock
  conReader :: Condition
  conWriter :: Condition

definition new_RWLock :: RWLock where
  "new_RWLock = \<lparr>pendingReaders = 0, activeReaders = 0, pendingWriters = 0, mutex = new_Lock 0,
     conReader = new_Condition, conWriter = new_Condition\<rparr>"

text \<open>The code behind \<open>mutex->Acquire()\<close> up to the next sleep or to the end: whether the thread sleeps,
  and the threads made ready.\<close>

definition read_loop :: "nat \<Rightarrow> RWLock \<Rightarrow> (bool \<times> nat list \<times> RWLock) res" where
  "read_loop t r =
     (if activeReaders r < 0
      then bindR (Wait t (conReader r) (mutex r)) (\<lambda>(ws, c, l). Inr (True, ws, r\<lparr>conReader := c, mutex := l\<rparr>))
      else let r1 = r\<lparr>pendingReaders := pendingReaders r - 1, activeReaders := activeReaders r + 1\<rparr> in
           bindR (Release t (mutex r1)) (\<lambda>(ws, l). Inr (False, ws, r1\<lparr>mutex := l\<rparr>)))"

definition readlock :: "nat \<Rightarrow> RWLock \<Rightarrow> (bool \<times> nat list \<times> RWLock) res" where
  "readlock t r = read_loop t (r\<lparr>pendingReaders := pendingReaders r + 1\<rparr>)"

definition write_loop :: "nat \<Rightarrow> RWLock \<Rightarrow> (bool \<times> nat list \<times> RWLock) res" where
  "write_loop t r =
     (if activeReaders r \<noteq> 0
      then bindR (Wait t (conWriter r) (mutex r)) (\<lambda>(ws, c, l). Inr (True, ws, r\<lparr>conWriter := c, mutex := l\<rparr>))
      else let r1 = r\<lparr>pendingWriters := pendingWriters r - 1, activeReaders := -1\<rparr> in
           bindR (Release t (mutex r1)) (\<lambda>(ws, l). Inr (False, ws, r1\<lparr>mutex := l\<rparr>)))"

definition writelock :: "nat \<Rightarrow> RWLock \<Rightarrow> (bool \<times> nat list \<times> RWLock) res" where
  "writelock t r = write_loop t (r\<lparr>pendingWriters := pendingWriters r + 1\<rparr>)"

definition unlock :: "nat \<Rightarrow> RWLock \<Rightarrow> (nat list \<times> RWLock) res" where
  "unlock t r =
     bindR (if activeReaders r < 0 then
              let r1 = r\<lparr>activeReaders := 0\<rparr> in
              if pendingReaders r1 > 0
              then bindR (Broadcast t (conReader r1) (mutex r1)) (\<lambda>(ws, c). Inr (ws, r1\<lparr>conReader := c\<rparr>))
              else if pendingReaders r1 = 0 \<and> pendingWriters r1 > 0
              then bindR (Signal t (conWriter r1) (mutex r1)) (\<lambda>(ws, c). Inr (ws, r1\<lparr>conWriter := c\<rparr>))
              else Inr ([], r1)
            else if activeReaders r > 0 then
              let r1 = r\<lparr>activeReaders := activeReaders r - 1\<rparr> in
              if pendingReaders r1 = 0 \<and> activeReaders r1 = 0
              then bindR (Signal t (conWriter r1) (mutex r1)) (\<lambda>(ws, c). Inr (ws, r1\<lparr>conWriter := c\<rparr>))
              else Inr ([], r1)
            else Inr ([], r))
       (\<lambda>(ws, r1). bindR (Release t (mutex r1)) (\<lambda>(ws', l). Inr (ws @ ws', r1\<lparr>mutex := l\<rparr>)))"

section \<open>The barrier\<close>

text \<open>\<open>processFunction\<close> is a function of one argument on the state \<open>'s\<close> of the caller.\<close>

record 's Barrier =
  barrierNum :: int
  remaining :: int
  processFunction :: "(int \<Rightarrow> 's \<Rightarrow> 's res) option"
  bar_lock :: Lock
  bar_cond :: Condition

definition new_Barrier :: "'s Barrier" where
  "new_Barrier = \<lparr>barrierNum = 0, remaining = 0, processFunction = None, bar_lock = new_Lock 0, bar_cond = new_Condition\<rparr>"

definition setBarrierNum :: "int \<Rightarrow> 's Barrier \<Rightarrow> 's Barrier" where
  "setBarrierNum n b = b\<lparr>barrierNum := n, remaining := n\<rparr>"

text \<open>Behind \<open>lock->Acquire()\<close>, and the loop again after each wake-up.\<close>

definition barrier_loop :: "nat \<Rightarrow> 's Barrier \<Rightarrow> 's \<Rightarrow> (bool \<times> nat list \<times> 's Barrier \<times> 's) res" where
  "barrier_loop t b s =
     (if remaining b > 0
      then bindR (Wait t (bar_cond b) (bar_lock b)) (\<lambda>(ws, c, l). Inr (True, ws, b\<lparr>bar_cond := c, bar_lock := l\<rparr>, s))
      else bindR (case processFunction b of None \<Rightarrow> Inr s | Some f \<Rightarrow> f (-1) s) (\<lambda>s1.
           bindR (Broadcast t (bar_cond b) (bar_lock b)) (\<lambda>(ws, c).
           bindR (Release t (bar_lock b)) (\<lambda>(ws', l).
           Inr (False, ws @ ws', b\<lparr>processFunction := None, bar_cond := c, bar_lock := l\<rparr>, s1)))))"

definition enterBarrier :: "nat \<Rightarrow> 's Barrier \<Rightarrow> 's \<Rightarrow> (bool \<times> nat list \<times> 's Barrier \<times> 's) res" where
  "enterBarrier t b = barrier_loop t (b\<lparr>remaining := remaining b - 1\<rparr>)"

text \<open>The globals and the function that the self test gives to its barrier.\<close>

record barrier_sum =
  total :: int
  memnum :: "int list"
  memid :: "int list"
  cnt :: int

definition BarrierProcess :: "int \<Rightarrow> int \<Rightarrow> barrier_sum \<Rightarrow> barrier_sum res" where
  "BarrierProcess myID num g =
     (if num = -1 then
        (if cnt g \<le> 20 then Inr \<lparr>total = 0, memnum = replicate 20 0, memid = replicate 20 0, cnt = 0\<rparr> else Inl BadAccess)
      else if 0 \<le> cnt g \<and> cnt g < 20
      then Inr \<lparr>total = total g + num, memnum = (memnum g)[nat (cnt g) := num], memid = (memid g)[nat (cnt g) := myID],
                cnt = cnt g + 1\<rparr>
      else Inl BadAccess)"

section \<open>Synchronized lists\<close>

record 'a SynchList =
  sl_list :: "'a list"
  sl_lock :: Lock
  listEmpty :: Condition

definition new_SynchList :: "'a SynchList" where
  "new_SynchList = \<lparr>sl_list = [], sl_lock = new_Lock 0, listEmpty = new_Condition\<rparr>"

definition SynchList_Append :: "nat \<Rightarrow> 'a \<Rightarrow> 'a SynchList \<Rightarrow> (nat list \<times> 'a SynchList) res" where
  "SynchList_Append t x s =
     bindR (Signal t (listEmpty s) (sl_lock s)) (\<lambda>(ws, c).
     bindR (Release t (sl_lock s)) (\<lambda>(ws', l).
     Inr (ws @ ws', s\<lparr>sl_list := sl_list s @ [x], listEmpty := c, sl_lock := l\<rparr>)))"

text \<open>Behind \<open>Acquire\<close>: \<open>None\<close> when the thread goes to sleep.  An item is an element of \<open>'a\<close>, so it is never
  NULL, and \<open>ASSERT(item != NULL)\<close> has nothing to test: a caller that appends NULL is outside the model.\<close>

definition SynchList_Remove :: "nat \<Rightarrow> 'a SynchList \<Rightarrow> ('a option \<times> nat list \<times> 'a SynchList) res" where
  "SynchList_Remove t s = (case sl_list s of
      [] \<Rightarrow> bindR (Wait t (listEmpty s) (sl_lock s)) (\<lambda>(ws, c, l). Inr (None, ws, s\<lparr>listEmpty := c, sl_lock := l\<rparr>))
    | x # xs \<Rightarrow> bindR (Release t (sl_lock s)) (\<lambda>(ws, l). Inr (Some x, ws, s\<lparr>sl_list := xs, sl_lock := l\<rparr>)))"

definition SynchList_Mapcar :: "('a \<Rightarrow> 's \<Rightarrow> 's) \<Rightarrow> nat \<Rightarrow> 'a SynchList \<Rightarrow> 's \<Rightarrow> (nat list \<times> 'a SynchList \<times> 's) res" where
  "SynchList_Mapcar f t s st = bindR (Release t (sl_lock s)) (\<lambda>(ws, l). Inr (ws, s\<lparr>sl_lock := l\<rparr>, foldl (\<lambda>z x. f x z) st (sl_list s)))"

end
