(* ===== verification/Monitor.thy ===== *)
theory Monitor
  imports Synch
begin

text \<open>
  Threads that share an object behind one \<open>Lock\<close>, with condition variables: the pattern of \<open>RWLock\<close>, \<open>Barrier\<close>, \<open>SynchList\<close> and
  the tests of threads/synchtest.cc.  A step relation lets any thread take the next piece of code with no context switch inside; the
  locale \<open>monitor\<close> says what the code under the lock has to keep, and gives the invariant of all reachable states.
\<close>

section \<open>Steps\<close>

text \<open>Where a thread is: about to call \<open>Acquire\<close> for a piece of code \<open>k\<close>, asleep in the queue of the lock, holding the lock, or at a
  place \<open>p\<close> of its program without it.  The \<open>Acquire\<close> at the end of \<open>Wait\<close> is one of the pieces of code.\<close>

datatype ('k, 'p) mon_pc = Want 'k | InQueue 'k | Holds 'k | At 'p

record ('s, 'k, 'p) mon_sys =
  obj :: 's
  mon_at :: "nat \<Rightarrow> ('k, 'p) mon_pc"

text \<open>A woken thread goes back to \<open>Acquire\<close>; \<open>again p\<close> is the code that follows a \<open>Wait\<close> at \<open>p\<close>.\<close>

fun woken :: "('p \<Rightarrow> 'k option) \<Rightarrow> ('k, 'p) mon_pc \<Rightarrow> ('k, 'p) mon_pc" where
  "woken again (InQueue k) = Want k"
| "woken again (At p) = (case again p of Some k \<Rightarrow> Want k | None \<Rightarrow> At p)"
| "woken again q = q"

definition wakes :: "('p \<Rightarrow> 'k option) \<Rightarrow> nat list \<Rightarrow> (nat \<Rightarrow> ('k, 'p) mon_pc) \<Rightarrow> nat \<Rightarrow> ('k, 'p) mon_pc" where
  "wakes again ws f = (\<lambda>u. if u \<in> set ws then woken again (f u) else f u)"

text \<open>\<open>body k t x\<close> runs the code behind \<open>Acquire\<close> up to the next sleep or to its end; it gives the next place of \<open>t\<close> and the threads
  that \<open>t\<close> made ready.  \<open>asks t p k\<close> says that \<open>t\<close> may call \<open>Acquire\<close> for \<open>k\<close> from \<open>p\<close>.\<close>

inductive mon_step :: "('s \<Rightarrow> Lock) \<Rightarrow> (Lock \<Rightarrow> 's \<Rightarrow> 's) \<Rightarrow> ('k \<Rightarrow> nat \<Rightarrow> 's \<Rightarrow> ('p \<times> nat list \<times> 's) res) \<Rightarrow> ('p \<Rightarrow> 'k option)
    \<Rightarrow> (nat \<Rightarrow> 'p \<Rightarrow> 'k \<Rightarrow> bool) \<Rightarrow> ('s, 'k, 'p) mon_sys \<Rightarrow> ('s, 'k, 'p) mon_sys \<Rightarrow> bool"
  for lk sl body again asks where
  ask: "mon_at s t = At p \<Longrightarrow> asks t p k \<Longrightarrow> mon_step lk sl body again asks s (s\<lparr>mon_at := (mon_at s)(t := Want k)\<rparr>)"
| got: "mon_at s t = Want k \<Longrightarrow> Acquire t (lk (obj s)) = (True, l) \<Longrightarrow>
    mon_step lk sl body again asks s (s\<lparr>obj := sl l (obj s), mon_at := (mon_at s)(t := Holds k)\<rparr>)"
| busy: "mon_at s t = Want k \<Longrightarrow> Acquire t (lk (obj s)) = (False, l) \<Longrightarrow>
    mon_step lk sl body again asks s (s\<lparr>obj := sl l (obj s), mon_at := (mon_at s)(t := InQueue k)\<rparr>)"
| body: "mon_at s t = Holds k \<Longrightarrow> body k t (obj s) = Inr (p, ws, x) \<Longrightarrow>
    mon_step lk sl body again asks s (s\<lparr>obj := x, mon_at := wakes again ws ((mon_at s)(t := At p))\<rparr>)"

section \<open>Waking\<close>

lemma woken_woken [simp]: "woken again (woken again q) = woken again q"
  by (cases q) (auto split: option.splits)

lemma wakes_Nil [simp]: "wakes again [] f = f"
  by (simp add: wakes_def)

lemma wakes_wakes: "wakes again ws' (wakes again ws f) = wakes again (ws @ ws') f"
  by (auto simp: wakes_def fun_eq_iff)

lemma woken_Holds [simp]: "woken again q = Holds k \<longleftrightarrow> q = Holds k"
  by (cases q) (auto split: option.splits)

lemma woken_InQueue [simp]: "woken again q \<noteq> InQueue k"
  by (cases q) (auto split: option.splits)

lemma wakes_Holds [simp]: "wakes again ws f t = Holds k \<longleftrightarrow> f t = Holds k"
  by (simp add: wakes_def)

lemma wakes_upd: "t \<notin> set ws \<Longrightarrow> (wakes again ws f)(t := q) = wakes again ws (f(t := q))"
  by (auto simp: wakes_def)

section \<open>Counting threads\<close>

definition num_at :: "('q \<Rightarrow> bool) \<Rightarrow> (nat \<Rightarrow> 'q) \<Rightarrow> int" where
  "num_at Q f = int (card {t. Q (f t)})"

definition few :: "('q \<Rightarrow> bool) \<Rightarrow> (nat \<Rightarrow> 'q) \<Rightarrow> bool" where
  "few Q f \<longleftrightarrow> finite {t. Q (f t)}"

lemma num_at_nonneg [simp]: "0 \<le> num_at Q f"
  by (simp add: num_at_def)

lemma few_upd [simp]: "few Q (f(t := q)) \<longleftrightarrow> few Q f"
proof -
  have "{u. Q ((f(t := q)) u)} - {t} = {u. Q (f u)} - {t}" by auto
  then show ?thesis unfolding few_def by (metis finite_insert finite.emptyI infinite_remove finite_Diff)
qed

lemma num_at_upd:
  assumes "few Q f"
  shows "num_at Q (f(t := q)) = num_at Q f - of_bool (Q (f t)) + of_bool (Q q)"
proof -
  define A where "A = {u. Q (f u)} - {t}"
  have A: "finite A" "t \<notin> A" using assms by (simp_all add: A_def few_def)
  have "{u. Q (f u)} = (if Q (f t) then insert t A else A)" by (auto simp: A_def)
  moreover have "{u. Q ((f(t := q)) u)} = (if Q q then insert t A else A)" by (auto simp: A_def)
  ultimately show ?thesis unfolding num_at_def using A by simp
qed

lemma num_at_same: "Q q = Q (f t) \<Longrightarrow> num_at Q (f(t := q)) = num_at Q f"
  unfolding num_at_def by (rule arg_cong [of _ _ "\<lambda>A. int (card A)"]) auto

lemma num_at_pos: "few Q f \<Longrightarrow> Q (f t) \<Longrightarrow> 0 < num_at Q f"
  by (auto simp: num_at_def few_def card_gt_0_iff)

lemma num_at_zero: "(\<And>t. \<not> Q (f t)) \<Longrightarrow> num_at Q f = 0"
  by (simp add: num_at_def)

text \<open>Waking threads whose class does not change.\<close>

lemma wakes_same_class:
  assumes "\<And>u. u \<in> set ws \<Longrightarrow> Q (woken again (f u)) = Q (f u)"
  shows "num_at Q (wakes again ws f) = num_at Q f" "few Q (wakes again ws f) = few Q f"
proof -
  have "{u. Q (wakes again ws f u)} = {u. Q (f u)}" using assms by (auto simp: wakes_def)
  then show "num_at Q (wakes again ws f) = num_at Q f" "few Q (wakes again ws f) = few Q f"
    by (simp_all add: num_at_def few_def)
qed

text \<open>The threads on their way to the code \<open>k\<close>: waking one in front of the lock does not change their number, waking one on the
  condition before \<open>k\<close> adds one.\<close>

definition on_way :: "'k \<Rightarrow> ('k, 'p) mon_pc \<Rightarrow> bool" where
  "on_way k q \<longleftrightarrow> q = Want k \<or> q = InQueue k \<or> q = Holds k"

lemma on_way_simps [simp]:
  "on_way k (Want j) = (j = k)" "on_way k (InQueue j) = (j = k)" "on_way k (Holds j) = (j = k)" "\<not> on_way k (At p)"
  by (auto simp: on_way_def)

lemma on_way_queue:
  assumes "\<forall>u \<in> set ws. \<exists>k. f u = InQueue k"
  shows "num_at (on_way j) (wakes again ws f) = num_at (on_way j) f" "few (on_way j) (wakes again ws f) = few (on_way j) f"
  using assms by (auto intro!: wakes_same_class)

definition signalled :: "'p \<Rightarrow> nat list \<Rightarrow> nat list \<Rightarrow> (nat \<Rightarrow> ('k, 'p) mon_pc) \<Rightarrow> bool" where
  "signalled w us ws f \<longleftrightarrow> (case us of [] \<Rightarrow> ws = [] | u # vs \<Rightarrow> ws = [u] \<and> f u = At w)"

lemma signalled_cases:
  assumes "signalled w us ws f"
  obtains "us = []" "ws = []" | u where "us \<noteq> []" "ws = [u]" "f u = At w"
  using assms by (cases us) (auto simp: signalled_def)

lemma on_way_signal:
  assumes "signalled w us ws f" "again w = Some k" "few (on_way j) f"
  shows "num_at (on_way j) (wakes again ws f) = num_at (on_way j) f + of_bool (j = k \<and> us \<noteq> [])"
    "few (on_way j) (wakes again ws f)"
proof -
  have "wakes again [u] f = f(u := Want k)" if "f u = At w" for u
    using that assms(2) by (auto simp: wakes_def)
  then show "num_at (on_way j) (wakes again ws f) = num_at (on_way j) f + of_bool (j = k \<and> us \<noteq> [])"
    "few (on_way j) (wakes again ws f)"
    using assms(1,3) by (auto simp: num_at_upd elim!: signalled_cases)
qed

text \<open>The holder leaves for \<open>p\<close>: having woken a thread of a condition or none, and having let the next one try for the lock.\<close>

lemma on_way_after:
  assumes "f t = Holds k" "signalled w us ws0 f" "again w = Some i"
    "\<forall>u \<in> set ws. \<exists>k. f u = InQueue k" "few (on_way j) f"
  shows "num_at (on_way j) (wakes again (ws0 @ ws) (f(t := At p)))
      = num_at (on_way j) f - of_bool (k = j) + of_bool (j = i \<and> us \<noteq> [])"
    "few (on_way j) (wakes again (ws0 @ ws) (f(t := At p)))"
proof -
  let ?f = "f(t := At p)"
  have c: "signalled w us ws0 ?f" using assms(1,2) by (auto simp: signalled_def split: list.splits)
  have q: "\<forall>u \<in> set ws. \<exists>k. wakes again ws0 ?f u = InQueue k"
    using assms(1,2,4) by (fastforce simp: wakes_def elim!: signalled_cases)
  have e: "wakes again (ws0 @ ws) ?f = wakes again ws (wakes again ws0 ?f)" by (simp add: wakes_wakes)
  show "num_at (on_way j) (wakes again (ws0 @ ws) ?f) = num_at (on_way j) f - of_bool (k = j) + of_bool (j = i \<and> us \<noteq> [])"
    "few (on_way j) (wakes again (ws0 @ ws) ?f)"
    unfolding e on_way_queue [OF q] using on_way_signal [where again = again, OF c assms(3)] assms(1,5)
    by (simp_all add: num_at_upd)
qed

lemma on_way_left:
  assumes "f t = Holds k" "\<forall>u \<in> set ws. \<exists>k. f u = InQueue k" "few (on_way j) f"
  shows "num_at (on_way j) (wakes again ws (f(t := At p))) = num_at (on_way j) f - of_bool (k = j)"
    "few (on_way j) (wakes again ws (f(t := At p)))"
proof -
  have q: "\<forall>u \<in> set ws. \<exists>k. (f(t := At p)) u = InQueue k" using assms(1,2) by auto
  show "num_at (on_way j) (wakes again ws (f(t := At p))) = num_at (on_way j) f - of_bool (k = j)"
    "few (on_way j) (wakes again ws (f(t := At p)))"
    unfolding on_way_queue [OF q] using assms(1,3) by (simp_all add: num_at_upd)
qed

section \<open>The lock and the conditions\<close>

text \<open>Who holds the lock, who is asleep in its queue, and nobody sleeps while it is free and no one is about to try.\<close>

definition lock_inv :: "Lock \<Rightarrow> (nat \<Rightarrow> ('k, 'p) mon_pc) \<Rightarrow> bool" where
  "lock_inv l f \<longleftrightarrow> sem_value (locked l) = (if holder l = None then 1 else 0)
     \<and> (\<forall>t. (\<exists>k. f t = Holds k) \<longleftrightarrow> holder l = Some t)
     \<and> distinct (sem_queue (locked l)) \<and> (\<forall>t. t \<in> set (sem_queue (locked l)) \<longleftrightarrow> (\<exists>k. f t = InQueue k))
     \<and> (holder l = None \<and> sem_queue (locked l) \<noteq> [] \<longrightarrow> (\<exists>t k. f t = Want k))"

text \<open>The queue of a condition used with the lock \<open>i\<close> holds the threads at the place \<open>w\<close>.\<close>

definition cond_inv :: "nat \<Rightarrow> 'p \<Rightarrow> Condition \<Rightarrow> (nat \<Rightarrow> ('k, 'p) mon_pc) \<Rightarrow> bool" where
  "cond_inv i w c f \<longleftrightarrow> distinct (wait_cond_queue c) \<and> (\<forall>t. t \<in> set (wait_cond_queue c) \<longleftrightarrow> f t = At w)
     \<and> (wait_cond_queue c \<noteq> [] \<longrightarrow> cond_lock c = Some i)"

lemma lock_inv_new: "(\<And>t. \<exists>p. f t = At p) \<Longrightarrow> lock_inv (new_Lock i) f"
  by (simp add: lock_inv_def new_Lock_def new_Semaphore_def) (metis mon_pc.distinct)

lemma new_Condition_queue [simp]: "wait_cond_queue new_Condition = []"
  by (simp add: new_Condition_def)

lemma cond_inv_new: "(\<And>t. f t \<noteq> At w) \<Longrightarrow> cond_inv i w new_Condition f"
  by (simp add: cond_inv_def new_Condition_def)

lemma holder_of: "lock_inv l f \<Longrightarrow> f t = Holds k \<Longrightarrow> holder l = Some t"
  by (auto simp: lock_inv_def)

lemma one_holder: "lock_inv l f \<Longrightarrow> f t = Holds k \<Longrightarrow> f u = Holds j \<Longrightarrow> t = u"
  by (metis holder_of option.inject)

lemma nobody_runs:
  assumes "lock_inv l f" "\<And>t k. f t \<noteq> Holds k" "\<And>t k. f t \<noteq> Want k"
  shows "\<exists>p. f t = At p"
proof -
  have "holder l = None" using assms(1,2) by (auto simp: lock_inv_def simp flip: not_Some_eq)
  then have "sem_queue (locked l) = []" using assms(1,3) by (auto simp: lock_inv_def)
  then have "\<And>k. f t \<noteq> InQueue k" using assms(1) by (auto simp: lock_inv_def)
  then show ?thesis using assms(2,3) by (cases "f t") auto
qed

lemma lock_inv_ask:
  assumes "lock_inv l f" "f t = At p"
  shows "lock_inv l (f(t := Want k))"
proof -
  have "(\<exists>j. (f(t := Want k)) u = Holds j) \<longleftrightarrow> (\<exists>j. f u = Holds j)"
    "(\<exists>j. (f(t := Want k)) u = InQueue j) \<longleftrightarrow> (\<exists>j. f u = InQueue j)" for u using assms(2) by auto
  moreover have "\<exists>u j. (f(t := Want k)) u = Want j" by (rule exI [of _ t]) simp
  ultimately show ?thesis using assms(1) unfolding lock_inv_def by blast
qed

lemma lock_inv_got:
  assumes "lock_inv l f" "f t = Want k" "Acquire t l = (True, l1)"
  shows "lock_inv l1 (f(t := Holds k))" "lock_id l1 = lock_id l"
proof -
  have l: "l1 = l\<lparr>locked := (locked l)\<lparr>sem_value := 0\<rparr>, holder := Some t\<rparr>" "holder l = None"
    using assms(1,3) by (auto simp: Acquire_def P_def lock_inv_def split: if_splits)
  show "lock_inv l1 (f(t := Holds k))" using assms(1,2) unfolding l(1) by (auto simp: lock_inv_def l(2))
  show "lock_id l1 = lock_id l" by (simp add: l(1))
qed

lemma lock_inv_busy:
  assumes "lock_inv l f" "f t = Want k" "Acquire t l = (False, l1)"
  shows "lock_inv l1 (f(t := InQueue k))" "lock_id l1 = lock_id l"
proof -
  have l: "l1 = l\<lparr>locked := (locked l)\<lparr>sem_queue := sem_queue (locked l) @ [t]\<rparr>\<rparr>" "holder l \<noteq> None"
    using assms(1,3) by (auto simp: Acquire_def P_def lock_inv_def split: if_splits)
  have "(\<exists>j. f t = Holds j) \<longleftrightarrow> holder l = Some t" using assms(1) by (simp add: lock_inv_def)
  then have "holder l \<noteq> Some t" using assms(2) by simp
  then show "lock_inv l1 (f(t := InQueue k))" using assms(1,2) l(2) unfolding l(1) by (auto simp: lock_inv_def)
  show "lock_id l1 = lock_id l" by (simp add: l(1))
qed

text \<open>Waking sleepers of a condition.\<close>

lemma lock_inv_wakes:
  assumes "lock_inv l f" "\<forall>u \<in> set ws. \<exists>p. f u = At p"
  shows "lock_inv l (wakes again ws f)"
proof -
  have q: "(\<exists>k. wakes again ws f u = InQueue k) \<longleftrightarrow> (\<exists>k. f u = InQueue k)" for u
    using assms(2) by (auto simp: wakes_def)
  have "wakes again ws f u = Want k" if "f u = Want k" for u k using that by (auto simp: wakes_def)
  then have w: "\<exists>u k. f u = Want k \<Longrightarrow> \<exists>u k. wakes again ws f u = Want k" by blast
  show ?thesis using assms(1) w unfolding lock_inv_def q wakes_Holds by simp
qed

text \<open>\<open>Release\<close> by the holder, who goes to a place without the lock.\<close>

lemma Release_inv:
  assumes "lock_inv l f" "f t = Holds k"
  shows "\<exists>ws l1. Release t l = Inr (ws, l1) \<and> lock_inv l1 (wakes again ws (f(t := At p))) \<and> lock_id l1 = lock_id l
    \<and> (\<forall>w \<in> set ws. \<exists>k. f w = InQueue k)"
proof -
  have h: "holder l = Some t" by (rule holder_of [OF assms])
  have nh: "f u \<noteq> Holds j" if "u \<noteq> t" for u j using one_holder [OF assms] that by blast
  show ?thesis
  proof (cases "sem_queue (locked l)")
    case Nil
    then have "Release t l = Inr ([], l\<lparr>holder := None, locked := (locked l)\<lparr>sem_value := sem_value (locked l) + 1\<rparr>\<rparr>)"
      using h by (simp add: Release_def V_def)
    moreover have "f u \<noteq> InQueue j" for u j using Nil assms(1) by (auto simp: lock_inv_def)
    ultimately show ?thesis using Nil assms(1) nh h by (auto simp: lock_inv_def)
  next
    case (Cons u us)
    let ?l = "l\<lparr>holder := None, locked := (locked l)\<lparr>sem_queue := us, sem_value := sem_value (locked l) + 1\<rparr>\<rparr>"
    have R: "Release t l = Inr ([u], ?l)" using h Cons by (simp add: Release_def V_def)
    have q: "\<And>v. v \<in> insert u (set us) \<longleftrightarrow> (\<exists>k. f v = InQueue k)" "u \<notin> set us" "distinct us"
      using Cons assms(1) by (auto simp: lock_inv_def)
    obtain j where j: "f u = InQueue j" using q(1) [of u] by auto
    let ?f = "wakes again [u] (f(t := At p))"
    have fv: "?f v = (if v = t then At p else if v = u then Want j else f v)" for v
      using j assms(2) by (auto simp: wakes_def)
    have "(\<exists>k. ?f v = InQueue k) \<longleftrightarrow> v \<in> set us" for v
      using q(1) [of v] q(2) assms(2) by (auto simp: fv)
    moreover have "\<not> (\<exists>k. ?f v = Holds k)" for v using nh [of v] by (auto simp: fv)
    moreover have "\<exists>v k. ?f v = Want k" using fv [of u] j assms(2) by (intro exI [of _ u]) auto
    ultimately have "lock_inv ?l ?f" using assms(1) h q(3) by (simp add: lock_inv_def)
    then show ?thesis using R j by auto
  qed
qed

text \<open>A condition that the step of a thread does not touch.\<close>

lemma cond_inv_upd: "cond_inv i w c f \<Longrightarrow> f t \<noteq> At w \<Longrightarrow> q \<noteq> At w \<Longrightarrow> cond_inv i w c (f(t := q))"
  by (simp add: cond_inv_def)

lemma woken_At: "woken again q = At w \<Longrightarrow> q = At w"
  by (cases q) (auto split: option.splits)

lemma cond_inv_wakes:
  assumes "cond_inv i w c f" "\<forall>u \<in> set ws. f u \<noteq> At w"
  shows "cond_inv i w c (wakes again ws f)"
proof -
  have "wakes again ws f u = At w \<longleftrightarrow> f u = At w" for u
    using assms(2) woken_At [of again "f u" w] by (cases "u \<in> set ws") (auto simp: wakes_def)
  with assms(1) show ?thesis by (simp add: cond_inv_def)
qed

lemma cond_inv_after:
  assumes "cond_inv i w c f" "f t = Holds k" "p \<noteq> w" "\<forall>u \<in> set ws. \<exists>k. f u = InQueue k"
  shows "cond_inv i w c (wakes again ws (f(t := At p)))"
  using assms by (intro cond_inv_wakes cond_inv_upd) auto

text \<open>\<open>Wait\<close>, \<open>Signal\<close> and \<open>Broadcast\<close> by the holder.\<close>

lemma Wait_inv:
  assumes l: "lock_inv l f" and c: "cond_inv (lock_id l) w c f" and t: "f t = Holds k"
  shows "\<exists>ws c1 l1. Wait t c l = Inr (ws, c1, l1) \<and> lock_inv l1 (wakes again ws (f(t := At w))) \<and> lock_id l1 = lock_id l
    \<and> cond_inv (lock_id l) w c1 (wakes again ws (f(t := At w))) \<and> wait_cond_queue c1 \<noteq> [] \<and> (\<forall>u \<in> set ws. \<exists>k. f u = InQueue k)"
proof -
  obtain ws l1 where R: "Release t l = Inr (ws, l1)" "lock_inv l1 (wakes again ws (f(t := At w)))" "lock_id l1 = lock_id l"
     "\<forall>u \<in> set ws. \<exists>k. f u = InQueue k" using Release_inv [OF l t] by blast
  let ?c = "c\<lparr>cond_lock := Some (lock_id l), wait_cond_queue := wait_cond_queue c @ [t]\<rparr>"
  have W: "Wait t c l = Inr (ws, ?c, l1)"
    using R(1) holder_of [OF l t] c by (cases c) (auto simp: Wait_def isHeldByCurrentThread_def cond_inv_def)
  have "wakes again ws (f(t := At w)) u = At w \<longleftrightarrow> u = t \<or> f u = At w" for u
    using R(4) t by (cases "u \<in> set ws") (auto simp: wakes_def)
  moreover have "t \<notin> set (wait_cond_queue c)" using c t by (simp add: cond_inv_def)
  ultimately have "cond_inv (lock_id l) w ?c (wakes again ws (f(t := At w)))" using c by (auto simp: cond_inv_def)
  then show ?thesis using W R by auto
qed

lemma Signal_inv:
  assumes "cond_inv (lock_id l) w c f" "holder l = Some t" "again w = Some j"
  shows "\<exists>ws c1. Signal t c l = Inr (ws, c1) \<and> cond_inv (lock_id l) w c1 (wakes again ws f)
    \<and> signalled w (wait_cond_queue c) ws f \<and> wait_cond_queue c1 = tl (wait_cond_queue c)"
proof (cases "wait_cond_queue c")
  case Nil
  then show ?thesis using assms by (simp add: Signal_def isHeldByCurrentThread_def signalled_def)
next
  case (Cons u us)
  then have q: "\<And>v. v \<in> insert u (set us) \<longleftrightarrow> f v = At w" "u \<notin> set us" "distinct us" "cond_lock c = Some (lock_id l)"
    using assms(1) by (auto simp: cond_inv_def)
  have "f u = At w" using q(1) [of u] by simp
  then have "\<forall>v. v \<in> set us \<longleftrightarrow> wakes again [u] f v = At w" using q(1,2) assms(3) by (auto simp: wakes_def)
  then have "cond_inv (lock_id l) w (c\<lparr>wait_cond_queue := us\<rparr>) (wakes again [u] f)" using q by (simp add: cond_inv_def)
  then show ?thesis using Cons assms(2) q(4) \<open>f u = At w\<close> by (simp add: Signal_def isHeldByCurrentThread_def signalled_def)
qed

lemma Broadcast_inv:
  assumes "cond_inv (lock_id l) w c f" "holder l = Some t" "again w = Some j"
  shows "\<exists>c1. Broadcast t c l = Inr (wait_cond_queue c, c1) \<and> wait_cond_queue c1 = []
    \<and> cond_inv (lock_id l) w c1 (wakes again (wait_cond_queue c) f)"
proof -
  have "\<exists>c1. signal_all t c l = Inr (wait_cond_queue c, c1) \<and> wait_cond_queue c1 = []
      \<and> cond_inv (lock_id l) w c1 (wakes again (wait_cond_queue c) f)"
    using assms(1)
  proof (induction "wait_cond_queue c" arbitrary: c f)
    case Nil
    then show ?case by (subst signal_all.simps) (auto simp: wakes_def)
  next
    case (Cons u us)
    obtain c1 where S: "Signal t c l = Inr ([u], c1)" "cond_inv (lock_id l) w c1 (wakes again [u] f)" "us = wait_cond_queue c1"
      using Signal_inv [where again = again, OF Cons.prems assms(2,3)] by (auto simp: signalled_def simp flip: Cons.hyps(2))
    show ?case using Cons.hyps(1) [OF S(3,2)] S(1) Cons.hyps(2) [symmetric]
      by (subst signal_all.simps) (auto simp: wakes_wakes simp flip: S(3))
  qed
  then show ?thesis using assms(2) by (simp add: Broadcast_def isHeldByCurrentThread_def)
qed

text \<open>The end of a body: threads \<open>ws0\<close> that slept on conditions have been woken, and the holder releases the lock.\<close>

lemma Release_after:
  assumes "lock_inv l f" "f t = Holds k" "\<forall>u \<in> set ws0. \<exists>p. f u = At p"
  shows "\<exists>ws l1. Release t l = Inr (ws, l1) \<and> lock_id l1 = lock_id l \<and> lock_inv l1 (wakes again (ws0 @ ws) (f(t := At p)))
    \<and> (\<forall>u \<in> set ws. \<exists>k. f u = InQueue k)"
proof -
  have t: "t \<notin> set ws0" using assms(2,3) by force
  have "\<forall>u \<in> set ws. (\<exists>k. wakes again ws0 f u = InQueue k) \<longrightarrow> (\<exists>k. f u = InQueue k)" for ws
    by (auto simp: wakes_def)
  moreover have "wakes again ws0 f t = Holds k" using assms(2) by simp
  ultimately show ?thesis
    using Release_inv [OF lock_inv_wakes [OF assms(1,3), of again], of t k again p] t
    by (auto simp: wakes_upd wakes_wakes)
qed

text \<open>A condition after its signal, or its broadcast, and the release that follows.\<close>

lemma cond_after_signal:
  assumes "cond_inv i w c (wakes again ws0 f)" "f t = Holds k" "p \<noteq> w" "\<forall>u \<in> set ws. \<exists>k. f u = InQueue k"
    "\<forall>u \<in> set ws0. \<exists>p. f u = At p"
  shows "cond_inv i w c (wakes again (ws0 @ ws) (f(t := At p)))"
proof -
  have h: "wakes again ws0 f t = Holds k" using assms(2) by simp
  have t: "t \<notin> set ws0" using assms(2,5) by force
  have "cond_inv i w c ((wakes again ws0 f)(t := At p))" using assms(1,3) by (intro cond_inv_upd) (simp_all add: h)
  moreover have "((wakes again ws0 f)(t := At p)) u \<noteq> At w" if u: "u \<in> set ws" for u
  proof -
    obtain j where j: "f u = InQueue j" using assms(4) u by blast
    then have "u \<notin> set ws0" "u \<noteq> t" using assms(2,5) by force+
    then show ?thesis using j by (simp add: wakes_def)
  qed
  ultimately have "cond_inv i w c (wakes again ws ((wakes again ws0 f)(t := At p)))" by (intro cond_inv_wakes) blast+
  then show ?thesis using t by (simp add: wakes_upd wakes_wakes)
qed

section \<open>The contract\<close>

definition mon_inv :: "('s \<Rightarrow> Lock) \<Rightarrow> ('s \<Rightarrow> (nat \<Rightarrow> ('k, 'p) mon_pc) \<Rightarrow> bool) \<Rightarrow> ('s, 'k, 'p) mon_sys \<Rightarrow> bool" where
  "mon_inv lk I s \<longleftrightarrow> lock_inv (lk (obj s)) (mon_at s) \<and> I (obj s) (mon_at s)"

text \<open>\<open>I\<close> relates the object to the places of the threads.  What a client has to show: \<open>I\<close> does not look at the queue of the lock and
  survives the moves of a thread towards the lock, and each body, run by the holder, meets no failing assertion and keeps both.\<close>

locale monitor =
  fixes lk :: "'s \<Rightarrow> Lock" and sl :: "Lock \<Rightarrow> 's \<Rightarrow> 's" and body :: "'k \<Rightarrow> nat \<Rightarrow> 's \<Rightarrow> ('p \<times> nat list \<times> 's) res"
    and again :: "'p \<Rightarrow> 'k option" and asks :: "nat \<Rightarrow> 'p \<Rightarrow> 'k \<Rightarrow> bool"
    and I :: "'s \<Rightarrow> (nat \<Rightarrow> ('k, 'p) mon_pc) \<Rightarrow> bool" and init :: "('s, 'k, 'p) mon_sys \<Rightarrow> bool"
  assumes lk_sl: "lk (sl l x) = l"
    and I_sl: "lock_id l = lock_id (lk x) \<Longrightarrow> I x f \<Longrightarrow> I (sl l x) f"
    and I_ask: "I x f \<Longrightarrow> f t = At p \<Longrightarrow> asks t p k \<Longrightarrow> I x (f(t := Want k))"
    and I_try: "I x f \<Longrightarrow> f t = Want k \<Longrightarrow> q = Holds k \<or> q = InQueue k \<Longrightarrow> I x (f(t := q))"
    and body_ok: "lock_inv (lk x) f \<Longrightarrow> I x f \<Longrightarrow> f t = Holds k \<Longrightarrow>
      \<exists>p ws x1. body k t x = Inr (p, ws, x1) \<and> lock_inv (lk x1) (wakes again ws (f(t := At p))) \<and> I x1 (wakes again ws (f(t := At p)))"
    and init_ok: "init s \<Longrightarrow> mon_inv lk I s"
begin

lemma mon_inv_step:
  assumes i: "mon_inv lk I s" and st: "mon_step lk sl body again asks s s'"
  shows "mon_inv lk I s'"
  using st
proof cases
  case (ask t p k)
  then show ?thesis using i lock_inv_ask I_ask by (fastforce simp: mon_inv_def)
next
  case (got t k l)
  then have "lock_inv l ((mon_at s)(t := Holds k))" "lock_id l = lock_id (lk (obj s))"
    using i lock_inv_got by (auto simp: mon_inv_def)
  then show ?thesis using i got I_sl I_try by (auto simp: mon_inv_def lk_sl)
next
  case (busy t k l)
  then have "lock_inv l ((mon_at s)(t := InQueue k))" "lock_id l = lock_id (lk (obj s))"
    using i lock_inv_busy by (auto simp: mon_inv_def)
  then show ?thesis using i busy I_sl I_try by (auto simp: mon_inv_def lk_sl)
next
  case (body t k p ws x)
  then show ?thesis using i body_ok [of "obj s" "mon_at s" t k] by (auto simp: mon_inv_def)
qed

end

sublocale monitor \<subseteq> steps: step_system init "mon_step lk sl body again asks" "mon_inv lk I"
  by unfold_locales (fact init_ok, fact mon_inv_step)

context monitor
begin

lemma reachable: "init s \<Longrightarrow> (mon_step lk sl body again asks)\<^sup>*\<^sup>* s s' \<Longrightarrow> lock_inv (lk (obj s')) (mon_at s') \<and> I (obj s') (mon_at s')"
  using steps.inv_reachable [of s s'] by (simp add: mon_inv_def)

text \<open>The holder always gets on, no two threads hold the lock, and when no step is possible, every thread is at a
  place from which it asks for nothing.\<close>

lemma holder_gets_on:
  assumes "init s" "(mon_step lk sl body again asks)\<^sup>*\<^sup>* s s'" "mon_at s' t = Holds k"
  shows "\<exists>s''. mon_step lk sl body again asks s' s''"
proof -
  obtain p ws x where "body k t (obj s') = Inr (p, ws, x)"
    using body_ok [of "obj s'" "mon_at s'" t k] reachable [OF assms(1,2)] assms(3) by auto
  then show ?thesis using mon_step.body [OF assms(3)] by blast
qed

lemma one_inside:
  assumes "init s" "(mon_step lk sl body again asks)\<^sup>*\<^sup>* s s'" "mon_at s' t = Holds k" "mon_at s' u = Holds j"
  shows "t = u"
  by (rule one_holder [OF conjunct1 [OF reachable [OF assms(1,2)]] assms(3,4)])

lemma stuck:
  assumes "init s" "(mon_step lk sl body again asks)\<^sup>*\<^sup>* s s'" "\<And>s''. \<not> mon_step lk sl body again asks s' s''"
  shows "\<exists>p. mon_at s' t = At p \<and> (\<forall>k. \<not> asks t p k)"
proof -
  have "mon_at s' u \<noteq> Want k" for u k
  proof
    assume w: "mon_at s' u = Want k"
    obtain g l where A: "Acquire u (lk (obj s')) = (g, l)" by fastforce
    show False
    proof (cases g)
      case True
      then show False using mon_step.got [OF w, of lk l sl body again asks] A assms(3) by simp
    next
      case False
      then show False using mon_step.busy [OF w, of lk l sl body again asks] A assms(3) by simp
    qed
  qed
  moreover have "mon_at s' u \<noteq> Holds k" for u k using holder_gets_on [OF assms(1,2)] assms(3) by blast
  ultimately obtain p where p: "mon_at s' t = At p"
    using nobody_runs [OF conjunct1 [OF reachable [OF assms(1,2)]]] by blast
  then have "\<not> asks t p k" for k using mon_step.ask [OF p] assms(3) by blast
  then show ?thesis using p by blast
qed

end

end
