(* ===== verification/ProdCons.thy ===== *)
theory ProdCons
  imports Synch
begin

text \<open>
  The producer-consumer test \<open>SemTest\<close> of threads/synchtest.cc, on the semaphores of \<open>Synch\<close>: 10 producers with 2 items each,
  2 consumers that want 23 items each, and a buffer of 10 places.  A step is what a thread does up to its next semaphore
  operation or to \<open>Yield\<close>; any thread that is not asleep may take the next one.  Printing is left out.
\<close>

section \<open>State\<close>

text \<open>The lines of the two loops: the first \<open>P\<close>, the \<open>P\<close> of the mutex, the item, the \<open>V\<close> of the mutex, the last \<open>V\<close>, the end of the round.\<close>

datatype pc_line = TakeSlot | TakeMutex | Item | GiveMutex | GiveSlot | EndRound | Finished

record pc_sys =
  sem_mutex :: Semaphore
  sem_full :: Semaphore
  sem_empty :: Semaphore
  full :: int
  empty :: int
  at_line :: "nat \<Rightarrow> pc_line"
  round :: "nat \<Rightarrow> nat"
  asleep :: "nat set"

text \<open>Threads 0 and 1 are the consumers, 2 to 11 the producers.\<close>

definition threads :: "nat set" where "threads = {0 ..< 12}"

definition consumer :: "nat \<Rightarrow> bool" where "consumer t \<longleftrightarrow> t < 2"

definition rounds :: "nat \<Rightarrow> nat" where "rounds t = (if consumer t then 23 else 2)"

definition SemTest :: pc_sys where
  "SemTest = \<lparr>sem_mutex = new_Semaphore 1, sem_full = new_Semaphore 0, sem_empty = new_Semaphore 10, full = 0, empty = 10,
     at_line = (\<lambda>_. TakeSlot), round = (\<lambda>_. 0), asleep = {}\<rparr>"

definition goto :: "nat \<Rightarrow> pc_line \<Rightarrow> pc_sys \<Rightarrow> pc_sys" where "goto t l s = s\<lparr>at_line := (at_line s)(t := l)\<rparr>"

definition insert_item :: "pc_sys \<Rightarrow> pc_sys" where "insert_item s = s\<lparr>full := full s + 1, empty := empty s - 1\<rparr>"
definition remove_item :: "pc_sys \<Rightarrow> pc_sys" where "remove_item s = s\<lparr>full := full s - 1, empty := empty s + 1\<rparr>"

text \<open>The semaphore of the first \<open>P\<close> of a thread, or of its last \<open>V\<close>.\<close>

definition get_sem :: "bool \<Rightarrow> pc_sys \<Rightarrow> Semaphore" where "get_sem b s = (if b then sem_full s else sem_empty s)"
definition put_sem :: "bool \<Rightarrow> Semaphore \<Rightarrow> pc_sys \<Rightarrow> pc_sys" where
  "put_sem b x s = (if b then s\<lparr>sem_full := x\<rparr> else s\<lparr>sem_empty := x\<rparr>)"

definition sleep :: "nat \<Rightarrow> pc_sys \<Rightarrow> pc_sys" where "sleep t s = s\<lparr>asleep := insert t (asleep s)\<rparr>"
definition wake :: "nat list \<Rightarrow> pc_sys \<Rightarrow> pc_sys" where "wake ws s = s\<lparr>asleep := asleep s - set ws\<rparr>"

text \<open>\<open>Producer_sem\<close> and \<open>Consumer_sem\<close>.\<close>

definition pc_next :: "nat \<Rightarrow> pc_sys \<Rightarrow> pc_sys" where
  "pc_next t s = (case at_line s t of
      TakeSlot \<Rightarrow> (let (got, x) = P t (get_sem (consumer t) s); s1 = put_sem (consumer t) x s in
        if got then goto t TakeMutex s1 else sleep t s1)
    | TakeMutex \<Rightarrow> (let (got, x) = P t (sem_mutex s); s1 = s\<lparr>sem_mutex := x\<rparr> in
        if got then goto t Item s1 else sleep t s1)
    | Item \<Rightarrow> goto t GiveMutex (if consumer t then remove_item s else insert_item s)
    | GiveMutex \<Rightarrow> (let (ws, x) = V (sem_mutex s) in goto t GiveSlot (wake ws (s\<lparr>sem_mutex := x\<rparr>)))
    | GiveSlot \<Rightarrow> (let (ws, x) = V (get_sem (\<not> consumer t) s) in goto t EndRound (wake ws (put_sem (\<not> consumer t) x s)))
    | EndRound \<Rightarrow> (let i = round s t + 1 in
        (goto t (if i < rounds t then TakeSlot else Finished) s)\<lparr>round := (round s)(t := i)\<rparr>)
    | Finished \<Rightarrow> s)"

inductive pc_step :: "pc_sys \<Rightarrow> pc_sys \<Rightarrow> bool" where
  "t \<in> threads \<Longrightarrow> t \<notin> asleep s \<Longrightarrow> pc_step s (pc_next t s)"

section \<open>Invariant\<close>

definition at_count :: "(nat \<Rightarrow> bool) \<Rightarrow> pc_line set \<Rightarrow> pc_sys \<Rightarrow> int" where
  "at_count Q ls s = int (card {t \<in> threads. Q t \<and> at_line s t \<in> ls})"

definition items :: "pc_sys \<Rightarrow> nat \<Rightarrow> nat" where
  "items s t = round s t + (if at_line s t \<in> {GiveMutex, GiveSlot, EndRound} then 1 else 0)"

definition prods :: "nat set" where "prods = {2 ..< 12}"
definition cons :: "nat set" where "cons = {0, 1}"

definition pc_inv :: "pc_sys \<Rightarrow> bool" where
  "pc_inv s \<longleftrightarrow>
     sem_value (sem_mutex s) + at_count (\<lambda>t. True) {Item, GiveMutex} s = 1
   \<and> sem_value (sem_empty s) + at_count (\<lambda>t. \<not> consumer t) {TakeMutex, Item} s + at_count consumer {GiveMutex, GiveSlot} s = empty s
   \<and> sem_value (sem_full s) + at_count consumer {TakeMutex, Item} s + at_count (\<lambda>t. \<not> consumer t) {GiveMutex, GiveSlot} s = full s
   \<and> full s + empty s = 10 \<and> 0 \<le> sem_value (sem_mutex s) \<and> 0 \<le> sem_value (sem_empty s) \<and> 0 \<le> sem_value (sem_full s)
   \<and> full s = int (\<Sum>t \<in> prods. items s t) - int (\<Sum>t \<in> cons. items s t)
   \<and> (\<forall>t. round s t + (if at_line s t = Finished then 0 else 1) \<le> rounds t \<and> (at_line s t = Finished \<longrightarrow> round s t = rounds t))"

lemma at_count_goto:
  assumes "t \<in> threads"
  shows "at_count Q ls (goto t l s) = at_count Q ls s
     + (if Q t \<and> l \<in> ls then 1 else 0) - (if Q t \<and> at_line s t \<in> ls then 1 else 0)"
proof -
  define A where "A = {u \<in> threads. Q u \<and> at_line s u \<in> ls} - {t}"
  have f: "finite A" "t \<notin> A" by (simp_all add: threads_def A_def)
  have "{u \<in> threads. Q u \<and> at_line s u \<in> ls} = (if Q t \<and> at_line s t \<in> ls then insert t A else A)"
    using assms by (auto simp: A_def)
  moreover have "{u \<in> threads. Q u \<and> at_line (goto t l s) u \<in> ls} = (if Q t \<and> l \<in> ls then insert t A else A)"
    using assms by (auto simp: goto_def A_def)
  ultimately show ?thesis unfolding at_count_def using f by simp
qed

lemma at_count_frame [simp]:
  "at_count Q ls (s\<lparr>sem_mutex := x\<rparr>) = at_count Q ls s" "at_count Q ls (put_sem b x s) = at_count Q ls s"
  "at_count Q ls (sleep t s) = at_count Q ls s" "at_count Q ls (wake ws s) = at_count Q ls s"
  "at_count Q ls (insert_item s) = at_count Q ls s" "at_count Q ls (remove_item s) = at_count Q ls s"
  "at_count Q ls (s\<lparr>round := r\<rparr>) = at_count Q ls s"
  by (simp_all add: at_count_def put_sem_def sleep_def wake_def insert_item_def remove_item_def)

lemma thread_sets: "t \<in> threads \<Longrightarrow> t \<in> prods \<longleftrightarrow> \<not> consumer t" "t \<in> threads \<Longrightarrow> t \<in> cons \<longleftrightarrow> consumer t"
  by (auto simp: threads_def prods_def cons_def consumer_def)

lemma sum_one_changed:
  assumes "finite S" "\<And>u. u \<noteq> t \<Longrightarrow> g u = f u" "g t = f t + (k :: nat)"
  shows "sum g S = sum f S + (if t \<in> S then k else 0)"
proof (cases "t \<in> S")
  case True
  have "sum g (S - {t}) = sum f (S - {t})" using assms(2) by (intro sum.cong) auto
  then show ?thesis using True assms(1,3) by (simp add: sum.remove)
next
  case False
  have "sum g S = sum f S" using False by (intro sum.cong refl assms(2)) auto
  then show ?thesis using False by simp
qed

text \<open>A step of \<open>t\<close> that produces or consumes \<open>k\<close> items.\<close>

lemma items_changed:
  assumes "\<And>u. u \<noteq> t \<Longrightarrow> items s' u = items s u" "items s' t = items s t + k" "t \<in> threads"
  shows "(\<Sum>u \<in> prods. items s' u) = (\<Sum>u \<in> prods. items s u) + (if consumer t then 0 else k)"
    "(\<Sum>u \<in> cons. items s' u) = (\<Sum>u \<in> cons. items s u) + (if consumer t then k else 0)"
  using sum_one_changed [of prods t "items s'" "items s" k] sum_one_changed [of cons t "items s'" "items s" k] assms thread_sets [of t]
  by (auto simp: prods_def cons_def)

lemma pc_fields [simp]:
  "at_line (put_sem b x s) = at_line s" "round (put_sem b x s) = round s" "full (put_sem b x s) = full s" "empty (put_sem b x s) = empty s"
  "at_line (sleep t s) = at_line s" "round (sleep t s) = round s" "full (sleep t s) = full s" "empty (sleep t s) = empty s"
  "at_line (wake ws s) = at_line s" "round (wake ws s) = round s" "full (wake ws s) = full s" "empty (wake ws s) = empty s"
  "round (goto t l s) = round s" "full (goto t l s) = full s" "empty (goto t l s) = empty s"
  "sem_mutex (put_sem b x s) = sem_mutex s" "sem_mutex (sleep t s) = sem_mutex s" "sem_mutex (wake ws s) = sem_mutex s" "sem_mutex (goto t l s) = sem_mutex s"
  "sem_full (sleep t s) = sem_full s" "sem_full (wake ws s) = sem_full s" "sem_full (goto t l s) = sem_full s"
  "sem_empty (sleep t s) = sem_empty s" "sem_empty (wake ws s) = sem_empty s" "sem_empty (goto t l s) = sem_empty s"
  "sem_full (put_sem b x s) = (if b then x else sem_full s)" "sem_empty (put_sem b x s) = (if b then sem_empty s else x)"
  "at_line (goto t l s) = (at_line s)(t := l)"
  "at_line (insert_item s) = at_line s" "at_line (remove_item s) = at_line s" "round (insert_item s) = round s" "round (remove_item s) = round s"
  "full (insert_item s) = full s + 1" "full (remove_item s) = full s - 1" "empty (insert_item s) = empty s - 1" "empty (remove_item s) = empty s + 1"
  "sem_mutex (insert_item s) = sem_mutex s" "sem_mutex (remove_item s) = sem_mutex s" "sem_full (insert_item s) = sem_full s"
  "sem_full (remove_item s) = sem_full s" "sem_empty (insert_item s) = sem_empty s" "sem_empty (remove_item s) = sem_empty s"
  by (simp_all add: put_sem_def sleep_def wake_def goto_def insert_item_def remove_item_def)

lemma pc_inv_step:
  assumes "pc_inv s" "pc_step s s'"
  shows "pc_inv s'"
proof -
  obtain t where s': "s' = pc_next t s" and t: "t \<in> threads" using assms(2) by (cases rule: pc_step.cases) auto
  note inv = assms(1) [unfolded pc_inv_def]
  have rt: "round s t + (if at_line s t = Finished then 0 else 1) \<le> rounds t" using inv by blast
  show ?thesis
  proof (cases "at_line s t")
    case TakeSlot
    obtain got x where P: "P t (get_sem (consumer t) s) = (got, x)" by fastforce
    let ?s1 = "put_sem (consumer t) x s"
    have s1: "s' = (if got then goto t TakeMutex ?s1 else sleep t ?s1)" by (simp add: s' pc_next_def TakeSlot P)
    note i = items_changed [of t s' s 0, OF _ _ t]
    show ?thesis using inv rt P_result [OF P] i TakeSlot
      by (cases "consumer t"; cases got) (simp_all add: s1 pc_inv_def at_count_goto [OF t] get_sem_def items_def)
  next
    case TakeMutex
    obtain got x where P: "P t (sem_mutex s) = (got, x)" by fastforce
    have s1: "s' = (if got then goto t Item (s\<lparr>sem_mutex := x\<rparr>) else sleep t (s\<lparr>sem_mutex := x\<rparr>))" by (simp add: s' pc_next_def TakeMutex P)
    note i = items_changed [of t s' s 0, OF _ _ t]
    show ?thesis using inv rt P_result [OF P] i TakeMutex
      by (cases "consumer t"; cases got) (simp_all add: s1 pc_inv_def at_count_goto [OF t] items_def)
  next
    case Item
    have s1: "s' = goto t GiveMutex (if consumer t then remove_item s else insert_item s)" by (simp add: s' pc_next_def Item)
    note i = items_changed [of t s' s 1, OF _ _ t]
    show ?thesis using inv rt i Item
      by (cases "consumer t") (simp_all add: s1 pc_inv_def at_count_goto [OF t] items_def)
  next
    case GiveMutex
    obtain ws x where V: "V (sem_mutex s) = (ws, x)" by fastforce
    have s1: "s' = goto t GiveSlot (wake ws (s\<lparr>sem_mutex := x\<rparr>))" by (simp add: s' pc_next_def GiveMutex V)
    note i = items_changed [of t s' s 0, OF _ _ t]
    show ?thesis using inv rt V_result [OF V] i GiveMutex
      by (cases "consumer t") (simp_all add: s1 pc_inv_def at_count_goto [OF t] items_def)
  next
    case GiveSlot
    obtain ws x where V: "V (get_sem (\<not> consumer t) s) = (ws, x)" by fastforce
    have s1: "s' = goto t EndRound (wake ws (put_sem (\<not> consumer t) x s))" by (simp add: s' pc_next_def GiveSlot V)
    note i = items_changed [of t s' s 0, OF _ _ t]
    show ?thesis using inv rt V_result [OF V] i GiveSlot
      by (cases "consumer t") (simp_all add: s1 pc_inv_def at_count_goto [OF t] items_def get_sem_def)
  next
    case EndRound
    let ?i = "round s t + 1"
    have s1: "s' = (goto t (if ?i < rounds t then TakeSlot else Finished) s)\<lparr>round := (round s)(t := ?i)\<rparr>"
      by (simp add: s' pc_next_def EndRound)
    have same: "items s' = items s" by (rule ext) (simp add: s1 items_def EndRound)
    have "?i \<le> rounds t" using rt EndRound by simp
    then show ?thesis using inv EndRound unfolding pc_inv_def same
      by (cases "?i < rounds t") (simp_all add: s1 at_count_goto [OF t])
  next
    case Finished
    then show ?thesis using assms(1) by (simp add: s' pc_next_def)
  qed
qed

lemma pc_inv_init: "s = SemTest \<Longrightarrow> pc_inv s"
  by (auto simp: pc_inv_def SemTest_def new_Semaphore_def at_count_def items_def rounds_def)

interpretation producers_consumers: step_system "\<lambda>s. s = SemTest" pc_step pc_inv
  by unfold_locales (fact pc_inv_init pc_inv_step)+

section \<open>Properties\<close>

lemma at_count_nonneg [simp]: "0 \<le> at_count Q ls s" by (simp add: at_count_def)

text \<open>\<open>SemTest\<close> in every interleaving.  The buffer never holds fewer than 0 or more than 10 items, at most one thread is at the
  counters at a time, and no consumer ever comes to its end: each wants 23 items and there are only 20.\<close>

theorem SemTest_reachable:
  assumes "pc_step\<^sup>*\<^sup>* SemTest s"
  shows "0 \<le> full s \<and> full s \<le> 10 \<and> empty s = 10 - full s
    \<and> (\<forall>t \<in> threads. \<forall>u \<in> threads. at_line s t \<in> {Item, GiveMutex} \<longrightarrow> at_line s u \<in> {Item, GiveMutex} \<longrightarrow> t = u)
    \<and> (\<forall>t \<in> threads. consumer t \<longrightarrow> at_line s t \<noteq> Finished)"
proof -
  have full: "pc_inv s" using producers_consumers.inv_reachable assms by blast
  note inv = full [unfolded pc_inv_def]
  have bounds: "0 \<le> full s" "0 \<le> empty s" "full s + empty s = 10"
    using inv at_count_nonneg by (metis add_nonneg_nonneg)+
  let ?M = "{t \<in> threads. True \<and> at_line s t \<in> {Item, GiveMutex}}"
  have "card ?M \<le> Suc 0" using inv by (simp add: at_count_def)
  then have one: "\<forall>t \<in> ?M. \<forall>u \<in> ?M. t = u" by (subst (asm) card_le_Suc0_iff_eq) (simp_all add: threads_def)
  have le: "items s t \<le> rounds t" for t
  proof -
    have "round s t + (if at_line s t = Finished then 0 else 1) \<le> rounds t" using inv by blast
    then show ?thesis by (auto simp: items_def split: if_splits)
  qed
  have "(\<Sum>t \<in> prods. items s t) \<le> (\<Sum>t \<in> prods. 2)"
  proof (rule sum_mono)
    fix t assume "t \<in> prods"
    then have "rounds t = 2" by (simp add: prods_def rounds_def consumer_def)
    then show "items s t \<le> 2" using le [of t] by simp
  qed
  then have p: "(\<Sum>t \<in> prods. items s t) \<le> 20" by (simp add: prods_def)
  have "at_line s t \<noteq> Finished" if t: "t \<in> threads" "consumer t" for t
  proof
    assume "at_line s t = Finished"
    then have "round s t = 23" using inv t(2) by (simp add: rounds_def)
    then have "23 \<le> items s t" by (simp add: items_def)
    moreover have "items s t \<le> (\<Sum>u \<in> cons. items s u)" using t thread_sets(2) by (intro member_le_sum) (simp_all add: cons_def)
    ultimately show False using p inv bounds(1) by linarith
  qed
  then show ?thesis using bounds one by auto
qed

theorem SemTest_reachable_witness:
  "pc_step\<^sup>*\<^sup>* SemTest (pc_next 2 (pc_next 2 (pc_next 2 SemTest)))
     \<and> full (pc_next 2 (pc_next 2 (pc_next 2 SemTest))) = 1 \<and> empty (pc_next 2 (pc_next 2 (pc_next 2 SemTest))) = 9"
proof -
  note run = SemTest_def pc_next_def P_def get_sem_def put_sem_def goto_def consumer_def new_Semaphore_def
  have "asleep SemTest = {}" "asleep (pc_next 2 SemTest) = {}" "asleep (pc_next 2 (pc_next 2 SemTest)) = {}" by (simp_all add: run)
  then have st: "pc_step SemTest (pc_next 2 SemTest)" "pc_step (pc_next 2 SemTest) (pc_next 2 (pc_next 2 SemTest))"
    "pc_step (pc_next 2 (pc_next 2 SemTest)) (pc_next 2 (pc_next 2 (pc_next 2 SemTest)))"
    using pc_step.intros [of 2] by (simp_all add: threads_def)
  have r: "pc_step\<^sup>*\<^sup>* SemTest (pc_next 2 (pc_next 2 (pc_next 2 SemTest)))"
    by (rule converse_rtranclp_into_rtranclp, rule st(1), rule converse_rtranclp_into_rtranclp, rule st(2), rule r_into_rtranclp, rule st(3))
  have "full (pc_next 2 (pc_next 2 (pc_next 2 SemTest))) = 1"
    by (simp add: run insert_item_def)
  then show ?thesis using SemTest_reachable [OF r] r by simp
qed

end
