(* ===== verification/BufferTest.thy ===== *)
theory BufferTest
  imports Monitor ProdCons
begin

text \<open>
  The producer-consumer test \<open>CondTest\<close> of threads/synchtest.cc, on one \<open>Lock\<close> and two \<open>Condition\<close>s: 10 producers with 2 items
  each, 2 consumers that want 29 items each, and a buffer of 10 places.  It is a client of \<open>monitor\<close>.  Printing is left out.
\<close>

section \<open>The test\<close>

text \<open>\<open>loop_i\<close> is the loop counter of each thread.  The threads are those of \<open>ProdCons\<close>.\<close>

record cond_test =
  cond_mutex :: Lock
  prodc :: Condition
  consc :: Condition
  buffer :: int
  loop_i :: "nat \<Rightarrow> int"

definition FullBuffer :: int where "FullBuffer = 10"
definition cond_MAX :: int where "cond_MAX = 15"

text \<open>\<open>Waiting True\<close> is the sleep of a consumer, \<open>Waiting False\<close> that of a producer; \<open>Again\<close> is the loop around \<open>Wait\<close>.\<close>

datatype cond_code = Enter | Again bool

datatype cond_place = Outside | Waiting bool | Ended

text \<open>One round of \<open>Producer_cond\<close> and of \<open>Consumer_cond\<close>, from the test of the inner loop to the sleep or to the next test of the outer
  loop.\<close>

definition Producer_cond :: "nat \<Rightarrow> cond_test \<Rightarrow> (cond_place \<times> nat list \<times> cond_test) res" where
  "Producer_cond t x =
     (if buffer x = FullBuffer
      then bindR (Wait t (prodc x) (cond_mutex x)) (\<lambda>(ws, c, l). Inr (Waiting False, ws, x\<lparr>prodc := c, cond_mutex := l\<rparr>))
      else let x1 = x\<lparr>buffer := buffer x + 1\<rparr> in
           bindR (Signal t (consc x1) (cond_mutex x1)) (\<lambda>(ws, c).
           bindR (Release t (cond_mutex x1)) (\<lambda>(ws', l). let i = loop_i x t + 1 in
           Inr (if i < cond_MAX sdiv 7 + 1 then Outside else Ended, ws @ ws',
                x1\<lparr>consc := c, cond_mutex := l, loop_i := (loop_i x)(t := i)\<rparr>))))"

definition Consumer_cond :: "nat \<Rightarrow> cond_test \<Rightarrow> (cond_place \<times> nat list \<times> cond_test) res" where
  "Consumer_cond t x =
     (if buffer x = 0
      then bindR (Wait t (consc x) (cond_mutex x)) (\<lambda>(ws, c, l). Inr (Waiting True, ws, x\<lparr>consc := c, cond_mutex := l\<rparr>))
      else let x1 = x\<lparr>buffer := buffer x - 1\<rparr> in
           bindR (Signal t (prodc x1) (cond_mutex x1)) (\<lambda>(ws, c).
           bindR (Release t (cond_mutex x1)) (\<lambda>(ws', l). let i = loop_i x t + 1 in
           Inr (if i < cond_MAX * 2 then Outside else Ended, ws @ ws',
                x1\<lparr>prodc := c, cond_mutex := l, loop_i := (loop_i x)(t := i)\<rparr>))))"

definition cond_body :: "cond_code \<Rightarrow> nat \<Rightarrow> cond_test \<Rightarrow> (cond_place \<times> nat list \<times> cond_test) res" where
  "cond_body k t x = (if consumer t then Consumer_cond t x else Producer_cond t x)"

fun cond_again :: "cond_place \<Rightarrow> cond_code option" where
  "cond_again (Waiting b) = Some (Again b)"
| "cond_again _ = None"

definition cond_asks :: "nat \<Rightarrow> cond_place \<Rightarrow> cond_code \<Rightarrow> bool" where
  "cond_asks t p k \<longleftrightarrow> t \<in> threads \<and> p = Outside \<and> k = Enter"

definition set_cond_mutex :: "Lock \<Rightarrow> cond_test \<Rightarrow> cond_test" where
  "set_cond_mutex l x = x\<lparr>cond_mutex := l\<rparr>"

type_synonym cond_sys = "(cond_test, cond_code, cond_place) mon_sys"

definition cond_step :: "cond_sys \<Rightarrow> cond_sys \<Rightarrow> bool" where
  "cond_step = mon_step cond_mutex set_cond_mutex cond_body cond_again cond_asks"

definition CondTest :: cond_sys where
  "CondTest = \<lparr>obj = \<lparr>cond_mutex = new_Lock 0, prodc = new_Condition, consc = new_Condition, buffer = 0, loop_i = (\<lambda>_. 1)\<rparr>,
     mon_at = (\<lambda>_. At Outside)\<rparr>"

section \<open>Both loops at once\<close>

text \<open>What a consumer (\<open>True\<close>) or a producer (\<open>False\<close>) can still take, its condition, and the end of its loop.\<close>

definition avail :: "bool \<Rightarrow> cond_test \<Rightarrow> int" where "avail b x = (if b then buffer x else 10 - buffer x)"
definition cv :: "bool \<Rightarrow> cond_test \<Rightarrow> Condition" where "cv b x = (if b then consc x else prodc x)"
definition set_cv :: "bool \<Rightarrow> Condition \<Rightarrow> cond_test \<Rightarrow> cond_test" where
  "set_cv b c x = (if b then x\<lparr>consc := c\<rparr> else x\<lparr>prodc := c\<rparr>)"
definition limit :: "nat \<Rightarrow> int" where "limit t = (if consumer t then 30 else 3)"

definition round_end :: "bool \<Rightarrow> nat \<Rightarrow> Condition \<Rightarrow> Lock \<Rightarrow> cond_test \<Rightarrow> cond_test" where
  "round_end b t c l x = (set_cv (\<not> b) c (x\<lparr>buffer := buffer x + (if b then -1 else 1)\<rparr>))\<lparr>cond_mutex := l,
     loop_i := (loop_i x)(t := loop_i x t + 1)\<rparr>"

lemma cond_body_eq:
  "cond_body k t x = (let b = consumer t in
     if avail b x = 0
     then bindR (Wait t (cv b x) (cond_mutex x)) (\<lambda>(ws, c, l). Inr (Waiting b, ws, (set_cv b c x)\<lparr>cond_mutex := l\<rparr>))
     else bindR (Signal t (cv (\<not> b) x) (cond_mutex x)) (\<lambda>(ws, c).
          bindR (Release t (cond_mutex x)) (\<lambda>(ws', l).
          Inr (if loop_i x t + 1 < limit t then Outside else Ended, ws @ ws', round_end b t c l x))))"
  by (auto simp: cond_body_def Producer_cond_def Consumer_cond_def avail_def cv_def set_cv_def limit_def round_end_def cond_MAX_def
      FullBuffer_def Let_def signed_divide_int_def intro!: arg_cong [of _ _ "bindR _"])

section \<open>Invariant\<close>

text \<open>A sleeper of either kind means that what it waits for is already promised to threads on their way.  The buffer holds what the
  producers have made less what the consumers have taken.\<close>

definition wake_ok :: "bool \<Rightarrow> cond_test \<Rightarrow> (nat \<Rightarrow> (cond_code, cond_place) mon_pc) \<Rightarrow> bool" where
  "wake_ok b x f \<longleftrightarrow> few (on_way (Again b)) f \<and> cond_inv 0 (Waiting b) (cv b x) f \<and> 0 \<le> avail b x
     \<and> (wait_cond_queue (cv b x) \<noteq> [] \<longrightarrow> avail b x \<le> num_at (on_way (Again b)) f)"

text \<open>Where one thread may be.\<close>

definition place_ok :: "nat \<Rightarrow> int \<Rightarrow> (cond_code, cond_place) mon_pc \<Rightarrow> bool" where
  "place_ok t i q \<longleftrightarrow> (on_way (Again (\<not> consumer t)) q \<or> q = At (Waiting (\<not> consumer t)) \<longrightarrow> False)
     \<and> (t \<notin> threads \<longrightarrow> q = At Outside) \<and> 1 \<le> i \<and> i \<le> limit t \<and> (q = At Ended \<longleftrightarrow> i = limit t)"

definition cond_ok :: "cond_test \<Rightarrow> (nat \<Rightarrow> (cond_code, cond_place) mon_pc) \<Rightarrow> bool" where
  "cond_ok x f \<longleftrightarrow> lock_id (cond_mutex x) = 0 \<and> (\<forall>b. wake_ok b x f) \<and> (\<forall>t. place_ok t (loop_i x t) (f t))
     \<and> buffer x = (\<Sum>t \<in> prods. loop_i x t - 1) - (\<Sum>t \<in> cons. loop_i x t - 1)"

lemma cond_okI:
  assumes "lock_id (cond_mutex x) = 0" "wake_ok b x f" "wake_ok (\<not> b) x f" "\<And>t. place_ok t (loop_i x t) (f t)"
    "buffer x = (\<Sum>t \<in> prods. loop_i x t - 1) - (\<Sum>t \<in> cons. loop_i x t - 1)"
  shows "cond_ok x f"
proof -
  have "wake_ok d x f" for d using assms(2,3) by (cases "d = b") auto
  then show ?thesis using assms(1,4,5) by (simp add: cond_ok_def)
qed

lemma fields [simp]:
  "cond_mutex (set_cv b c x) = cond_mutex x" "loop_i (set_cv b c x) = loop_i x" "buffer (set_cv b c x) = buffer x"
  "avail b (set_cv b' c x) = avail b x" "avail b (x\<lparr>cond_mutex := l\<rparr>) = avail b x" "cv b (x\<lparr>cond_mutex := l\<rparr>) = cv b x"
  "cv b (set_cv b' c x) = (if b' = b then c else cv b x)"
  "cond_mutex (round_end b t c l x) = l" "loop_i (round_end b t c l x) = (loop_i x)(t := loop_i x t + 1)"
  "buffer (round_end b t c l x) = buffer x + (if b then -1 else 1)"
  "avail b' (round_end b t c l x) = avail b' x + (if b' = b then -1 else 1)"
  "cv b' (round_end b t c l x) = (if b' = b then cv b x else c)"
  by (auto simp: set_cv_def avail_def cv_def round_end_def)

lemma place_ok_woken: "place_ok t i q \<Longrightarrow> place_ok t i (woken cond_again q)"
proof (cases q)
  case (At p)
  then show "place_ok t i q \<Longrightarrow> ?thesis" by (cases p) (auto simp: place_ok_def)
qed (auto simp: place_ok_def)

lemma place_ok_wakes: "place_ok t i (f t) \<Longrightarrow> place_ok t i (wakes cond_again ws f t)"
  by (simp add: wakes_def place_ok_woken)

lemma place_ok_holder: "place_ok t i (Holds k) \<Longrightarrow> t \<in> threads \<and> i < limit t \<and> k \<noteq> Again (\<not> consumer t)"
  by (auto simp: place_ok_def)

text \<open>The sleep of the holder.\<close>

lemma cond_wait:
  assumes l: "lock_inv (cond_mutex x) f" and i: "cond_ok x f" and t: "f t = Holds k" and b: "b = consumer t" and a: "avail b x = 0"
  shows "\<exists>ws c l1. Wait t (cv b x) (cond_mutex x) = Inr (ws, c, l1) \<and> lock_inv l1 (wakes cond_again ws (f(t := At (Waiting b))))
    \<and> cond_ok ((set_cv b c x)\<lparr>cond_mutex := l1\<rparr>) (wakes cond_again ws (f(t := At (Waiting b))))
    \<and> (\<forall>u \<in> set ws. \<exists>k. f u = InQueue k)"
proof -
  have id: "lock_id (cond_mutex x) = 0" and w: "wake_ok b x f" "wake_ok (\<not> b) x f" and p: "\<And>u. place_ok u (loop_i x u) (f u)"
    using i by (auto simp: cond_ok_def)
  obtain ws c l1 where W: "Wait t (cv b x) (cond_mutex x) = Inr (ws, c, l1)" "lock_id l1 = 0"
    "lock_inv l1 (wakes cond_again ws (f(t := At (Waiting b))))" "cond_inv 0 (Waiting b) c (wakes cond_again ws (f(t := At (Waiting b))))"
    and q: "\<forall>u \<in> set ws. \<exists>k. f u = InQueue k"
    using Wait_inv [OF l, of "Waiting b" "cv b x" t k cond_again] t w(1) id by (auto simp: wake_ok_def)
  let ?g = "wakes cond_again ws (f(t := At (Waiting b)))"
  note n = on_way_left [OF t q, of _ cond_again "Waiting b"]
  have "k \<noteq> Again (\<not> b)" using place_ok_holder p [of t] t b by auto
  then have "wake_ok (\<not> b) ((set_cv b c x)\<lparr>cond_mutex := l1\<rparr>) ?g"
    using w(2) n [of "Again (\<not> b)"] cond_inv_after [of 0 "Waiting (\<not> b)" "cv (\<not> b) x" f t k "Waiting b" ws cond_again] t q
    by (simp add: wake_ok_def)
  moreover have "wake_ok b ((set_cv b c x)\<lparr>cond_mutex := l1\<rparr>) ?g"
    using W(4) n(2) [of "Again b"] a w(1) by (simp add: wake_ok_def)
  moreover have "place_ok u (loop_i x u) (?g u)" for u
  proof (rule place_ok_wakes)
    show "place_ok u (loop_i x u) ((f(t := At (Waiting b))) u)"
      using p [of u] place_ok_holder [of t "loop_i x t" k] t b by (auto simp: place_ok_def)
  qed
  ultimately have "cond_ok ((set_cv b c x)\<lparr>cond_mutex := l1\<rparr>) ?g"
    using i W(2) by (intro cond_okI [of _ b]) (simp_all add: cond_ok_def)
  then show ?thesis using W q by blast
qed

lemma sum_bumped:
  assumes "t \<in> threads"
  shows "(\<Sum>u \<in> prods. (i(t := i t + 1)) u - 1) = (\<Sum>u \<in> prods. i u - (1 :: int)) + (if consumer t then 0 else 1)"
    "(\<Sum>u \<in> cons. (i(t := i t + 1)) u - 1) = (\<Sum>u \<in> cons. i u - (1 :: int)) + (if consumer t then 1 else 0)"
proof -
  have "(\<Sum>u \<in> S. (i(t := i t + 1)) u - 1) = (\<Sum>u \<in> S. i u - (1 :: int)) + (if t \<in> S then 1 else 0)" if "finite S" for S
  proof -
    have "(\<Sum>u \<in> S. (i(t := i t + 1)) u - 1) = (\<Sum>u \<in> S. (i u - 1) + (if u = t then 1 else 0))" by (intro sum.cong) auto
    also have "\<dots> = (\<Sum>u \<in> S. i u - 1) + (\<Sum>u \<in> S. if u = t then 1 else 0)" by (rule sum.distrib)
    finally show ?thesis using that by simp
  qed
  then show "(\<Sum>u \<in> prods. (i(t := i t + 1)) u - 1) = (\<Sum>u \<in> prods. i u - (1 :: int)) + (if consumer t then 0 else 1)"
    "(\<Sum>u \<in> cons. (i(t := i t + 1)) u - 1) = (\<Sum>u \<in> cons. i u - (1 :: int)) + (if consumer t then 1 else 0)"
    using thread_sets [OF assms] by (simp_all add: prods_def cons_def)
qed

text \<open>A whole round: the holder makes or takes an item, signals the other side and leaves.\<close>

lemma cond_round:
  assumes l: "lock_inv (cond_mutex x) f" and i: "cond_ok x f" and t: "f t = Holds k" and b: "b = consumer t" and a: "avail b x \<noteq> 0"
    and p: "p = (if loop_i x t + 1 < limit t then Outside else Ended)"
  shows "\<exists>ws0 c ws l1. Signal t (cv (\<not> b) x) (cond_mutex x) = Inr (ws0, c) \<and> Release t (cond_mutex x) = Inr (ws, l1)
    \<and> lock_inv l1 (wakes cond_again (ws0 @ ws) (f(t := At p)))
    \<and> cond_ok (round_end b t c l1 x) (wakes cond_again (ws0 @ ws) (f(t := At p)))"
proof -
  have id: "lock_id (cond_mutex x) = 0" and w: "wake_ok b x f" "wake_ok (\<not> b) x f" and pl: "\<And>u. place_ok u (loop_i x u) (f u)"
    using i by (auto simp: cond_ok_def)
  obtain ws0 c where S: "Signal t (cv (\<not> b) x) (cond_mutex x) = Inr (ws0, c)" "cond_inv 0 (Waiting (\<not> b)) c (wakes cond_again ws0 f)"
    "signalled (Waiting (\<not> b)) (wait_cond_queue (cv (\<not> b) x)) ws0 f" "wait_cond_queue c = tl (wait_cond_queue (cv (\<not> b) x))"
    using Signal_inv [of "cond_mutex x" "Waiting (\<not> b)" "cv (\<not> b) x" f t cond_again] holder_of [OF l t] w(2) id
    by (auto simp: wake_ok_def)
  have ws0: "\<forall>u \<in> set ws0. f u = At (Waiting (\<not> b))" using S(3) by (auto elim!: signalled_cases)
  obtain ws l1 where R: "Release t (cond_mutex x) = Inr (ws, l1)" "lock_id l1 = 0" "lock_inv l1 (wakes cond_again (ws0 @ ws) (f(t := At p)))"
    "\<forall>u \<in> set ws. \<exists>k. f u = InQueue k"
    using Release_after [OF l t, of ws0 cond_again p] ws0 id by auto
  let ?g = "wakes cond_again (ws0 @ ws) (f(t := At p))"
  note n = on_way_after [OF t S(3) _ R(4), where again = cond_again and p = p and i = "Again (\<not> b)"]
  have th: "t \<in> threads" "loop_i x t < limit t" "k \<noteq> Again (\<not> b)" using place_ok_holder [OF pl [of t, unfolded t]] b by auto
  have "cond_inv 0 (Waiting b) (cv b x) ?g"
    using w(1) t ws0 R(4) by (intro cond_inv_wakes cond_inv_upd) (auto simp: wake_ok_def p)
  moreover have "wait_cond_queue (cv b x) \<noteq> [] \<longrightarrow> avail b x - 1 \<le> num_at (on_way (Again b)) ?g" "few (on_way (Again b)) ?g"
    using w(1) n [of "Again b"] by (auto simp: wake_ok_def)
  ultimately have 1: "wake_ok b (round_end b t c l1 x) ?g" using w(1) a by (simp add: wake_ok_def)
  have "cond_inv 0 (Waiting (\<not> b)) c ?g" using cond_after_signal [OF S(2) t _ R(4)] ws0 by (auto simp: p)
  moreover have "wait_cond_queue c \<noteq> [] \<longrightarrow> avail (\<not> b) x + 1 \<le> num_at (on_way (Again (\<not> b))) ?g" "few (on_way (Again (\<not> b))) ?g"
    using w(2) n [of "Again (\<not> b)"] S(4) th(3) by (auto simp: wake_ok_def)
  ultimately have 2: "wake_ok (\<not> b) (round_end b t c l1 x) ?g" using w(2) by (simp add: wake_ok_def)
  have 3: "place_ok u (loop_i (round_end b t c l1 x) u) (?g u)" for u
  proof (rule place_ok_wakes)
    show "place_ok u (loop_i (round_end b t c l1 x) u) ((f(t := At p)) u)"
      using pl [of u] th(1,2) by (auto simp: place_ok_def p)
  qed
  have 4: "buffer (round_end b t c l1 x) = (\<Sum>u \<in> prods. loop_i (round_end b t c l1 x) u - 1) - (\<Sum>u \<in> cons. loop_i (round_end b t c l1 x) u - 1)"
    using i sum_bumped [OF th(1), of "loop_i x"] b by (simp add: cond_ok_def)
  show ?thesis using S(1) R 1 2 3 4 by (intro exI conjI) (rule S(1), rule R(1), rule R(3), rule cond_okI [of _ b], simp_all)
qed

lemma cond_body_ok:
  assumes "lock_inv (cond_mutex x) f" "cond_ok x f" "f t = Holds k"
  shows "\<exists>p ws x1. cond_body k t x = Inr (p, ws, x1) \<and> lock_inv (cond_mutex x1) (wakes cond_again ws (f(t := At p)))
    \<and> cond_ok x1 (wakes cond_again ws (f(t := At p)))"
proof (cases "avail (consumer t) x = 0")
  case True
  then show ?thesis using cond_wait [OF assms refl True] by (fastforce simp: cond_body_eq Let_def)
next
  case False
  then show ?thesis using cond_round [OF assms refl False refl] by (fastforce simp: cond_body_eq Let_def)
qed

lemma place_of: "cond_ok x f \<Longrightarrow> place_ok t (loop_i x t) (f t)"
  by (simp add: cond_ok_def)

lemma cond_ok_move:
  assumes "cond_ok x f" "\<And>j. on_way (Again j) q = on_way (Again j) (f t)" "\<And>j. q \<noteq> At (Waiting j) \<and> f t \<noteq> At (Waiting j)"
    "place_ok t (loop_i x t) q"
  shows "cond_ok x (f(t := q))"
proof -
  have "num_at (on_way (Again j)) (f(t := q)) = num_at (on_way (Again j)) f" for j by (rule num_at_same) (rule assms(2))
  then have "wake_ok b x (f(t := q))" for b
    using assms(1,3) by (auto simp: wake_ok_def cond_ok_def intro!: cond_inv_upd)
  then show ?thesis using assms(1,4) by (auto simp: cond_ok_def)
qed

interpretation cond_threads: monitor cond_mutex set_cond_mutex cond_body cond_again cond_asks cond_ok "\<lambda>s. s = CondTest"
proof
  fix x :: cond_test and l f t p k q
  show "cond_mutex (set_cond_mutex l x) = l" by (simp add: set_cond_mutex_def)
  show "lock_id l = lock_id (cond_mutex x) \<Longrightarrow> cond_ok x f \<Longrightarrow> cond_ok (set_cond_mutex l x) f"
    by (simp add: cond_ok_def wake_ok_def set_cond_mutex_def)
  show "cond_ok x f \<Longrightarrow> f t = At p \<Longrightarrow> cond_asks t p k \<Longrightarrow> cond_ok x (f(t := Want k))"
    using place_of [of x f t] by (intro cond_ok_move) (auto simp: cond_asks_def place_ok_def)
  show "cond_ok x f \<Longrightarrow> f t = Want k \<Longrightarrow> q = Holds k \<or> q = InQueue k \<Longrightarrow> cond_ok x (f(t := q))"
    using place_of [of x f t] by (intro cond_ok_move) (auto simp: place_ok_def)
  show "lock_inv (cond_mutex x) f \<Longrightarrow> cond_ok x f \<Longrightarrow> f t = Holds k \<Longrightarrow>
    \<exists>p ws x1. cond_body k t x = Inr (p, ws, x1) \<and> lock_inv (cond_mutex x1) (wakes cond_again ws (f(t := At p)))
      \<and> cond_ok x1 (wakes cond_again ws (f(t := At p)))" by (rule cond_body_ok)
next
  fix s :: cond_sys
  show "s = CondTest \<Longrightarrow> mon_inv cond_mutex cond_ok s"
    by (auto simp: mon_inv_def CondTest_def cond_ok_def wake_ok_def place_ok_def avail_def cv_def few_def limit_def new_Lock_def
      intro!: lock_inv_new [unfolded new_Lock_def] cond_inv_new)
qed

section \<open>Every run ends\<close>

text \<open>A round lowers the number of rounds left; a \<open>Wait\<close> lowers the number of threads that are not asleep on a condition; every
  other step takes a thread further towards the lock.\<close>

definition rounds_left :: "cond_sys \<Rightarrow> nat" where
  "rounds_left s = (\<Sum>t \<in> threads. nat (limit t - loop_i (obj s) t))"

definition sleepless :: "cond_sys \<Rightarrow> nat" where
  "sleepless s = card {t \<in> threads. \<forall>b. mon_at s t \<noteq> At (Waiting b)}"

fun distance :: "(cond_code, cond_place) mon_pc \<Rightarrow> nat" where
  "distance (At p) = 3" | "distance (Want k) = 2" | "distance (Holds k) = 1" | "distance (InQueue k) = 1"

definition distances :: "cond_sys \<Rightarrow> nat" where
  "distances s = (\<Sum>t \<in> threads. distance (mon_at s t))"

lemma finite_threads [simp]: "finite threads"
  by (simp add: threads_def)

lemma sum_less_at:
  assumes "t \<in> threads" "g t < h t" "\<And>u. u \<noteq> t \<Longrightarrow> g u = h u"
  shows "(\<Sum>u \<in> threads. g u) < (\<Sum>u \<in> threads. h u :: nat)"
proof (rule sum_strict_mono_ex1)
  show "\<forall>u \<in> threads. g u \<le> h u" using assms(2,3) by (metis less_imp_le order_refl)
  show "\<exists>u \<in> threads. g u < h u" using assms(1,2) by blast
qed simp

text \<open>A thread that moves towards the lock.\<close>

lemma towards_lock:
  assumes "t \<in> threads" "distance q < distance (mon_at s t)" "\<And>b. q \<noteq> At (Waiting b) \<and> mon_at s t \<noteq> At (Waiting b)"
    "loop_i x = loop_i (obj s)" "s' = s\<lparr>obj := x, mon_at := (mon_at s)(t := q)\<rparr>"
  shows "(s', s) \<in> measures [rounds_left, sleepless, distances]"
proof -
  have "rounds_left s' = rounds_left s" by (simp add: rounds_left_def assms(4,5))
  moreover have "sleepless s' = sleepless s"
    unfolding sleepless_def using assms(3,5) by (intro arg_cong [of _ _ card]) auto
  moreover have "distances s' < distances s"
    unfolding distances_def using assms(1,2,5) by (intro sum_less_at [of t]) auto
  ultimately show ?thesis by simp
qed

lemma cond_step_decreases:
  assumes l: "lock_inv (cond_mutex (obj s)) (mon_at s)" and i: "cond_ok (obj s) (mon_at s)" and st: "cond_step s s'"
  shows "(s', s) \<in> measures [rounds_left, sleepless, distances]"
  using st unfolding cond_step_def
proof cases
  case (ask t p k)
  then show ?thesis by (intro towards_lock [of t "Want k" s "obj s"]) (auto simp: cond_asks_def)
next
  case (got t k l1)
  then have "t \<in> threads" using place_of [OF i, of t] by (auto simp: place_ok_def)
  then show ?thesis using got by (intro towards_lock [of t "Holds k" s]) (auto simp: set_cond_mutex_def)
next
  case (busy t k l1)
  then have "t \<in> threads" using place_of [OF i, of t] by (auto simp: place_ok_def)
  then show ?thesis using busy by (intro towards_lock [of t "InQueue k" s]) (auto simp: set_cond_mutex_def)
next
  case (body t k p ws x)
  have th: "t \<in> threads" "loop_i (obj s) t < limit t" using place_ok_holder [of t _ k] place_of [OF i, of t] body(2) by auto
  show ?thesis
  proof (cases "avail (consumer t) (obj s) = 0")
    case True
    obtain ws' c l1 where W: "Wait t (cv (consumer t) (obj s)) (cond_mutex (obj s)) = Inr (ws', c, l1)"
      "\<forall>u \<in> set ws'. \<exists>k. mon_at s u = InQueue k"
      using cond_wait [OF l i body(2) refl True] by blast
    then have b: "ws = ws'" "p = Waiting (consumer t)" "loop_i x = loop_i (obj s)" using body(3) True by (auto simp: cond_body_eq Let_def)
    have "mon_at s' u = At (Waiting d) \<longleftrightarrow> u = t \<and> d = consumer t \<or> mon_at s u = At (Waiting d)" for u d
      using W(2) body(1,2) b by (cases "u \<in> set ws") (auto simp: wakes_def)
    then have "{u \<in> threads. \<forall>d. mon_at s' u \<noteq> At (Waiting d)} = {u \<in> threads. \<forall>d. mon_at s u \<noteq> At (Waiting d)} - {t}" by blast
    then have "sleepless s' < sleepless s"
      unfolding sleepless_def using th(1) body(2) by (simp only:) (rule card_Diff1_less, auto)
    moreover have "rounds_left s' = rounds_left s" by (simp add: rounds_left_def body(1) b(3))
    ultimately show ?thesis by simp
  next
    case False
    then have "loop_i x = (loop_i (obj s))(t := loop_i (obj s) t + 1)" using body(3) by (auto simp: cond_body_eq Let_def)
    then have "rounds_left s' < rounds_left s"
      unfolding rounds_left_def using th body(1) by (intro sum_less_at [of t]) auto
    then show ?thesis by simp
  qed
qed

lemma cond_reaches_end: "cond_step\<^sup>*\<^sup>* CondTest s \<Longrightarrow> \<exists>s'. cond_step\<^sup>*\<^sup>* s s' \<and> (\<forall>s''. \<not> cond_step s' s'')"
proof (induction s rule: wf_induct_rule [OF wf_measures [of "[rounds_left, sleepless, distances]"]])
  case (1 s)
  show ?case
  proof (cases "\<exists>s'. cond_step s s'")
    case True
    then obtain s1 where s1: "cond_step s s1" by blast
    have "cond_step\<^sup>*\<^sup>* CondTest s1" using 1(2) s1 by (rule rtranclp.rtrancl_into_rtrancl)
    moreover have "(s1, s) \<in> measures [rounds_left, sleepless, distances]"
      using cond_step_decreases [OF _ _ s1] cond_threads.reachable [OF refl, of s] 1(2) by (simp add: cond_step_def)
    ultimately obtain s' where "cond_step\<^sup>*\<^sup>* s1 s'" "\<forall>s''. \<not> cond_step s' s''" using 1(1) by blast
    then show ?thesis using s1 by (meson converse_rtranclp_into_rtranclp)
  qed auto
qed

section \<open>Properties\<close>

lemma no_consumer_ends:
  assumes "cond_ok x f" "t \<in> threads" "consumer t"
  shows "f t \<noteq> At Ended" "(\<Sum>u \<in> cons. loop_i x u - 1) \<le> 20 - buffer x"
proof -
  have pl: "place_ok u (loop_i x u) (f u)" for u by (rule place_of [OF assms(1)])
  have ge: "0 \<le> loop_i x u - 1" for u using pl [of u] by (simp add: place_ok_def)
  have "loop_i x u - 1 \<le> 2" if "u \<in> prods" for u
    using pl [of u] that by (auto simp: place_ok_def limit_def prods_def consumer_def)
  then have "(\<Sum>u \<in> prods. loop_i x u - 1) \<le> (\<Sum>u \<in> prods. 2)" by (intro sum_mono)
  then show le: "(\<Sum>u \<in> cons. loop_i x u - 1) \<le> 20 - buffer x" using assms(1) by (simp add: cond_ok_def prods_def)
  have "loop_i x t - 1 \<le> (\<Sum>u \<in> cons. loop_i x u - 1)"
    using thread_sets(2) [OF assms(2)] assms(3) ge by (intro member_le_sum) (simp_all add: cons_def)
  moreover have "0 \<le> buffer x" using assms(1) unfolding cond_ok_def wake_ok_def by (auto simp: avail_def dest: spec [of _ True])
  ultimately show "f t \<noteq> At Ended" using le pl [of t] assms(3) by (auto simp: place_ok_def limit_def)
qed

lemma cond_stuck:
  assumes "cond_step\<^sup>*\<^sup>* CondTest s" "\<forall>s'. \<not> cond_step s s'"
  shows "\<exists>p. mon_at s t = At p" "t \<in> threads \<Longrightarrow> mon_at s t \<noteq> At Outside" "num_at (on_way k) (mon_at s) = 0"
proof -
  have st: "\<exists>p. mon_at s t = At p \<and> (\<forall>k. \<not> cond_asks t p k)" for t
    using cond_threads.stuck [OF refl] assms by (simp add: cond_step_def)
  then show "\<exists>p. mon_at s t = At p" by blast
  show "t \<in> threads \<Longrightarrow> mon_at s t \<noteq> At Outside" using st [of t] by (auto simp: cond_asks_def)
  have "\<not> on_way k (mon_at s t)" for t using st [of t] by auto
  then show "num_at (on_way k) (mon_at s) = 0" by (rule num_at_zero)
qed

text \<open>\<open>CondTest\<close> in every interleaving.  The buffer stays between 0 and 10, at most one thread is between \<open>Acquire\<close> and
  \<open>Release\<close>, no assertion of the lock or of the conditions fails (the holder always gets on), and no consumer comes to its end.\<close>

theorem CondTest_reachable:
  assumes "cond_step\<^sup>*\<^sup>* CondTest s"
  shows "0 \<le> buffer (obj s) \<and> buffer (obj s) \<le> 10
    \<and> (\<forall>t u j k. mon_at s t = Holds j \<longrightarrow> mon_at s u = Holds k \<longrightarrow> t = u)
    \<and> (\<forall>t k. mon_at s t = Holds k \<longrightarrow> (\<exists>r. cond_body k t (obj s) = Inr r))
    \<and> (\<forall>t \<in> threads. consumer t \<longrightarrow> mon_at s t \<noteq> At Ended)"
proof -
  have i: "lock_inv (cond_mutex (obj s)) (mon_at s)" "cond_ok (obj s) (mon_at s)"
    using cond_threads.reachable [OF refl] assms by (simp_all add: cond_step_def)
  have "0 \<le> avail b (obj s)" for b using i(2) by (simp add: cond_ok_def wake_ok_def)
  from this [of True] this [of False] have "0 \<le> buffer (obj s)" "buffer (obj s) \<le> 10" by (simp_all add: avail_def)
  then show ?thesis using one_holder [OF i(1)] cond_body_ok [OF i] no_consumer_ends(1) [OF i(2)] by blast
qed

theorem CondTest_reachable_witness:
  "\<exists>s. cond_step\<^sup>*\<^sup>* CondTest s \<and> mon_at s 2 = Holds Enter \<and> buffer (obj s) \<le> 10 \<and> (\<exists>r. cond_body Enter 2 (obj s) = Inr r)"
proof -
  let ?s1 = "CondTest\<lparr>mon_at := (mon_at CondTest)(2 := Want Enter)\<rparr>"
  let ?l = "(new_Lock 0)\<lparr>locked := (new_Semaphore 1)\<lparr>sem_value := 0\<rparr>, holder := Some 2\<rparr>"
  let ?s2 = "?s1\<lparr>obj := set_cond_mutex ?l (obj ?s1), mon_at := (mon_at ?s1)(2 := Holds Enter)\<rparr>"
  have "cond_step CondTest ?s1" unfolding cond_step_def
    by (rule mon_step.ask [of _ _ Outside]) (simp_all add: CondTest_def cond_asks_def threads_def)
  moreover have "cond_step ?s1 ?s2" unfolding cond_step_def
    by (rule mon_step.got) (simp_all add: CondTest_def Acquire_def P_def new_Lock_def new_Semaphore_def)
  ultimately have r: "cond_step\<^sup>*\<^sup>* CondTest ?s2" by (meson converse_rtranclp_into_rtranclp r_into_rtranclp)
  have h: "mon_at ?s2 2 = Holds Enter" by simp
  show ?thesis using CondTest_reachable [OF r] r h by blast
qed

text \<open>C32: every run of \<open>CondTest\<close> ends, and where it ends all producers have finished, the buffer is empty, the 20 items have been
  taken, and both consumers sleep on their condition for ever.\<close>

theorem CondTest_ends:
  "\<not> (\<exists>r. r 0 = CondTest \<and> (\<forall>n :: nat. cond_step (r n) (r (Suc n))))
   \<and> (\<forall>s. cond_step\<^sup>*\<^sup>* CondTest s \<longrightarrow> (\<forall>s'. \<not> cond_step s s') \<longrightarrow>
        buffer (obj s) = 0 \<and> (\<Sum>t \<in> cons. loop_i (obj s) t - 1) = 20
      \<and> (\<forall>t \<in> threads. mon_at s t = (if consumer t then At (Waiting True) else At Ended)))"
proof (intro conjI allI impI)
  show "\<not> (\<exists>r. r 0 = CondTest \<and> (\<forall>n :: nat. cond_step (r n) (r (Suc n))))"
  proof
    assume "\<exists>r. r 0 = CondTest \<and> (\<forall>n :: nat. cond_step (r n) (r (Suc n)))"
    then obtain r where r: "r 0 = CondTest" "\<And>n :: nat. cond_step (r n) (r (Suc n))" by blast
    have "cond_step\<^sup>*\<^sup>* CondTest (r n)" for n by (induction n) (use r in \<open>auto intro: rtranclp.rtrancl_into_rtrancl\<close>)
    then have "(r (Suc n), r n) \<in> measures [rounds_left, sleepless, distances]" for n
      using cond_step_decreases r(2) cond_threads.reachable [OF refl, of "r n"] by (simp add: cond_step_def)
    then show False using wf_measures [of "[rounds_left, sleepless, distances]"] wf_iff_no_infinite_down_chain by blast
  qed
next
  fix s assume r: "cond_step\<^sup>*\<^sup>* CondTest s" and stuck: "\<forall>s'. \<not> cond_step s s'"
  have i: "cond_ok (obj s) (mon_at s)" using cond_threads.reachable [OF refl, of s] r by (simp add: cond_step_def)
  note pl = place_of [OF i, unfolded place_ok_def] and at = cond_stuck [OF r stuck]
  have av: "avail b (obj s) = 0" if "mon_at s t = At (Waiting b)" for b t
  proof -
    have w: "wake_ok b (obj s) (mon_at s)" using i by (simp add: cond_ok_def)
    then have "t \<in> set (wait_cond_queue (cv b (obj s)))" using that by (simp add: wake_ok_def cond_inv_def)
    then show ?thesis using w at(3) [of "Again b"] by (auto simp: wake_ok_def)
  qed
  have c: "mon_at s t = At (Waiting True)" if "t \<in> threads" "consumer t" for t
  proof -
    obtain p where "mon_at s t = At p" using at(1) by blast
    then show ?thesis using at(2) [OF that(1)] pl [of t] no_consumer_ends(1) [OF i that] that(2) by (cases p) auto
  qed
  have "0 \<in> threads" "consumer 0" by (simp_all add: threads_def consumer_def)
  then show b: "buffer (obj s) = 0" using c [of 0] av [of 0 True] by (simp add: avail_def)
  have p: "mon_at s t = At Ended" if "t \<in> threads" "\<not> consumer t" for t
  proof -
    obtain p where "mon_at s t = At p" using at(1) by blast
    then show ?thesis using at(2) [OF that(1)] pl [of t] that(2) av [of t False] b by (cases p) (auto simp: avail_def)
  qed
  have "loop_i (obj s) t - 1 = 2" if "t \<in> prods" for t
  proof -
    have "t \<in> threads" "\<not> consumer t" using that by (auto simp: prods_def threads_def consumer_def)
    then show ?thesis using p [of t] pl [of t] by (simp add: limit_def)
  qed
  then have "(\<Sum>t \<in> prods. loop_i (obj s) t - 1) = 20" by (simp add: prods_def)
  then show "(\<Sum>t \<in> cons. loop_i (obj s) t - 1) = 20" using i b by (simp add: cond_ok_def)
  show "\<forall>t \<in> threads. mon_at s t = (if consumer t then At (Waiting True) else At Ended)" using c p by simp
qed

theorem CondTest_ends_witness:
  "\<exists>s. cond_step\<^sup>*\<^sup>* CondTest s \<and> (\<forall>s'. \<not> cond_step s s') \<and> buffer (obj s) = 0 \<and> mon_at s 11 = At Ended"
proof -
  obtain s where s: "cond_step\<^sup>*\<^sup>* CondTest s" "\<forall>s'. \<not> cond_step s s'" using cond_reaches_end [of CondTest] by blast
  have "11 \<in> threads" "\<not> consumer 11" by (simp_all add: threads_def consumer_def)
  then show ?thesis using CondTest_ends s by (intro exI [of _ s]) auto
qed

end
