(* ===== verification/SynchSteps.thy ===== *)
theory SynchSteps
  imports Monitor
begin

text \<open>
  How threads interleave on the objects of \<open>Synch\<close>.  A step relation lets any thread take the next piece
  of code that runs without a context switch inside; the reachable states satisfy the invariants below,
  by rule induction over the steps (\<open>step_system\<close>).  The \<open>RWLock\<close> is a client of \<open>monitor\<close>.
\<close>

section \<open>Threads on one semaphore\<close>

datatype sem_pc = SOut | SRetry | SAsleep

text \<open>\<open>passed\<close> and \<open>posted\<close> count the finished calls of \<open>P\<close> and \<open>V\<close>.\<close>

record sem_sys =
  sem :: Semaphore
  sem_at :: "nat \<Rightarrow> sem_pc"
  passed :: int
  posted :: int

inductive sem_step :: "sem_sys \<Rightarrow> sem_sys \<Rightarrow> bool" where
  pass: "sem_at s t \<noteq> SAsleep \<Longrightarrow> P t (sem s) = (True, x) \<Longrightarrow>
     sem_step s (s\<lparr>sem := x, sem_at := (sem_at s)(t := SOut), passed := passed s + 1\<rparr>)"
| sleep: "sem_at s t \<noteq> SAsleep \<Longrightarrow> P t (sem s) = (False, x) \<Longrightarrow>
     sem_step s (s\<lparr>sem := x, sem_at := (sem_at s)(t := SAsleep)\<rparr>)"
| post: "V (sem s) = (ws, x) \<Longrightarrow>
     sem_step s (s\<lparr>sem := x, sem_at := (\<lambda>u. if u \<in> set ws then SRetry else sem_at s u), posted := posted s + 1\<rparr>)"

definition sem_init :: "int \<Rightarrow> sem_sys \<Rightarrow> bool" where
  "sem_init n s \<longleftrightarrow> s = \<lparr>sem = new_Semaphore n, sem_at = (\<lambda>_. SOut), passed = 0, posted = 0\<rparr>"

definition retrying :: "sem_sys \<Rightarrow> nat set" where "retrying s = {t. sem_at s t = SRetry}"

definition sem_inv :: "int \<Rightarrow> sem_sys \<Rightarrow> bool" where
  "sem_inv n s \<longleftrightarrow> sem_value (sem s) = n + posted s - passed s \<and> 0 \<le> sem_value (sem s)
     \<and> distinct (sem_queue (sem s)) \<and> (\<forall>t. t \<in> set (sem_queue (sem s)) \<longleftrightarrow> sem_at s t = SAsleep)
     \<and> finite (retrying s) \<and> (sem_queue (sem s) \<noteq> [] \<longrightarrow> sem_value (sem s) \<le> int (card (retrying s)))"

lemma sem_inv_step:
  assumes "sem_inv n s" "sem_step s s'"
  shows "sem_inv n s'"
  using assms(2)
proof cases
  case (pass t x)
  have r: "retrying s' = retrying s - {t}" using pass by (auto simp: retrying_def)
  have "card (retrying s - {t}) = card (retrying s) - (if t \<in> retrying s then 1 else 0)"
    using assms(1) by (simp add: sem_inv_def)
  then have "int (card (retrying s')) \<ge> int (card (retrying s)) - 1" unfolding r by (auto split: if_splits)
  moreover have "sem_value (sem s) \<noteq> 0" "x = (sem s)\<lparr>sem_value := sem_value (sem s) - 1\<rparr>"
    using pass(3) by (auto simp: P_def split: if_splits)
  moreover have "finite (retrying s')" using assms(1) unfolding r by (simp add: sem_inv_def)
  ultimately have "sem_value x = n + posted s - (passed s + 1)" "0 \<le> sem_value x" "sem_queue x = sem_queue (sem s)"
    "sem_queue x \<noteq> [] \<longrightarrow> sem_value x \<le> int (card (retrying s'))" "finite (retrying s')"
    using assms(1) by (auto simp: sem_inv_def)
  then show ?thesis using assms(1) pass(2) unfolding sem_inv_def pass(1) by simp
next
  case (sleep t x)
  have r: "retrying s' = retrying s - {t}" using sleep by (auto simp: retrying_def)
  have x: "sem_value (sem s) = 0" "x = (sem s)\<lparr>sem_queue := sem_queue (sem s) @ [t]\<rparr>"
    using sleep(3) by (auto simp: P_def split: if_splits)
  then have "sem_value x = n + posted s - passed s" "0 \<le> sem_value x" "distinct (sem_queue x)"
    "sem_value x \<le> int (card (retrying s'))" "\<forall>u. u \<in> set (sem_queue x) \<longleftrightarrow> u = t \<or> sem_at s u = SAsleep"
    using assms(1) sleep(2) by (auto simp: sem_inv_def)
  moreover have "finite (retrying s')" using assms(1) unfolding r by (simp add: sem_inv_def)
  ultimately show ?thesis unfolding sem_inv_def sleep(1) by simp
next
  case (post ws x)
  show ?thesis
  proof (cases "sem_queue (sem s)")
    case Nil
    then have "retrying s' = retrying s" using post by (auto simp: retrying_def V_def)
    with Nil post assms(1) show ?thesis by (auto simp: sem_inv_def V_def)
  next
    case (Cons t ts)
    have q: "\<And>u. u \<in> insert t (set ts) \<longleftrightarrow> sem_at s u = SAsleep" "distinct ts" "t \<notin> set ts"
      using Cons assms(1) by (auto simp: sem_inv_def)
    have x: "ws = [t]" "x = (sem s)\<lparr>sem_queue := ts, sem_value := sem_value (sem s) + 1\<rparr>"
      using Cons post(2) by (auto simp: V_def)
    have t: "t \<notin> retrying s" using q(1) [of t] by (simp add: retrying_def)
    have "retrying s' = insert t (retrying s)" using post(1) x(1) by (auto simp: retrying_def)
    then have "finite (retrying s')" "int (card (retrying s')) = int (card (retrying s)) + 1"
      using assms(1) t by (simp_all add: sem_inv_def)
    moreover have "sem_value (sem s) \<le> int (card (retrying s))" using assms(1) Cons by (simp add: sem_inv_def)
    moreover have "\<forall>u. u \<in> set ts \<longleftrightarrow> u \<noteq> t \<and> sem_at s u = SAsleep" using q(1,3) by blast
    ultimately show ?thesis using assms(1) q(2) unfolding sem_inv_def post(1) x by simp
  qed
qed

lemma sem_inv_init: "0 \<le> n \<Longrightarrow> sem_init n s \<Longrightarrow> sem_inv n s"
  by (simp add: sem_init_def sem_inv_def new_Semaphore_def retrying_def)

interpretation one_sem: step_system "sem_init (max 0 n)" sem_step "sem_inv (max 0 n)" for n
  by unfold_locales (auto intro: sem_inv_init sem_inv_step)

section \<open>Threads on one readers-writers lock\<close>

text \<open>Where a thread is: what it wants the mutex for (\<open>ReRd\<close> and \<open>ReWr\<close> are the \<open>Acquire\<close> at the end of
  \<open>Wait\<close>), whether it is about to try (\<open>Want\<close>), asleep in its queue, or holds it.  \<open>UnRd\<close> and \<open>UnWr\<close>
  are both \<open>unlock\<close>.\<close>

text \<open>The pieces of code under the mutex: \<open>readlock\<close>, \<open>writelock\<close>, their loops again after a \<open>Wait\<close>, and \<open>unlock\<close> by a reader and
  by a writer.  Outside it a thread is idle, asleep on a condition, or between \<open>readlock\<close> or \<open>writelock\<close> and \<open>unlock\<close>.\<close>

datatype rw_kind = Rd | Wr | ReRd | ReWr | UnRd | UnWr

datatype rw_place = Idle | WaitRd | WaitWr | Reading | Writing

type_synonym rw_pc = "(rw_kind, rw_place) mon_pc"
type_synonym rw_sys = "(RWLock, rw_kind, rw_place) mon_sys"

fun after :: "rw_kind \<Rightarrow> bool \<Rightarrow> rw_place" where
  "after Rd sleeps = (if sleeps then WaitRd else Reading)"
| "after ReRd sleeps = (if sleeps then WaitRd else Reading)"
| "after Wr sleeps = (if sleeps then WaitWr else Writing)"
| "after ReWr sleeps = (if sleeps then WaitWr else Writing)"
| "after UnRd sleeps = Idle"
| "after UnWr sleeps = Idle"

fun rw_code :: "rw_kind \<Rightarrow> nat \<Rightarrow> RWLock \<Rightarrow> (bool \<times> nat list \<times> RWLock) res" where
  "rw_code Rd t r = readlock t r"
| "rw_code ReRd t r = read_loop t r"
| "rw_code Wr t r = writelock t r"
| "rw_code ReWr t r = write_loop t r"
| "rw_code UnRd t r = bindR (unlock t r) (\<lambda>(ws, r1). Inr (False, ws, r1))"
| "rw_code UnWr t r = bindR (unlock t r) (\<lambda>(ws, r1). Inr (False, ws, r1))"

definition rw_body :: "rw_kind \<Rightarrow> nat \<Rightarrow> RWLock \<Rightarrow> (rw_place \<times> nat list \<times> RWLock) res" where
  "rw_body k t r = bindR (rw_code k t r) (\<lambda>(sleeps, ws, r1). Inr (after k sleeps, ws, r1))"

fun rw_again :: "rw_place \<Rightarrow> rw_kind option" where
  "rw_again WaitRd = Some ReRd"
| "rw_again WaitWr = Some ReWr"
| "rw_again _ = None"

fun rw_asks :: "nat \<Rightarrow> rw_place \<Rightarrow> rw_kind \<Rightarrow> bool" where
  "rw_asks t Idle k \<longleftrightarrow> k = Rd \<or> k = Wr"
| "rw_asks t Reading k \<longleftrightarrow> k = UnRd"
| "rw_asks t Writing k \<longleftrightarrow> k = UnWr"
| "rw_asks t _ k \<longleftrightarrow> False"

definition set_mutex :: "Lock \<Rightarrow> RWLock \<Rightarrow> RWLock" where "set_mutex l r = r\<lparr>mutex := l\<rparr>"

definition rw_step :: "rw_sys \<Rightarrow> rw_sys \<Rightarrow> bool" where
  "rw_step = mon_step mutex set_mutex rw_body rw_again rw_asks"

definition rw_init :: "rw_sys \<Rightarrow> bool" where
  "rw_init s \<longleftrightarrow> s = \<lparr>obj = new_RWLock, mon_at = (\<lambda>_. At Idle)\<rparr>"

abbreviation wake :: "nat list \<Rightarrow> (nat \<Rightarrow> rw_pc) \<Rightarrow> nat \<Rightarrow> rw_pc" where "wake \<equiv> wakes rw_again"

text \<open>What a thread counts as: inside the section as a reader or a writer, or pending.\<close>

datatype rw_class = NoClass | Reader | Writer | PendReader | PendWriter

fun kind_class :: "rw_kind \<Rightarrow> rw_class" where
  "kind_class Rd = NoClass" | "kind_class Wr = NoClass" | "kind_class ReRd = PendReader"
| "kind_class ReWr = PendWriter" | "kind_class UnRd = Reader" | "kind_class UnWr = Writer"

fun pc_class :: "rw_pc \<Rightarrow> rw_class" where
  "pc_class (Want k) = kind_class k" | "pc_class (InQueue k) = kind_class k" | "pc_class (Holds k) = kind_class k"
| "pc_class (At Idle) = NoClass" | "pc_class (At WaitRd) = PendReader" | "pc_class (At WaitWr) = PendWriter"
| "pc_class (At Reading) = Reader" | "pc_class (At Writing) = Writer"

abbreviation num :: "rw_class \<Rightarrow> (nat \<Rightarrow> rw_pc) \<Rightarrow> int" where "num c \<equiv> num_at (\<lambda>q. pc_class q = c)"

definition fin :: "(nat \<Rightarrow> rw_pc) \<Rightarrow> bool" where "fin f \<longleftrightarrow> few (\<lambda>q. q \<noteq> At Idle) f"

lemma woken_class [simp]: "pc_class (woken rw_again q) = pc_class q"
  by (cases q rule: pc_class.cases) simp_all

lemma wake_class [simp]: "pc_class (wake ws f t) = pc_class (f t)"
  by (simp add: wakes_def)

lemma num_wake [simp]: "num c (wake ws f) = num c f"
  by (rule wakes_same_class) simp

lemma woken_Idle [simp]: "woken rw_again q = At Idle \<longleftrightarrow> q = At Idle"
  by (cases q rule: pc_class.cases) simp_all

lemma fin_wake [simp]: "fin (wake ws f) = fin f"
  unfolding fin_def by (rule wakes_same_class) simp

lemma fin_upd [simp]: "fin (f(t := q)) = fin f"
  by (simp add: fin_def)

lemma fin_few: "fin f \<Longrightarrow> c \<noteq> NoClass \<Longrightarrow> few (\<lambda>q. pc_class q = c) f"
  unfolding fin_def few_def by (elim finite_subset [rotated]) auto

lemma num_upd: "fin f \<Longrightarrow> c \<noteq> NoClass \<Longrightarrow> num c (f(t := q)) = num c f - of_bool (pc_class (f t) = c) + of_bool (pc_class q = c)"
  by (rule num_at_upd) (rule fin_few)

text \<open>The counters of the lock are the numbers of threads inside and pending.\<close>

definition counts_ok :: "RWLock \<Rightarrow> (nat \<Rightarrow> rw_pc) \<Rightarrow> bool" where
  "counts_ok r f \<longleftrightarrow>
     (activeReaders r = num Reader f \<and> num Writer f = 0 \<or> activeReaders r = -1 \<and> num Writer f = 1 \<and> num Reader f = 0)
     \<and> pendingReaders r = num PendReader f \<and> pendingWriters r = num PendWriter f"

text \<open>A pending thread that has been woken.\<close>

definition coming :: "(nat \<Rightarrow> rw_pc) \<Rightarrow> bool" where
  "coming f \<longleftrightarrow> (\<exists>t. pc_class (f t) \<in> {PendReader, PendWriter} \<and> f t \<noteq> At WaitRd \<and> f t \<noteq> At WaitWr)"

definition wakeups_ok :: "RWLock \<Rightarrow> (nat \<Rightarrow> rw_pc) \<Rightarrow> bool" where
  "wakeups_ok r f \<longleftrightarrow> (wait_cond_queue (conReader r) \<noteq> [] \<longrightarrow> activeReaders r = -1)
     \<and> (wait_cond_queue (conWriter r) \<noteq> [] \<and> activeReaders r = 0 \<longrightarrow> coming f)"

definition queues_ok :: "RWLock \<Rightarrow> (nat \<Rightarrow> rw_pc) \<Rightarrow> bool" where
  "queues_ok r f \<longleftrightarrow> lock_inv (mutex r) f \<and> lock_id (mutex r) = 0 \<and> cond_inv 0 WaitRd (conReader r) f
     \<and> cond_inv 0 WaitWr (conWriter r) f \<and> fin f"

definition rw_ok :: "RWLock \<Rightarrow> (nat \<Rightarrow> rw_pc) \<Rightarrow> bool" where
  "rw_ok r f \<longleftrightarrow> lock_id (mutex r) = 0 \<and> cond_inv 0 WaitRd (conReader r) f \<and> cond_inv 0 WaitWr (conWriter r) f \<and> fin f
     \<and> counts_ok r f \<and> wakeups_ok r f"

definition rw_good :: "RWLock \<Rightarrow> (nat \<Rightarrow> rw_pc) \<Rightarrow> bool" where
  "rw_good r f \<longleftrightarrow> queues_ok r f \<and> counts_ok r f \<and> wakeups_ok r f"

lemma rw_good_eq: "rw_good r f \<longleftrightarrow> lock_inv (mutex r) f \<and> rw_ok r f"
  by (auto simp: rw_good_def queues_ok_def rw_ok_def)

lemma class_num_pos: "fin f \<Longrightarrow> c \<noteq> NoClass \<Longrightarrow> pc_class (f t) = c \<Longrightarrow> 0 < num c f"
  by (rule num_at_pos [OF fin_few])

lemma num_pos: "fin f \<Longrightarrow> c \<noteq> NoClass \<Longrightarrow> 0 < num c f \<longleftrightarrow> (\<exists>t. pc_class (f t) = c)"
  using class_num_pos [of f c] num_at_zero [of "\<lambda>q. pc_class q = c" f] by (metis less_irrefl)

lemma num_same: "pc_class q = pc_class (f t) \<Longrightarrow> num c (f(t := q)) = num c f"
  by (rule num_at_same) simp

lemma coming_wake: "coming f \<Longrightarrow> coming (wake ws f)"
proof -
  have "woken rw_again q = At p \<Longrightarrow> q = At p" for q p by (rule woken_At)
  then show "coming f \<Longrightarrow> ?thesis" unfolding coming_def by (metis wake_class wakes_def)
qed

lemma queues_holder: "queues_ok r f \<Longrightarrow> f t = Holds k \<Longrightarrow> holder (mutex r) = Some t \<and> lock_id (mutex r) = 0"
  by (auto simp: queues_ok_def holder_of)

lemma release_queues:
  assumes "queues_ok r f" "f t = Holds k" "p \<noteq> WaitRd" "p \<noteq> WaitWr"
  shows "\<exists>ws l. Release t (mutex r) = Inr (ws, l) \<and> queues_ok (r\<lparr>mutex := l\<rparr>) (wake ws (f(t := At p)))"
proof -
  have l: "lock_inv (mutex r) f" using assms(1) by (simp add: queues_ok_def)
  obtain ws l where R: "Release t (mutex r) = Inr (ws, l)" "lock_inv l (wake ws (f(t := At p)))" "lock_id l = lock_id (mutex r)"
     "\<forall>w \<in> set ws. \<exists>k. f w = InQueue k" using Release_inv [OF l assms(2), of rw_again p] by blast
  then show ?thesis using assms cond_inv_after [OF _ assms(2) _ R(4)] by (auto simp: queues_ok_def)
qed

text \<open>\<open>Wait\<close> on one of the two conditions.\<close>

lemma wait_reader:
  assumes "queues_ok r f" "f t = Holds k"
  shows "\<exists>ws c l. Wait t (conReader r) (mutex r) = Inr (ws, c, l)
    \<and> queues_ok (r\<lparr>conReader := c, mutex := l\<rparr>) (wake ws (f(t := At WaitRd)))"
proof -
  have l: "lock_inv (mutex r) f" "cond_inv (lock_id (mutex r)) WaitRd (conReader r) f" using assms(1) by (auto simp: queues_ok_def)
  obtain ws c l1 where R: "Wait t (conReader r) (mutex r) = Inr (ws, c, l1)" "lock_inv l1 (wake ws (f(t := At WaitRd)))"
    "lock_id l1 = lock_id (mutex r)" "cond_inv (lock_id (mutex r)) WaitRd c (wake ws (f(t := At WaitRd)))"
    "\<forall>u \<in> set ws. \<exists>k. f u = InQueue k" using Wait_inv [OF l assms(2), of rw_again] by blast
  then show ?thesis using assms(1) cond_inv_after [OF _ assms(2) _ R(5)] by (auto simp: queues_ok_def)
qed

lemma wait_writer:
  assumes "queues_ok r f" "f t = Holds k"
  shows "\<exists>ws c l. Wait t (conWriter r) (mutex r) = Inr (ws, c, l)
    \<and> queues_ok (r\<lparr>conWriter := c, mutex := l\<rparr>) (wake ws (f(t := At WaitWr)))"
proof -
  have l: "lock_inv (mutex r) f" "cond_inv (lock_id (mutex r)) WaitWr (conWriter r) f" using assms(1) by (auto simp: queues_ok_def)
  obtain ws c l1 where R: "Wait t (conWriter r) (mutex r) = Inr (ws, c, l1)" "lock_inv l1 (wake ws (f(t := At WaitWr)))"
    "lock_id l1 = lock_id (mutex r)" "cond_inv (lock_id (mutex r)) WaitWr c (wake ws (f(t := At WaitWr)))"
    "\<forall>u \<in> set ws. \<exists>k. f u = InQueue k" using Wait_inv [OF l assms(2), of rw_again] by blast
  then show ?thesis using assms(1) cond_inv_after [OF _ assms(2) _ R(5)] by (auto simp: queues_ok_def)
qed

text \<open>A reader at the test of its loop.\<close>

lemma read_loop_inv:
  assumes q: "queues_ok r f" and c: "counts_ok r f" and w: "wakeups_ok r f" and t: "f t = Holds ReRd"
  shows "\<exists>sl ws r1. read_loop t r = Inr (sl, ws, r1) \<and> rw_good r1 (wake ws (f(t := At (if sl then WaitRd else Reading))))"
proof (cases "activeReaders r < 0")
  case True
  then have a: "activeReaders r = -1" using c num_at_nonneg [of "\<lambda>q. pc_class q = Reader" f] by (auto simp: counts_ok_def simp del: num_at_nonneg)
  obtain ws c1 l where W: "Wait t (conReader r) (mutex r) = Inr (ws, c1, l)"
    "queues_ok (r\<lparr>conReader := c1, mutex := l\<rparr>) (wake ws (f(t := At WaitRd)))" using wait_reader [OF q t] by blast
  have "num x (f(t := At WaitRd)) = num x f" for x using t by (intro num_same) simp
  then show ?thesis using True W c a by (simp add: read_loop_def rw_good_def counts_ok_def wakeups_ok_def) blast
next
  case False
  then have a: "activeReaders r = num Reader f" "num Writer f = 0" using c by (auto simp: counts_ok_def)
  let ?r = "r\<lparr>pendingReaders := pendingReaders r - 1, activeReaders := activeReaders r + 1\<rparr>"
  have "queues_ok ?r f" using q by (simp add: queues_ok_def)
  then obtain ws l where R: "Release t (mutex ?r) = Inr (ws, l)" "queues_ok (?r\<lparr>mutex := l\<rparr>) (wake ws (f(t := At Reading)))"
    using release_queues [of ?r f t ReRd Reading] t by auto
  have f: "fin f" using q by (simp add: queues_ok_def)
  have "counts_ok (?r\<lparr>mutex := l\<rparr>) (wake ws (f(t := At Reading)))" using c a by (simp add: counts_ok_def num_upd [OF f] t)
  moreover have "activeReaders r + 1 \<noteq> 0" using a num_at_nonneg [of "\<lambda>q. pc_class q = Reader" f] by linarith
  then have "wakeups_ok (?r\<lparr>mutex := l\<rparr>) (wake ws (f(t := At Reading)))" using w False by (simp add: wakeups_ok_def)
  ultimately show ?thesis using False R by (simp add: read_loop_def rw_good_def) blast
qed

lemma write_loop_inv:
  assumes q: "queues_ok r f" and c: "counts_ok r f" and w: "wakeups_ok r f" and t: "f t = Holds ReWr"
  shows "\<exists>sl ws r1. write_loop t r = Inr (sl, ws, r1) \<and> rw_good r1 (wake ws (f(t := At (if sl then WaitWr else Writing))))"
proof (cases "activeReaders r = 0")
  case False
  obtain ws c1 l where W: "Wait t (conWriter r) (mutex r) = Inr (ws, c1, l)"
    "queues_ok (r\<lparr>conWriter := c1, mutex := l\<rparr>) (wake ws (f(t := At WaitWr)))" using wait_writer [OF q t] by blast
  have "num x (f(t := At WaitWr)) = num x f" for x using t by (intro num_same) simp
  then show ?thesis using False W c w by (simp add: write_loop_def rw_good_def counts_ok_def wakeups_ok_def) blast
next
  case True
  then have a: "num Reader f = 0" "num Writer f = 0" using c by (auto simp: counts_ok_def)
  let ?r = "r\<lparr>pendingWriters := pendingWriters r - 1, activeReaders := -1\<rparr>"
  have "queues_ok ?r f" using q by (simp add: queues_ok_def)
  then obtain ws l where R: "Release t (mutex ?r) = Inr (ws, l)" "queues_ok (?r\<lparr>mutex := l\<rparr>) (wake ws (f(t := At Writing)))"
    using release_queues [of ?r f t ReWr Writing] t by auto
  have f: "fin f" using q by (simp add: queues_ok_def)
  have "counts_ok (?r\<lparr>mutex := l\<rparr>) (wake ws (f(t := At Writing)))" using c a by (simp add: counts_ok_def num_upd [OF f] t)
  moreover have "wakeups_ok (?r\<lparr>mutex := l\<rparr>) (wake ws (f(t := At Writing)))" using w by (simp add: wakeups_ok_def)
  ultimately show ?thesis using True R by (simp add: write_loop_def rw_good_def) blast
qed

text \<open>The end of \<open>unlock\<close>, after threads \<open>ws0\<close> sleeping on a condition have been woken.\<close>

lemma unlock_end:
  assumes q: "queues_ok r1 (wake ws0 f)" and t: "f t = Holds k" "t \<notin> set ws0"
    and c: "counts_ok r1 (f(t := At Idle))"
    and w1: "wait_cond_queue (conReader r1) \<noteq> [] \<Longrightarrow> activeReaders r1 = -1"
    and w2: "wait_cond_queue (conWriter r1) \<noteq> [] \<Longrightarrow> activeReaders r1 = 0 \<Longrightarrow>
      \<exists>u. u \<noteq> t \<and> pc_class (f u) \<in> {PendReader, PendWriter} \<and> wake ws0 f u \<noteq> At WaitRd \<and> wake ws0 f u \<noteq> At WaitWr"
  shows "\<exists>ws l. Release t (mutex r1) = Inr (ws, l) \<and> rw_good (r1\<lparr>mutex := l\<rparr>) (wake (ws0 @ ws) (f(t := At Idle)))"
proof -
  have ft: "wake ws0 f t = Holds k" using t by simp
  obtain ws l where R: "Release t (mutex r1) = Inr (ws, l)" "queues_ok (r1\<lparr>mutex := l\<rparr>) (wake ws ((wake ws0 f)(t := At Idle)))"
    using release_queues [OF q ft, of Idle] by auto
  have e: "wake ws ((wake ws0 f)(t := At Idle)) = wake (ws0 @ ws) (f(t := At Idle))"
    using t(2) by (simp add: wakes_upd wakes_wakes)
  have "coming (wake (ws0 @ ws) (f(t := At Idle)))"
    if n: "wait_cond_queue (conWriter r1) \<noteq> []" "activeReaders r1 = 0"
  proof -
    obtain u where u: "u \<noteq> t" "pc_class (f u) \<in> {PendReader, PendWriter}" "wake ws0 f u \<noteq> At WaitRd" "wake ws0 f u \<noteq> At WaitWr"
      using w2 [OF n] by blast
    have "coming ((wake ws0 f)(t := At Idle))" unfolding coming_def using u by (intro exI [of _ u]) simp
    then show ?thesis using coming_wake e by metis
  qed
  then show ?thesis using R c w1 unfolding e by (auto simp: rw_good_def counts_ok_def wakeups_ok_def)
qed

lemma pend_waiting:
  assumes "queues_ok r f"
  shows "wait_cond_queue (conReader r) \<noteq> [] \<Longrightarrow> 0 < num PendReader f"
    and "wait_cond_queue (conWriter r) \<noteq> [] \<Longrightarrow> 0 < num PendWriter f"
proof -
  have h: "0 < num c f" if ne: "wait_cond_queue cv \<noteq> []" and ci: "cond_inv 0 w cv f" and k: "pc_class (At w) = c" "c \<noteq> NoClass" for cv w c
  proof -
    obtain t where "t \<in> set (wait_cond_queue cv)" using ne by (cases "wait_cond_queue cv") auto
    then have "f t = At w" using ci by (simp add: cond_inv_def)
    then show ?thesis using class_num_pos [of f c t] k assms by (simp add: queues_ok_def)
  qed
  show "wait_cond_queue (conReader r) \<noteq> [] \<Longrightarrow> 0 < num PendReader f"
    using h [of "conReader r" WaitRd PendReader] assms by (simp add: queues_ok_def)
  show "wait_cond_queue (conWriter r) \<noteq> [] \<Longrightarrow> 0 < num PendWriter f"
    using h [of "conWriter r" WaitWr PendWriter] assms by (simp add: queues_ok_def)
qed

text \<open>Signalling a writer, or waking all readers, while holding the mutex.\<close>

lemma signal_writer:
  assumes q: "queues_ok r f" and t: "f t = Holds k"
  shows "\<exists>ws c1. Signal t (conWriter r) (mutex r) = Inr (ws, c1) \<and> queues_ok (r\<lparr>conWriter := c1\<rparr>) (wake ws f)
    \<and> (\<forall>u \<in> set ws. f u = At WaitWr) \<and> (ws = [] \<longleftrightarrow> wait_cond_queue (conWriter r) = [])"
proof -
  have h: "holder (mutex r) = Some t" "lock_id (mutex r) = 0" using queues_holder q t by auto
  then obtain ws c1 where S: "Signal t (conWriter r) (mutex r) = Inr (ws, c1)" "cond_inv 0 WaitWr c1 (wake ws f)"
     "signalled WaitWr (wait_cond_queue (conWriter r)) ws f"
    using Signal_inv [of "mutex r" WaitWr "conWriter r" f t rw_again] q by (auto simp: queues_ok_def)
  have ws: "\<forall>u \<in> set ws. f u = At WaitWr" "ws = [] \<longleftrightarrow> wait_cond_queue (conWriter r) = []"
    using S(3) by (auto elim!: signalled_cases)
  then have "lock_inv (mutex r) (wake ws f)" "cond_inv 0 WaitRd (conReader r) (wake ws f)"
    using q by (auto simp: queues_ok_def intro!: lock_inv_wakes cond_inv_wakes)
  then show ?thesis using S(1,2) q ws h by (auto simp: queues_ok_def)
qed

lemma broadcast_readers:
  assumes q: "queues_ok r f" and t: "f t = Holds k"
  shows "\<exists>ws c1. Broadcast t (conReader r) (mutex r) = Inr (ws, c1) \<and> queues_ok (r\<lparr>conReader := c1\<rparr>) (wake ws f)
    \<and> (\<forall>u \<in> set ws. f u = At WaitRd) \<and> wait_cond_queue c1 = []"
proof -
  let ?ws = "wait_cond_queue (conReader r)"
  have h: "holder (mutex r) = Some t" "lock_id (mutex r) = 0" using queues_holder q t by auto
  then obtain c1 where S: "Broadcast t (conReader r) (mutex r) = Inr (?ws, c1)" "wait_cond_queue c1 = []" "cond_inv 0 WaitRd c1 (wake ?ws f)"
    using Broadcast_inv [of "mutex r" WaitRd "conReader r" f t rw_again] q by (auto simp: queues_ok_def)
  have ws: "\<forall>u \<in> set ?ws. f u = At WaitRd" using q by (simp add: queues_ok_def cond_inv_def)
  then have "lock_inv (mutex r) (wake ?ws f)" "cond_inv 0 WaitWr (conWriter r) (wake ?ws f)"
    using q by (auto simp: queues_ok_def intro!: lock_inv_wakes cond_inv_wakes)
  then show ?thesis using S q ws h by (auto simp: queues_ok_def)
qed

text \<open>The three ways through \<open>unlock\<close>: to signal a writer, to wake all readers, to wake nobody.\<close>

lemma unlock_signal:
  assumes q: "queues_ok r f" and t: "f t = Holds k" and c: "counts_ok r (f(t := At Idle))" and e: "wait_cond_queue (conReader r) = []"
  shows "\<exists>ws0 c1 ws l. Signal t (conWriter r) (mutex r) = Inr (ws0, c1) \<and> Release t (mutex r) = Inr (ws, l)
    \<and> rw_good (r\<lparr>conWriter := c1, mutex := l\<rparr>) (wake (ws0 @ ws) (f(t := At Idle)))"
proof -
  obtain ws0 c1 where S: "Signal t (conWriter r) (mutex r) = Inr (ws0, c1)" "queues_ok (r\<lparr>conWriter := c1\<rparr>) (wake ws0 f)"
    "\<forall>u \<in> set ws0. f u = At WaitWr" "ws0 = [] \<longleftrightarrow> wait_cond_queue (conWriter r) = []"
    using signal_writer [OF q t] by blast
  have "\<exists>u. u \<noteq> t \<and> pc_class (f u) \<in> {PendReader, PendWriter} \<and> wake ws0 f u \<noteq> At WaitRd \<and> wake ws0 f u \<noteq> At WaitWr"
    if n: "wait_cond_queue c1 \<noteq> []"
  proof -
    have "ws0 \<noteq> []" using n S(1,4) by (auto simp: Signal_def split: if_splits list.splits)
    then obtain u where "u \<in> set ws0" by (cases ws0) auto
    then show ?thesis using S(3) t by (intro exI [of _ u]) (auto simp: wakes_def)
  qed
  then show ?thesis using unlock_end [OF S(2) t] S(1,3) t c e by (fastforce simp: counts_ok_def)
qed

lemma unlock_broadcast:
  assumes q: "queues_ok r f" and t: "f t = Holds k" "pc_class (f t) \<noteq> PendReader" and c: "counts_ok r (f(t := At Idle))"
    and n: "0 < num PendReader f"
  shows "\<exists>ws0 c1 ws l. Broadcast t (conReader r) (mutex r) = Inr (ws0, c1) \<and> Release t (mutex r) = Inr (ws, l)
    \<and> rw_good (r\<lparr>conReader := c1, mutex := l\<rparr>) (wake (ws0 @ ws) (f(t := At Idle)))"
proof -
  obtain ws0 c1 where B: "Broadcast t (conReader r) (mutex r) = Inr (ws0, c1)" "queues_ok (r\<lparr>conReader := c1\<rparr>) (wake ws0 f)"
    "\<forall>u \<in> set ws0. f u = At WaitRd" "wait_cond_queue c1 = []" using broadcast_readers [OF q t(1)] by blast
  have fin: "fin f" using q by (simp add: queues_ok_def)
  obtain u where u: "pc_class (f u) = PendReader" using n num_pos [OF fin, of PendReader] by auto
  have "wake ws0 f u \<noteq> At WaitRd" using B(2,4) by (auto simp: queues_ok_def cond_inv_def)
  moreover have "wake ws0 f u \<noteq> At WaitWr" using u wake_class [of ws0 f u] by (auto simp del: wake_class)
  moreover have "u \<noteq> t" using u t(2) by auto
  ultimately show ?thesis using unlock_end [OF B(2) t(1)] B(1,3,4) t(1) c u by (fastforce simp: counts_ok_def)
qed

lemma unlock_quiet:
  assumes q: "queues_ok r f" and t: "f t = Holds k" and c: "counts_ok r (f(t := At Idle))"
    and e: "wait_cond_queue (conReader r) \<noteq> [] \<Longrightarrow> activeReaders r = -1"
    and w: "wait_cond_queue (conWriter r) \<noteq> [] \<Longrightarrow> activeReaders r = 0 \<Longrightarrow>
      \<exists>u. u \<noteq> t \<and> pc_class (f u) \<in> {PendReader, PendWriter} \<and> f u \<noteq> At WaitRd \<and> f u \<noteq> At WaitWr"
  shows "\<exists>ws l. Release t (mutex r) = Inr (ws, l) \<and> rw_good (r\<lparr>mutex := l\<rparr>) (wake ws (f(t := At Idle)))"
  using unlock_end [of r "[]" f t k] assms by simp

text \<open>\<open>unlock\<close> by a writer and by a reader.\<close>

lemma unlock_writer:
  assumes q: "queues_ok r f" and c: "counts_ok r f" and t: "f t = Holds UnWr"
  shows "\<exists>ws r1. unlock t r = Inr (ws, r1) \<and> rw_good r1 (wake ws (f(t := At Idle)))"
proof -
  have fin: "fin f" using q by (simp add: queues_ok_def)
  have "0 < num Writer f" using class_num_pos [OF fin, of Writer t] t by simp
  then have a: "activeReaders r = -1" "num Writer f = 1" "num Reader f = 0" using c by (auto simp: counts_ok_def)
  have nu: "num x (f(t := At Idle)) = (if x = Writer then num x f - 1 else num x f)" if "x \<noteq> NoClass" for x
    using num_upd [OF fin that, of t "At Idle"] t that by (cases x) simp_all
  let ?r = "r\<lparr>activeReaders := 0\<rparr>"
  have q0: "queues_ok ?r f" using q by (simp add: queues_ok_def)
  have c0: "counts_ok ?r (f(t := At Idle))" using c a nu by (simp add: counts_ok_def)
  have p: "pendingReaders r = num PendReader f" "pendingWriters r = num PendWriter f" using c by (auto simp: counts_ok_def)
  have none: "wait_cond_queue (conReader r) = []" if "pendingReaders r = 0" using pend_waiting(1) [OF q] that p by auto
  consider "pendingReaders r > 0" | "pendingReaders r = 0" "pendingWriters r > 0" | "pendingReaders r = 0" "pendingWriters r = 0"
    using p num_at_nonneg [of "\<lambda>q. pc_class q = PendReader" f] num_at_nonneg [of "\<lambda>q. pc_class q = PendWriter" f] by linarith
  then show ?thesis
  proof cases
    case 1
    then show ?thesis using unlock_broadcast [OF q0 t _ c0] t p a by (fastforce simp: unlock_def Let_def)
  next
    case 2
    then show ?thesis using unlock_signal [OF q0 t c0] none a by (fastforce simp: unlock_def Let_def)
  next
    case 3
    then have "wait_cond_queue (conWriter r) = []" using pend_waiting(2) [OF q] p by auto
    then show ?thesis using unlock_quiet [OF q0 t c0] 3 none a by (fastforce simp: unlock_def Let_def)
  qed
qed

lemma unlock_reader:
  assumes q: "queues_ok r f" and c: "counts_ok r f" and w: "wakeups_ok r f" and t: "f t = Holds UnRd"
  shows "\<exists>ws r1. unlock t r = Inr (ws, r1) \<and> rw_good r1 (wake ws (f(t := At Idle)))"
proof -
  have fin: "fin f" using q by (simp add: queues_ok_def)
  have n: "0 < num Reader f" using class_num_pos [OF fin, of Reader t] t by simp
  then have a: "activeReaders r = num Reader f" "num Writer f = 0" using c by (auto simp: counts_ok_def)
  have nu: "num x (f(t := At Idle)) = (if x = Reader then num x f - 1 else num x f)" if "x \<noteq> NoClass" for x
    using num_upd [OF fin that, of t "At Idle"] t that by (cases x) simp_all
  let ?r = "r\<lparr>activeReaders := activeReaders r - 1\<rparr>"
  have q0: "queues_ok ?r f" using q by (simp add: queues_ok_def)
  have c0: "counts_ok ?r (f(t := At Idle))" using c a nu by (simp add: counts_ok_def)
  have p: "pendingReaders r = num PendReader f" using c by (simp add: counts_ok_def)
  have e: "wait_cond_queue (conReader r) = []" using w a n by (auto simp: wakeups_ok_def)
  show ?thesis
  proof (cases "pendingReaders r = 0 \<and> activeReaders r = 1")
    case True
    then show ?thesis using unlock_signal [OF q0 t c0] e by (fastforce simp: unlock_def Let_def)
  next
    case False
    have "\<exists>u. u \<noteq> t \<and> pc_class (f u) \<in> {PendReader, PendWriter} \<and> f u \<noteq> At WaitRd \<and> f u \<noteq> At WaitWr"
      if z: "activeReaders ?r = 0"
    proof -
      have "0 < num PendReader f" using z False p num_at_nonneg [of "\<lambda>q. pc_class q = PendReader" f] by (auto simp del: num_at_nonneg)
      then obtain u where u: "pc_class (f u) = PendReader" using num_pos [OF fin, of PendReader] by auto
      have "f u \<noteq> At WaitRd" using e q by (auto simp: queues_ok_def cond_inv_def)
      then show ?thesis using u t by (intro exI [of _ u]) auto
    qed
    then obtain ws l where "Release t (mutex ?r) = Inr (ws, l)" "rw_good (?r\<lparr>mutex := l\<rparr>) (wake ws (f(t := At Idle)))"
      using unlock_quiet [OF q0 t c0] e by auto
    then show ?thesis using a n False by (auto simp: unlock_def Let_def)
  qed
qed

text \<open>Every piece of code runs without an assertion failing, and ends in a good state.\<close>

lemma enter_code:
  assumes "queues_ok r f" "wakeups_ok r f" "f t = Holds k" "kind_class j \<in> {PendReader, PendWriter}"
  shows "queues_ok r (f(t := Holds j))" "wakeups_ok r (f(t := Holds j))"
proof -
  have "coming (f(t := Holds j))" unfolding coming_def using assms(4) by (intro exI [of _ t]) simp
  then show "wakeups_ok r (f(t := Holds j))" using assms(2) by (simp add: wakeups_ok_def)
  show "queues_ok r (f(t := Holds j))" using assms(1,3) by (auto simp: queues_ok_def lock_inv_def cond_inv_def)
qed

lemma readlock_inv:
  assumes q: "queues_ok r f" and c: "counts_ok r f" and w: "wakeups_ok r f" and t: "f t = Holds Rd"
  shows "\<exists>sl ws r1. readlock t r = Inr (sl, ws, r1) \<and> rw_good r1 (wake ws (f(t := At (if sl then WaitRd else Reading))))"
proof -
  let ?g = "f(t := Holds ReRd)" and ?r1 = "r\<lparr>pendingReaders := pendingReaders r + 1\<rparr>"
  have "queues_ok ?r1 f" "wakeups_ok ?r1 f" using q w by (simp_all add: queues_ok_def wakeups_ok_def)
  then have "queues_ok ?r1 ?g" "wakeups_ok ?r1 ?g" using enter_code [of ?r1 f t Rd ReRd] t by simp_all
  moreover have "fin f" using q by (simp add: queues_ok_def)
  then have "counts_ok ?r1 ?g" using c t by (simp add: counts_ok_def num_upd)
  ultimately show ?thesis using read_loop_inv [of ?r1 ?g t] by (simp add: readlock_def)
qed

lemma writelock_inv:
  assumes q: "queues_ok r f" and c: "counts_ok r f" and w: "wakeups_ok r f" and t: "f t = Holds Wr"
  shows "\<exists>sl ws r1. writelock t r = Inr (sl, ws, r1) \<and> rw_good r1 (wake ws (f(t := At (if sl then WaitWr else Writing))))"
proof -
  let ?g = "f(t := Holds ReWr)" and ?r1 = "r\<lparr>pendingWriters := pendingWriters r + 1\<rparr>"
  have "queues_ok ?r1 f" "wakeups_ok ?r1 f" using q w by (simp_all add: queues_ok_def wakeups_ok_def)
  then have "queues_ok ?r1 ?g" "wakeups_ok ?r1 ?g" using enter_code [of ?r1 f t Wr ReWr] t by simp_all
  moreover have "fin f" using q by (simp add: queues_ok_def)
  then have "counts_ok ?r1 ?g" using c t by (simp add: counts_ok_def num_upd)
  ultimately show ?thesis using write_loop_inv [of ?r1 ?g t] by (simp add: writelock_def)
qed

lemma rw_code_inv:
  assumes "rw_good r f" "f t = Holds k"
  shows "\<exists>sl ws r1. rw_code k t r = Inr (sl, ws, r1) \<and> rw_good r1 (wake ws (f(t := At (after k sl))))"
proof -
  have i: "queues_ok r f" "counts_ok r f" "wakeups_ok r f" using assms(1) by (auto simp: rw_good_def)
  have u: "\<exists>sl ws r1. bindR (unlock t r) (\<lambda>(ws, r1). Inr (False, ws, r1)) = Inr (sl, ws, r1) \<and> rw_good r1 (wake ws (f(t := At Idle)))"
    if "\<exists>ws r1. unlock t r = Inr (ws, r1) \<and> rw_good r1 (wake ws (f(t := At Idle)))"
    using that by fastforce
  show ?thesis
    using readlock_inv [OF i, of t] read_loop_inv [OF i, of t] writelock_inv [OF i, of t] write_loop_inv [OF i, of t]
      u [OF unlock_reader [OF i]] u [OF unlock_writer [OF i(1,2)]] assms(2)
    by (cases k) simp_all
qed

lemma rw_body_inv:
  assumes "rw_good r f" "f t = Holds k"
  shows "\<exists>p ws r1. rw_body k t r = Inr (p, ws, r1) \<and> rw_good r1 (wake ws (f(t := At p)))"
  using rw_code_inv [OF assms] by (auto simp: rw_body_def)

text \<open>Moves of a thread that keep its class and touch neither queue of a condition.\<close>

lemma rw_ok_move:
  assumes i: "rw_ok r f" and cl: "pc_class q = pc_class (f t)" and nw: "f t \<notin> {At WaitRd, At WaitWr}" "q \<notin> {At WaitRd, At WaitWr}"
  shows "rw_ok r (f(t := q))"
proof -
  have n: "num c (f(t := q)) = num c f" for c by (rule num_same) (rule cl)
  have "coming (f(t := q))" if "coming f"
    using that cl nw unfolding coming_def by (metis fun_upd_other fun_upd_same insertI1 insertI2)
  then show ?thesis using i nw n by (auto simp: rw_ok_def counts_ok_def wakeups_ok_def intro: cond_inv_upd)
qed

interpretation one_rwlock: monitor mutex set_mutex rw_body rw_again rw_asks rw_ok rw_init
proof
  fix r :: RWLock and l f t p k q
  show "mutex (set_mutex l r) = l" by (simp add: set_mutex_def)
  show "lock_id l = lock_id (mutex r) \<Longrightarrow> rw_ok r f \<Longrightarrow> rw_ok (set_mutex l r) f"
    by (simp add: rw_ok_def set_mutex_def counts_ok_def wakeups_ok_def)
  show "rw_ok r f \<Longrightarrow> f t = At p \<Longrightarrow> rw_asks t p k \<Longrightarrow> rw_ok r (f(t := Want k))"
    by (rule rw_ok_move) (cases p; auto)+
  show "rw_ok r f \<Longrightarrow> f t = Want k \<Longrightarrow> q = Holds k \<or> q = InQueue k \<Longrightarrow> rw_ok r (f(t := q))"
    by (rule rw_ok_move) auto
  show "lock_inv (mutex r) f \<Longrightarrow> rw_ok r f \<Longrightarrow> f t = Holds k \<Longrightarrow> \<exists>p ws r1. rw_body k t r = Inr (p, ws, r1)
      \<and> lock_inv (mutex r1) (wake ws (f(t := At p))) \<and> rw_ok r1 (wake ws (f(t := At p)))"
    using rw_body_inv [of r f t k] by (simp add: rw_good_eq)
next
  fix s :: rw_sys
  show "rw_init s \<Longrightarrow> mon_inv mutex rw_ok s"
    by (auto simp: rw_init_def mon_inv_def rw_ok_def counts_ok_def wakeups_ok_def fin_def few_def num_at_def new_RWLock_def
        new_Lock_def intro!: lock_inv_new [unfolded new_Lock_def] cond_inv_new)
qed

lemma rw_reachable: "rw_init s \<Longrightarrow> rw_step\<^sup>*\<^sup>* s s' \<Longrightarrow> rw_good (obj s') (mon_at s')"
  using one_rwlock.reachable [of s s'] by (simp add: rw_good_eq rw_step_def)

section \<open>Properties\<close>

lemma two_steps: "r a b \<Longrightarrow> r b c \<Longrightarrow> r\<^sup>*\<^sup>* a c"
  by (rule converse_rtranclp_into_rtranclp, assumption, rule r_into_rtranclp)

lemma three_steps: "r a b \<Longrightarrow> r b c \<Longrightarrow> r c d \<Longrightarrow> r\<^sup>*\<^sup>* a d"
  by (rule converse_rtranclp_into_rtranclp, assumption, rule two_steps)

lemma rw_sample: "\<exists>s s'. rw_init s \<and> rw_step\<^sup>*\<^sup>* s s' \<and> mon_at s' 1 = At Writing"
proof -
  let ?s0 = "\<lparr>obj = new_RWLock, mon_at = (\<lambda>_. At Idle)\<rparr>"
  let ?s1 = "?s0\<lparr>mon_at := (mon_at ?s0)(1 := Want Wr)\<rparr>"
  let ?l = "\<lparr>lock_id = 0, locked = \<lparr>sem_value = 0, sem_queue = []\<rparr>, holder = Some 1\<rparr>"
  let ?s2 = "?s1\<lparr>obj := set_mutex ?l (obj ?s1), mon_at := (mon_at ?s1)(1 := Holds Wr)\<rparr>"
  let ?r = "new_RWLock\<lparr>activeReaders := -1\<rparr>"
  let ?s3 = "?s2\<lparr>obj := ?r, mon_at := wake [] ((mon_at ?s2)(1 := At Writing))\<rparr>"
  have "rw_step ?s0 ?s1" unfolding rw_step_def by (rule mon_step.ask [of _ _ Idle]) simp_all
  moreover have "rw_step ?s1 ?s2" unfolding rw_step_def
    by (rule mon_step.got) (simp_all add: Acquire_def P_def new_RWLock_def new_Lock_def new_Semaphore_def)
  moreover have "rw_step ?s2 ?s3" unfolding rw_step_def
    by (rule mon_step.body [of _ _ Wr]) (simp_all add: rw_body_def set_mutex_def writelock_def write_loop_def Release_def V_def new_RWLock_def
      new_Lock_def new_Semaphore_def)
  ultimately have "rw_step\<^sup>*\<^sup>* ?s0 ?s3" by (rule three_steps)
  then show ?thesis by (intro exI [of _ ?s0] exI [of _ ?s3]) (simp add: rw_init_def)
qed

text \<open>C26: threads that call \<open>P\<close> and \<open>V\<close> on one semaphore, in any interleaving.  Its value is the initial value plus the
  finished calls of \<open>V\<close> less those of \<open>P\<close> and never negative; its queue holds exactly the sleeping
  threads; and while the value is positive and a thread sleeps, another one has been woken and is about
  to try again, so no \<open>V\<close> is lost.\<close>

theorem semaphore_reachable:
  assumes "0 \<le> n" "sem_init n s" "sem_step\<^sup>*\<^sup>* s s'"
  shows "sem_value (sem s') = n + posted s' - passed s' \<and> 0 \<le> sem_value (sem s')
    \<and> (\<forall>t. t \<in> set (sem_queue (sem s')) \<longleftrightarrow> sem_at s' t = SAsleep)
    \<and> (0 < sem_value (sem s') \<and> (\<exists>t. sem_at s' t = SAsleep) \<longrightarrow> (\<exists>t. sem_at s' t = SRetry))"
proof -
  have "sem_inv n s'" using one_sem.inv_reachable [of n s s'] assms by simp
  moreover have "\<exists>t. sem_at s' t = SRetry" if "0 < sem_value (sem s')" "sem_at s' t = SAsleep" for t
  proof -
    have "sem_queue (sem s') \<noteq> []" using calculation that(2) by (auto simp: sem_inv_def)
    then have "0 < card (retrying s')" using calculation that(1) by (simp add: sem_inv_def)
    then have "retrying s' \<noteq> {}" by (metis card.empty less_irrefl)
    then show ?thesis by (auto simp: retrying_def)
  qed
  ultimately show ?thesis unfolding sem_inv_def by blast
qed

theorem semaphore_reachable_witness:
  "\<exists>s s'. sem_init 0 s \<and> sem_step\<^sup>*\<^sup>* s s' \<and> sem_at s' 7 = SRetry \<and> sem_value (sem s') = posted s' - passed s'"
proof -
  let ?s0 = "\<lparr>sem = new_Semaphore 0, sem_at = (\<lambda>_. SOut), passed = 0, posted = 0\<rparr>"
  let ?s1 = "?s0\<lparr>sem := (new_Semaphore 0)\<lparr>sem_queue := [7]\<rparr>, sem_at := (\<lambda>_. SOut)(7 := SAsleep)\<rparr>"
  let ?s2 = "?s1\<lparr>sem := \<lparr>sem_value = 1, sem_queue = []\<rparr>,
     sem_at := (\<lambda>u. if u \<in> set [7] then SRetry else sem_at ?s1 u), posted := posted ?s1 + 1\<rparr>"
  have "sem_step ?s0 ?s1" using sem_step.sleep [of ?s0 7 "(new_Semaphore 0)\<lparr>sem_queue := [7]\<rparr>"]
    by (simp add: P_def new_Semaphore_def)
  moreover have "sem_step ?s1 ?s2" by (rule sem_step.post) (simp add: V_def new_Semaphore_def)
  ultimately have st: "sem_step\<^sup>*\<^sup>* ?s0 ?s2" by (rule two_steps)
  have i: "sem_init 0 ?s0" by (simp add: sem_init_def)
  show ?thesis using semaphore_reachable [OF order_refl i st] i st by (intro exI [of _ ?s0] exI [of _ ?s2]) simp
qed

text \<open>C27: readers and writers on one \<open>RWLock\<close>, in any interleaving: while a thread is between \<open>writelock\<close> and
  \<open>unlock\<close>, no other thread is between \<open>readlock\<close> or \<open>writelock\<close> and \<open>unlock\<close>.\<close>

theorem rwlock_excludes:
  assumes "rw_init s" "rw_step\<^sup>*\<^sup>* s s'" "mon_at s' t = At Writing" "u \<noteq> t"
  shows "mon_at s' u \<noteq> At Writing \<and> mon_at s' u \<noteq> At Reading"
proof -
  have i: "rw_good (obj s') (mon_at s')" by (rule rw_reachable [OF assms(1,2)])
  then have fin: "fin (mon_at s')" by (simp add: rw_good_def queues_ok_def)
  have W: "0 < num Writer (mon_at s')" using class_num_pos [OF fin, of Writer t] assms(3) by simp
  then have c: "num Writer (mon_at s') = 1" "num Reader (mon_at s') = 0" using i by (auto simp: rw_good_def counts_ok_def)
  have "mon_at s' u \<noteq> At Reading" using class_num_pos [OF fin, of Reader u] c by auto
  moreover have "mon_at s' u \<noteq> At Writing"
  proof
    assume u: "mon_at s' u = At Writing"
    have "num Writer ((mon_at s')(t := At Idle)) = 0" using num_upd [OF fin, of Writer t "At Idle"] c assms(3) by simp
    moreover have "0 < num Writer ((mon_at s')(t := At Idle))"
      using class_num_pos [of "(mon_at s')(t := At Idle)" Writer u] fin u assms(4) by simp
    ultimately show False by simp
  qed
  ultimately show ?thesis by blast
qed

theorem rwlock_excludes_witness:
  "\<exists>s s'. rw_init s \<and> rw_step\<^sup>*\<^sup>* s s' \<and> mon_at s' 1 = At Writing \<and> mon_at s' 2 \<noteq> At Writing \<and> mon_at s' 2 \<noteq> At Reading"
proof -
  obtain s s' where s: "rw_init s" "rw_step\<^sup>*\<^sup>* s s'" "mon_at s' 1 = At Writing" using rw_sample by blast
  show ?thesis using rwlock_excludes [OF s, of 2] s by auto
qed

text \<open>C28: readers and writers on one \<open>RWLock\<close>, in any interleaving.  A thread that holds the mutex always gets on: no assertion of the lock or
  of the conditions fails.  And no wake-up is lost: if no thread is inside and no thread is running, so that
  all are idle, asleep on a condition or asleep in front of the mutex, then all are idle.\<close>

theorem rwlock_no_lost_wakeup:
  assumes "rw_init s" "rw_step\<^sup>*\<^sup>* s s'"
  shows "(\<forall>t k. mon_at s' t = Holds k \<longrightarrow> (\<exists>r. rw_body k t (obj s') = Inr r))
    \<and> ((\<forall>t. mon_at s' t \<in> {At Idle, At WaitRd, At WaitWr} \<or> (\<exists>k. mon_at s' t = InQueue k)) \<longrightarrow> (\<forall>t. mon_at s' t = At Idle))"
proof
  have i: "rw_good (obj s') (mon_at s')" by (rule rw_reachable [OF assms])
  show "\<forall>t k. mon_at s' t = Holds k \<longrightarrow> (\<exists>r. rw_body k t (obj s') = Inr r)" using rw_body_inv [OF i] by blast
  show "(\<forall>t. mon_at s' t \<in> {At Idle, At WaitRd, At WaitWr} \<or> (\<exists>k. mon_at s' t = InQueue k)) \<longrightarrow> (\<forall>t. mon_at s' t = At Idle)"
  proof (intro impI)
    assume st: "\<forall>t. mon_at s' t \<in> {At Idle, At WaitRd, At WaitWr} \<or> (\<exists>k. mon_at s' t = InQueue k)"
    have "\<exists>p. mon_at s' t = At p" for t
    proof (rule nobody_runs)
      show "lock_inv (mutex (obj s')) (mon_at s')" using i by (simp add: rw_good_def queues_ok_def)
      show "mon_at s' u \<noteq> Holds k" "mon_at s' u \<noteq> Want k" for u k using st [rule_format, of u] by auto
    qed
    then have here: "mon_at s' t \<in> {At Idle, At WaitRd, At WaitWr}" for t using st by (metis mon_pc.distinct(9))
    then have "pc_class (mon_at s' t) \<noteq> Reader \<and> pc_class (mon_at s' t) \<noteq> Writer" for t by (metis empty_iff insert_iff pc_class.simps(4-6) rw_class.distinct)
    then have "num Reader (mon_at s') = 0" "num Writer (mon_at s') = 0" by (simp_all add: num_at_zero)
    then have a: "activeReaders (obj s') = 0" using i by (auto simp: rw_good_def counts_ok_def)
    have "pc_class (mon_at s' t) \<in> {PendReader, PendWriter} \<Longrightarrow> mon_at s' t \<in> {At WaitRd, At WaitWr}" for t using here [of t] by auto
    then have "\<not> coming (mon_at s')" unfolding coming_def by blast
    then have "wait_cond_queue (conReader (obj s')) = []" "wait_cond_queue (conWriter (obj s')) = []"
      using i a by (auto simp: rw_good_def wakeups_ok_def)
    then have "mon_at s' t \<noteq> At WaitRd" "mon_at s' t \<noteq> At WaitWr" for t
      using i by (auto simp: rw_good_def queues_ok_def cond_inv_def)
    then show "\<forall>t. mon_at s' t = At Idle" using here by blast
  qed
qed

theorem rwlock_no_lost_wakeup_witness:
  "\<exists>s s'. rw_init s \<and> rw_step\<^sup>*\<^sup>* s s' \<and> mon_at s' 1 = At Writing
    \<and> (\<forall>t k. mon_at s' t = Holds k \<longrightarrow> (\<exists>r. rw_body k t (obj s') = Inr r))"
proof -
  obtain s s' where s: "rw_init s" "rw_step\<^sup>*\<^sup>* s s'" "mon_at s' 1 = At Writing" using rw_sample by blast
  show ?thesis using rwlock_no_lost_wakeup [OF s(1,2)] s by blast
qed

end
