(* ===== verification/BarrierSteps.thy ===== *)
theory BarrierSteps
  imports SynchSteps
begin

text \<open>
  How threads interleave on a \<open>Barrier\<close> (threads/synch.cc), a client of \<open>monitor\<close>: each thread of a set calls \<open>enterBarrier\<close> once.
  The last section follows threads that arrive one after the other with the lock free.
\<close>

section \<open>Threads on one barrier\<close>

text \<open>\<open>EnterBar\<close> is \<open>enterBarrier\<close>, \<open>LoopBar\<close> its loop after a \<open>Wait\<close>.  The shared object is the barrier with the state that the process
  function works on.\<close>

datatype bar_code = EnterBar | LoopBar

datatype bar_place = Before | WaitBar | Passed

type_synonym 's bar_obj = "'s Barrier \<times> 's"
type_synonym 's bar_sys = "('s bar_obj, bar_code, bar_place) mon_sys"

fun bar_code_run :: "bar_code \<Rightarrow> nat \<Rightarrow> 's Barrier \<Rightarrow> 's \<Rightarrow> (bool \<times> nat list \<times> 's Barrier \<times> 's) res" where
  "bar_code_run EnterBar t b z = enterBarrier t b z"
| "bar_code_run LoopBar t b z = barrier_loop t b z"

definition bar_body :: "bar_code \<Rightarrow> nat \<Rightarrow> 's bar_obj \<Rightarrow> (bar_place \<times> nat list \<times> 's bar_obj) res" where
  "bar_body k t = (\<lambda>(b, z). bindR (bar_code_run k t b z) (\<lambda>(sleeps, ws, b1, z1). Inr (if sleeps then WaitBar else Passed, ws, (b1, z1))))"

fun bar_again :: "bar_place \<Rightarrow> bar_code option" where
  "bar_again WaitBar = Some LoopBar"
| "bar_again _ = None"

definition bar_asks :: "nat set \<Rightarrow> nat \<Rightarrow> bar_place \<Rightarrow> bar_code \<Rightarrow> bool" where
  "bar_asks T t p k \<longleftrightarrow> t \<in> T \<and> p = Before \<and> k = EnterBar"

definition bar_lk :: "'s bar_obj \<Rightarrow> Lock" where "bar_lk = (\<lambda>(b, z). bar_lock b)"
definition set_bar_lk :: "Lock \<Rightarrow> 's bar_obj \<Rightarrow> 's bar_obj" where "set_bar_lk l = (\<lambda>(b, z). (b\<lparr>bar_lock := l\<rparr>, z))"

definition bar_step :: "nat set \<Rightarrow> 's bar_sys \<Rightarrow> 's bar_sys \<Rightarrow> bool" where
  "bar_step T = mon_step bar_lk set_bar_lk bar_body bar_again (bar_asks T)"

definition bar_init :: "int \<Rightarrow> (int \<Rightarrow> 's \<Rightarrow> 's res) option \<Rightarrow> 's \<Rightarrow> 's bar_sys \<Rightarrow> bool" where
  "bar_init n f z s \<longleftrightarrow> s = \<lparr>obj = ((setBarrierNum n new_Barrier)\<lparr>processFunction := f\<rparr>, z), mon_at = (\<lambda>_. At Before)\<rparr>"

section \<open>Invariant\<close>

text \<open>A thread has entered once it has counted itself.\<close>

fun entered :: "(bar_code, bar_place) mon_pc \<Rightarrow> bool" where
  "entered (Want k) = (k = LoopBar)" | "entered (InQueue k) = (k = LoopBar)" | "entered (Holds k) = (k = LoopBar)"
| "entered (At p) = (p \<noteq> Before)"

definition bar_core :: "nat set \<Rightarrow> int \<Rightarrow> (int \<Rightarrow> 's \<Rightarrow> 's res) option \<Rightarrow> 's \<Rightarrow> 's \<Rightarrow> 's bar_obj \<Rightarrow> (nat \<Rightarrow> (bar_code, bar_place) mon_pc) \<Rightarrow> bool" where
  "bar_core T n g z z1 = (\<lambda>(b, y) f. lock_id (bar_lock b) = 0 \<and> cond_inv 0 WaitBar (bar_cond b) f \<and> few entered f
     \<and> (\<forall>t. f t \<noteq> At Before \<longrightarrow> t \<in> T) \<and> remaining b = n - num_at entered f
     \<and> (if \<exists>t. f t = At Passed then remaining b \<le> 0 \<and> processFunction b = None \<and> y = z1 else processFunction b = g \<and> y = z))"

text \<open>What the process function makes of \<open>z\<close>.\<close>

definition processed :: "(int \<Rightarrow> 's \<Rightarrow> 's res) option \<Rightarrow> 's \<Rightarrow> 's \<Rightarrow> bool" where
  "processed g z z1 \<longleftrightarrow> (case g of None \<Rightarrow> z1 = z | Some h \<Rightarrow> h (-1) z = Inr z1)"

definition bar_ok :: "nat set \<Rightarrow> int \<Rightarrow> (int \<Rightarrow> 's \<Rightarrow> 's res) option \<Rightarrow> 's \<Rightarrow> 's \<Rightarrow> 's bar_obj \<Rightarrow> (nat \<Rightarrow> (bar_code, bar_place) mon_pc) \<Rightarrow> bool" where
  "bar_ok T n g z z1 x f \<longleftrightarrow> processed g z z1 \<and> bar_core T n g z z1 x f \<and> (wait_cond_queue (bar_cond (fst x)) \<noteq> [] \<longrightarrow> 0 < remaining (fst x))"

lemma woken_Passed: "woken bar_again q = At Passed \<longleftrightarrow> q = At Passed"
  by (cases q) (auto split: option.splits elim: bar_again.elims)

lemma woken_entered: "entered (woken bar_again q) = entered q"
  by (cases q) (auto split: option.splits elim: bar_again.elims)

lemma woken_Before: "woken bar_again q = At Before \<longleftrightarrow> q = At Before"
  by (cases q) (auto split: option.splits elim: bar_again.elims)

lemma wakes_entered [simp]: "num_at entered (wakes bar_again ws f) = num_at entered f" "few entered (wakes bar_again ws f) = few entered f"
  by (rule wakes_same_class, rule woken_entered)+

lemma wakes_places [simp]:
  "wakes bar_again ws f t = At Passed \<longleftrightarrow> f t = At Passed" "wakes bar_again ws f t = At Before \<longleftrightarrow> f t = At Before"
  by (simp_all add: wakes_def woken_Passed woken_Before)

lemma bar_wait:
  assumes l: "lock_inv (bar_lock b) f" and i: "bar_core T n g z z1 (b, y) f" and t: "f t = Holds LoopBar" and r: "0 < remaining b"
    and p: "processed g z z1"
  shows "\<exists>ws b1. barrier_loop t b y = Inr (True, ws, b1, y) \<and> lock_inv (bar_lock b1) (wakes bar_again ws (f(t := At WaitBar)))
    \<and> bar_ok T n g z z1 (b1, y) (wakes bar_again ws (f(t := At WaitBar)))"
proof -
  have c: "cond_inv (lock_id (bar_lock b)) WaitBar (bar_cond b) f" and id: "lock_id (bar_lock b) = 0" and fe: "few entered f"
    using i by (simp_all add: bar_core_def)
  obtain ws c1 l1 where W: "Wait t (bar_cond b) (bar_lock b) = Inr (ws, c1, l1)" "lock_inv l1 (wakes bar_again ws (f(t := At WaitBar)))"
    "lock_id l1 = 0" "cond_inv 0 WaitBar c1 (wakes bar_again ws (f(t := At WaitBar)))"
    using Wait_inv [OF l c t, of bar_again] id by auto
  have "num_at entered (f(t := At WaitBar)) = num_at entered f" by (rule num_at_same) (simp add: t)
  moreover have "t \<in> T" using i t by (fastforce simp: bar_core_def)
  ultimately have "bar_ok T n g z z1 (b\<lparr>bar_cond := c1, bar_lock := l1\<rparr>, y) (wakes bar_again ws (f(t := At WaitBar)))"
    using i W(3,4) r fe t p by (auto simp: bar_ok_def bar_core_def split: if_splits)
  then show ?thesis using W(1,2) r by (simp add: barrier_loop_def)
qed

lemma bar_pass:
  assumes l: "lock_inv (bar_lock b) f" and i: "bar_core T n g z z1 (b, y) f" and t: "f t = Holds LoopBar" and r: "remaining b \<le> 0"
    and p: "processed g z z1"
  shows "\<exists>ws b1. barrier_loop t b y = Inr (False, ws, b1, z1) \<and> lock_inv (bar_lock b1) (wakes bar_again ws (f(t := At Passed)))
    \<and> bar_ok T n g z z1 (b1, z1) (wakes bar_again ws (f(t := At Passed)))"
proof -
  let ?q = "wait_cond_queue (bar_cond b)"
  have c: "cond_inv (lock_id (bar_lock b)) WaitBar (bar_cond b) f" and id: "lock_id (bar_lock b) = 0" and fe: "few entered f"
    using i by (simp_all add: bar_core_def)
  obtain c1 where B: "Broadcast t (bar_cond b) (bar_lock b) = Inr (?q, c1)" "wait_cond_queue c1 = []" "cond_inv 0 WaitBar c1 (wakes bar_again ?q f)"
    using Broadcast_inv [OF c holder_of [OF l t], of bar_again LoopBar] id by auto
  have q: "\<forall>u \<in> set ?q. \<exists>p. f u = At p" using c by (auto simp: cond_inv_def)
  obtain ws l1 where R: "Release t (bar_lock b) = Inr (ws, l1)" "lock_id l1 = 0" "lock_inv l1 (wakes bar_again (?q @ ws) (f(t := At Passed)))"
    "\<forall>u \<in> set ws. \<exists>k. f u = InQueue k"
    using Release_after [OF l t q, of bar_again Passed] id by auto
  have "cond_inv 0 WaitBar c1 (wakes bar_again (?q @ ws) (f(t := At Passed)))"
    by (rule cond_after_signal [OF B(3) t _ R(4) q]) simp
  moreover have "num_at entered (f(t := At Passed)) = num_at entered f" by (rule num_at_same) (simp add: t)
  moreover have "t \<in> T" using i t by (fastforce simp: bar_core_def)
  ultimately have ok: "bar_ok T n g z z1 (b\<lparr>processFunction := None, bar_cond := c1, bar_lock := l1\<rparr>, z1) (wakes bar_again (?q @ ws) (f(t := At Passed)))"
    using i B(2) R(2) r fe t p by (auto simp: bar_ok_def bar_core_def split: if_splits)
  have "(case processFunction b of None \<Rightarrow> Inr y | Some h \<Rightarrow> h (- 1) y) = Inr z1"
    using i p by (auto simp: bar_core_def processed_def split: if_splits option.splits)
  then show ?thesis using ok B(1) R(1,3) r by (simp add: barrier_loop_def)
qed

text \<open>Moves of a thread without the barrier's conditions; a thread that enters counts itself and is then in the loop.\<close>

lemma bar_core_upd:
  assumes "bar_core T n g z z1 (b, y) f" "f t \<notin> {At Passed, At WaitBar}" "q \<notin> {At Passed, At WaitBar}" "t \<in> T"
    "r = n - num_at entered (f(t := q))" "r \<le> remaining b"
  shows "bar_core T n g z z1 (b\<lparr>remaining := r\<rparr>, y) (f(t := q))"
proof -
  have "(\<exists>u. (f(t := q)) u = At Passed) \<longleftrightarrow> (\<exists>u. f u = At Passed)" using assms(2,3) by (metis fun_upd_apply insertI1)
  moreover have "\<forall>u. (f(t := q)) u \<noteq> At Before \<longrightarrow> u \<in> T" using assms(1,4) by (simp add: bar_core_def)
  moreover have "cond_inv 0 WaitBar (bar_cond b) (f(t := q))" using assms(1-3) by (auto simp: bar_core_def intro: cond_inv_upd)
  ultimately show ?thesis using assms(1,5,6) unfolding bar_core_def
    by (cases "\<exists>u. f u = At Passed") (simp_all del: fun_upd_apply)
qed

lemma bar_core_move:
  assumes "bar_core T n g z z1 (b, y) f" "f t \<notin> {At Passed, At WaitBar}" "q \<notin> {At Passed, At WaitBar}" "t \<in> T" "entered q = entered (f t)"
  shows "bar_core T n g z z1 (b, y) (f(t := q))"
proof -
  have "num_at entered (f(t := q)) = num_at entered f" by (rule num_at_same) (rule assms(5))
  then have r: "remaining b = n - num_at entered (f(t := q))" using assms(1) by (simp add: bar_core_def)
  show ?thesis using bar_core_upd [OF assms(1-4) r order_refl] by simp
qed

lemma in_set: "bar_core T n g z z1 x f \<Longrightarrow> f t \<noteq> At Before \<Longrightarrow> t \<in> T"
  by (auto simp: bar_core_def split: prod.splits)

lemma bar_enter:
  assumes "lock_inv (bar_lock b) f" "bar_core T n g z z1 (b, y) f" "f t = Holds EnterBar"
  shows "lock_inv (bar_lock b) (f(t := Holds LoopBar)) \<and> bar_core T n g z z1 (b\<lparr>remaining := remaining b - 1\<rparr>, y) (f(t := Holds LoopBar))"
proof
  show "lock_inv (bar_lock b) (f(t := Holds LoopBar))" using assms(1,3) by (auto simp: lock_inv_def)
  have "remaining b - 1 = n - num_at entered (f(t := Holds LoopBar))"
    using num_at_upd [of entered f t "Holds LoopBar"] assms(2,3) by (simp add: bar_core_def)
  then show "bar_core T n g z z1 (b\<lparr>remaining := remaining b - 1\<rparr>, y) (f(t := Holds LoopBar))"
    using in_set [OF assms(2), of t] assms(3) by (intro bar_core_upd [OF assms(2)]) auto
qed

lemma bar_loop_ok:
  assumes "lock_inv (bar_lock b) f" "bar_core T n g z z1 (b, y) f" "f t = Holds LoopBar" "processed g z z1"
  shows "\<exists>sl ws b1 y1. barrier_loop t b y = Inr (sl, ws, b1, y1)
    \<and> lock_inv (bar_lock b1) (wakes bar_again ws (f(t := At (if sl then WaitBar else Passed))))
    \<and> bar_ok T n g z z1 (b1, y1) (wakes bar_again ws (f(t := At (if sl then WaitBar else Passed))))"
proof (cases "0 < remaining b")
  case True
  then show ?thesis using bar_wait [OF assms(1-3) _ assms(4)] by fastforce
next
  case False
  then show ?thesis using bar_pass [OF assms(1-3) _ assms(4)] by fastforce
qed

lemma bar_body_ok:
  assumes "lock_inv (bar_lk x) f" "bar_ok T n g z z1 x f" "f t = Holds k"
  shows "\<exists>p ws x1. bar_body k t x = Inr (p, ws, x1) \<and> lock_inv (bar_lk x1) (wakes bar_again ws (f(t := At p)))
    \<and> bar_ok T n g z z1 x1 (wakes bar_again ws (f(t := At p)))"
proof -
  obtain b y where x: "x = (b, y)" by fastforce
  have i: "lock_inv (bar_lock b) f" "bar_core T n g z z1 (b, y) f" and p: "processed g z z1" using assms(1,2) by (simp_all add: x bar_lk_def bar_ok_def)
  have "\<exists>sl ws b1 y1. bar_code_run k t b y = Inr (sl, ws, b1, y1)
    \<and> lock_inv (bar_lock b1) (wakes bar_again ws (f(t := At (if sl then WaitBar else Passed))))
    \<and> bar_ok T n g z z1 (b1, y1) (wakes bar_again ws (f(t := At (if sl then WaitBar else Passed))))"
  proof (cases k)
    case EnterBar
    then have e: "lock_inv (bar_lock b) (f(t := Holds LoopBar))" "bar_core T n g z z1 (b\<lparr>remaining := remaining b - 1\<rparr>, y) (f(t := Holds LoopBar))"
      using bar_enter [OF i] assms(3) by simp_all
    show ?thesis using bar_loop_ok [of "b\<lparr>remaining := remaining b - 1\<rparr>", OF _ e(2) _ p, of t] e(1)
      by (simp add: EnterBar enterBarrier_def)
  next
    case LoopBar
    then show ?thesis using bar_loop_ok [OF i _ p] assms(3) by simp
  qed
  then obtain sl ws b1 y1 where r: "bar_code_run k t b y = Inr (sl, ws, b1, y1)"
    "lock_inv (bar_lock b1) (wakes bar_again ws (f(t := At (if sl then WaitBar else Passed))))"
    "bar_ok T n g z z1 (b1, y1) (wakes bar_again ws (f(t := At (if sl then WaitBar else Passed))))" by blast
  have "bar_body k t x = Inr (if sl then WaitBar else Passed, ws, (b1, y1))" using r(1) by (simp add: x bar_body_def)
  then show ?thesis using r(2,3) by (fastforce simp: bar_lk_def)
qed

text \<open>The barrier for \<open>n\<close> threads, used by the threads of \<open>T\<close>.\<close>

lemma bar_ok_move:
  assumes "bar_ok T n g z z1 x f" "f t \<notin> {At Passed, At WaitBar}" "q \<notin> {At Passed, At WaitBar}" "t \<in> T" "entered q = entered (f t)"
  shows "bar_ok T n g z z1 x (f(t := q))"
  using assms bar_core_move [of T n g z z1 "fst x" "snd x" f t q] by (simp add: bar_ok_def)

interpretation bar_threads: monitor bar_lk set_bar_lk bar_body bar_again "bar_asks T" "bar_ok T n g z z1"
    "\<lambda>s. processed g z z1 \<and> bar_init n g z s" for T n g and z z1 :: 'z
proof
  fix x :: "'z bar_obj" and l f t p k q
  show "bar_lk (set_bar_lk l x) = l" by (simp add: bar_lk_def set_bar_lk_def split_beta)
  show "lock_id l = lock_id (bar_lk x) \<Longrightarrow> bar_ok T n g z z1 x f \<Longrightarrow> bar_ok T n g z z1 (set_bar_lk l x) f"
    by (cases x) (auto simp: bar_ok_def bar_core_def bar_lk_def set_bar_lk_def split: if_splits)
  show "bar_ok T n g z z1 x f \<Longrightarrow> f t = At p \<Longrightarrow> bar_asks T t p k \<Longrightarrow> bar_ok T n g z z1 x (f(t := Want k))"
    by (rule bar_ok_move) (auto simp: bar_asks_def)
  show "bar_ok T n g z z1 x f \<Longrightarrow> f t = Want k \<Longrightarrow> q = Holds k \<or> q = InQueue k \<Longrightarrow> bar_ok T n g z z1 x (f(t := q))"
    using in_set [of T n g z z1 x f t] by (intro bar_ok_move) (auto simp: bar_ok_def)
  show "lock_inv (bar_lk x) f \<Longrightarrow> bar_ok T n g z z1 x f \<Longrightarrow> f t = Holds k \<Longrightarrow> \<exists>p ws x1. bar_body k t x = Inr (p, ws, x1)
      \<and> lock_inv (bar_lk x1) (wakes bar_again ws (f(t := At p))) \<and> bar_ok T n g z z1 x1 (wakes bar_again ws (f(t := At p)))"
    by (rule bar_body_ok)
next
  fix s :: "'z bar_sys"
  show "processed g z z1 \<and> bar_init n g z s \<Longrightarrow> mon_inv bar_lk (bar_ok T n g z z1) s"
    by (auto simp: bar_init_def mon_inv_def bar_ok_def bar_core_def bar_lk_def setBarrierNum_def new_Barrier_def few_def num_at_def
        new_Lock_def intro!: lock_inv_new [unfolded new_Lock_def] cond_inv_new)
qed

section \<open>Threads arriving at a barrier\<close>

text \<open>One call of \<open>enterBarrier\<close> with the lock free: whether the caller sleeps, and who is made ready.\<close>

definition arrive :: "nat \<Rightarrow> 's Barrier \<Rightarrow> 's \<Rightarrow> (bool \<times> nat list \<times> 's Barrier \<times> 's) res" where
  "arrive t b s = enterBarrier t (b\<lparr>bar_lock := snd (Acquire t (bar_lock b))\<rparr>) s"

fun arrivals :: "nat list \<Rightarrow> 's Barrier \<Rightarrow> 's \<Rightarrow> (bool list \<times> nat list \<times> 's Barrier \<times> 's) res" where
  "arrivals [] b s = Inr ([], [], b, s)"
| "arrivals (t # ts) b s = bindR (arrive t b s) (\<lambda>(sl, ws, b1, s1).
     bindR (arrivals ts b1 s1) (\<lambda>(sls, ws', b2, s2). Inr (sl # sls, ws @ ws', b2, s2)))"

definition gathering :: "int \<Rightarrow> (int \<Rightarrow> 's \<Rightarrow> 's res) option \<Rightarrow> nat list \<Rightarrow> 's Barrier" where
  "gathering n f us = new_Barrier\<lparr>barrierNum := n, remaining := n - int (length us), processFunction := f,
     bar_cond := \<lparr>wait_cond_queue = us, cond_lock = (if us = [] then None else Some 0)\<rparr>\<rparr>"

lemma signal_all_eq:
  "holder l = Some t \<Longrightarrow> lock_id l = 0 \<Longrightarrow> us \<noteq> [] \<longrightarrow> cl = Some 0 \<Longrightarrow>
   signal_all t \<lparr>wait_cond_queue = us, cond_lock = cl\<rparr> l = Inr (us, \<lparr>wait_cond_queue = [], cond_lock = cl\<rparr>)"
proof (induction us)
  case (Cons u us)
  then show ?case
    by (subst signal_all.simps) (simp add: Signal_def isHeldByCurrentThread_def)
qed (simp add: signal_all.simps)

lemma arrive_early:
  assumes "int (length us) + 1 < n"
  shows "arrive t (gathering n f us) s = Inr (True, [], gathering n f (us @ [t]), s)"
  using assms
  by (simp add: arrive_def enterBarrier_def barrier_loop_def gathering_def new_Barrier_def new_Lock_def new_Semaphore_def
      Acquire_def P_def Wait_def isHeldByCurrentThread_def Release_def V_def)

text \<open>With \<open>remaining\<close> at most 1 the caller passes, and wakes everyone.\<close>

lemma arrive_last:
  assumes "n \<le> int (length us) + 1" "case f of None \<Rightarrow> s1 = s | Some g \<Rightarrow> g (-1) s = Inr s1"
  shows "\<exists>b. arrive t (gathering n f us) s = Inr (False, us, b, s1) \<and> remaining b = n - int (length us) - 1 \<and> processFunction b = None
    \<and> wait_cond_queue (bar_cond b) = [] \<and> bar_lock b = new_Lock 0"
  using assms signal_all_eq [of _ t us "if us = [] then None else Some 0"]
  by (auto simp: arrive_def enterBarrier_def barrier_loop_def gathering_def new_Barrier_def new_Lock_def new_Semaphore_def
      Acquire_def P_def Broadcast_def isHeldByCurrentThread_def Release_def V_def split: option.splits)

lemma arrivals_early:
  "int (length us + length ts) < n \<Longrightarrow>
     arrivals ts (gathering n f us) s = Inr (replicate (length ts) True, [], gathering n f (us @ ts), s)"
  by (induction ts arbitrary: us) (simp_all add: arrive_early)

lemma arrivals_append:
  "arrivals (ts @ us) b s = bindR (arrivals ts b s) (\<lambda>(sls, ws, b1, s1).
     bindR (arrivals us b1 s1) (\<lambda>(sls', ws', b2, s2). Inr (sls @ sls', ws @ ws', b2, s2)))"
proof (induction ts arbitrary: b s)
  case Nil
  then show ?case by (cases "arrivals us b s") auto
next
  case (Cons t ts)
  show ?case
    by (cases "arrive t b s") (simp_all add: Cons bindR_assoc split_beta)
qed

lemma arrive_again:
  assumes "remaining b \<le> 0" "wait_cond_queue (bar_cond b) = []" "bar_lock b = new_Lock 0" "processFunction b = None"
  shows "\<exists>b1. arrive t b s = Inr (False, [], b1, s)"
  using assms by (simp add: arrive_def enterBarrier_def barrier_loop_def new_Lock_def new_Semaphore_def
      Acquire_def P_def Broadcast_def isHeldByCurrentThread_def signal_all.simps Release_def V_def)

text \<open>Threads arriving at a new barrier for \<open>n\<close> threads.  All but the last go to sleep; the last calls the process
  function with -1, wakes all the others in the order of their arrival and passes itself.  The count is not
  reset: whoever calls \<open>enterBarrier\<close> afterwards passes at once, alone.\<close>

theorem barrier_works_once:
  assumes "int (length ts) = n" "ts \<noteq> []" "case f of None \<Rightarrow> s1 = s | Some g \<Rightarrow> g (-1) s = Inr s1"
  shows "\<exists>b. arrivals ts ((setBarrierNum n new_Barrier)\<lparr>processFunction := f\<rparr>) s
      = Inr (replicate (length ts - 1) True @ [False], butlast ts, b, s1)
    \<and> (\<forall>t z. \<exists>b'. arrive t b z = Inr (False, [], b', z))"
proof -
  have g: "(setBarrierNum n new_Barrier)\<lparr>processFunction := f\<rparr> = gathering n f []"
    by (simp add: setBarrierNum_def gathering_def new_Barrier_def new_Condition_def)
  have ts: "ts = butlast ts @ [last ts]" using assms(2) by simp
  have ln: "int (length (butlast ts)) + 1 = n" using assms(1,2) by (cases ts) auto
  have e: "arrivals (butlast ts) (gathering n f []) s
      = Inr (replicate (length (butlast ts)) True, [], gathering n f (butlast ts), s)"
    using arrivals_early [of "[]" "butlast ts" n f s] ln by (simp del: length_butlast)
  obtain b where b: "arrive (last ts) (gathering n f (butlast ts)) s = Inr (False, butlast ts, b, s1)"
    "remaining b \<le> 0" "processFunction b = None" "wait_cond_queue (bar_cond b) = []" "bar_lock b = new_Lock 0"
    using arrive_last [of n "butlast ts" s1 s f "last ts"] assms(3) ln by (auto simp del: length_butlast)
  have "arrivals ts (gathering n f []) s = Inr (replicate (length ts - 1) True @ [False], butlast ts, b, s1)"
    by (subst ts, subst arrivals_append) (simp add: e b(1))
  then show ?thesis using arrive_again [OF b(2,4,5,3)] g by auto
qed

theorem barrier_works_once_witness:
  "\<exists>b. arrivals [4, 7, 5] ((setBarrierNum 3 new_Barrier)\<lparr>processFunction := Some (BarrierProcess 7)\<rparr>)
        \<lparr>total = 9, memnum = [9] @ replicate 19 0, memid = replicate 20 0, cnt = 1\<rparr>
      = Inr ([True, True, False], [4, 7], b, \<lparr>total = 0, memnum = replicate 20 0, memid = replicate 20 0, cnt = 0\<rparr>)"
  using barrier_works_once [of "[4, 7, 5]" 3
      "\<lparr>total = 0, memnum = replicate 20 0, memid = replicate 20 0, cnt = 0\<rparr>"
      "\<lparr>total = 9, memnum = [9] @ replicate 19 0, memid = replicate 20 0, cnt = 1\<rparr>" "Some (BarrierProcess 7)"]
  by (simp add: BarrierProcess_def numeral_2_eq_2) blast

section \<open>Properties\<close>

text \<open>C29: threads that each call \<open>enterBarrier\<close> once on a new barrier for \<open>n\<close> threads, in any interleaving.  Nobody passes before
  \<open>n\<close> of them have entered; the process function is called with -1 exactly once, by the first who passes; and when no thread can go on,
  either at least \<open>n\<close> threads use the barrier and all have passed, or all of them sleep in it.\<close>

theorem barrier_reachable:
  assumes "processed g z z1" "bar_init n g z s0" "(bar_step T)\<^sup>*\<^sup>* s0 s"
  shows "((\<exists>t. mon_at s t = At Passed) \<longrightarrow> n \<le> num_at entered (mon_at s))
    \<and> snd (obj s) = (if \<exists>t. mon_at s t = At Passed then z1 else z)
    \<and> ((\<forall>s'. \<not> bar_step T s s') \<longrightarrow> (\<forall>t \<in> T. mon_at s t = At (if n \<le> int (card T) then Passed else WaitBar)))"
proof -
  have init: "processed g z z1 \<and> bar_init n g z s0" using assms(1,2) by blast
  note run = assms(3) [unfolded bar_step_def]
  obtain b y where o: "obj s = (b, y)" by fastforce
  have i: "bar_ok T n g z z1 (b, y) (mon_at s)" using bar_threads.reachable [OF init run] o by simp
  then have first: "(\<exists>t. mon_at s t = At Passed) \<longrightarrow> n \<le> num_at entered (mon_at s)"
    "y = (if \<exists>t. mon_at s t = At Passed then z1 else z)" by (auto simp: bar_ok_def bar_core_def split: if_splits)
  have "\<forall>t \<in> T. mon_at s t = At (if n \<le> int (card T) then Passed else WaitBar)" if stuck: "\<forall>s'. \<not> bar_step T s s'"
  proof -
    have st: "\<exists>p. mon_at s t = At p \<and> (\<forall>k. \<not> bar_asks T t p k)" for t
      using bar_threads.stuck [OF init run] stuck by (simp add: bar_step_def)
    have in_T: "mon_at s t \<noteq> At Before \<longleftrightarrow> t \<in> T" for t
      using st [of t] in_set [of T n g z z1 "(b, y)" "mon_at s" t] i by (auto simp: bar_asks_def bar_ok_def)
    have "entered (mon_at s t) \<longleftrightarrow> t \<in> T" for t using st [of t] in_T [of t] by auto
    then have c: "num_at entered (mon_at s) = int (card T)" by (simp add: num_at_def)
    then have r: "remaining b = n - int (card T)" using i by (simp add: bar_ok_def bar_core_def)
    show ?thesis
    proof
      fix t assume "t \<in> T"
      then have p: "mon_at s t = At WaitBar \<or> mon_at s t = At Passed" using st [of t] in_T [of t] by (metis bar_place.exhaust)
      show "mon_at s t = At (if n \<le> int (card T) then Passed else WaitBar)"
      proof (cases "n \<le> int (card T)")
        case True
        then have "wait_cond_queue (bar_cond b) = []" using i r by (auto simp: bar_ok_def)
        then show ?thesis using p True i by (auto simp: bar_ok_def bar_core_def cond_inv_def)
      next
        case False
        then show ?thesis using p first(1) c by auto
      qed
    qed
  qed
  then show ?thesis using first o by simp
qed

text \<open>One thread at a barrier for one.\<close>

lemma bar_sample:
  assumes "processed g z z1"
  shows "\<exists>s0 s. bar_init 1 g z s0 \<and> (bar_step {1})\<^sup>*\<^sup>* s0 s \<and> mon_at s = (\<lambda>_. At Before)(1 := At Passed)"
proof -
  let ?b = "(setBarrierNum 1 new_Barrier)\<lparr>processFunction := g\<rparr>"
  let ?l = "(new_Lock 0)\<lparr>locked := (new_Semaphore 1)\<lparr>sem_value := 0\<rparr>, holder := Some 1\<rparr>"
  let ?c = "?b\<lparr>remaining := 0, processFunction := None, bar_lock := new_Lock 0\<rparr>"
  let ?s0 = "\<lparr>obj = (?b, z), mon_at = (\<lambda>_. At Before)\<rparr>"
  let ?s1 = "?s0\<lparr>mon_at := (mon_at ?s0)(1 := Want EnterBar)\<rparr>"
  let ?s2 = "?s1\<lparr>obj := set_bar_lk ?l (obj ?s1), mon_at := (mon_at ?s1)(1 := Holds EnterBar)\<rparr>"
  let ?s3 = "?s2\<lparr>obj := (?c, z1), mon_at := wakes bar_again [] ((mon_at ?s2)(1 := At Passed))\<rparr>"
  note new = setBarrierNum_def new_Barrier_def new_Lock_def new_Semaphore_def new_Condition_def
  have "(case g of None \<Rightarrow> Inr z | Some h \<Rightarrow> h (- 1) z) = Inr z1" using assms by (auto simp: processed_def split: option.splits)
  then have body: "bar_body EnterBar 1 (obj ?s2) = Inr (Passed, [], (?c, z1))"
    by (simp add: bar_body_def set_bar_lk_def enterBarrier_def barrier_loop_def Broadcast_def isHeldByCurrentThread_def signal_all.simps
        Release_def V_def new)
  have "bar_step {1} ?s0 ?s1" unfolding bar_step_def by (rule mon_step.ask [of _ _ Before]) (simp_all add: bar_asks_def)
  moreover have "bar_step {1} ?s1 ?s2" unfolding bar_step_def
    by (rule mon_step.got) (simp_all add: bar_lk_def Acquire_def P_def new)
  moreover have "bar_step {1} ?s2 ?s3" unfolding bar_step_def 
    by (rule mon_step.body [where k = EnterBar], simp, rule body)
  ultimately have "(bar_step {1})\<^sup>*\<^sup>* ?s0 ?s3" by (rule three_steps)
  then show ?thesis by (intro exI [of _ ?s0] exI [of _ ?s3]) (simp add: bar_init_def)
qed

theorem barrier_reachable_witness:
  "\<exists>s0 s. bar_init 1 (Some (BarrierProcess 7)) \<lparr>total = 9, memnum = [9] @ replicate 19 0, memid = replicate 20 0, cnt = 1\<rparr> s0
     \<and> (bar_step {1})\<^sup>*\<^sup>* s0 s \<and> total (snd (obj s)) = 0 \<and> mon_at s 1 = At Passed"
proof -
  let ?z = "\<lparr>total = 9, memnum = [9] @ replicate 19 0, memid = replicate 20 0, cnt = 1\<rparr>"
  let ?z1 = "\<lparr>total = 0, memnum = replicate 20 0, memid = replicate 20 0, cnt = 0\<rparr>"
  have p: "processed (Some (BarrierProcess 7)) ?z ?z1" by (simp add: processed_def BarrierProcess_def)
  obtain s0 s where s: "bar_init 1 (Some (BarrierProcess 7)) ?z s0" "(bar_step {1})\<^sup>*\<^sup>* s0 s" "mon_at s = (\<lambda>_. At Before)(1 := At Passed)"
    using bar_sample [OF p] by blast
  have at: "mon_at s 1 = At Passed" by (simp add: s(3))
  then have "\<exists>t. mon_at s t = At Passed" by blast
  then have "snd (obj s) = ?z1" using barrier_reachable [OF p s(1,2)] by simp
  then show ?thesis using s(1,2) at by (intro exI [of _ s0] exI [of _ s]) simp
qed

end
