(* ===== verification/SynchListSteps.thy ===== *)
theory SynchListSteps
  imports Monitor
begin

text \<open>
  How threads interleave on a \<open>SynchList\<close> (threads/synchlist.cc), a client of \<open>monitor\<close>: any threads append, remove and map, as often as
  they like.  The mailboxes of network/post.cc are such lists.  \<open>added\<close> and \<open>taken\<close> record the finished calls in their order.
\<close>

section \<open>Threads on one list\<close>

datatype 'a list_code = AppendItem 'a | RemoveItem | RemoveAgain | MapItems

datatype list_place = OutOfList | WaitItem

record 'a list_obj =
  slist :: "'a SynchList"
  added :: "'a list"
  taken :: "'a list"

type_synonym 'a list_sys = "('a list_obj, 'a list_code, list_place) mon_sys"

definition list_remove :: "nat \<Rightarrow> 'a list_obj \<Rightarrow> (list_place \<times> nat list \<times> 'a list_obj) res" where
  "list_remove t x = bindR (SynchList_Remove t (slist x)) (\<lambda>(item, ws, b). case item of
      None \<Rightarrow> Inr (WaitItem, ws, x\<lparr>slist := b\<rparr>)
    | Some a \<Rightarrow> Inr (OutOfList, ws, x\<lparr>slist := b, taken := taken x @ [a]\<rparr>))"

fun list_body :: "'a list_code \<Rightarrow> nat \<Rightarrow> 'a list_obj \<Rightarrow> (list_place \<times> nat list \<times> 'a list_obj) res" where
  "list_body (AppendItem a) t x = bindR (SynchList_Append t a (slist x)) (\<lambda>(ws, b). Inr (OutOfList, ws, x\<lparr>slist := b, added := added x @ [a]\<rparr>))"
| "list_body RemoveItem t x = list_remove t x"
| "list_body RemoveAgain t x = list_remove t x"
| "list_body MapItems t x = bindR (SynchList_Mapcar (\<lambda>a u. u) t (slist x) ()) (\<lambda>(ws, b, u). Inr (OutOfList, ws, x\<lparr>slist := b\<rparr>))"

fun list_again :: "list_place \<Rightarrow> 'a list_code option" where
  "list_again WaitItem = Some RemoveAgain"
| "list_again OutOfList = None"

definition list_asks :: "nat \<Rightarrow> list_place \<Rightarrow> 'a list_code \<Rightarrow> bool" where
  "list_asks t p k \<longleftrightarrow> p = OutOfList \<and> k \<noteq> RemoveAgain"

definition list_lk :: "'a list_obj \<Rightarrow> Lock" where "list_lk x = sl_lock (slist x)"
definition set_list_lk :: "Lock \<Rightarrow> 'a list_obj \<Rightarrow> 'a list_obj" where "set_list_lk l x = x\<lparr>slist := (slist x)\<lparr>sl_lock := l\<rparr>\<rparr>"

definition list_step :: "'a list_sys \<Rightarrow> 'a list_sys \<Rightarrow> bool" where
  "list_step = mon_step list_lk set_list_lk list_body list_again list_asks"

definition list_init :: "'a list_sys \<Rightarrow> bool" where
  "list_init s \<longleftrightarrow> s = \<lparr>obj = \<lparr>slist = new_SynchList, added = [], taken = []\<rparr>, mon_at = (\<lambda>_. At OutOfList)\<rparr>"

section \<open>Invariant\<close>

text \<open>While a thread sleeps, every item on the list is promised to a thread that has been woken.\<close>

definition list_ok :: "'a list_obj \<Rightarrow> (nat \<Rightarrow> ('a list_code, list_place) mon_pc) \<Rightarrow> bool" where
  "list_ok x f \<longleftrightarrow> lock_id (list_lk x) = 0 \<and> cond_inv 0 WaitItem (listEmpty (slist x)) f \<and> few (on_way RemoveAgain) f
     \<and> added x = taken x @ sl_list (slist x)
     \<and> (wait_cond_queue (listEmpty (slist x)) \<noteq> [] \<longrightarrow> int (length (sl_list (slist x))) \<le> num_at (on_way RemoveAgain) f)"

lemma list_quiet:
  assumes "lock_inv (list_lk x) f" "list_ok x f" "f t = Holds k"
  shows "\<exists>ws l. Release t (list_lk x) = Inr (ws, l) \<and> lock_id l = 0 \<and> lock_inv l (wakes list_again ws (f(t := At OutOfList)))
    \<and> cond_inv 0 WaitItem (listEmpty (slist x)) (wakes list_again ws (f(t := At OutOfList)))
    \<and> few (on_way RemoveAgain) (wakes list_again ws (f(t := At OutOfList)))
    \<and> num_at (on_way RemoveAgain) (wakes list_again ws (f(t := At OutOfList))) = num_at (on_way RemoveAgain) f - of_bool (k = RemoveAgain)"
proof -
  obtain ws l where R: "Release t (list_lk x) = Inr (ws, l)" "lock_inv l (wakes list_again ws (f(t := At OutOfList)))"
    "lock_id l = lock_id (list_lk x)" "\<forall>u \<in> set ws. \<exists>k. f u = InQueue k" using Release_inv [OF assms(1,3)] by blast
  then show ?thesis
    using assms(2) on_way_left [OF assms(3) R(4), of RemoveAgain list_again OutOfList]
      cond_inv_after [OF _ assms(3) _ R(4), of 0 WaitItem "listEmpty (slist x)" OutOfList list_again]
    by (auto simp: list_ok_def)
qed

lemma list_remove_ok:
  assumes "lock_inv (list_lk x) f" "list_ok x f" "f t = Holds k"
  shows "\<exists>p ws x1. list_remove t x = Inr (p, ws, x1) \<and> lock_inv (list_lk x1) (wakes list_again ws (f(t := At p)))
    \<and> list_ok x1 (wakes list_again ws (f(t := At p)))"
proof (cases "sl_list (slist x)")
  case Nil
  have c: "cond_inv (lock_id (list_lk x)) WaitItem (listEmpty (slist x)) f" using assms(2) by (simp add: list_ok_def)
  obtain ws c1 l1 where W: "Wait t (listEmpty (slist x)) (list_lk x) = Inr (ws, c1, l1)" "lock_id l1 = lock_id (list_lk x)"
    "lock_inv l1 (wakes list_again ws (f(t := At WaitItem)))" "cond_inv (lock_id (list_lk x)) WaitItem c1 (wakes list_again ws (f(t := At WaitItem)))"
    "\<forall>u \<in> set ws. \<exists>k. f u = InQueue k" using Wait_inv [OF assms(1) c assms(3), of list_again] by blast
  let ?x = "x\<lparr>slist := (slist x)\<lparr>listEmpty := c1, sl_lock := l1\<rparr>\<rparr>"
  have "list_ok ?x (wakes list_again ws (f(t := At WaitItem)))"
    using assms(2) W(2,4) Nil on_way_left(2) [OF assms(3) W(5), of RemoveAgain list_again WaitItem]
    by (auto simp: list_ok_def list_lk_def)
  moreover have "list_remove t x = Inr (WaitItem, ws, ?x)"
    using W(1) Nil by (simp add: list_remove_def SynchList_Remove_def list_lk_def)
  ultimately show ?thesis using W(3) by (simp add: list_lk_def)
next
  case (Cons a as)
  obtain ws l where R: "Release t (list_lk x) = Inr (ws, l)" "lock_id l = 0" "lock_inv l (wakes list_again ws (f(t := At OutOfList)))"
    "cond_inv 0 WaitItem (listEmpty (slist x)) (wakes list_again ws (f(t := At OutOfList)))"
    "few (on_way RemoveAgain) (wakes list_again ws (f(t := At OutOfList)))"
    "num_at (on_way RemoveAgain) (wakes list_again ws (f(t := At OutOfList))) = num_at (on_way RemoveAgain) f - of_bool (k = RemoveAgain)"
    using list_quiet [OF assms] by blast
  let ?x = "x\<lparr>slist := (slist x)\<lparr>sl_list := as, sl_lock := l\<rparr>, taken := taken x @ [a]\<rparr>"
  have "list_ok ?x (wakes list_again ws (f(t := At OutOfList)))"
    using assms(2) R(2,4,5,6) Cons by (auto simp: list_ok_def list_lk_def)
  moreover have "list_remove t x = Inr (OutOfList, ws, ?x)"
    using R(1) Cons by (simp add: list_remove_def SynchList_Remove_def list_lk_def)
  ultimately show ?thesis using R(3) by (simp add: list_lk_def)
qed

lemma list_append_ok:
  assumes "lock_inv (list_lk x) f" "list_ok x f" "f t = Holds (AppendItem a)"
  shows "\<exists>p ws x1. list_body (AppendItem a) t x = Inr (p, ws, x1) \<and> lock_inv (list_lk x1) (wakes list_again ws (f(t := At p)))
    \<and> list_ok x1 (wakes list_again ws (f(t := At p)))"
proof -
  let ?c = "listEmpty (slist x)"
  have c: "cond_inv (lock_id (list_lk x)) WaitItem ?c f" and id: "lock_id (list_lk x) = 0" using assms(2) by (simp_all add: list_ok_def)
  obtain ws0 c1 where S: "Signal t ?c (list_lk x) = Inr (ws0, c1)" "cond_inv 0 WaitItem c1 (wakes list_again ws0 f)"
    "signalled WaitItem (wait_cond_queue ?c) ws0 f" "wait_cond_queue c1 = tl (wait_cond_queue ?c)"
    using Signal_inv [OF c holder_of [OF assms(1,3)], of list_again RemoveAgain] id by auto
  have ws0: "\<forall>u \<in> set ws0. f u = At WaitItem" using S(3) by (auto elim!: signalled_cases)
  obtain ws l where R: "Release t (list_lk x) = Inr (ws, l)" "lock_id l = 0" "lock_inv l (wakes list_again (ws0 @ ws) (f(t := At OutOfList)))"
    "\<forall>u \<in> set ws. \<exists>k. f u = InQueue k"
    using Release_after [OF assms(1,3), of ws0 list_again OutOfList] ws0 id by auto
  let ?g = "wakes list_again (ws0 @ ws) (f(t := At OutOfList))"
  let ?x = "x\<lparr>slist := (slist x)\<lparr>sl_list := sl_list (slist x) @ [a], listEmpty := c1, sl_lock := l\<rparr>, added := added x @ [a]\<rparr>"
  have n: "few (on_way RemoveAgain) ?g" "num_at (on_way RemoveAgain) ?g = num_at (on_way RemoveAgain) f + of_bool (wait_cond_queue ?c \<noteq> [])"
    using on_way_after [OF assms(3) S(3) _ R(4), where again = list_again and p = OutOfList and i = RemoveAgain and j = RemoveAgain] assms(2)
    by (simp_all add: list_ok_def)
  have "cond_inv 0 WaitItem c1 ?g" using cond_after_signal [OF S(2) assms(3) _ R(4)] ws0 by auto
  then have "list_ok ?x ?g" using assms(2) n R(2) S(4) by (auto simp: list_ok_def list_lk_def)
  moreover have "list_body (AppendItem a) t x = Inr (OutOfList, ws0 @ ws, ?x)"
    using S(1) R(1) by (simp add: SynchList_Append_def list_lk_def)
  ultimately show ?thesis using R(3)
    by (intro exI [of _ OutOfList] exI [of _ "ws0 @ ws"] exI [of _ ?x]) (simp add: list_lk_def)
qed

lemma list_map_ok:
  assumes "lock_inv (list_lk x) f" "list_ok x f" "f t = Holds MapItems"
  shows "\<exists>p ws x1. list_body MapItems t x = Inr (p, ws, x1) \<and> lock_inv (list_lk x1) (wakes list_again ws (f(t := At p)))
    \<and> list_ok x1 (wakes list_again ws (f(t := At p)))"
proof -
  obtain ws l where R: "Release t (list_lk x) = Inr (ws, l)" "lock_id l = 0" "lock_inv l (wakes list_again ws (f(t := At OutOfList)))"
    "cond_inv 0 WaitItem (listEmpty (slist x)) (wakes list_again ws (f(t := At OutOfList)))"
    "few (on_way RemoveAgain) (wakes list_again ws (f(t := At OutOfList)))"
    "num_at (on_way RemoveAgain) (wakes list_again ws (f(t := At OutOfList))) = num_at (on_way RemoveAgain) f"
    using list_quiet [OF assms] by auto
  let ?x = "x\<lparr>slist := (slist x)\<lparr>sl_lock := l\<rparr>\<rparr>"
  have "list_ok ?x (wakes list_again ws (f(t := At OutOfList)))" using assms(2) R(2,4,5,6) by (auto simp: list_ok_def list_lk_def)
  moreover have "list_body MapItems t x = Inr (OutOfList, ws, ?x)" using R(1) by (simp add: SynchList_Mapcar_def list_lk_def)
  ultimately show ?thesis using R(3) by (intro exI [of _ OutOfList] exI [of _ ws] exI [of _ ?x]) (simp add: list_lk_def)
qed

lemma list_body_ok:
  assumes "lock_inv (list_lk x) f" "list_ok x f" "f t = Holds k"
  shows "\<exists>p ws x1. list_body k t x = Inr (p, ws, x1) \<and> lock_inv (list_lk x1) (wakes list_again ws (f(t := At p)))
    \<and> list_ok x1 (wakes list_again ws (f(t := At p)))"
proof (cases k)
  case (AppendItem a)
  with assms show ?thesis using list_append_ok [OF assms(1,2)] by simp
next
  case MapItems
  with assms show ?thesis using list_map_ok [OF assms(1,2)] by simp
qed (use list_remove_ok [OF assms] in simp_all)

lemma list_ok_move:
  assumes "list_ok x f" "on_way RemoveAgain q = on_way RemoveAgain (f t)" "q \<noteq> At WaitItem" "f t \<noteq> At WaitItem"
  shows "list_ok x (f(t := q))"
proof -
  have "num_at (on_way RemoveAgain) (f(t := q)) = num_at (on_way RemoveAgain) f" by (rule num_at_same) (rule assms(2))
  then show ?thesis using assms(1,3,4) by (auto simp: list_ok_def intro: cond_inv_upd)
qed

interpretation list_threads: monitor list_lk set_list_lk list_body list_again list_asks list_ok list_init
proof
  fix x :: "'a list_obj" and l f t p k q
  show "list_lk (set_list_lk l x) = l" by (simp add: list_lk_def set_list_lk_def)
  show "lock_id l = lock_id (list_lk x) \<Longrightarrow> list_ok x f \<Longrightarrow> list_ok (set_list_lk l x) f"
    by (simp add: list_ok_def list_lk_def set_list_lk_def)
  show "list_ok x f \<Longrightarrow> f t = At p \<Longrightarrow> list_asks t p k \<Longrightarrow> list_ok x (f(t := Want k))"
    by (rule list_ok_move) (auto simp: list_asks_def)
  show "list_ok x f \<Longrightarrow> f t = Want k \<Longrightarrow> q = Holds k \<or> q = InQueue k \<Longrightarrow> list_ok x (f(t := q))"
    by (rule list_ok_move) auto
  show "lock_inv (list_lk x) f \<Longrightarrow> list_ok x f \<Longrightarrow> f t = Holds k \<Longrightarrow> \<exists>p ws x1. list_body k t x = Inr (p, ws, x1)
      \<and> lock_inv (list_lk x1) (wakes list_again ws (f(t := At p))) \<and> list_ok x1 (wakes list_again ws (f(t := At p)))"
    by (rule list_body_ok)
next
  fix s :: "'a list_sys"
  show "list_init s \<Longrightarrow> mon_inv list_lk list_ok s"
    by (auto simp: list_init_def mon_inv_def list_ok_def list_lk_def few_def new_SynchList_def new_Lock_def
        intro!: lock_inv_new [unfolded new_Lock_def] cond_inv_new)
qed

section \<open>Properties\<close>

text \<open>C30: threads that append to, remove from and map over one \<open>SynchList\<close>, in any interleaving.  The items come out in the order in
  which they went in, none lost and none twice; no assertion of the lock or of the condition fails; and no wake-up is lost: when no
  thread can run and one sleeps in \<open>Remove\<close>, the list is empty.\<close>

theorem SynchList_reachable:
  assumes "list_init s0" "list_step\<^sup>*\<^sup>* s0 s"
  shows "added (obj s) = taken (obj s) @ sl_list (slist (obj s))
    \<and> (\<forall>t k. mon_at s t = Holds k \<longrightarrow> (\<exists>r. list_body k t (obj s) = Inr r))
    \<and> ((\<forall>t k. mon_at s t \<noteq> Holds k \<and> mon_at s t \<noteq> Want k) \<longrightarrow> (\<exists>t. mon_at s t = At WaitItem) \<longrightarrow> sl_list (slist (obj s)) = [])"
proof -
  have i: "lock_inv (list_lk (obj s)) (mon_at s)" "list_ok (obj s) (mon_at s)"
    using list_threads.reachable [OF assms(1)] assms(2) by (simp_all add: list_step_def)
  have "sl_list (slist (obj s)) = []"
    if q: "\<forall>t k. mon_at s t \<noteq> Holds k \<and> mon_at s t \<noteq> Want k" and w: "mon_at s t = At WaitItem" for t
  proof -
    have "\<exists>p. mon_at s u = At p" for u using nobody_runs [OF i(1)] q by blast
    then have "\<not> on_way RemoveAgain (mon_at s u)" for u by (metis on_way_simps(4))
    then have "num_at (on_way RemoveAgain) (mon_at s) = 0" by (rule num_at_zero)
    moreover have "t \<in> set (wait_cond_queue (listEmpty (slist (obj s))))" using i(2) w by (simp add: list_ok_def cond_inv_def)
    then have "wait_cond_queue (listEmpty (slist (obj s))) \<noteq> []" by auto
    ultimately show ?thesis using i(2) by (simp add: list_ok_def)
  qed
  moreover have "added (obj s) = taken (obj s) @ sl_list (slist (obj s))" using i(2) by (simp add: list_ok_def)
  ultimately show ?thesis using list_body_ok [OF i] by blast
qed

theorem SynchList_reachable_witness:
  "\<exists>s0 s. list_init s0 \<and> list_step\<^sup>*\<^sup>* s0 s \<and> mon_at s 4 = At WaitItem \<and> sl_list (slist (obj s)) = ([] :: int list)"
proof -
  let ?s0 = "\<lparr>obj = \<lparr>slist = new_SynchList, added = [], taken = []\<rparr>, mon_at = (\<lambda>_. At OutOfList)\<rparr> :: int list_sys"
  let ?s1 = "?s0\<lparr>mon_at := (mon_at ?s0)(4 := Want RemoveItem)\<rparr>"
  let ?l = "(new_Lock 0)\<lparr>locked := (new_Semaphore 1)\<lparr>sem_value := 0\<rparr>, holder := Some 4\<rparr>"
  let ?s2 = "?s1\<lparr>obj := set_list_lk ?l (obj ?s1), mon_at := (mon_at ?s1)(4 := Holds RemoveItem)\<rparr>"
  let ?x = "(obj ?s0)\<lparr>slist := (new_SynchList)\<lparr>listEmpty := \<lparr>wait_cond_queue = [4], cond_lock = Some 0\<rparr>\<rparr>\<rparr>"
  let ?s3 = "?s2\<lparr>obj := ?x, mon_at := wakes list_again [] ((mon_at ?s2)(4 := At WaitItem))\<rparr>"
  note new = new_SynchList_def new_Lock_def new_Semaphore_def new_Condition_def
  have body: "list_body RemoveItem 4 (obj ?s2) = Inr (WaitItem, [], ?x)"
    by (simp add: list_remove_def SynchList_Remove_def set_list_lk_def Wait_def isHeldByCurrentThread_def Release_def V_def new)
  have "list_step ?s0 ?s1" unfolding list_step_def by (rule mon_step.ask [of _ _ OutOfList]) (simp_all add: list_asks_def)
  moreover have "list_step ?s1 ?s2" unfolding list_step_def
    by (rule mon_step.got) (simp_all add: list_lk_def Acquire_def P_def new)
  moreover have "list_step ?s2 ?s3" unfolding list_step_def
    by (rule mon_step.body [where k = RemoveItem], simp, rule body)
  ultimately have r: "list_step\<^sup>*\<^sup>* ?s0 ?s3" by (meson converse_rtranclp_into_rtranclp r_into_rtranclp)
  have i: "list_init ?s0" by (simp add: list_init_def)
  have "\<forall>t k. mon_at ?s3 t \<noteq> Holds k \<and> mon_at ?s3 t \<noteq> Want k" by simp
  moreover have w: "mon_at ?s3 4 = At WaitItem" by simp
  ultimately have "sl_list (slist (obj ?s3)) = []" using SynchList_reachable [OF i r] by blast
  then show ?thesis using i r w by (intro exI [of _ ?s0] exI [of _ ?s3]) simp
qed

end
