(* ===== verification/SynchDiskSteps.thy ===== *)
theory SynchDiskSteps
  imports Disk Monitor
begin

text \<open>
  \<open>SynchDisk::ReadSector\<close> and \<open>WriteSector\<close> (filesys/synchdisk.cc) called by any threads, with the lock, the semaphore, the disk and
  its interrupt.  The file system is modelled on the plain operations of \<open>Disk\<close>; here is why that is sound: whatever the threads and
  the interrupts do, the calls act like one plain operation after the other.
\<close>

section \<open>The object\<close>

datatype disk_op = ReadOp int | WriteOp int "u8 list"

record SynchDisk =
  semaphore :: Semaphore
  sd_lock :: Lock
  disk :: Disk
  sd_stats :: Statistics

definition new_SynchDisk :: "store \<Rightarrow> SynchDisk" where
  "new_SynchDisk c = \<lparr>semaphore = new_Semaphore 0, sd_lock = new_Lock 0, disk = new_Disk c, sd_stats = new_Statistics\<rparr>"

text \<open>\<open>disk->ReadRequest(sectorNumber, data)\<close> and \<open>disk->WriteRequest(sectorNumber, data)\<close>, with what is then in \<open>data\<close>.\<close>

fun issue :: "disk_op \<Rightarrow> SynchDisk \<Rightarrow> (u8 list \<times> SynchDisk) res" where
  "issue (ReadOp n) x = bindR (ReadRequest (disk x) (sd_stats x) n) (\<lambda>(data, ticks, d, st). Inr (data, x\<lparr>disk := d, sd_stats := st\<rparr>))"
| "issue (WriteOp n data) x = bindR (WriteRequest (disk x) (sd_stats x) n data) (\<lambda>(ticks, d, st). Inr (data, x\<lparr>disk := d, sd_stats := st\<rparr>))"

text \<open>\<open>Disk::HandleInterrupt\<close>, which calls \<open>DiskRequestDone\<close> and so \<open>SynchDisk::RequestDone\<close>: the threads made ready, and the new state.\<close>

definition RequestDone :: "SynchDisk \<Rightarrow> nat list \<times> SynchDisk" where
  "RequestDone x = (let (ws, y) = V (semaphore x) in (ws, x\<lparr>disk := HandleInterrupt (disk x), semaphore := y\<rparr>))"

section \<open>Steps\<close>

text \<open>Where a thread is: outside, in front of the lock, holding it with the request to be made, in the loop of \<open>P\<close>, asleep there, or
  past it with \<open>Release\<close> to come.\<close>

datatype disk_pc = Outside | Trying disk_op | Queued disk_op | Inside disk_op | AtP disk_op | Sleeping disk_op | Through disk_op

text \<open>\<open>requests\<close> records the requests in the order in which they are made, each with the data of its caller afterwards.\<close>

record sd_sys =
  sd :: SynchDisk
  sd_at :: "nat \<Rightarrow> disk_pc"
  requests :: "(disk_op \<times> u8 list) list"

fun op_ok :: "disk_op \<Rightarrow> bool" where
  "op_ok (ReadOp n) \<longleftrightarrow> 0 \<le> n \<and> n < NumSectors"
| "op_ok (WriteOp n data) \<longleftrightarrow> 0 \<le> n \<and> n < NumSectors \<and> SectorSize \<le> int (length data)"

fun sd_woken :: "disk_pc \<Rightarrow> disk_pc" where
  "sd_woken (Queued r) = Trying r"
| "sd_woken (Sleeping r) = AtP r"
| "sd_woken q = q"

definition sd_wakes :: "nat list \<Rightarrow> (nat \<Rightarrow> disk_pc) \<Rightarrow> nat \<Rightarrow> disk_pc" where
  "sd_wakes ws f = (\<lambda>u. if u \<in> set ws then sd_woken (f u) else f u)"

inductive sd_step :: "sd_sys \<Rightarrow> sd_sys \<Rightarrow> bool" where
  call: "sd_at s t = Outside \<Longrightarrow> op_ok r \<Longrightarrow> sd_step s (s\<lparr>sd_at := (sd_at s)(t := Trying r)\<rparr>)"
| got: "sd_at s t = Trying r \<Longrightarrow> Acquire t (sd_lock (sd s)) = (True, l) \<Longrightarrow>
    sd_step s (s\<lparr>sd := (sd s)\<lparr>sd_lock := l\<rparr>, sd_at := (sd_at s)(t := Inside r)\<rparr>)"
| busy: "sd_at s t = Trying r \<Longrightarrow> Acquire t (sd_lock (sd s)) = (False, l) \<Longrightarrow>
    sd_step s (s\<lparr>sd := (sd s)\<lparr>sd_lock := l\<rparr>, sd_at := (sd_at s)(t := Queued r)\<rparr>)"
| request: "sd_at s t = Inside r \<Longrightarrow> issue r (sd s) = Inr (data, x) \<Longrightarrow>
    sd_step s (s\<lparr>sd := x, sd_at := (sd_at s)(t := AtP r), requests := requests s @ [(r, data)]\<rparr>)"
| passP: "sd_at s t = AtP r \<Longrightarrow> P t (semaphore (sd s)) = (got, y) \<Longrightarrow>
    sd_step s (s\<lparr>sd := (sd s)\<lparr>semaphore := y\<rparr>, sd_at := (sd_at s)(t := if got then Through r else Sleeping r)\<rparr>)"
| interrupt: "active (disk (sd s)) \<Longrightarrow> RequestDone (sd s) = (ws, x) \<Longrightarrow> sd_step s (s\<lparr>sd := x, sd_at := sd_wakes ws (sd_at s)\<rparr>)"
| finish: "sd_at s t = Through r \<Longrightarrow> Release t (sd_lock (sd s)) = Inr (ws, l) \<Longrightarrow>
    sd_step s (s\<lparr>sd := (sd s)\<lparr>sd_lock := l\<rparr>, sd_at := sd_wakes ws ((sd_at s)(t := Outside))\<rparr>)"

definition sd_init :: "store \<Rightarrow> sd_sys \<Rightarrow> bool" where
  "sd_init c s \<longleftrightarrow> s = \<lparr>sd = new_SynchDisk c, sd_at = (\<lambda>_. Outside), requests = []\<rparr>"

section \<open>The specification\<close>

text \<open>Plain operations one after the other; a request fits if it is one that the store allows and its data are those of the operation.\<close>

fun plain :: "disk_op \<Rightarrow> store \<Rightarrow> (u8 list \<times> store) res" where
  "plain (ReadOp n) c = bindR (ReadSector c n) (\<lambda>x. Inr (x, c))"
| "plain (WriteOp n data) c = bindR (WriteSector c n data) (\<lambda>c1. Inr (data, c1))"

inductive replay :: "store \<Rightarrow> (disk_op \<times> u8 list) list \<Rightarrow> store \<Rightarrow> bool" where
  start: "replay c [] c"
| op: "replay c rs c1 \<Longrightarrow> plain r c1 = Inr (x, c2) \<Longrightarrow> replay c (rs @ [(r, x)]) c2"

section \<open>Invariant\<close>

text \<open>For the lock, a thread holds it from \<open>Inside\<close> to \<open>Through\<close>.\<close>

fun view :: "disk_pc \<Rightarrow> (disk_op, unit) mon_pc" where
  "view Outside = At ()" | "view (Trying r) = Want r" | "view (Queued r) = InQueue r" | "view (Inside r) = Holds r"
| "view (AtP r) = Holds r" | "view (Sleeping r) = Holds r" | "view (Through r) = Holds r"

text \<open>The disk and the semaphore, as the place of the holder has it: the interrupt is still to come, or it has come and its \<open>V\<close> has
  not been taken yet, or neither.\<close>

definition calm :: "SynchDisk \<Rightarrow> bool" where
  "calm x \<longleftrightarrow> \<not> active (disk x) \<and> sem_value (semaphore x) = 0 \<and> sem_queue (semaphore x) = []"

fun stage :: "SynchDisk \<Rightarrow> nat \<Rightarrow> disk_pc \<Rightarrow> bool" where
  "stage x t (AtP r) \<longleftrightarrow> sem_queue (semaphore x) = [] \<and> sem_value (semaphore x) = (if active (disk x) then 0 else 1)"
| "stage x t (Sleeping r) \<longleftrightarrow> active (disk x) \<and> sem_value (semaphore x) = 0 \<and> sem_queue (semaphore x) = [t]"
| "stage x t q \<longleftrightarrow> calm x"

fun pc_op_ok :: "disk_pc \<Rightarrow> bool" where
  "pc_op_ok Outside = True" | "pc_op_ok (Trying r) = op_ok r" | "pc_op_ok (Queued r) = op_ok r" | "pc_op_ok (Inside r) = op_ok r"
| "pc_op_ok (AtP r) = op_ok r" | "pc_op_ok (Sleeping r) = op_ok r" | "pc_op_ok (Through r) = op_ok r"

definition sd_inv :: "store \<Rightarrow> sd_sys \<Rightarrow> bool" where
  "sd_inv c s \<longleftrightarrow> lock_inv (sd_lock (sd s)) (view \<circ> sd_at s) \<and> (\<forall>t. pc_op_ok (sd_at s t))
     \<and> (case holder (sd_lock (sd s)) of None \<Rightarrow> calm (sd s) | Some t \<Rightarrow> stage (sd s) t (sd_at s t))
     \<and> replay c (requests s) (contents (disk (sd s)))"

lemma view_simps [simp]:
  "view q = Holds r \<longleftrightarrow> q = Inside r \<or> q = AtP r \<or> q = Sleeping r \<or> q = Through r"
  "view q = Want r \<longleftrightarrow> q = Trying r" "view q = InQueue r \<longleftrightarrow> q = Queued r" "view q = At () \<longleftrightarrow> q = Outside"
  by (cases q; auto)+

lemma view_wakes: "view \<circ> sd_wakes ws f = wakes (\<lambda>_. None) ws (view \<circ> f)"
proof
  fix u
  have "view (sd_woken q) = woken (\<lambda>_. None) (view q)" for q by (cases q) auto
  then show "(view \<circ> sd_wakes ws f) u = wakes (\<lambda>_. None) ws (view \<circ> f) u" by (simp add: sd_wakes_def wakes_def)
qed

lemma pc_op_ok_wakes: "\<forall>t. pc_op_ok (f t) \<Longrightarrow> pc_op_ok (sd_wakes ws f t)"
  by (cases "f t") (auto simp: sd_wakes_def dest: spec [of _ t])

text \<open>One request on an idle disk does what the plain operation does.\<close>

lemma issue_plain:
  assumes "\<not> active (disk x)" "op_ok r"
  shows "\<exists>data y c. issue r x = Inr (data, y) \<and> plain r (contents (disk x)) = Inr (data, c) \<and> contents (disk y) = c
    \<and> active (disk y) \<and> semaphore y = semaphore x \<and> sd_lock y = sd_lock x"
  using assms
  by (cases r) (auto simp: ReadRequest_def WriteRequest_def ReadSector_def WriteSector_def UpdateLast_def Let_def split: prod.splits)

text \<open>What the steps need of the state: who holds the lock, and at which stage.\<close>

lemma sd_holder:
  assumes "sd_inv c s" "view (sd_at s t) = Holds r"
  shows "holder (sd_lock (sd s)) = Some t" "stage (sd s) t (sd_at s t)" "op_ok r"
proof -
  show h: "holder (sd_lock (sd s)) = Some t" using holder_of [of _ "view \<circ> sd_at s" t r] assms by (simp add: sd_inv_def)
  show "stage (sd s) t (sd_at s t)" using assms(1) h by (simp add: sd_inv_def)
  have "pc_op_ok (sd_at s t)" using assms(1) by (simp add: sd_inv_def)
  then show "op_ok r" using assms(2) by (cases "sd_at s t") auto
qed

lemma sd_nonholder: "sd_inv c s \<Longrightarrow> holder (sd_lock (sd s)) = Some u \<Longrightarrow> \<exists>r. view (sd_at s u) = Holds r"
  by (simp add: sd_inv_def lock_inv_def)

text \<open>A move of a thread that leaves the stage of the holder alone.\<close>

lemma sd_inv_move:
  assumes i: "sd_inv c s" and l: "lock_inv l ((view \<circ> sd_at s)(t := view q))" and o: "pc_op_ok q"
    and h: "holder l = holder (sd_lock (sd s))" and t: "holder l \<noteq> Some t"
  shows "sd_inv c (s\<lparr>sd := (sd s)\<lparr>sd_lock := l\<rparr>, sd_at := (sd_at s)(t := q)\<rparr>)"
proof -
  have st: "stage ((sd s)\<lparr>sd_lock := l\<rparr>) u p = stage (sd s) u p" for u p by (cases p) (simp_all add: calm_def)
  show ?thesis using assms by (auto simp: sd_inv_def fun_upd_comp st calm_def split: option.splits)
qed

text \<open>The steps in front of the lock, and the one behind it.\<close>

lemma sd_lock_inv: "sd_inv c s \<Longrightarrow> lock_inv (sd_lock (sd s)) (view \<circ> sd_at s)"
  and sd_op_ok: "sd_inv c s \<Longrightarrow> pc_op_ok (sd_at s t)"
  by (simp_all add: sd_inv_def)

lemma sd_not_holder: "sd_inv c s \<Longrightarrow> \<forall>r. view (sd_at s t) \<noteq> Holds r \<Longrightarrow> holder (sd_lock (sd s)) \<noteq> Some t"
  using sd_nonholder [of c s t] by auto

lemma sd_call:
  assumes i: "sd_inv c s" and "sd_at s t = Outside" "op_ok r"
  shows "sd_inv c (s\<lparr>sd_at := (sd_at s)(t := Trying r)\<rparr>)"
proof -
  have "sd_inv c (s\<lparr>sd := (sd s)\<lparr>sd_lock := sd_lock (sd s)\<rparr>, sd_at := (sd_at s)(t := Trying r)\<rparr>)"
    using lock_inv_ask [OF sd_lock_inv [OF i], of t "()" r] sd_not_holder [OF i, of t] assms
    by (intro sd_inv_move [OF i]) simp_all
  then show ?thesis by simp
qed

lemma sd_got:
  assumes i: "sd_inv c s" and t: "sd_at s t = Trying r" and A: "Acquire t (sd_lock (sd s)) = (True, l)"
  shows "sd_inv c (s\<lparr>sd := (sd s)\<lparr>sd_lock := l\<rparr>, sd_at := (sd_at s)(t := Inside r)\<rparr>)"
proof -
  note li = sd_lock_inv [OF i]
  have "lock_inv l ((view \<circ> sd_at s)(t := Holds r))" using lock_inv_got [OF li _ A] t by simp
  moreover have "holder (sd_lock (sd s)) = None" "holder l = Some t"
    using A li by (auto simp: Acquire_def P_def lock_inv_def split: if_splits)
  ultimately show ?thesis using i t sd_op_ok [OF i, of t] by (simp add: sd_inv_def fun_upd_comp calm_def)
qed

lemma sd_busy:
  assumes i: "sd_inv c s" and t: "sd_at s t = Trying r" and A: "Acquire t (sd_lock (sd s)) = (False, l)"
  shows "sd_inv c (s\<lparr>sd := (sd s)\<lparr>sd_lock := l\<rparr>, sd_at := (sd_at s)(t := Queued r)\<rparr>)"
proof -
  have "lock_inv l ((view \<circ> sd_at s)(t := InQueue r))" using lock_inv_busy [OF sd_lock_inv [OF i] _ A] t by simp
  moreover have "holder l = holder (sd_lock (sd s))" using A by (auto simp: Acquire_def split: prod.splits if_splits)
  ultimately show ?thesis
    using t sd_op_ok [OF i, of t] sd_not_holder [OF i, of t] sd_inv_move [OF i, of l t "Queued r"] by simp
qed

lemma sd_finish:
  assumes i: "sd_inv c s" and t: "sd_at s t = Through r" and R: "Release t (sd_lock (sd s)) = Inr (ws, l)"
  shows "sd_inv c (s\<lparr>sd := (sd s)\<lparr>sd_lock := l\<rparr>, sd_at := sd_wakes ws ((sd_at s)(t := Outside))\<rparr>)"
proof -
  have h: "holder (sd_lock (sd s)) = Some t" "calm (sd s)" using sd_holder [OF i, of t r] t by auto
  have "lock_inv l (wakes (\<lambda>_. None) ws ((view \<circ> sd_at s)(t := At ())))"
    using Release_inv [OF sd_lock_inv [OF i], of t r "\<lambda>_. None" "()"] t R by auto
  moreover have "holder l = None" using R by (auto simp: Release_def split: if_splits prod.splits)
  moreover have "pc_op_ok (sd_wakes ws ((sd_at s)(t := Outside)) u)" for u
    using i by (intro pc_op_ok_wakes) (simp add: sd_inv_def)
  ultimately show ?thesis using i h(2) by (simp add: sd_inv_def view_wakes fun_upd_comp calm_def)
qed

text \<open>The steps of the holder and of the disk.\<close>

lemma sd_request:
  assumes i: "sd_inv c s" and t: "sd_at s t = Inside r" and I: "issue r (sd s) = Inr (data, x)"
  shows "sd_inv c (s\<lparr>sd := x, sd_at := (sd_at s)(t := AtP r), requests := requests s @ [(r, data)]\<rparr>)"
proof -
  have h: "holder (sd_lock (sd s)) = Some t" "calm (sd s)" "op_ok r" using sd_holder [OF i, of t r] t by auto
  then obtain y c1 where y: "issue r (sd s) = Inr (data, y)" "plain r (contents (disk (sd s))) = Inr (data, c1)" "contents (disk y) = c1"
    "active (disk y)" "semaphore y = semaphore (sd s)" "sd_lock y = sd_lock (sd s)"
    using issue_plain [of "sd s" r] I by (auto simp: calm_def)
  have "(view \<circ> sd_at s)(t := Holds r) = view \<circ> sd_at s" using t by (auto simp: fun_eq_iff)
  then show ?thesis using i h y I replay.op [OF _ y(2)] by (auto simp: sd_inv_def fun_upd_comp calm_def)
qed

lemma sd_passP:
  assumes i: "sd_inv c s" and t: "sd_at s t = AtP r" and "P t (semaphore (sd s)) = (g, y)"
  shows "sd_inv c (s\<lparr>sd := (sd s)\<lparr>semaphore := y\<rparr>, sd_at := (sd_at s)(t := if g then Through r else Sleeping r)\<rparr>)"
proof -
  have h: "holder (sd_lock (sd s)) = Some t" "stage (sd s) t (AtP r)" "op_ok r" using sd_holder [OF i, of t r] t by auto
  have "(view \<circ> sd_at s)(t := Holds r) = view \<circ> sd_at s" using t by (auto simp: fun_eq_iff)
  then show ?thesis using i h assms(3) by (auto simp: sd_inv_def fun_upd_comp calm_def P_def split: if_splits)
qed

lemma sd_interrupt:
  assumes i: "sd_inv c s" and A: "active (disk (sd s))" and R: "RequestDone (sd s) = (ws, x)"
  shows "sd_inv c (s\<lparr>sd := x, sd_at := sd_wakes ws (sd_at s)\<rparr>)"
proof -
  obtain t where t: "holder (sd_lock (sd s)) = Some t"
    using i A by (auto simp: sd_inv_def calm_def split: option.splits)
  obtain r where r: "view (sd_at s t) = Holds r" using sd_nonholder [OF i t] by blast
  have sg: "stage (sd s) t (sd_at s t)" by (rule sd_holder(2) [OF i r])
  then have q: "sd_at s t = AtP r \<and> ws = [] \<or> sd_at s t = Sleeping r \<and> ws = [t]"
    using r A R by (cases "sd_at s t") (auto simp: calm_def RequestDone_def V_def)
  then have "view \<circ> sd_wakes ws (sd_at s) = view \<circ> sd_at s" by (auto simp: fun_eq_iff sd_wakes_def)
  moreover have "sd_wakes ws (sd_at s) t = AtP r" using q by (auto simp: sd_wakes_def)
  ultimately show ?thesis using i t q sg A R pc_op_ok_wakes [of "sd_at s" ws]
    by (auto simp: sd_inv_def RequestDone_def V_def HandleInterrupt_def)
qed

lemma sd_inv_step: "sd_inv c s \<Longrightarrow> sd_step s s' \<Longrightarrow> sd_inv c s'"
  by (erule sd_step.cases) (simp_all only: sd_call sd_got sd_busy sd_request sd_passP sd_interrupt sd_finish)

lemma sd_inv_init: "sd_init c s \<Longrightarrow> sd_inv c s"
  by (auto simp: sd_init_def sd_inv_def new_SynchDisk_def new_Disk_def new_Semaphore_def calm_def new_Lock_def
      intro: replay.start lock_inv_new [unfolded new_Lock_def new_Semaphore_def])

interpretation synch_disk: step_system "sd_init c" sd_step "sd_inv c" for c
  by unfold_locales (fact sd_inv_init, fact sd_inv_step)

section \<open>Properties\<close>

text \<open>C31: threads that call \<open>ReadSector\<close> and \<open>WriteSector\<close> of one \<open>SynchDisk\<close>, in any interleaving with the disk interrupts.  The calls
  act like plain reads and writes one after the other, in the order of their requests, and every caller gets the data of that moment; no
  assertion fails (the disk never gets a second request); a call ends only when the disk is idle again; and no interrupt is lost: if
  the disk is idle and every caller is asleep, there are no callers.\<close>

theorem SynchDisk_atomic:
  assumes "sd_init c s0" "sd_step\<^sup>*\<^sup>* s0 s"
  shows "replay c (requests s) (contents (disk (sd s)))
    \<and> (\<forall>t r. sd_at s t = Inside r \<longrightarrow> (\<exists>y. issue r (sd s) = Inr y))
    \<and> (\<forall>t r. sd_at s t = Through r \<longrightarrow> \<not> active (disk (sd s)) \<and> (\<exists>y. Release t (sd_lock (sd s)) = Inr y))
    \<and> (\<not> active (disk (sd s)) \<longrightarrow> (\<forall>t. sd_at s t = Outside \<or> (\<exists>r. sd_at s t \<in> {Queued r, Sleeping r})) \<longrightarrow> (\<forall>t. sd_at s t = Outside))"
proof (intro conjI allI impI)
  have i: "sd_inv c s" by (rule synch_disk.inv_reachable [OF assms])
  have li: "lock_inv (sd_lock (sd s)) (view \<circ> sd_at s)" using i by (simp add: sd_inv_def)
  show "replay c (requests s) (contents (disk (sd s)))" using i by (simp add: sd_inv_def)
  show "\<exists>y. issue r (sd s) = Inr y" if "sd_at s t = Inside r" for t r
  proof -
    have "\<not> active (disk (sd s))" "op_ok r" using sd_holder(2,3) [OF i, of t r] that by (auto simp: calm_def)
    then show ?thesis using issue_plain by blast
  qed
  show "\<not> active (disk (sd s))" "\<exists>y. Release t (sd_lock (sd s)) = Inr y" if "sd_at s t = Through r" for t r
    using sd_holder(1,2) [OF i, of t r] that by (auto simp: calm_def Release_def split: prod.splits)
  show "sd_at s t = Outside"
    if idle: "\<not> active (disk (sd s))" and st: "\<forall>t. sd_at s t = Outside \<or> (\<exists>r. sd_at s t \<in> {Queued r, Sleeping r})" for t
  proof -
    have ns: "sd_at s u \<noteq> Sleeping r" for u r using sd_holder(2) [OF i, of u r] idle by auto
    have "\<exists>p. (view \<circ> sd_at s) t = At p"
    proof (rule nobody_runs [OF li])
      show "(view \<circ> sd_at s) u \<noteq> Holds r" "(view \<circ> sd_at s) u \<noteq> Want r" for u r using st [rule_format, of u] ns [of u] by auto
    qed
    then show ?thesis by simp
  qed
qed

theorem SynchDisk_atomic_witness:
  "\<exists>s0 s. sd_init (\<lambda>_. replicate 128 7) s0 \<and> sd_step\<^sup>*\<^sup>* s0 s \<and> sd_at s 3 = Inside (ReadOp 5) \<and> (\<exists>y. issue (ReadOp 5) (sd s) = Inr y)"
proof -
  let ?s0 = "\<lparr>sd = new_SynchDisk (\<lambda>_. replicate 128 7), sd_at = (\<lambda>_. Outside), requests = []\<rparr>"
  let ?s1 = "?s0\<lparr>sd_at := (sd_at ?s0)(3 := Trying (ReadOp 5))\<rparr>"
  let ?l = "(new_Lock 0)\<lparr>locked := (new_Semaphore 1)\<lparr>sem_value := 0\<rparr>, holder := Some 3\<rparr>"
  let ?s2 = "?s1\<lparr>sd := (sd ?s1)\<lparr>sd_lock := ?l\<rparr>, sd_at := (sd_at ?s1)(3 := Inside (ReadOp 5))\<rparr>"
  have "sd_step ?s0 ?s1" by (rule sd_step.call) (simp_all add: disk_consts)
  moreover have "sd_step ?s1 ?s2" by (rule sd_step.got) (simp_all add: new_SynchDisk_def new_Lock_def new_Semaphore_def Acquire_def P_def)
  ultimately have r: "sd_step\<^sup>*\<^sup>* ?s0 ?s2" by (meson converse_rtranclp_into_rtranclp r_into_rtranclp)
  have i: "sd_init (\<lambda>_. replicate 128 7) ?s0" by (simp add: sd_init_def)
  have at: "sd_at ?s2 3 = Inside (ReadOp 5)" by simp
  show ?thesis using SynchDisk_atomic [OF i r] i r at by blast
qed

end
