(* ===== verification/AddrSpace.thy ===== *)
theory AddrSpace
  imports Machine
begin

text \<open>
  userprog/addrspace.cc (all but \<open>SwitchPageTable\<close>, which is in \<open>Machine\<close>), the register half of
  threads/thread.cc and \<open>StartProcess\<close> of userprog/progtest.cc: loading a program and switching between
  address spaces.  The program's file and the swap file are byte lists, read and written as the UNIX calls
  of \<open>OpenFile\<close> do in the builds that load programs.  \<open>lastVpn\<close> and \<open>noffInitDataOffset\<close> of the
  machine are only used here, so they are in the state \<open>loader\<close>; \<open>use_swap\<close> says whether the source was
  compiled with \<open>USE_SWAP\<close>, which no makefile defines.  The swap file is open.  A page table is a value: the machine
  and the space share one array in the code, here the machine has the current one and \<open>SaveState\<close> copies
  it back.
\<close>

section \<open>State\<close>

record Segment =
  virtualAddr :: int
  inFileAddr :: int
  seg_size :: int

record NoffHeader =
  noffMagic :: int
  code :: Segment
  initData :: Segment
  uninitData :: Segment

definition NOFFMAGIC :: int where "NOFFMAGIC = 0xbadfad"
definition UserStackSize :: int where "UserStackSize = 1024"

record AddrSpace =
  as_pageTable :: "TranslationEntry list"
  numPages :: int
  firstPhysicalPage :: int
  realNumPages :: int

record loader =
  mach :: Machine
  lastVpn :: int
  noffInitDataOffset :: int

section \<open>The program header\<close>

text \<open>The 40 bytes of a header as 10 integers; the host is little endian, where \<open>WordToHost\<close> and so
  \<open>SwapHeader\<close> change nothing.\<close>

definition noff_header_bytes :: nat where "noff_header_bytes = 40"

definition WordToHost :: "int \<Rightarrow> int" where "WordToHost w = w"

definition header_of_ints :: "int list \<Rightarrow> NoffHeader" where
  "header_of_ints xs = \<lparr>noffMagic = xs ! 0,
     code = \<lparr>virtualAddr = xs ! 1, inFileAddr = xs ! 2, seg_size = xs ! 3\<rparr>,
     initData = \<lparr>virtualAddr = xs ! 4, inFileAddr = xs ! 5, seg_size = xs ! 6\<rparr>,
     uninitData = \<lparr>virtualAddr = xs ! 7, inFileAddr = xs ! 8, seg_size = xs ! 9\<rparr>\<rparr>"

definition swap_segment :: "Segment \<Rightarrow> Segment" where
  "swap_segment s = \<lparr>virtualAddr = WordToHost (virtualAddr s), inFileAddr = WordToHost (inFileAddr s), seg_size = WordToHost (seg_size s)\<rparr>"

definition SwapHeader :: "NoffHeader \<Rightarrow> NoffHeader" where
  "SwapHeader h = \<lparr>noffMagic = WordToHost (noffMagic h), code = swap_segment (code h),
     initData = swap_segment (initData h), uninitData = swap_segment (uninitData h)\<rparr>"

definition read_header :: "u8 list \<Rightarrow> u8 list \<Rightarrow> NoffHeader res" where
  "read_header junk exe = bindR (unix_ReadAt exe junk noff_header_bytes 0) (\<lambda>bs.
     let h = header_of_ints (decode_ints bs);
         h1 = (if noffMagic h \<noteq> NOFFMAGIC \<and> WordToHost (noffMagic h) = NOFFMAGIC then SwapHeader h else h)
     in if noffMagic h1 = NOFFMAGIC then Inr h1 else Inl AssertFail)"

section \<open>Loading\<close>

text \<open>One entry of the new table; \<open>hitRate\<close> and \<open>NRU_N\<close> keep what the allocated memory held.\<close>

definition new_entry :: "TranslationEntry \<Rightarrow> nat \<Rightarrow> int \<Rightarrow> TranslationEntry" where
  "new_entry junk i frame = junk\<lparr>virtualPage := int i, physicalPage := frame, valid := True, use := False, dirty := False,
     readOnly := False\<rparr>"

fun alloc_pages :: "(nat \<Rightarrow> TranslationEntry) \<Rightarrow> nat \<Rightarrow> nat \<Rightarrow> BitMap \<Rightarrow> (TranslationEntry list \<times> BitMap) res" where
  "alloc_pages junk i 0 b = Inr ([], b)"
| "alloc_pages junk i (Suc n) b = bindR (Find b) (\<lambda>(frame, b1).
     bindR (alloc_pages junk (Suc i) n b1) (\<lambda>(es, b2). Inr (new_entry (junk i) i frame # es, b2)))"

text \<open>The loop that copies the file to the swap file, 40 bytes at a time.\<close>

function copy_to_swap :: "u8 list \<Rightarrow> nat \<Rightarrow> int \<Rightarrow> u8 list \<Rightarrow> u8 list res" where
  "copy_to_swap exe off base sw =
     (let bs = take noff_header_bytes (drop off exe) in
      bindR (unix_WriteAt sw bs (base + int off)) (\<lambda>sw1.
      if length bs = noff_header_bytes then copy_to_swap exe (off + noff_header_bytes) base sw1 else Inr sw1))"
  by pat_completeness auto

termination
  by (relation "measure (\<lambda>(exe, off, base, sw). length exe - off)") (auto simp: noff_header_bytes_def)

declare copy_to_swap.simps [simp del]

text \<open>\<open>swap->ReadAt(&mainMemory[a], n, pos)\<close>.\<close>

definition read_into_memory :: "int \<Rightarrow> int \<Rightarrow> int \<Rightarrow> Machine \<Rightarrow> Machine res" where
  "read_into_memory a n pos m =
     (let bs = take (nat n) (drop (nat pos) (swap m)) in
      if pos < 0 then Inl AssertFail
      else if a < 0 \<or> a + int (length bs) > int (length (mainMemory m)) then Inl BadAccess
      else Inr (m\<lparr>mainMemory := overlay (nat a) bs (mainMemory m)\<rparr>))"

definition load_segments :: "NoffHeader \<Rightarrow> loader \<Rightarrow> loader res" where
  "load_segments h s =
     (let base = lastVpn s * PageSize in
      bindR (if seg_size (code h) > 0
             then bindR (read_into_memory (virtualAddr (code h) + base) (seg_size (code h)) (inFileAddr (code h) + base)
                      ((mach s)\<lparr>noffCodeOffset := virtualAddr (code h) - inFileAddr (code h)\<rparr>)) (\<lambda>m. Inr (s\<lparr>mach := m\<rparr>))
             else Inr s) (\<lambda>s1.
      if seg_size (initData h) > 0
      then bindR (read_into_memory (virtualAddr (initData h) + base) (seg_size (initData h)) (inFileAddr (initData h) + base)
               (mach s1)) (\<lambda>m. Inr (s1\<lparr>mach := m, noffInitDataOffset := virtualAddr (initData h) - inFileAddr (initData h)\<rparr>))
      else Inr s1))"

definition program_size :: "NoffHeader \<Rightarrow> int" where
  "program_size h = to_unsigned (seg_size (code h) + seg_size (initData h) + seg_size (uninitData h) + UserStackSize)"

text \<open>\<open>bzero(machine->mainMemory, size)\<close>.\<close>

definition clear_memory :: "int \<Rightarrow> Machine \<Rightarrow> Machine res" where
  "clear_memory n m = (if n \<le> int (length (mainMemory m))
     then Inr (m\<lparr>mainMemory := overlay 0 (replicate (nat n) 0) (mainMemory m)\<rparr>) else Inl BadAccess)"

text \<open>The constructor, with \<open>junk\<close>, \<open>junkE\<close> and \<open>junkP\<close> for memory that it does not write before reading.\<close>

definition new_AddrSpace :: "bool \<Rightarrow> u8 list \<Rightarrow> (nat \<Rightarrow> TranslationEntry) \<Rightarrow> int \<Rightarrow> u8 list \<Rightarrow> loader \<Rightarrow> (AddrSpace \<times> loader) res" where
  "new_AddrSpace use_swap junk junkE junkP exe s =
     bindR (read_header junk exe) (\<lambda>h.
     let base = lastVpn s * PageSize;
         realPages = divRoundUp (program_size h) PageSize;
         size' = to_unsigned (realPages * PageSize);
         pages = (if realPages > NumPhysPages then NumPhysPages else realPages)
     in
     bindR (unix_WriteAt (swap (mach s)) (overlay 0 (take noff_header_bytes exe) junk) base) (\<lambda>sw.
     bindR (alloc_pages junkE 0 (nat pages) (phys_map (mach s))) (\<lambda>(es, b).
     bindR (copy_to_swap exe 0 base sw) (\<lambda>sw1.
     let m = (mach s)\<lparr>swap := sw1, phys_map := b\<rparr>;
         first = (case es of [] \<Rightarrow> junkP | e # _ \<Rightarrow> to_unsigned (physicalPage e))
     in
     bindR (if first = 0 then clear_memory size' m else Inr m) (\<lambda>m1.
     bindR (if use_swap then load_segments h (s\<lparr>mach := m1\<rparr>) else Inr (s\<lparr>mach := m1\<rparr>)) (\<lambda>s1.
     Inr (\<lparr>as_pageTable = es, numPages = pages, firstPhysicalPage = first, realNumPages = realPages\<rparr>,
          s1\<lparr>lastVpn := lastVpn s1 + pages\<rparr>)))))))"

fun clear_frames :: "TranslationEntry list \<Rightarrow> BitMap \<Rightarrow> BitMap res" where
  "clear_frames [] b = Inr b"
| "clear_frames (e # es) b = bindR (Clear b (physicalPage e)) (clear_frames es)"

definition delete_AddrSpace :: "AddrSpace \<Rightarrow> Machine \<Rightarrow> Machine res" where
  "delete_AddrSpace sp m = bindR (clear_frames (take (nat (numPages sp)) (as_pageTable sp)) (phys_map m)) (\<lambda>b. Inr (m\<lparr>phys_map := b\<rparr>))"

section \<open>Registers and context switches\<close>

fun write_registers :: "nat \<Rightarrow> u32 list \<Rightarrow> Machine \<Rightarrow> Machine res" where
  "write_registers i [] m = Inr m"
| "write_registers i (v # vs) m = bindR (WriteRegister m (int i) v) (write_registers (Suc i) vs)"

definition InitRegisters :: "AddrSpace \<Rightarrow> Machine \<Rightarrow> Machine res" where
  "InitRegisters sp m =
     bindR (write_registers 0 (replicate NumTotalRegs 0) m) (\<lambda>m1.
     bindR (WriteRegister m1 (int PCReg) 0) (\<lambda>m2.
     bindR (WriteRegister m2 (int NextPCReg) 4) (\<lambda>m3.
     WriteRegister m3 (int StackReg) (word_of_int (realNumPages sp * PageSize - 16)))))"

definition SaveState :: "Machine \<Rightarrow> AddrSpace \<Rightarrow> AddrSpace" where
  "SaveState m sp = sp\<lparr>as_pageTable := pageTable m\<rparr>"

text \<open>\<open>pageTable\<close> and \<open>pageTableSize\<close> of the machine.\<close>

definition RestoreState :: "AddrSpace \<Rightarrow> Machine \<Rightarrow> Machine" where
  "RestoreState sp m = m\<lparr>pageTable := take (nat (numPages sp)) (as_pageTable sp)\<rparr>"

fun read_registers :: "nat \<Rightarrow> nat \<Rightarrow> Machine \<Rightarrow> u32 list res" where
  "read_registers i 0 m = Inr []"
| "read_registers i (Suc n) m = bindR (ReadRegister m (int i)) (\<lambda>v. bindR (read_registers (Suc i) n m) (\<lambda>vs. Inr (v # vs)))"

definition SaveUserState :: "Machine \<Rightarrow> u32 list res" where
  "SaveUserState m = read_registers 0 NumTotalRegs m"

definition RestoreUserState :: "u32 list \<Rightarrow> Machine \<Rightarrow> Machine res" where
  "RestoreUserState userRegisters m = write_registers 0 userRegisters m"

text \<open>\<open>StartProcess\<close> up to \<open>machine->Run()\<close>, on the contents of the opened file.\<close>

definition StartProcess :: "bool \<Rightarrow> u8 list \<Rightarrow> (nat \<Rightarrow> TranslationEntry) \<Rightarrow> int \<Rightarrow> u8 list \<Rightarrow> loader \<Rightarrow> (AddrSpace \<times> loader) res" where
  "StartProcess use_swap junk junkE junkP exe s =
     bindR (new_AddrSpace use_swap junk junkE junkP exe s) (\<lambda>(sp, s1).
     bindR (InitRegisters sp (mach s1)) (\<lambda>m. Inr (sp, s1\<lparr>mach := RestoreState sp m\<rparr>)))"

section \<open>The loader on an empty machine\<close>

definition segment_ok :: "Segment \<Rightarrow> u8 list \<Rightarrow> bool" where
  "segment_ok g exe \<longleftrightarrow> 0 \<le> seg_size g \<and> (0 < seg_size g \<longrightarrow> 0 \<le> virtualAddr g \<and> virtualAddr g + seg_size g \<le> 4096
     \<and> 0 \<le> inFileAddr g \<and> inFileAddr g + seg_size g \<le> int (length exe))"

definition program_ok :: "NoffHeader \<Rightarrow> u8 list \<Rightarrow> bool" where
  "program_ok h exe \<longleftrightarrow> noff_header_bytes \<le> length exe \<and> header_of_ints (decode_ints (take noff_header_bytes exe)) = h
     \<and> noffMagic h = NOFFMAGIC \<and> segment_ok (code h) exe \<and> segment_ok (initData h) exe \<and> 0 \<le> seg_size (uninitData h)
     \<and> seg_size (code h) + seg_size (initData h) + seg_size (uninitData h) + UserStackSize \<le> MemorySize"

definition put_segment :: "Segment \<Rightarrow> u8 list \<Rightarrow> u8 list \<Rightarrow> u8 list" where
  "put_segment g exe mem = (if 0 < seg_size g
     then overlay (nat (virtualAddr g)) (take (nat (seg_size g)) (drop (nat (inFileAddr g)) exe)) mem else mem)"

lemma unix_WriteAt_take:
  assumes "k \<le> length sw"
  shows "\<exists>sw1. unix_WriteAt sw bs (int k) = Inr sw1 \<and> take (k + length bs) sw1 = take k sw @ bs"
proof -
  have "take (k + length bs) (overlay k bs (sw @ replicate (k + length bs - length sw) 0)) = take k sw @ bs"
    using assms by (simp add: overlay_def)
  then show ?thesis by (simp add: unix_WriteAt_def)
qed

lemma copy_to_swap_copies:
  "take off sw = take off exe \<Longrightarrow> off \<le> length exe \<Longrightarrow> \<exists>sw1. copy_to_swap exe off 0 sw = Inr sw1 \<and> take (length exe) sw1 = exe"
proof (induction "length exe - off" arbitrary: off sw rule: less_induct)
  case less
  let ?bs = "take noff_header_bytes (drop off exe)"
  have "length (take off sw) = off" using less.prems by simp
  then have k: "off \<le> length sw" by simp
  obtain sw1 where w: "unix_WriteAt sw ?bs (int off) = Inr sw1" "take (off + length ?bs) sw1 = take off sw @ ?bs"
    using unix_WriteAt_take [OF k] by blast
  have t: "take off sw @ ?bs = take (off + length ?bs) exe"
  proof -
    have "take (length ?bs) (drop off exe) = ?bs" by (cases "length (drop off exe) \<le> noff_header_bytes") simp_all
    then show ?thesis using less.prems unfolding take_add by simp
  qed
  show ?case
  proof (cases "length ?bs = noff_header_bytes")
    case True
    then have "off + noff_header_bytes \<le> length exe" by (simp add: noff_header_bytes_def)
    moreover have "take (off + noff_header_bytes) sw1 = take (off + noff_header_bytes) exe" using w(2) t True by simp
    moreover have "length exe - (off + noff_header_bytes) < length exe - off"
      using \<open>off + noff_header_bytes \<le> length exe\<close> by (simp add: noff_header_bytes_def)
    ultimately obtain sw2 where "copy_to_swap exe (off + noff_header_bytes) 0 sw1 = Inr sw2" "take (length exe) sw2 = exe"
      using less.hyps by blast
    then show ?thesis using w(1) True by (subst copy_to_swap.simps) simp
  next
    case False
    then have "off + length ?bs = length exe" using less.prems(2) by (auto simp: min_def split: if_splits)
    then have "take (length exe) sw1 = exe" using w(2) t by simp
    then show ?thesis using w(1) False by (subst copy_to_swap.simps) (simp add: Let_def del: length_take)
  qed
qed

text \<open>First fit on an empty map hands out the frames in order.\<close>

lemma alloc_pages_first:
  assumes "wf_bitmap b" "marked b = {0 ..< int k}" "int (k + n) \<le> numBits b"
  shows "\<exists>es b'. alloc_pages junk k n b = Inr (es, b') \<and> wf_bitmap b' \<and> marked b' = {0 ..< int (k + n)}
    \<and> es = map (\<lambda>i. new_entry (junk i) i (int i)) [k ..< k + n]"
  using assms
proof (induction n arbitrary: k b)
  case 0
  then show ?case by simp
next
  case (Suc n)
  have fb: "free_bits b = {int k ..< numBits b}" using Suc.prems by (auto simp: free_bits_def)
  have m: "Min (free_bits b) = int k" using Suc.prems(3) unfolding fb by (intro Min_eqI) auto
  have "int k < numBits b" using Suc.prems(3) by simp
  then obtain b1 where b1: "Mark b (int k) = Inr b1" using Mark_ok [of "int k" b] by auto
  have F: "Find b = Inr (int k, b1)" using b1 Suc.prems(3) m by (simp add: Find_spec fb)
  have "marked b1 = {0 ..< int (Suc k)}" using marked_Mark [OF Suc.prems(1) b1] Suc.prems(2) by auto
  moreover have "int (Suc k + n) \<le> numBits b1" using Mark_frame [OF b1] Suc.prems(3) by simp
  ultimately obtain es b' where "alloc_pages junk (Suc k) n b1 = Inr (es, b')" "wf_bitmap b'" "marked b' = {0 ..< int (Suc k + n)}"
    "es = map (\<lambda>i. new_entry (junk i) i (int i)) [Suc k ..< Suc k + n]"
    using Suc.IH [OF Mark_wf [OF Suc.prems(1) b1]] by blast
  moreover have "[k ..< k + Suc n] = k # [Suc k ..< Suc k + n]" by (simp add: upt_conv_Cons del: upt_Suc)
  ultimately show ?case using F by (simp del: upt_Suc)
qed

lemma read_header_ok:
  assumes "program_ok h exe" "length junk = noff_header_bytes"
  shows "read_header junk exe = Inr h"
proof -
  have "unix_ReadAt exe junk noff_header_bytes 0 = Inr (take noff_header_bytes exe)"
    using assms by (simp add: unix_ReadAt_def program_ok_def overlay_def min_def)
  then show ?thesis using assms by (simp add: read_header_def program_ok_def Let_def)
qed

lemma read_into_memory_ok:
  assumes "segment_ok g exe" "0 < seg_size g" "take (length exe) (swap m) = exe" "length (mainMemory m) = 4096"
  shows "read_into_memory (virtualAddr g) (seg_size g) (inFileAddr g) m = Inr (m\<lparr>mainMemory := put_segment g exe (mainMemory m)\<rparr>)"
proof -
  let ?n = "nat (seg_size g)" and ?p = "nat (inFileAddr g)"
  have le: "?p + ?n \<le> length exe" using assms(1,2) by (auto simp: segment_ok_def)
  have "take ?n (drop ?p (take (length exe) (swap m))) = take ?n (drop ?p (swap m))"
    unfolding drop_take take_take using le by (simp add: min_absorb1)
  then have "take ?n (drop ?p (swap m)) = take ?n (drop ?p exe)" using assms(3) by simp
  then show ?thesis using assms le
    by (auto simp: read_into_memory_def put_segment_def segment_ok_def)
qed

lemma length_put_segment [simp]: "segment_ok g exe \<Longrightarrow> length mem = 4096 \<Longrightarrow> length (put_segment g exe mem) = 4096"
  by (auto simp: put_segment_def segment_ok_def)

lemma load_segments_ok:
  assumes "program_ok h exe" "take (length exe) (swap (mach s)) = exe" "length (mainMemory (mach s)) = 4096" "lastVpn s = 0"
  shows "\<exists>s1. load_segments h s = Inr s1 \<and> mainMemory (mach s1) = put_segment (initData h) exe (put_segment (code h) exe (mainMemory (mach s)))
    \<and> phys_map (mach s1) = phys_map (mach s) \<and> lastVpn s1 = 0 \<and> tlb (mach s1) = tlb (mach s)"
proof -
  have g: "segment_ok (code h) exe" "segment_ok (initData h) exe" using assms(1) by (auto simp: program_ok_def)
  let ?first = "if seg_size (code h) > 0
     then bindR (read_into_memory (virtualAddr (code h)) (seg_size (code h)) (inFileAddr (code h))
            ((mach s)\<lparr>noffCodeOffset := virtualAddr (code h) - inFileAddr (code h)\<rparr>)) (\<lambda>m. Inr (s\<lparr>mach := m\<rparr>))
     else Inr s"
  have none: "\<not> 0 < seg_size g \<Longrightarrow> put_segment g exe mem = mem" for g mem by (simp add: put_segment_def)
  obtain s1 where s1: "?first = Inr s1" "mainMemory (mach s1) = put_segment (code h) exe (mainMemory (mach s))"
    "swap (mach s1) = swap (mach s)" "phys_map (mach s1) = phys_map (mach s)" "lastVpn s1 = 0" "tlb (mach s1) = tlb (mach s)"
    using read_into_memory_ok [OF g(1), of "(mach s)\<lparr>noffCodeOffset := virtualAddr (code h) - inFileAddr (code h)\<rparr>"] assms none
    by (cases "0 < seg_size (code h)") simp_all
  have R: "0 < seg_size (initData h) \<Longrightarrow>
      read_into_memory (virtualAddr (initData h)) (seg_size (initData h)) (inFileAddr (initData h)) (mach s1)
        = Inr ((mach s1)\<lparr>mainMemory := put_segment (initData h) exe (mainMemory (mach s1))\<rparr>)"
    using read_into_memory_ok [OF g(2), of "mach s1"] s1 assms g by simp
  have L: "load_segments h s = bindR ?first (\<lambda>s1.
      if seg_size (initData h) > 0
      then bindR (read_into_memory (virtualAddr (initData h)) (seg_size (initData h)) (inFileAddr (initData h)) (mach s1))
             (\<lambda>m. Inr (s1\<lparr>mach := m, noffInitDataOffset := virtualAddr (initData h) - inFileAddr (initData h)\<rparr>))
      else Inr s1)"
    using assms(4) by (simp add: load_segments_def)
  show ?thesis unfolding L s1(1) using R s1 none by (cases "0 < seg_size (initData h)") simp_all
qed

text \<open>The number of pages of a program that fits.\<close>

lemma program_pages:
  assumes "program_ok h exe"
  defines "n \<equiv> divRoundUp (program_size h) PageSize"
  shows "0 \<le> n" "n \<le> NumPhysPages" "to_unsigned (n * PageSize) = n * PageSize" "n * PageSize \<le> 4096"
    "seg_size (code h) + seg_size (initData h) + seg_size (uninitData h) + UserStackSize \<le> n * PageSize"
proof -
  let ?sz = "seg_size (code h) + seg_size (initData h) + seg_size (uninitData h) + UserStackSize"
  have b: "0 \<le> ?sz" "?sz \<le> 4096"
    using assms(1) by (auto simp: program_ok_def segment_ok_def UserStackSize_def machine_consts)
  then have "program_size h = ?sz" by (simp add: program_size_def to_unsigned_id)
  then have n: "n = (?sz + 127) div 128" using b by (simp add: n_def divRoundUp_nonneg machine_consts)
  have d: "(?sz + 127) div 128 * 128 \<le> ?sz + 127" "?sz \<le> (?sz + 127) div 128 * 128" by presburger+
  show "0 \<le> n" using n b by (simp add: div_int_pos_iff)
  have "(?sz + 127) div 128 \<le> (4096 + 127) div 128" using b by (intro zdiv_mono1) simp_all
  then have le: "n \<le> 32" using n by simp
  show "n \<le> NumPhysPages" using le by (simp add: machine_consts)
  show "n * PageSize \<le> 4096" using le by (simp add: machine_consts)
  show "to_unsigned (n * PageSize) = n * PageSize"
    using le \<open>0 \<le> n\<close> by (intro to_unsigned_id) (simp_all add: machine_consts)
  show "?sz \<le> n * PageSize" using d n by (simp add: machine_consts)
qed

text \<open>What the constructor does, up to the segments.\<close>

lemma new_AddrSpace_eq:
  assumes "program_ok h exe" "length junk = noff_header_bytes" "wf_bitmap (phys_map (mach s))" "marked (phys_map (mach s)) = {}"
    and "NumPhysPages \<le> numBits (phys_map (mach s))" "lastVpn s = 0" "length (mainMemory (mach s)) = 4096"
    and "n = nat (divRoundUp (program_size h) PageSize)" "zeroed = overlay 0 (replicate (n * 128) 0) (mainMemory (mach s))"
  shows "\<exists>sw b. take (length exe) sw = exe \<and> marked b = {0 ..< int n} \<and> new_AddrSpace use_swap junk junkE junkP exe s =
     bindR (let l = s\<lparr>mach := (mach s)\<lparr>swap := sw, phys_map := b, mainMemory := zeroed\<rparr>\<rparr> in if use_swap then load_segments h l else Inr l)
       (\<lambda>s1. Inr (\<lparr>as_pageTable = map (\<lambda>i. new_entry (junkE i) i (int i)) [0 ..< n], numPages = int n, firstPhysicalPage = 0,
          realNumPages = int n\<rparr>, s1\<lparr>lastVpn := lastVpn s1 + int n\<rparr>))"
proof -
  note pg = program_pages [OF assms(1)]
  have n: "int n = divRoundUp (program_size h) PageSize" using pg(1) assms(8) by simp
  have n32: "n \<le> 32" using pg(2) n by (simp add: machine_consts)
  have ut: "0 < int n"
    using pg(5) assms(1) n by (auto simp: program_ok_def segment_ok_def UserStackSize_def machine_consts)
  let ?h40 = "take noff_header_bytes exe"
  have hd: "overlay 0 ?h40 junk = ?h40" using assms(1,2) by (simp add: program_ok_def overlay_def)
  obtain sw where sw: "unix_WriteAt (swap (mach s)) ?h40 0 = Inr sw"
    using unix_WriteAt_take [of 0 "swap (mach s)" ?h40] by auto
  obtain sw1 where sw1: "copy_to_swap exe 0 0 sw = Inr sw1" "take (length exe) sw1 = exe"
    using copy_to_swap_copies [of 0 sw exe] by auto
  obtain es b where al: "alloc_pages junkE 0 n (phys_map (mach s)) = Inr (es, b)" "marked b = {0 ..< int n}"
    "es = map (\<lambda>i. new_entry (junkE i) i (int i)) [0 ..< n]"
    using alloc_pages_first [OF assms(3), of 0 n junkE] assms(4,5) n32 by (auto simp: machine_consts)
  have hd0: "es = new_entry (junkE 0) 0 0 # tl es" using al(3) ut by (simp add: upt_conv_Cons)
  have first: "(case es of [] \<Rightarrow> junkP | e # _ \<Rightarrow> to_unsigned (physicalPage e)) = 0"
    by (subst hd0) (simp add: new_entry_def to_unsigned_def)
  let ?m = "(mach s)\<lparr>swap := sw1, phys_map := b\<rparr>"
  have clr: "clear_memory (int n * PageSize) ?m = Inr (?m\<lparr>mainMemory := zeroed\<rparr>)"
  proof -
    have "int n * PageSize \<le> 4096" "nat (int n * PageSize) = n * 128"
      using n32 by (simp_all add: machine_consts nat_mult_distrib)
    then show ?thesis using assms(7,9) by (simp add: clear_memory_def)
  qed
  have np: "\<not> int n > NumPhysPages" and sz: "to_unsigned (int n * PageSize) = int n * PageSize"
    using pg(2,3) unfolding n by simp_all
  note step = new_AddrSpace_def read_header_ok [OF assms(1,2)] assms(6) Let_def n [symmetric] hd sw
  have "new_AddrSpace use_swap junk junkE junkP exe s =
     bindR (if use_swap then load_segments h (s\<lparr>mach := ?m\<lparr>mainMemory := zeroed\<rparr>\<rparr>) else Inr (s\<lparr>mach := ?m\<lparr>mainMemory := zeroed\<rparr>\<rparr>))
       (\<lambda>s1. Inr (\<lparr>as_pageTable = es, numPages = int n, firstPhysicalPage = 0, realNumPages = int n\<rparr>,
          s1\<lparr>lastVpn := lastVpn s1 + int n\<rparr>))"
    using np by (simp add: step al(1) sw1(1) sz first clr)
  then show ?thesis using sw1(2) al(2,3) by (auto simp: Let_def)
qed

lemma new_AddrSpace_first:
  assumes "program_ok h exe" "length junk = noff_header_bytes" "wf_bitmap (phys_map (mach s))" "marked (phys_map (mach s)) = {}"
    and "NumPhysPages \<le> numBits (phys_map (mach s))" "lastVpn s = 0" "length (mainMemory (mach s)) = 4096"
    and "n = nat (divRoundUp (program_size h) PageSize)" "zeroed = overlay 0 (replicate (n * 128) 0) (mainMemory (mach s))"
  shows "\<exists>sp s1. new_AddrSpace use_swap junk junkE junkP exe s = Inr (sp, s1)
    \<and> as_pageTable sp = map (\<lambda>i. new_entry (junkE i) i (int i)) [0 ..< n]
    \<and> marked (phys_map (mach s1)) = {0 ..< int n} \<and> lastVpn s1 = int n
    \<and> mainMemory (mach s1) = (if use_swap then put_segment (initData h) exe (put_segment (code h) exe zeroed) else zeroed)"
proof -
  have "n \<le> 32" using program_pages(1,2) [OF assms(1)] assms(8) by (simp add: machine_consts)
  then have len: "length zeroed = 4096" using assms(7,9) by simp
  obtain sw b where sw: "take (length exe) sw = exe" and b: "marked b = {0 ..< int n}"
    and eq: "new_AddrSpace use_swap junk junkE junkP exe s =
     bindR (let l = s\<lparr>mach := (mach s)\<lparr>swap := sw, phys_map := b, mainMemory := zeroed\<rparr>\<rparr> in if use_swap then load_segments h l else Inr l)
       (\<lambda>s1. Inr (\<lparr>as_pageTable = map (\<lambda>i. new_entry (junkE i) i (int i)) [0 ..< n], numPages = int n, firstPhysicalPage = 0,
          realNumPages = int n\<rparr>, s1\<lparr>lastVpn := lastVpn s1 + int n\<rparr>))"
    using new_AddrSpace_eq [OF assms] by blast
  obtain s1 where ls: "load_segments h (s\<lparr>mach := (mach s)\<lparr>swap := sw, phys_map := b, mainMemory := zeroed\<rparr>\<rparr>) = Inr s1"
    "mainMemory (mach s1) = put_segment (initData h) exe (put_segment (code h) exe zeroed)"
    "phys_map (mach s1) = b" "lastVpn s1 = 0"
    using load_segments_ok [OF assms(1), of "s\<lparr>mach := (mach s)\<lparr>swap := sw, phys_map := b, mainMemory := zeroed\<rparr>\<rparr>"] sw len assms(6) by auto
  show ?thesis unfolding eq using ls b assms(6) by (cases use_swap) simp_all
qed

section \<open>Properties\<close>

text \<open>C33: loading a program that fits, as the first one, into an empty physical memory.  Its pages get the frames in order,
  0 first, exactly these frames are taken, and memory is zero over the whole program.  The code and the initialised data reach memory,
  each at its virtual address, only in a build with \<open>USE_SWAP\<close>; in the builds that the makefiles
  describe they never do, and the program runs on zeros.\<close>

theorem first_program_loaded:
  assumes "program_ok h exe" "length junk = noff_header_bytes" "wf_bitmap (phys_map (mach s))" "marked (phys_map (mach s)) = {}"
    and "NumPhysPages \<le> numBits (phys_map (mach s))" "lastVpn s = 0" "length (mainMemory (mach s)) = 4096"
    and "n = nat (divRoundUp (program_size h) PageSize)" "zeroed = overlay 0 (replicate (n * 128) 0) (mainMemory (mach s))"
  shows "\<exists>sp s1. new_AddrSpace use_swap junk junkE junkP exe s = Inr (sp, s1)
    \<and> as_pageTable sp = map (\<lambda>i. new_entry (junkE i) i (int i)) [0 ..< n]
    \<and> marked (phys_map (mach s1)) = {0 ..< int n} \<and> lastVpn s1 = int n
    \<and> mainMemory (mach s1) = (if use_swap then put_segment (initData h) exe (put_segment (code h) exe zeroed) else zeroed)"
  using assms by (rule new_AddrSpace_first)

text \<open>C34: switching to another address space leaves the TLB as it is.  As long as an entry of the old address space is
  there, an access to its page is translated to the old frame, whatever the page table of the
  new space says.\<close>

theorem context_switch_keeps_translations:
  assumes "aligned a n" "tlb m = Some t" "tlb_lookup 0 t (uint a div 128) = Some i" "\<not> (readOnly (t ! i) \<and> writing)"
    and "0 \<le> physicalPage (t ! i)" "physicalPage (t ! i) < 32"
  shows "\<exists>m1. Translate a n writing (RestoreState sp m)
    = Inr (NoException, physicalPage (t ! i) * 128 + uint a mod 128, m1) \<and> pageTable m1 = take (nat (numPages sp)) (as_pageTable sp)"
proof -
  have "tlb (RestoreState sp m) = Some t" using assms(2) by (simp add: RestoreState_def)
  from Translate_hit [OF assms(1) this assms(3,4)] resident_address(1) [OF assms(1,5,6)]
  show ?thesis by (simp add: after_hit_def RestoreState_def)
qed


definition sample_exe :: "u8 list" where
  "sample_exe = encode_ints [NOFFMAGIC, 0, 40, 4, 4, 44, 4, 8, 0, 0] @ [1, 2, 3, 4, 5, 6, 7, 8]"

definition sample_loader :: loader where
  "sample_loader = \<lparr>mach = sample_machine\<lparr>phys_map := \<lparr>numBits = 32, numWords = 1, bits = [0]\<rparr>\<rparr>, lastVpn = 0, noffInitDataOffset = 0\<rparr>"

definition sample_header :: NoffHeader where
  "sample_header = \<lparr>noffMagic = NOFFMAGIC, code = \<lparr>virtualAddr = 0, inFileAddr = 40, seg_size = 4\<rparr>,
     initData = \<lparr>virtualAddr = 4, inFileAddr = 44, seg_size = 4\<rparr>, uninitData = \<lparr>virtualAddr = 8, inFileAddr = 0, seg_size = 0\<rparr>\<rparr>"

lemma sample_program: "program_ok sample_header sample_exe"
proof -
  let ?xs = "[NOFFMAGIC, 0, 40, 4, 4, 44, 4, 8, 0, 0]"
  have "take noff_header_bytes sample_exe = encode_ints ?xs"
    by (simp add: sample_exe_def noff_header_bytes_def)
  moreover have "decode_ints (encode_ints ?xs @ []) = ?xs @ decode_ints []"
    by (rule decode_encode_ints) (simp add: is_int32_def NOFFMAGIC_def)
  ultimately have d: "header_of_ints (decode_ints (take noff_header_bytes sample_exe)) = sample_header"
    by (simp add: header_of_ints_def sample_header_def del: encode_ints_simps)
  have l: "length sample_exe = 48" by (simp add: sample_exe_def)
  show ?thesis unfolding program_ok_def d
    by (simp add: l noff_header_bytes_def) (simp add: sample_header_def segment_ok_def l UserStackSize_def machine_consts)
qed

lemma sample_loader_map:
  "wf_bitmap (phys_map (mach sample_loader))" "marked (phys_map (mach sample_loader)) = {}"
  "NumPhysPages \<le> numBits (phys_map (mach sample_loader))"
proof -
  have "nat (x div 32) = 0" if "0 \<le> x" "x < 32" for x :: int using that by simp
  then show "wf_bitmap (phys_map (mach sample_loader))" "marked (phys_map (mach sample_loader)) = {}"
    "NumPhysPages \<le> numBits (phys_map (mach sample_loader))"
    by (auto simp: sample_loader_def wf_bitmap_def marked_def is_marked_def machine_consts divRoundUp_nonneg)
qed

theorem first_program_loaded_witness:
  "\<exists>sp s1. new_AddrSpace True (replicate 40 0) (\<lambda>_. sample_entry 0 False) 0 sample_exe sample_loader = Inr (sp, s1)
    \<and> length (as_pageTable sp) = 9 \<and> take 8 (mainMemory (mach s1)) = [1, 2, 3, 4, 5, 6, 7, 8]"
proof -
  have n: "9 = nat (divRoundUp (program_size sample_header) PageSize)"
    by (simp add: program_size_def sample_header_def UserStackSize_def to_unsigned_id divRoundUp_nonneg machine_consts)
  have l: "length (replicate 40 (0::u8)) = noff_header_bytes" by (simp add: noff_header_bytes_def)
  have z: "lastVpn sample_loader = 0" "length (mainMemory (mach sample_loader)) = 4096"
    by (simp_all add: sample_loader_def sample_machine_def)
  have p: "put_segment (initData sample_header) sample_exe (put_segment (code sample_header) sample_exe mem)
      = [1, 2, 3, 4, 5, 6, 7, 8] @ drop 8 mem" if "length mem = 4096" for mem
    using that by (simp add: put_segment_def sample_header_def sample_exe_def overlay_def)
  show ?thesis
    using first_program_loaded [OF sample_program l sample_loader_map z n refl, of True "\<lambda>_. sample_entry 0 False" 0] z(2)
    by (auto simp: p)
qed


theorem context_switch_keeps_translations_witness:
  "\<exists>m1. Translate 8 4 False (RestoreState \<lparr>as_pageTable = [(sample_entry 0 True)\<lparr>physicalPage := 5\<rparr>], numPages = 1, firstPhysicalPage = 5, realNumPages = 1\<rparr>
      sample_machine) = Inr (NoException, 8, m1) \<and> physicalPage (hd (pageTable m1)) = 5"
proof -
  let ?sp = "\<lparr>as_pageTable = [(sample_entry 0 True)\<lparr>physicalPage := 5\<rparr>], numPages = 1, firstPhysicalPage = 5, realNumPages = 1\<rparr>"
  have "aligned 8 4" by (simp add: aligned_def)
  from context_switch_keeps_translations [OF this sample_tlb, of 0 False ?sp]
  show ?thesis by (auto simp: sample_entry_def to_unsigned_def)
qed

end
