(* ===== verification/Devices.thy ===== *)
theory Devices
  imports Sched SynchDiskSteps AddrSpace
begin

text \<open>
  The interrupt handlers of the kernel, on the state of \<open>Sched\<close>: the timer device with either of its handlers (\<open>TimerHandler\<close> of
  machine/timer.cc, \<open>TimerInterruptHandler\<close> of threads/system.cc, \<open>SchedInterruptHandler\<close> of threads/scheduler.cc) and the
  disk (\<open>DiskDone\<close> of machine/disk.cc, which ends in \<open>SynchDisk::RequestDone\<close> and wakes a thread).  What they need besides is
  the \<open>user\<close> part of the kernel state: the timers (a pointer to one is its index), \<open>synchDisk\<close>, the sequence of
  values that \<open>Random()\<close> returns, and the members \<open>userRegisters\<close> and \<open>space\<close> of each thread, which only the user program build has.
  The handlers meet the contract \<open>interrupt_handlers\<close> of \<open>Interrupts\<close>.  Those of the console and the network are not
  among them: they can fail, at the end of the input and on a packet for someone else (see \<open>Console\<close> and \<open>NetPost\<close>).
\<close>

section \<open>State\<close>

datatype device_fn = TimerHandler | TimerInterrupt | SchedInterrupt | DiskDone

record devices =
  timers :: "device_fn Timer list"
  synchDisk :: SynchDisk
  randoms :: "nat \<Rightarrow> int"
  drawn :: nat
  userRegisters :: "nat \<Rightarrow> u32 list"
  space :: "nat \<Rightarrow> AddrSpace option"

type_synonym nachos = "(device_fn, devices) sys"

abbreviation devs :: "nachos \<Rightarrow> devices" where "devs s \<equiv> user (kernel s)"

definition set_devs :: "(devices \<Rightarrow> devices) \<Rightarrow> nachos \<Rightarrow> nachos" where
  "set_devs g s = s\<lparr>kernel := (kernel s)\<lparr>user := g (devs s)\<rparr>\<rparr>"

section \<open>The handlers\<close>

text \<open>\<open>Random()\<close>, which \<open>TimeOfNextInterrupt\<close> calls for a random timer only.\<close>

definition Random :: "nachos \<Rightarrow> int \<times> nachos" where
  "Random s = (randoms (devs s) (drawn (devs s)), set_devs (drawn_update Suc) s)"

definition timer_random :: "device_fn Timer \<Rightarrow> nachos \<Rightarrow> int \<times> nachos" where
  "timer_random t s = (if randomize t then Random s else (0, s))"

fun ready_all :: "nat list \<Rightarrow> nachos \<Rightarrow> nachos res" where
  "ready_all [] s = Inr s"
| "ready_all (t # ts) s = bindR (ReadyToRun t s) (ready_all ts)"

text \<open>\<open>Disk::HandleInterrupt\<close>, \<open>DiskRequestDone\<close> and \<open>SynchDisk::RequestDone\<close>; \<open>V\<close> makes the threads it wakes ready.\<close>

definition disk_done :: "nachos \<Rightarrow> nachos res" where
  "disk_done s = (let (ws, x) = RequestDone (synchDisk (devs s)) in ready_all ws (set_devs (synchDisk_update (\<lambda>_. x)) s))"

text \<open>What a timer may call.  No timer is made with \<open>TimerHandler\<close> as its handler.\<close>

definition kernel_handler :: "(device_fn, devices kernel_state) handlers" where
  "kernel_handler f a s = (case f of
      TimerInterrupt \<Rightarrow> TimerInterruptHandler s
    | SchedInterrupt \<Rightarrow> Scheduler_InterruptHandler s
    | DiskDone \<Rightarrow> disk_done s
    | TimerHandler \<Rightarrow> Inl BadAccess)"

definition device_call :: "(device_fn, devices kernel_state) handlers" where
  "device_call f a s =
     (if f = TimerHandler
      then if 0 \<le> a \<and> a < int (length (timers (devs s)))
        then (let t = timers (devs s) ! nat a; (r, s1) = timer_random t s in TimerExpired kernel_handler TimerHandler a t r s1)
        else Inl BadAccess
      else kernel_handler f a s)"

section \<open>The devices start\<close>

text \<open>\<open>new Timer(f, ar, random)\<close>, and the two requests to the disk, which schedule its interrupt.\<close>

definition start_timer :: "device_fn Timer \<Rightarrow> nachos \<Rightarrow> nachos res" where
  "start_timer t s = (let i = length (timers (devs s)); (r, s1) = timer_random t (set_devs (timers_update (\<lambda>ts. ts @ [t])) s) in
     new_Timer TimerHandler (int i) t r s1)"

fun request_disk :: "disk_op \<Rightarrow> nachos \<Rightarrow> (u8 list \<times> nachos) res" where
  "request_disk (ReadOp n) s = bindR (ReadRequest (SynchDiskSteps.disk (synchDisk (devs s))) (stats s) n) (\<lambda>(data, ticks, d, st).
     bindR (Schedule DiskDone 0 ticks DiskInt (set_devs (synchDisk_update (disk_update (\<lambda>_. d))) (s\<lparr>stats := st\<rparr>))) (\<lambda>s1.
     Inr (data, s1)))"
| "request_disk (WriteOp n data) s = bindR (WriteRequest (SynchDiskSteps.disk (synchDisk (devs s))) (stats s) n data) (\<lambda>(ticks, d, st).
     bindR (Schedule DiskDone 0 ticks DiskInt (set_devs (synchDisk_update (disk_update (\<lambda>_. d))) (s\<lparr>stats := st\<rparr>))) (\<lambda>s1.
     Inr (data, s1)))"

section \<open>The kernel's invariant\<close>

definition timer_known :: "nachos \<Rightarrow> int \<times> device_fn PendingInterrupt \<Rightarrow> bool" where
  "timer_known s e \<longleftrightarrow> (handler (snd e) = TimerHandler \<longrightarrow> 0 \<le> arg (snd e) \<and> arg (snd e) < int (length (timers (devs s))))"

text \<open>The running thread and those that wait for the disk exist, every thread is on a level of the scheduler, every timer has one
  of the kernel's two handlers, every timer interrupt belongs to a timer, and the processor is sound, if there is one.\<close>

definition levels_ok :: "nachos \<Rightarrow> bool" where
  "levels_ok s \<longleftrightarrow> (\<forall>t th. threads (kernel s) t = Some th \<longrightarrow> th_level th \<in> {0, 1, 2})"

definition devices_ok :: "nachos \<Rightarrow> bool" where
  "devices_ok s \<longleftrightarrow> machine_ok s \<and> cur s \<in> dom (threads (kernel s)) \<and> levels_ok s
     \<and> set (sem_queue (semaphore (synchDisk (devs s)))) \<subseteq> dom (threads (kernel s))
     \<and> (\<forall>t \<in> set (timers (devs s)). timer_handler t \<in> {TimerInterrupt, SchedInterrupt})
     \<and> (\<forall>n. 0 \<le> randoms (devs s) n) \<and> (\<forall>e \<in> set (pending s). timer_known s e)"

text \<open>A change of the threads and the scheduler that keeps every thread, its level and the rest of the system.\<close>

definition levels :: "devices kernel_state \<Rightarrow> nat \<Rightarrow> int option" where
  "levels k t = map_option th_level (threads k t)"

definition kernel_only :: "nachos \<Rightarrow> nachos \<Rightarrow> bool" where
  "kernel_only s s' \<longleftrightarrow> (\<exists>k. s' = s\<lparr>kernel := k\<rparr> \<and> currentThread k = cur s \<and> user k = devs s \<and> levels k = levels (kernel s))"

lemma levels_Some: "levels k t = Some l \<Longrightarrow> \<exists>th. threads k t = Some th \<and> th_level th = l"
  by (auto simp: levels_def)

lemma levels_thread: "threads k t = Some th \<Longrightarrow> levels k t = Some (th_level th)"
  by (simp add: levels_def)

lemma levels_dom: "dom (threads k) = {t. levels k t \<noteq> None}"
  by (auto simp: levels_def)

lemma levels_ok_levels: "levels_ok s \<longleftrightarrow> (\<forall>t l. levels (kernel s) t = Some l \<longrightarrow> l \<in> {0, 1, 2})"
  unfolding levels_ok_def using levels_Some levels_thread by metis

lemma levels_update:
  assumes "threads k t = Some th" "\<And>th. th_level (g th) = th_level th"
  shows "levels (k\<lparr>threads := (threads k)(t \<mapsto> g th)\<rparr>) = levels k"
  using assms by (auto simp: levels_def fun_eq_iff)

lemma kernel_only_refl: "kernel_only s s"
  by (auto simp: kernel_only_def intro!: exI [of _ "kernel s"])

lemma kernel_only_trans: "kernel_only s s' \<Longrightarrow> kernel_only s' s'' \<Longrightarrow> kernel_only s s''"
  by (auto simp: kernel_only_def)

lemma kernel_only_sch: "kernel_only s s' \<Longrightarrow> kernel_only s (set_sch g s')"
  by (auto simp: kernel_only_def set_sch_def levels_def fun_eq_iff)

lemma kernel_only_levels: "kernel_only s s' \<Longrightarrow> levels (kernel s') = levels (kernel s)"
  by (auto simp: kernel_only_def)

lemma kernel_only_dom: "kernel_only s s' \<Longrightarrow> dom (threads (kernel s')) = dom (threads (kernel s))"
  using kernel_only_levels [of s s'] by (simp add: levels_dom)

lemma kernel_only_ok: "kernel_only s s' \<Longrightarrow> levels_ok s \<Longrightarrow> levels_ok s'"
  using kernel_only_levels [of s s'] by (simp add: levels_ok_levels)

lemma upd_thread_returns:
  assumes "t \<in> dom (threads (kernel s))" "\<And>th. th_level (g th) = th_level th"
  shows "\<exists>s'. upd_thread t g s = Inr s' \<and> kernel_only s s'"
proof -
  obtain th where th: "threads (kernel s) t = Some th" using assms(1) by auto
  let ?s = "s\<lparr>kernel := (kernel s)\<lparr>threads := (threads (kernel s))(t \<mapsto> g th)\<rparr>\<rparr>"
  have "kernel_only s ?s" using levels_update [OF th assms(2)] unfolding kernel_only_def by (intro exI conjI) (rule refl | simp)+
  with th show ?thesis by (simp add: upd_thread_def thread_at_def)
qed

lemma ReadyToRun_returns:
  assumes "t \<in> dom (threads (kernel s))" "levels_ok s"
  shows "\<exists>s'. ReadyToRun t s = Inr s' \<and> kernel_only s s'"
proof -
  obtain s1 where s1: "setStatus t READY s = Inr s1" "kernel_only s s1"
    using upd_thread_returns [OF assms(1), of "th_status_update (\<lambda>_. READY)"] by (auto simp: setStatus_def)
  have d: "t \<in> dom (threads (kernel s1))" using kernel_only_dom [OF s1(2)] assms(1) by simp
  then obtain th where th: "threads (kernel s1) t = Some th" by auto
  then have l: "th_level th \<in> {0, 1, 2}" using kernel_only_ok [OF s1(2) assms(2)] by (auto simp: levels_ok_def)
  have u: "\<exists>s'. upd_thread t (timeslice_update f) s1 = Inr s' \<and> kernel_only s s'" for f
    using upd_thread_returns [OF d, of "timeslice_update f"] kernel_only_trans [OF s1(2)] by auto
  obtain a where a: "upd_thread t (timeslice_update (\<lambda>_. 3)) s1 = Inr a" "kernel_only s a" using u by blast
  obtain b where b: "upd_thread t (timeslice_update (\<lambda>_. if timeleft th \<le> 4 then timeleft th else 4)) s1 = Inr b" "kernel_only s b"
    using u by blast
  show ?thesis
    using th l a b s1 by (cases "policy (sch s1)") (auto simp: ReadyToRun_def thread_at_def Let_def intro: kernel_only_sch)
qed

lemma ready_all_returns:
  "set ts \<subseteq> dom (threads (kernel s)) \<Longrightarrow> levels_ok s \<Longrightarrow> \<exists>s'. ready_all ts s = Inr s' \<and> kernel_only s s'"
proof (induction ts arbitrary: s)
  case (Cons t ts)
  then obtain s1 where s1: "ReadyToRun t s = Inr s1" "kernel_only s s1" using ReadyToRun_returns [of t s] by auto
  obtain s2 where "ready_all ts s1 = Inr s2" "kernel_only s1 s2"
    using Cons.IH [of s1] Cons.prems kernel_only_dom [OF s1(2)] kernel_only_ok [OF s1(2)] by auto
  then show ?case using s1 kernel_only_trans by auto
qed (simp add: kernel_only_refl)

section \<open>Every handler meets the contract\<close>

lemma devices_ok_flags [simp]:
  "devices_ok (s\<lparr>inHandler := b\<rparr>) = devices_ok s" "devices_ok (s\<lparr>status := st\<rparr>) = devices_ok s"
  "devices_ok (s\<lparr>yieldOnReturn := b\<rparr>) = devices_ok s" "devices_ok (s\<lparr>level := l\<rparr>) = devices_ok s"
  "devices_ok (s\<lparr>stats := x\<rparr>) = devices_ok s"
  by (simp_all add: devices_ok_def machine_ok_def levels_ok_def timer_known_def)

lemma devices_ok_pending: "devices_ok s \<Longrightarrow> \<forall>e \<in> set q. timer_known s e \<Longrightarrow> devices_ok (s\<lparr>pending := q\<rparr>)"
  by (auto simp: devices_ok_def machine_ok_def levels_ok_def timer_known_def)

lemma devices_ok_kernel_only: "kernel_only s s' \<Longrightarrow> devices_ok s \<Longrightarrow> devices_ok s'"
  using kernel_only_dom [of s s'] kernel_only_ok [of s s']
  by (auto simp: devices_ok_def kernel_only_def machine_ok_def timer_known_def)

lemma devices_ok_drawn: "devices_ok s \<Longrightarrow> devices_ok (set_devs (drawn_update g) s)"
  by (simp add: devices_ok_def set_devs_def machine_ok_def levels_ok_def timer_known_def)

lemma schedules_nothing:
  "level s' = level s \<Longrightarrow> stats s' = stats s \<Longrightarrow> machine s' = machine s \<Longrightarrow> pending s' = pending s \<Longrightarrow> schedules_later s s'"
  by (auto simp: schedules_later_def now_def intro!: exI [of _ "[]"])

lemma disk_done_returns:
  assumes "devices_ok s"
  shows "\<exists>s'. disk_done s = Inr s' \<and> devices_ok s' \<and> schedules_later s s' \<and> pending s' = pending s"
proof -
  obtain ws x where r: "RequestDone (synchDisk (devs s)) = (ws, x)" by (cases "RequestDone (synchDisk (devs s))")
  let ?s = "set_devs (synchDisk_update (\<lambda>_. x)) s"
  have q: "set ws \<subseteq> set (sem_queue (semaphore (synchDisk (devs s))))" "set (sem_queue (semaphore x)) \<subseteq> set (sem_queue (semaphore (synchDisk (devs s))))"
    using r by (auto simp: RequestDone_def V_def Let_def split: list.splits)
  then have ok: "devices_ok ?s" "set ws \<subseteq> dom (threads (kernel ?s))"
    using assms by (auto simp: devices_ok_def set_devs_def machine_ok_def levels_ok_def timer_known_def)
  moreover from ok(1) have "levels_ok ?s" by (simp add: devices_ok_def)
  ultimately obtain s' where s': "ready_all ws ?s = Inr s'" "kernel_only ?s s'" using ready_all_returns [of ws ?s] by blast
  have "level s' = level s" "stats s' = stats s" "machine s' = machine s" "pending s' = pending s"
    using s'(2) by (auto simp: kernel_only_def set_devs_def)
  then show ?thesis using s' r devices_ok_kernel_only [OF s'(2) ok(1)] by (simp add: disk_done_def schedules_nothing)
qed

lemma kernel_handler_returns:
  assumes "devices_ok s" "inHandler s" "f \<noteq> TimerHandler"
  shows "\<exists>s'. kernel_handler f a s = Inr s' \<and> devices_ok s' \<and> schedules_later s s' \<and> pending s' = pending s"
proof (cases f)
  case TimerInterrupt
  obtain s1 where s1: "upd_thread (cur s) (\<lambda>th. th\<lparr>timeleft := timeleft th - 4\<rparr>) s = Inr s1" "kernel_only s s1"
    using upd_thread_returns [of "cur s" s "\<lambda>th. th\<lparr>timeleft := timeleft th - 4\<rparr>"] assms(1) by (auto simp: devices_ok_def)
  then have "level s1 = level s" "stats s1 = stats s" "machine s1 = machine s" "pending s1 = pending s" "inHandler s1"
    using assms(2) by (auto simp: kernel_only_def)
  then show ?thesis using TimerInterrupt s1 devices_ok_kernel_only [OF s1(2) assms(1)]
    by (auto simp: kernel_handler_def TimerInterruptHandler_def YieldOnReturn_def schedules_nothing)
next
  case SchedInterrupt
  then show ?thesis using assms by (auto simp: kernel_handler_def Scheduler_InterruptHandler_def YieldOnReturn_def schedules_nothing)
next
  case DiskDone
  then show ?thesis using disk_done_returns [OF assms(1)] by (simp add: kernel_handler_def)
qed (use assms(3) in simp)

lemma TimeOfNextInterrupt_pos: "0 \<le> r \<Longrightarrow> 0 < TimeOfNextInterrupt t r"
  by (simp add: TimeOfNextInterrupt_def TimerTicks_def smod_nonneg_eq add_pos_nonneg)

lemma timer_random_ok:
  assumes "devices_ok s" "timer_random t s = (r, s1)"
  shows "devices_ok s1" "0 \<le> r" "schedules_later s s1" "pending s1 = pending s" "inHandler s1 = inHandler s"
    "timers (devs s1) = timers (devs s)"
  using assms devices_ok_drawn [OF assms(1), of Suc]
  by (auto simp: timer_random_def Random_def set_devs_def devices_ok_def intro: schedules_nothing split: if_splits)

lemma device_call_returns:
  assumes ok: "devices_ok s" and h: "inHandler s" and k: "timer_known s (w, p)"
  shows "\<exists>s'. device_call (handler p) (arg p) s = Inr s' \<and> devices_ok s' \<and> schedules_later s s'"
proof (cases "handler p = TimerHandler")
  case False
  then show ?thesis using kernel_handler_returns [OF ok h False] by (auto simp: device_call_def)
next
  case True
  then have a: "0 \<le> arg p" "arg p < int (length (timers (devs s)))" using k by (simp_all add: timer_known_def)
  let ?t = "timers (devs s) ! nat (arg p)"
  obtain r s1 where r: "timer_random ?t s = (r, s1)" by (cases "timer_random ?t s")
  note R = timer_random_ok [OF ok r]
  let ?w = "now s1 + TimeOfNextInterrupt ?t r"
  let ?q = "\<lparr>handler = TimerHandler, arg = arg p, when_due = ?w, type = TimerInt\<rparr>"
  let ?s2 = "insert_pending ?w ?q s1"
  have S: "Schedule TimerHandler (arg p) (TimeOfNextInterrupt ?t r) TimerInt s1 = Inr ?s2"
    using TimeOfNextInterrupt_pos [OF R(2), of ?t] by (simp add: Schedule_def Let_def)
  have "timer_known s1 (?w, ?q)" using a R(6) by (simp add: timer_known_def)
  then have ok2: "devices_ok ?s2" unfolding insert_pending_def
    using R(1) by (intro devices_ok_pending) (auto simp: devices_ok_def insert_place_set)
  have n: "now s1 = now s" using R(3) by (simp add: schedules_later_def)
  have "?t \<in> set (timers (devs s))" using a by (intro nth_mem) simp
  then have "timer_handler ?t \<noteq> TimerHandler" using ok by (auto simp: devices_ok_def)
  moreover have "inHandler ?s2" using R(5) h by (simp add: insert_pending_def)
  ultimately obtain s' where s': "kernel_handler (timer_handler ?t) (timer_arg ?t) ?s2 = Inr s'" "devices_ok s'" "schedules_later ?s2 s'" "pending s' = pending ?s2"
    using kernel_handler_returns [OF ok2] by blast
  have "schedules_later s s'" unfolding schedules_later_def
  proof (intro conjI exI [of _ "[(?w, ?q)]"])
    show "level s' = level s" "now s' = now s" "machine s' = machine s"
      using s'(3) R(3) by (simp_all add: schedules_later_def insert_pending_def now_def)
    show "pending s' = foldl (\<lambda>q e. insert_place (<) e q) (pending s) [(?w, ?q)]" using s'(4) R(4) by (simp add: insert_pending_def)
    show "\<forall>e \<in> set [(?w, ?q)]. now s < fst e" using TimeOfNextInterrupt_pos [OF R(2)] n by simp
  qed
  then show ?thesis using True a r S s' by (simp add: device_call_def TimerExpired_def Let_def)
qed

lemma timer_known_flags [simp]:
  "timer_known (s\<lparr>pending := q\<rparr>) = timer_known s" "timer_known (s\<lparr>inHandler := b\<rparr>) = timer_known s"
  "timer_known (s\<lparr>status := st\<rparr>) = timer_known s" "timer_known (s\<lparr>machine := mo\<rparr>) = timer_known s"
  by (simp_all add: timer_known_def fun_eq_iff)

lemma device_contract:
  assumes "devices_ok s" "level s = IntOff" "pending s = (w, p) # rest"
  shows "\<exists>s'. device_call (handler p) (arg p) (s\<lparr>pending := rest, inHandler := True, status := SystemMode\<rparr>) = Inr s'
    \<and> schedules_later (s\<lparr>pending := rest\<rparr>) s' \<and> devices_ok (s'\<lparr>status := status s, inHandler := False\<rparr>)"
proof -
  let ?s = "s\<lparr>pending := rest, inHandler := True, status := SystemMode\<rparr>"
  have k: "timer_known s (w, p)" "\<forall>e \<in> set rest. timer_known s e" using assms(1,3) by (auto simp: devices_ok_def)
  then obtain s' where "device_call (handler p) (arg p) ?s = Inr s'" "devices_ok s'" "schedules_later ?s s'"
    using device_call_returns [of ?s w p] devices_ok_pending [OF assms(1)] by auto
  then show ?thesis by (auto simp: schedules_later_def now_def)
qed

lemma devices_ok_machine: "devices_ok s \<Longrightarrow> machine_ok (s\<lparr>machine := mo\<rparr>) \<Longrightarrow> devices_ok (s\<lparr>machine := mo\<rparr>)"
  by (simp add: devices_ok_def machine_ok_def levels_ok_def)

interpretation kernel_handlers: interrupt_handlers device_call devices_ok
proof unfold_locales
  show "devices_ok s \<Longrightarrow> machine_ok s" for s by (simp add: devices_ok_def)
  show "devices_ok s \<Longrightarrow> machine_ok (s\<lparr>machine := mo\<rparr>) \<Longrightarrow> devices_ok (s\<lparr>machine := mo\<rparr>)" for s mo by (rule devices_ok_machine)
  show "devices_ok s \<Longrightarrow> mset q = mset (pending s) \<Longrightarrow> devices_ok (s\<lparr>pending := q\<rparr>)" for s q
    using mset_eq_setD [of q "pending s"] by (intro devices_ok_pending) (auto simp: devices_ok_def)
  show "devices_ok s \<Longrightarrow> level s = IntOff \<Longrightarrow> pending s = (w, p) # rest \<Longrightarrow>
      \<exists>s'. device_call (handler p) (arg p) (s\<lparr>pending := rest, inHandler := True, status := SystemMode\<rparr>) = Inr s'
        \<and> schedules_later (s\<lparr>pending := rest\<rparr>) s' \<and> devices_ok (s'\<lparr>status := status s, inHandler := False\<rparr>)" for s w p rest
    by (rule device_contract)
qed

section \<open>Where the invariant comes from\<close>

lemma Schedule_ok:
  assumes "devices_ok s" "0 < n" "f = TimerHandler \<Longrightarrow> 0 \<le> a \<and> a < int (length (timers (devs s)))"
  shows "\<exists>s'. Schedule f a n ty s = Inr s' \<and> devices_ok s' \<and> level s' = level s"
proof -
  let ?w = "now s + n"
  let ?s = "insert_pending ?w \<lparr>handler = f, arg = a, when_due = ?w, type = ty\<rparr> s"
  have "devices_ok ?s" unfolding insert_pending_def
    using assms by (intro devices_ok_pending) (auto simp: devices_ok_def insert_place_set timer_known_def)
  then show ?thesis using assms(2) by (simp add: Schedule_def Let_def insert_pending_def)
qed

text \<open>A new timer of the kernel, and a request to a disk that is free, whose interrupt is then pending.\<close>

lemma start_timer_ok:
  assumes "devices_ok s" "timer_handler t \<in> {TimerInterrupt, SchedInterrupt}"
  shows "\<exists>s'. start_timer t s = Inr s' \<and> devices_ok s'"
proof -
  let ?s = "set_devs (timers_update (\<lambda>ts. ts @ [t])) s"
  have ok: "devices_ok ?s" using assms by (force simp: devices_ok_def set_devs_def machine_ok_def levels_ok_def timer_known_def)
  obtain r s1 where r: "timer_random t ?s = (r, s1)" by (cases "timer_random t ?s")
  note R = timer_random_ok [OF ok r]
  have "length (timers (devs s1)) = Suc (length (timers (devs s)))" unfolding R(6) by (simp add: set_devs_def)
  then show ?thesis
    using Schedule_ok [OF R(1) TimeOfNextInterrupt_pos [OF R(2), of t], of TimerHandler "int (length (timers (devs s)))" TimerInt] r
    by (auto simp: start_timer_def new_Timer_def Let_def)
qed

lemma latency_pos:
  assumes "0 \<le> totalTicks st" "0 \<le> n"
  shows "0 < ComputeLatency d st n w"
proof -
  obtain seek rotation where r: "TimeToSeek d st n = (seek, rotation)" by (cases "TimeToSeek d st n")
  note b = rotation_bounds [OF assms(1) r]
  have "0 \<le> totalTicks st + seek + rotation" using b assms by linarith
  then have "0 \<le> (totalTicks st + seek + rotation) sdiv RotationTime" by (simp add: RotationTime_def sdiv_nonneg_eq pos_imp_zdiv_nonneg_iff)
  then have "0 \<le> ModuloDiff n ((totalTicks st + seek + rotation) sdiv RotationTime)" using ModuloDiff_spec [OF assms(2)] by blast
  then show ?thesis using b r by (simp add: ComputeLatency_def Let_def RotationTime_def)
qed

lemma request_disk_ok:
  assumes "devices_ok s" "0 \<le> now s" "\<not> active (SynchDiskSteps.disk (synchDisk (devs s)))" "op_ok op"
  shows "\<exists>data s'. request_disk op s = Inr (data, s') \<and> devices_ok s'"
proof -
  have ok: "devices_ok (set_devs (synchDisk_update (disk_update (\<lambda>_. d))) (s\<lparr>stats := st\<rparr>))" for d st
    using assms(1) by (simp add: devices_ok_def set_devs_def machine_ok_def levels_ok_def timer_known_def)
  have S: "\<exists>s'. Schedule DiskDone 0 (ComputeLatency (SynchDiskSteps.disk (synchDisk (devs s))) (stats s) n w) DiskInt
      (set_devs (synchDisk_update (disk_update (\<lambda>_. d))) (s\<lparr>stats := st\<rparr>)) = Inr s' \<and> devices_ok s'" if "0 \<le> n" for n w d st
    using Schedule_ok [OF ok latency_pos [OF _ that]] assms(2) by (simp add: now_def) blast
  show ?thesis
  proof (cases op)
    case (ReadOp n)
    then have n: "0 \<le> n" "n < NumSectors" using assms(4) by auto
    from S [OF n(1)] show ?thesis using ReadOp n assms(3) by (simp add: ReadRequest_def Let_def)
  next
    case (WriteOp n data)
    then have n: "0 \<le> n" "n < NumSectors" "SectorSize \<le> int (length data)" using assms(4) by auto
    from S [OF n(1)] show ?thesis using WriteOp n assms(3) by (simp add: WriteRequest_def Let_def)
  qed
qed

section \<open>Properties\<close>

text \<open>C23: outside idle mode, the loop that fires interrupts ends, with the handlers of the kernel for its timers, its scheduler and
  its disk, and with or without a processor for user programs.  It calls exactly the handlers of the interrupts that are due, each
  once, in the order of their time and, within one tick, of the list; none of them fails, and neither does the delayed load
  before it.  Afterwards every pending interrupt lies in the future, and the state is that of the calls except that the
  first entry of the list has gone behind the others of its tick; the kernel's invariant holds again.\<close>

theorem fire_due_in_order:
  assumes "devices_ok s" "level s = IntOff" "sorted_pending s" "status s \<noteq> IdleMode"
  shows "\<exists>s'. run_due device_call (due s) s = Inr s' \<and> fire_due device_call s = Some (Inr (put_back s'))
    \<and> now s' = now s \<and> status s' = status s \<and> sorted_pending s' \<and> (\<forall>e \<in> set (pending s'). now s < fst e)
    \<and> devices_ok (put_back s')"
  using kernel_handlers.run_due_spec [OF assms] kernel_handlers.ok_put_back by blast

text \<open>At tick 10 a disk interrupt and that of a timer are due; thread 2 waits for the disk, and a user program is in the processor.\<close>

definition sample_nachos :: nachos where
  "sample_nachos = \<lparr>level = IntOff, pending = [(5, \<lparr>handler = DiskDone, arg = 0, when_due = 5, type = DiskInt\<rparr>),
        (10, \<lparr>handler = TimerHandler, arg = 0, when_due = 10, type = TimerInt\<rparr>)],
      inHandler = False, yieldOnReturn = False, status = UserMode, stats = new_Statistics\<lparr>totalTicks := 10\<rparr>,
      machine = Some sample_machine,
      kernel = (init_kernel \<lparr>timers = [\<lparr>randomize = False, timer_handler = TimerInterrupt, timer_arg = 0\<rparr>],
          
            synchDisk = disk_update (active_update (\<lambda>_. True)) ((new_SynchDisk (\<lambda>_. replicate 128 0))\<lparr>semaphore := \<lparr>sem_value = 0, sem_queue = [2]\<rparr>\<rparr>), 
            randoms = (\<lambda>_. 0), drawn = 0, userRegisters = (\<lambda>_. []), space = (\<lambda>_. None)\<rparr>)
        \<lparr>threads := [1 \<mapsto> sample_thread 0 10 RUNNING, 2 \<mapsto> sample_thread 1 15 BLOCKED], currentThread := 1\<rparr>\<rparr>"

lemma sample_sound: "sound_machine sample_machine"
  using sample_wf by (simp add: sound_machine_def sample_machine_def)

lemma sample_nachos_ok: "devices_ok sample_nachos" "level sample_nachos = IntOff" "sorted_pending sample_nachos" "status sample_nachos \<noteq> IdleMode"
  using sample_sound
  by (auto simp: sample_nachos_def devices_ok_def machine_ok_def levels_ok_def timer_known_def sorted_pending_def init_kernel_def
      sample_thread_def new_SynchDisk_def split: if_splits)

text \<open>The disk wakes thread 2, and the timer asks for a switch and for its next interrupt.\<close>

theorem fire_due_in_order_witness:
  "\<exists>s'. fire_due device_call sample_nachos = Some (Inr (put_back s')) \<and> ready_threads s' = [2] \<and> yieldOnReturn s'
    \<and> map fst (pending s') = [60] \<and> status s' = UserMode \<and> \<not> active (SynchDiskSteps.disk (synchDisk (devs s')))"
proof -
  from fire_due_in_order [OF sample_nachos_ok] obtain s' where
    s': "run_due device_call (due sample_nachos) sample_nachos = Inr s'" "fire_due device_call sample_nachos = Some (Inr (put_back s'))"
    by blast
  have "case run_due device_call (due sample_nachos) sample_nachos of Inl _ \<Rightarrow> False
    | Inr s' \<Rightarrow> ready_threads s' = [2] \<and> yieldOnReturn s' \<and> map fst (pending s') = [60] \<and> status s' = UserMode \<and> \<not> active (SynchDiskSteps.disk (synchDisk (devs s')))"
    by code_simp
  with s' show ?thesis by auto
qed

end
