(* ===== verification/UserSteps.thy ===== *)
theory UserSteps
  imports MipsSim Devices
begin

text \<open>
  User programs on the processor: the loop of \<open>Machine::Run\<close> (machine/mipssim.cc), the register and address space half of
  \<open>Scheduler::Run\<close> (threads/scheduler.cc) with \<open>SaveUserState\<close> and \<open>RestoreUserState\<close>, and \<open>StartProcess\<close>, on the kernel
  state of \<open>Devices\<close>.  The relation \<open>user_step\<close> has a step for each piece of code that touches the processor; a context switch is the
  code of \<open>Scheduler::Run\<close> before \<open>SWITCH\<close> and the code after it, from whichever place it was called.
\<close>

section \<open>The user half of a context switch\<close>

definition save_user_context :: "nachos \<Rightarrow> nachos res" where
  "save_user_context s = (case space (devs s) (cur s) of None \<Rightarrow> Inr s
     | Some sp \<Rightarrow> (case machine s of None \<Rightarrow> Inl BadAccess
        | Some m \<Rightarrow> bindR (SaveUserState m) (\<lambda>ur.
            Inr (set_devs (\<lambda>d. d\<lparr>userRegisters := (userRegisters d)(cur s := ur), space := (space d)(cur s \<mapsto> SaveState m sp)\<rparr>) s))))"

definition restore_user_context :: "nachos \<Rightarrow> nachos res" where
  "restore_user_context s = (case space (devs s) (cur s) of None \<Rightarrow> Inr s
     | Some sp \<Rightarrow> (case machine s of None \<Rightarrow> Inl BadAccess
        | Some m \<Rightarrow> bindR (RestoreUserState (userRegisters (devs s) (cur s)) m) (\<lambda>m1.
            Inr (s\<lparr>machine := Some (RestoreState sp m1)\<rparr>))))"

text \<open>The functions that \<open>Sched\<close> calls; \<open>sw\<close> is \<open>SWITCH\<close>.\<close>

definition kernel_env :: "(nat \<Rightarrow> nat \<Rightarrow> nachos \<Rightarrow> nachos res option) \<Rightarrow> (device_fn, devices) env" where
  "kernel_env sw = \<lparr>call_fn = device_call, sched_fn = SchedInterrupt, switch_to = sw, save_user = save_user_context,
     restore_user = restore_user_context\<rparr>"

text \<open>One round of the loop of \<open>Machine::Run\<close>, up to the \<open>Yield\<close> that \<open>OneTick\<close> may end in.\<close>

definition Run_round :: "nachos \<Rightarrow> nachos res option" where
  "Run_round s = (case machine s of None \<Rightarrow> Some (Inl BadAccess)
     | Some m \<Rightarrow> bindO (Some (OneInstruction m)) (\<lambda>m1. OneTick device_call (\<lambda>y. Some (Inr y)) (s\<lparr>machine := Some m1\<rparr>)))"

section \<open>Steps\<close>

text \<open>\<open>switching\<close>: between the two halves of \<open>Scheduler::Run\<close>.  \<open>loaded\<close> holds \<open>lastVpn\<close> and \<open>noffInitDataOffset\<close> of the machine.\<close>

record user_sys =
  sys :: nachos
  loaded :: "int \<times> int"
  switching :: bool

text \<open>A thread starts a program, taken as one step (others may run while the file is read, but nothing of this thread is
  saved before it has its address space); a thread with a program runs a round of it; a thread takes a tick by enabling interrupts, or
  idles; the kernel does anything else, which leaves the processor and the user contexts alone; the thread is switched
  out; a thread runs for the first time, which \<open>SWITCH\<close> starts in \<open>ThreadRoot\<close> and which has no program yet; some thread comes back.  Which thread it is, and when, is left open: every scheduling decision is among the steps.\<close>

inductive user_step :: "user_sys \<Rightarrow> user_sys \<Rightarrow> bool" where
  start: "\<not> switching s \<Longrightarrow> machine (sys s) = Some m \<Longrightarrow>
    StartProcess use_swap junk junkE junkP exe \<lparr>mach = m, lastVpn = fst (loaded s), noffInitDataOffset = snd (loaded s)\<rparr> = Inr (sp, l) \<Longrightarrow>
    user_step s (s\<lparr>sys := set_devs (\<lambda>d. d\<lparr>space := (space d)(cur (sys s) \<mapsto> sp)\<rparr>) ((sys s)\<lparr>machine := Some (mach l), status := UserMode\<rparr>),
      loaded := (lastVpn l, noffInitDataOffset l)\<rparr>)"
| round: "\<not> switching s \<Longrightarrow> space (devs (sys s)) (cur (sys s)) \<noteq> None \<Longrightarrow> Run_round (sys s) = Some (Inr y) \<Longrightarrow> user_step s (s\<lparr>sys := y\<rparr>)"
| tick: "\<not> switching s \<Longrightarrow> OneTick device_call (\<lambda>y. Some (Inr y)) (sys s) = Some (Inr y) \<Longrightarrow> user_step s (s\<lparr>sys := y\<rparr>)"
| idle: "\<not> switching s \<Longrightarrow> Idle device_call (sys s) = Some (Inr y) \<Longrightarrow> user_step s (s\<lparr>sys := y\<rparr>)"
| kernel_code: "\<not> switching s \<Longrightarrow> machine y = machine (sys s) \<Longrightarrow> cur y = cur (sys s) \<Longrightarrow>
    userRegisters (devs y) = userRegisters (devs (sys s)) \<Longrightarrow> space (devs y) = space (devs (sys s)) \<Longrightarrow> user_step s (s\<lparr>sys := y\<rparr>)"
| switch_out: "\<not> switching s \<Longrightarrow> Run_out (kernel_env sw) n (sys s) = Inr y \<Longrightarrow> user_step s (s\<lparr>sys := y, switching := True\<rparr>)"
| first_run: "switching s \<Longrightarrow> space (devs (sys s)) (cur (sys s)) = None \<Longrightarrow> user_step s (s\<lparr>switching := False\<rparr>)"
| switch_in: "switching s \<Longrightarrow> Run_back (kernel_env sw) (sys s) = Inr y \<Longrightarrow> user_step s (s\<lparr>sys := y, switching := False\<rparr>)"

text \<open>The machine is new and no thread has a program yet.\<close>

definition user_init :: "user_sys \<Rightarrow> bool" where
  "user_init s \<longleftrightarrow> \<not> switching s \<and> (\<forall>t. space (devs (sys s)) t = None)
     \<and> (\<exists>use_tlb junkT junkD junkF b m. new_Machine use_tlb True [] junkT junkD junkF b = Inr m
          \<and> length junkT = TLBSize \<and> length junkD = 4 \<and> machine (sys s) = Some m)"

section \<open>Saving and restoring registers\<close>

definition sound_context :: "u32 list \<Rightarrow> bool" where
  "sound_context ur \<longleftrightarrow> length ur = NumTotalRegs \<and> ur ! 0 = 0 \<and> 0 \<le> sint (ur ! LoadReg) \<and> sint (ur ! LoadReg) < 32"

lemma sound_registers: "sound_machine m \<Longrightarrow> sound_context (registers m)"
  by (simp add: sound_machine_def wf_machine_def sound_context_def)

lemma sound_set_registers: "sound_machine m \<Longrightarrow> sound_context ur \<Longrightarrow> sound_machine (m\<lparr>registers := ur\<rparr>)"
  by (simp add: sound_machine_def wf_machine_def sound_context_def)

lemma read_registers_eq:
  "length (registers m) = 40 \<Longrightarrow> i + n \<le> 40 \<Longrightarrow> read_registers i n m = Inr (take n (drop i (registers m)))"
proof (induction n arbitrary: i)
  case (Suc n)
  have "drop i (registers m) = registers m ! i # drop (Suc i) (registers m)" using Suc.prems by (intro Cons_nth_drop_Suc [symmetric]) simp
  then show ?case using Suc by (simp add: ReadRegister_def NumTotalRegs_def)
qed simp

lemma SaveUserState_eq: "length (registers m) = 40 \<Longrightarrow> SaveUserState m = Inr (registers m)"
  using read_registers_eq [of m 0 40] by (simp add: SaveUserState_def NumTotalRegs_def)

lemma write_registers_eq:
  "length (registers m) = 40 \<Longrightarrow> i + length vs \<le> 40 \<Longrightarrow>
     write_registers i vs m = Inr (m\<lparr>registers := take i (registers m) @ vs @ drop (i + length vs) (registers m)\<rparr>)"
proof (induction vs arbitrary: i m)
  case (Cons v vs)
  have w: "WriteRegister m (int i) v = Inr (m\<lparr>registers := (registers m)[i := v]\<rparr>)" using Cons.prems by (simp add: WriteRegister_def NumTotalRegs_def)
  have "take (Suc i) ((registers m)[i := v]) = take i (registers m) @ [v]"
    using Cons.prems by (simp add: take_Suc_conv_app_nth)
  then show ?case using Cons.IH [of "m\<lparr>registers := (registers m)[i := v]\<rparr>" "Suc i"] Cons.prems w by simp
qed simp

lemma RestoreUserState_eq: "length (registers m) = 40 \<Longrightarrow> length ur = 40 \<Longrightarrow> RestoreUserState ur m = Inr (m\<lparr>registers := ur\<rparr>)"
  using write_registers_eq [of m 0 ur] by (simp add: RestoreUserState_def)

lemma sound_RestoreState: "sound_machine (RestoreState sp m) = sound_machine m"
  by (simp add: RestoreState_def)

section \<open>Loading a program keeps the machine sound\<close>

lemma sound_noffCodeOffset [simp]: "sound_machine (m\<lparr>noffCodeOffset := x\<rparr>) = sound_machine m"
  by (simp add: sound_machine_def wf_machine_def)

lemma sound_memory_length: "sound_machine m \<Longrightarrow> length (mainMemory m) = 4096"
  by (simp add: sound_machine_def wf_machine_def)

lemma read_into_memory_sound: "read_into_memory a n pos m = Inr m' \<Longrightarrow> sound_machine m \<Longrightarrow> sound_machine m'"
  using sound_memory_length [of m]
  by (auto simp: read_into_memory_def Let_def intro!: sound_memory split: if_splits)

lemma clear_memory_sound: "clear_memory n m = Inr m' \<Longrightarrow> sound_machine m \<Longrightarrow> sound_machine m'"
  using sound_memory_length [of m] by (auto simp: clear_memory_def intro!: sound_memory split: if_splits)

lemma load_segments_sound: "load_segments h l = Inr l' \<Longrightarrow> sound_machine (mach l) \<Longrightarrow> sound_machine (mach l')"
  by (auto simp: load_segments_def Let_def dest!: read_into_memory_sound split: if_splits)

lemma new_AddrSpace_sound:
  assumes "new_AddrSpace use_swap junk junkE junkP exe l = Inr (sp, l')" "sound_machine (mach l)"
  shows "sound_machine (mach l')"
proof -
  obtain c sw1 b m1 l1 size h where m1: "(if c then clear_memory size ((mach l)\<lparr>swap := sw1, phys_map := b\<rparr>)
        else Inr ((mach l)\<lparr>swap := sw1, phys_map := b\<rparr>)) = Inr m1"
    and l1: "(if use_swap then load_segments h (l\<lparr>mach := m1\<rparr>) else Inr (l\<lparr>mach := m1\<rparr>)) = Inr l1" and l': "mach l' = mach l1"
    using assms(1) unfolding new_AddrSpace_def Let_def bindR_eq_Inr case_prod_unfold by (elim exE conjE) auto
  have "sound_machine m1" using m1 assms(2) by (auto dest: clear_memory_sound split: if_splits)
  then show ?thesis using l1 l' by (auto dest: load_segments_sound split: if_splits)
qed

lemma InitRegisters_eq:
  assumes "length (registers m) = 40"
  shows "InitRegisters sp m = Inr (m\<lparr>registers := ((replicate 40 0)[NextPCReg := 4])[StackReg := word_of_int (realNumPages sp * PageSize - 16)]\<rparr>)"
proof -
  have "(replicate 40 (0 :: u32))[PCReg := 0] = replicate 40 0" by (subst list_update_same_conv) (simp_all add: PCReg_def)
  then show ?thesis using write_registers_eq [OF assms, of 0 "replicate NumTotalRegs 0"] assms
    by (simp add: InitRegisters_def WriteRegister_def NumTotalRegs_def) (simp add: reg_consts)
qed

lemma InitRegisters_sound:
  assumes "InitRegisters sp m = Inr m'" "sound_machine m"
  shows "sound_machine m'"
proof -
  let ?ur = "((replicate 40 0)[NextPCReg := 4])[StackReg := word_of_int (realNumPages sp * PageSize - 16)]"
  have "m' = m\<lparr>registers := ?ur\<rparr>"
    using assms InitRegisters_eq [of m sp] by (simp add: sound_machine_def wf_machine_def NumTotalRegs_def)
  moreover have "sound_context ?ur" by (simp add: sound_context_def reg_consts)
  ultimately show ?thesis using sound_set_registers [OF assms(2)] by simp
qed

lemma StartProcess_sound:
  "StartProcess use_swap junk junkE junkP exe l = Inr (sp, l') \<Longrightarrow> sound_machine (mach l) \<Longrightarrow> sound_machine (mach l')"
  by (auto simp: StartProcess_def sound_RestoreState dest!: new_AddrSpace_sound InitRegisters_sound)

section \<open>Invariant\<close>

text \<open>The processor is sound, and so is every saved context: those of all threads with a program, but for the one that is running.\<close>

definition contexts :: "devices kernel_state \<Rightarrow> nat \<times> (nat \<Rightarrow> u32 list) \<times> (nat \<Rightarrow> AddrSpace option)" where
  "contexts k = (currentThread k, userRegisters (user k), space (user k))"

definition contexts_ok :: "bool \<Rightarrow> nachos \<Rightarrow> bool" where
  "contexts_ok sw s \<longleftrightarrow> machine s \<noteq> None \<and> machine_ok s
     \<and> (\<forall>t. space (devs s) t \<noteq> None \<longrightarrow> t \<noteq> cur s \<or> sw \<longrightarrow> sound_context (userRegisters (devs s) t))"

definition user_inv :: "user_sys \<Rightarrow> bool" where "user_inv s \<longleftrightarrow> contexts_ok (switching s) (sys s)"

lemma contexts_ok_kept: "kept contexts s s' \<Longrightarrow> contexts_ok sw s \<Longrightarrow> contexts_ok sw s'"
  by (simp add: kept_def contexts_ok_def contexts_def)

lemma contexts_kernel_only: "kernel_only s s' \<Longrightarrow> machine s' = machine s \<and> contexts (kernel s') = contexts (kernel s)"
  by (auto simp: kernel_only_def contexts_def)

text \<open>The handlers touch neither.\<close>

lemma upd_thread_contexts: "upd_thread t g s = Inr s' \<Longrightarrow> machine s' = machine s \<and> contexts (kernel s') = contexts (kernel s)"
  by (auto simp: upd_thread_def thread_at_def contexts_def split: option.splits)

lemma set_sch_contexts [simp]: "machine (set_sch g s) = machine s" "contexts (kernel (set_sch g s)) = contexts (kernel s)"
  by (simp_all add: set_sch_def contexts_def)

lemma ReadyToRun_contexts:
  assumes "ReadyToRun t s = Inr s'"
  shows "machine s' = machine s \<and> contexts (kernel s') = contexts (kernel s)"
proof -
  obtain s1 th where s1: "upd_thread t (th_status_update (\<lambda>_. READY)) s = Inr s1" "thread_at t s1 = Inr th"
    using assms unfolding ReadyToRun_def setStatus_def bindR_eq_Inr by blast
  note u = upd_thread_contexts [OF s1(1)]
  show ?thesis
    using assms s1 u
    by (cases "policy (sch s1)") (auto simp: ReadyToRun_def setStatus_def Let_def dest!: upd_thread_contexts split: if_splits)
qed

lemma ready_all_contexts: "ready_all ts s = Inr s' \<Longrightarrow> machine s' = machine s \<and> contexts (kernel s') = contexts (kernel s)"
  by (induction ts arbitrary: s) (auto dest!: ReadyToRun_contexts)

lemma set_devs_contexts [simp]:
  "machine (set_devs g s) = machine s"
  "contexts (kernel (set_devs (synchDisk_update h) s)) = contexts (kernel s)"
  "contexts (kernel (set_devs (drawn_update i) s)) = contexts (kernel s)"
  by (simp_all add: set_devs_def contexts_def)

lemma kernel_handler_contexts:
  "kernel_handler f a s = Inr s' \<Longrightarrow> machine s' = machine s \<and> contexts (kernel s') = contexts (kernel s)"
  by (auto simp: kernel_handler_def TimerInterruptHandler_def Scheduler_InterruptHandler_def YieldOnReturn_def disk_done_def Let_def
      dest!: upd_thread_contexts ready_all_contexts split: device_fn.splits if_splits prod.splits)

lemma device_call_keeps: "keeps device_call contexts"
  unfolding keeps_def
proof (intro allI impI)
  fix f a s s' assume c: "device_call f a s = Inr s'"
  show "machine s' = machine s \<and> contexts (kernel s') = contexts (kernel s)"
  proof (cases "f = TimerHandler")
    case True
    then show ?thesis using c
      by (auto simp: device_call_def Let_def timer_random_def Random_def TimerExpired_def Schedule_def insert_pending_def
          dest!: kernel_handler_contexts split: if_splits prod.splits)
  next
    case False
    then show ?thesis using c kernel_handler_contexts by (simp add: device_call_def)
  qed
qed

section \<open>Every step keeps the invariant\<close>

lemma save_user_ok:
  assumes "contexts_ok False s" "machine s = Some m"
  shows "\<exists>s'. save_user_context s = Inr s' \<and> contexts_ok True s'
    \<and> (space (devs s) (cur s) \<noteq> None \<longrightarrow> userRegisters (devs s') (cur s) = registers m)"
proof -
  have m: "sound_machine m" using assms by (auto simp: contexts_ok_def machine_ok_def)
  then have "SaveUserState m = Inr (registers m)" by (intro SaveUserState_eq) (simp add: sound_machine_def wf_machine_def NumTotalRegs_def)
  then show ?thesis
    using assms sound_registers [OF m]
    by (cases "space (devs s) (cur s)") (auto simp: save_user_context_def contexts_ok_def set_devs_def machine_ok_def)
qed

lemma restore_user_ok:
  assumes "contexts_ok True s"
  shows "\<exists>s'. restore_user_context s = Inr s' \<and> contexts_ok False s'
    \<and> (space (devs s) (cur s) \<noteq> None \<longrightarrow> map_option registers (machine s') = Some (userRegisters (devs s) (cur s)))"
proof -
  obtain m where m: "machine s = Some m" "sound_machine m" using assms by (auto simp: contexts_ok_def machine_ok_def)
  then have l: "length (registers m) = 40" by (simp add: sound_machine_def wf_machine_def NumTotalRegs_def)
  show ?thesis
  proof (cases "space (devs s) (cur s)")
    case None
    then show ?thesis using assms by (simp add: restore_user_context_def contexts_ok_def)
  next
    case (Some sp)
    let ?ur = "userRegisters (devs s) (cur s)"
    have c: "sound_context ?ur" using assms Some by (auto simp: contexts_ok_def)
    then have "RestoreUserState ?ur m = Inr (m\<lparr>registers := ?ur\<rparr>)" using l by (intro RestoreUserState_eq) (simp_all add: sound_context_def NumTotalRegs_def)
    then show ?thesis using assms Some m sound_set_registers [OF m(2) c]
      by (auto simp: restore_user_context_def contexts_ok_def machine_ok_def sound_RestoreState) (simp_all add: RestoreState_def)
  qed
qed

lemma Run_out_ok:
  assumes "Run_out (kernel_env sw) n s = Inr s'" "contexts_ok False s"
  shows "contexts_ok True s'"
proof -
  obtain s1 s2 where s1: "save_user_context s = Inr s1"
    and s2: "setStatus n RUNNING (s1\<lparr>kernel := (kernel s1)\<lparr>currentThread := n\<rparr>\<rparr>) = Inr s2"
    and s3: "s' = s2 \<or> (\<exists>a b. Schedule SchedInterrupt a b TimerInt s2 = Inr s')"
    using assms(1) by (auto simp: Run_out_def kernel_env_def split: if_splits)
  have "machine s2 = machine s1 \<and> contexts (kernel s2) = contexts ((kernel s1)\<lparr>currentThread := n\<rparr>)"
    using upd_thread_contexts [OF s2 [unfolded setStatus_def]] by simp
  moreover have "machine s' = machine s2 \<and> kernel s' = kernel s2"
    using s3 by (auto simp: Schedule_def insert_pending_def Let_def split: if_splits)
  moreover have "contexts_ok True s1"
  proof -
    obtain m where "machine s = Some m" using assms(2) by (auto simp: contexts_ok_def)
    from save_user_ok [OF assms(2) this] s1 show ?thesis by auto
  qed
  ultimately show ?thesis by (auto simp: contexts_ok_def contexts_def machine_ok_def)
qed

lemma delete_Thread_contexts: "delete_Thread t s = Inr s' \<Longrightarrow> machine s' = machine s \<and> contexts (kernel s') = contexts (kernel s)"
  by (auto simp: delete_Thread_def freeThreadID_def set_port_def contexts_def split: if_splits)

lemma Run_back_ok:
  assumes "Run_back (kernel_env sw) s = Inr s'" "contexts_ok True s"
  shows "contexts_ok False s'"
proof -
  obtain s1 where s1: "machine s1 = machine s" "contexts (kernel s1) = contexts (kernel s)" "restore_user_context s1 = Inr s'"
  proof (cases "threadToBeDestroyed (kernel s)")
    case None
    then show ?thesis using that [of s] assms(1) by (simp add: Run_back_def kernel_env_def)
  next
    case (Some t)
    then obtain s0 where s0: "delete_Thread t s = Inr s0" "restore_user_context (s0\<lparr>kernel := (kernel s0)\<lparr>threadToBeDestroyed := None\<rparr>\<rparr>) = Inr s'"
      using assms(1) by (auto simp: Run_back_def kernel_env_def)
    show ?thesis using that [OF _ _ s0(2)] delete_Thread_contexts [OF s0(1)] by (simp add: contexts_def)
  qed
  have "contexts_ok True s1" using assms(2) s1(1,2) by (simp add: contexts_ok_def contexts_def machine_ok_def)
  then show ?thesis using restore_user_ok s1(3) by fastforce
qed

lemma tick_ok: "OneTick device_call (\<lambda>y. Some (Inr y)) s = Some (Inr y) \<Longrightarrow> contexts_ok sw s \<Longrightarrow> contexts_ok sw y"
  using OneTick_kept [OF device_call_keeps, of "\<lambda>y. Some (Inr y)" s y] contexts_ok_kept by auto

lemma Run_round_ok:
  assumes "Run_round s = Some (Inr y)" "contexts_ok sw s"
  shows "contexts_ok sw y"
proof -
  obtain m m1 where m: "machine s = Some m" "OneInstruction m = Inr m1"
      "OneTick device_call (\<lambda>y. Some (Inr y)) (s\<lparr>machine := Some m1\<rparr>) = Some (Inr y)"
    using assms(1) by (auto simp: Run_round_def bindO_Inr split: option.splits)
  have "sound_machine m1" using OneInstruction_sound [OF m(2)] assms(2) m(1) by (simp add: contexts_ok_def machine_ok_def)
  then have "contexts_ok sw (s\<lparr>machine := Some m1\<rparr>)" using assms(2) by (simp add: contexts_ok_def machine_ok_def)
  with tick_ok [OF m(3)] show ?thesis .
qed

lemma user_inv_init: "user_init s \<Longrightarrow> user_inv s"
  by (auto simp: user_init_def user_inv_def contexts_ok_def machine_ok_def dest: new_Machine_sound)

lemma user_inv_step: "user_step s s' \<Longrightarrow> user_inv s \<Longrightarrow> user_inv s'"
proof (induction rule: user_step.induct)
  case (start s m use_swap junk junkE junkP exe sp l)
  then have "sound_machine (mach l)" using StartProcess_sound [OF start(3)] by (simp add: user_inv_def contexts_ok_def machine_ok_def)
  then show ?case using start by (auto simp: user_inv_def contexts_ok_def machine_ok_def set_devs_def)
next
  case (round s y)
  then show ?case using Run_round_ok by (simp add: user_inv_def)
next
  case (tick s y)
  then show ?case using tick_ok by (simp add: user_inv_def)
next
  case (idle s y)
  then show ?case using contexts_ok_kept [OF Idle_kept [OF device_call_keeps]] by (simp add: user_inv_def)
next
  case (kernel_code s y)
  then show ?case by (simp add: user_inv_def contexts_ok_def machine_ok_def)
next
  case (switch_out s sw n y)
  then show ?case using Run_out_ok by (simp add: user_inv_def)
next
  case (first_run s)
  then show ?case by (simp add: user_inv_def contexts_ok_def)
next
  case (switch_in s sw y)
  then show ?case using Run_back_ok by (simp add: user_inv_def)
qed

interpretation user_programs: step_system user_init user_step user_inv
  by unfold_locales (auto intro: user_inv_init user_inv_step)

section \<open>Properties\<close>

text \<open>C20: user programs, any number of them, started and run in any order, with timer and disk interrupts between any two
  instructions, traps and page faults, and context switches at any time.  The processor stays sound: register 0 is zero, the
  register of the delayed load is a register number, and no array changes its length; so the delayed load that an interrupt
  forces never fails.  Every saved context is sound too, saving one succeeds and saves the registers as they are, and when a thread with a
  program comes back, restoring succeeds and it finds the registers that were saved.\<close>

theorem user_contexts_sound:
  assumes "user_init s0" "user_step\<^sup>*\<^sup>* s0 s" "u = user (kernel (sys s))"
  shows "\<exists>m. machine (sys s) = Some m \<and> sound_machine m \<and> (\<exists>y. machine_DelayedLoad (sys s) = Inr y)
    \<and> (\<forall>t. space u t \<noteq> None \<and> (t \<noteq> cur (sys s) \<or> switching s) \<longrightarrow> sound_context (userRegisters u t))
    \<and> (\<not> switching s \<longrightarrow> (\<exists>y. save_user_context (sys s) = Inr y
          \<and> (space u (cur (sys s)) \<noteq> None \<longrightarrow> userRegisters (user (kernel y)) (cur (sys s)) = registers m)))
    \<and> (switching s \<longrightarrow> (\<exists>y. restore_user_context (sys s) = Inr y
          \<and> (space u (cur (sys s)) \<noteq> None \<longrightarrow> map_option registers (machine y) = Some (userRegisters u (cur (sys s))))))"
proof -
  have inv: "contexts_ok (switching s) (sys s)" using user_programs.inv_reachable [OF assms(1,2)] by (simp add: user_inv_def)
  then obtain m where m: "machine (sys s) = Some m" "sound_machine m" by (auto simp: contexts_ok_def machine_ok_def)
  have "wf_machine m" using m(2) by (simp add: sound_machine_def)
  then have "\<exists>y. machine_DelayedLoad (sys s) = Inr y" using DelayedLoad_ok m(1) by (simp add: machine_DelayedLoad_def)
  moreover have "\<exists>y. save_user_context (sys s) = Inr y \<and> (space u (cur (sys s)) \<noteq> None \<longrightarrow> userRegisters (user (kernel y)) (cur (sys s)) = registers m)"
    if "\<not> switching s" using save_user_ok [of "sys s" m] inv m(1) that assms(3) by auto
  moreover have "\<exists>y. restore_user_context (sys s) = Inr y
      \<and> (space u (cur (sys s)) \<noteq> None \<longrightarrow> map_option registers (machine y) = Some (userRegisters u (cur (sys s))))"
    if "switching s" using restore_user_ok [of "sys s"] inv that assms(3) by auto
  ultimately show ?thesis using inv m assms(3) by (auto simp: contexts_ok_def)
qed

text \<open>A new machine and two threads.  Thread 1 starts a program and runs its first instruction, after which the timer fires and asks
  for a switch to thread 2.\<close>

definition sample_user :: user_sys where
  "sample_user = \<lparr>sys = sample_nachos\<lparr>pending := tl (pending sample_nachos), status := SystemMode, level := IntOn,
       machine := (case new_Machine True True [] (replicate TLBSize (sample_entry 0 False)) [0, 0, 0, 0] 0 \<lparr>numBits = 32, numWords = 1, bits = [0]\<rparr>
         of Inl _ \<Rightarrow> None | Inr m \<Rightarrow> Some m)\<rparr>, loaded = (0, 0), switching = False\<rparr>"

lemma sample_user_init: "user_init sample_user"
  unfolding user_init_def
proof (intro conjI exI)
  show "new_Machine True True [] (replicate TLBSize (sample_entry 0 False)) [0, 0, 0, 0] 0 \<lparr>numBits = 32, numWords = 1, bits = [0]\<rparr>
      = Inr (the (machine (sys sample_user)))"
    by (simp add: sample_user_def new_Machine_def)
qed (simp_all add: sample_user_def new_Machine_def sample_nachos_def init_kernel_def)

definition sample_loaded :: "u8 list \<Rightarrow> BitMap \<Rightarrow> Machine" where
  "sample_loaded sw b = \<lparr>registers = ((replicate 40 0)[NextPCReg := 4])[StackReg := 1136], mainMemory = replicate 4096 0, disk = [0, 0, 0, 0],
     swap = sw, noffCodeOffset = 0, tlb = Some (replicate 4 (sample_entry 0 False)), pageTable = map (\<lambda>i. new_entry (sample_entry 0 False) i (int i)) [0 ..< 9], vpn = 0,
     offset = 0, pageFrame = 0, pageTableFrame = 0, entry = Null, hit_count = 1, userMode = False, phys_map = b\<rparr>"

lemma sample_starts:
  "\<exists>sp sw b l. StartProcess False (replicate 40 0) (\<lambda>_. sample_entry 0 False) 0 sample_exe
      \<lparr>mach = the (machine (sys sample_user)), lastVpn = 0, noffInitDataOffset = 0\<rparr> = Inr (sp, l) \<and> mach l = sample_loaded sw b"
proof -
  let ?l = "\<lparr>mach = the (machine (sys sample_user)), lastVpn = 0, noffInitDataOffset = 0\<rparr>"
  have n: "9 = nat (divRoundUp (program_size sample_header) PageSize)"
    by (simp add: program_size_def sample_header_def UserStackSize_def to_unsigned_id divRoundUp_nonneg machine_consts)
  have j: "length (replicate 40 (0::u8)) = noff_header_bytes" by (simp add: noff_header_bytes_def)
  have m: "mach ?l = \<lparr>registers = replicate 40 0, mainMemory = replicate 4096 0, disk = [0, 0, 0, 0],
     swap = [], noffCodeOffset = 0, tlb = Some (replicate 4 (sample_entry 0 False)), pageTable = [], vpn = 0,
     offset = 0, pageFrame = 0, pageTableFrame = 0, entry = Null, hit_count = 1, userMode = False, phys_map = phys_map (mach sample_loader)\<rparr>"
    by (simp add: sample_user_def new_Machine_def sample_loader_def NumTotalRegs_def machine_consts sample_entry_def)
  have z: "replicate 4096 0 = overlay 0 (replicate (9 * 128) 0) (mainMemory (mach ?l))"
    unfolding m by (simp add: overlay_def flip: replicate_add)
  obtain sw b where "new_AddrSpace False (replicate 40 0) (\<lambda>_. sample_entry 0 False) 0 sample_exe ?l =
      Inr (\<lparr>as_pageTable = map (\<lambda>i. new_entry (sample_entry 0 False) i (int i)) [0 ..< 9], numPages = 9, firstPhysicalPage = 0, realNumPages = 9\<rparr>,
        ?l\<lparr>mach := (mach ?l)\<lparr>swap := sw, phys_map := b, mainMemory := replicate 4096 0\<rparr>, lastVpn := 9\<rparr>)"
    using new_AddrSpace_eq [OF sample_program j _ _ _ _ _ n z, of False "\<lambda>_. sample_entry 0 False" 0] sample_loader_map
    unfolding m by auto
  then show ?thesis unfolding StartProcess_def m
    by (simp add: InitRegisters_eq RestoreState_def sample_loaded_def machine_consts)
qed

text \<open>The state after the start, and after the tick that follows the instruction.\<close>

definition sample_started :: "AddrSpace \<Rightarrow> Machine \<Rightarrow> nachos" where
  "sample_started sp m = set_devs (\<lambda>d. d\<lparr>space := (space d)(cur (sys sample_user) \<mapsto> sp)\<rparr>) ((sys sample_user)\<lparr>machine := Some m, status := UserMode\<rparr>)"

definition in_tick :: "nachos \<Rightarrow> nachos" where "in_tick s = ChangeLevel IntOff (add_ticks s)"

definition after_tick :: "nachos \<Rightarrow> nachos" where
  "after_tick s = (put_back s)\<lparr>level := IntOn, yieldOnReturn := False, status := UserMode\<rparr>"

definition idle_env :: "(device_fn, devices) env" where "idle_env = kernel_env (\<lambda>_ _ _. None)"

lemma sample_run:
  "case OneInstruction (sample_loaded sw b) of Inl _ \<Rightarrow> False | Inr m1 \<Rightarrow>
   (case run_due device_call (due (in_tick (sample_started sp m1))) (in_tick (sample_started sp m1)) of Inl _ \<Rightarrow> False | Inr y \<Rightarrow>
     yieldOnReturn (put_back y) \<and> (case Run_out idle_env 2 (after_tick y) of Inl _ \<Rightarrow> False | Inr z \<Rightarrow>
       (case Run_back idle_env z of Inl _ \<Rightarrow> False | Inr w \<Rightarrow>
         cur w = 2 \<and> space (devs w) 1 \<noteq> None \<and> userRegisters (devs w) 1 ! PCReg = 4)))"
  by code_simp

lemma sample_started_ok:
  assumes "sound_machine m"
  shows "devices_ok (in_tick (sample_started sp m))" "level (in_tick (sample_started sp m)) = IntOff"
    "sorted_pending (in_tick (sample_started sp m))" "status (in_tick (sample_started sp m)) \<noteq> IdleMode"
  using assms
  by (auto simp: in_tick_def sample_started_def sample_user_def sample_nachos_def devices_ok_def machine_ok_def levels_ok_def
      timer_known_def sorted_pending_def init_kernel_def sample_thread_def new_SynchDisk_def set_devs_def ChangeLevel_def add_ticks_def
      split: if_splits)

text \<open>The round: its tick fires the interrupts, and what they do is \<open>run_due\<close>.\<close>

lemma sample_round:
  assumes "OneInstruction m = Inr m1" "sound_machine m1"
    and "run_due device_call (due (in_tick (sample_started sp m1))) (in_tick (sample_started sp m1)) = Inr y" "yieldOnReturn (put_back y)"
  shows "Run_round (sample_started sp m) = Some (Inr (after_tick y))"
proof -
  let ?s = "sample_started sp m1"
  have f: "fire_due device_call (in_tick ?s) = Some (Inr (put_back y))"
    using kernel_handlers.run_due_spec [OF sample_started_ok [OF assms(2)], of sp] assms(3) by auto
  have "OneTick device_call (\<lambda>y. Some (Inr y)) ?s = Some (Inr (after_tick y))"
    using f assms(4) unfolding in_tick_def by (simp add: OneTick_def ChangeLevel_def after_tick_def sample_started_def set_devs_def)
  moreover have "(sample_started sp m)\<lparr>machine := Some m1\<rparr> = ?s" by (simp add: sample_started_def set_devs_def)
  moreover have "machine (sample_started sp m) = Some m" by (simp add: sample_started_def set_devs_def)
  ultimately show ?thesis using assms(1) by (simp add: Run_round_def)
qed

theorem user_contexts_sound_witness:
  "\<exists>s m. user_step\<^sup>*\<^sup>* sample_user s \<and> machine (sys s) = Some m \<and> sound_machine m \<and> cur (sys s) = 2
    \<and> sound_context (userRegisters (devs (sys s)) 1) \<and> userRegisters (devs (sys s)) 1 ! PCReg = 4"
proof -
  obtain sp sw b l where st: "StartProcess False (replicate 40 0) (\<lambda>_. sample_entry 0 False) 0 sample_exe
      \<lparr>mach = the (machine (sys sample_user)), lastVpn = 0, noffInitDataOffset = 0\<rparr> = Inr (sp, l)" and l: "mach l = sample_loaded sw b"
    using sample_starts by blast
  obtain m1 where m1: "OneInstruction (mach l) = Inr m1" using sample_run [where sw = sw and b = b and sp = sp] l by (cases "OneInstruction (sample_loaded sw b)") auto
  have m0: "machine (sys sample_user) = Some (the (machine (sys sample_user)))" by (simp add: sample_user_def new_Machine_def)
  then have "sound_machine (the (machine (sys sample_user)))"
    using user_inv_init [OF sample_user_init] by (auto simp: user_inv_def contexts_ok_def machine_ok_def)
  then have snd: "sound_machine m1" using OneInstruction_sound [OF m1] StartProcess_sound [OF st] by simp
  obtain y z w where y: "run_due device_call (due (in_tick (sample_started sp m1))) (in_tick (sample_started sp m1)) = Inr y" "yieldOnReturn (put_back y)"
    and z: "Run_out idle_env 2 (after_tick y) = Inr z" and w: "Run_back idle_env z = Inr w"
      "cur w = 2" "space (devs w) 1 \<noteq> None" "userRegisters (devs w) 1 ! PCReg = 4"
    using sample_run [where sw = sw and b = b and sp = sp] m1 l by (auto split: sum.splits)
  let ?st = "\<lambda>x. \<lparr>sys = x, loaded = (lastVpn l, noffInitDataOffset l), switching = False\<rparr>"
  have n: "\<not> switching sample_user" "loaded sample_user = (0, 0)" by (simp_all add: sample_user_def)
  have "sample_user\<lparr>sys := x, loaded := (lastVpn l, noffInitDataOffset l)\<rparr> = ?st x" for x using n(1) by (cases sample_user) simp
  then have "user_step sample_user (?st (sample_started sp (mach l)))"
    using user_step.start [OF n(1) m0, of False "replicate 40 0" "\<lambda>_. sample_entry 0 False" 0 sample_exe sp l] st n(2)
    by (simp add: sample_started_def)
  moreover have "user_step (?st (sample_started sp (mach l))) (?st (after_tick y))"
    using user_step.round [of "?st (sample_started sp (mach l))" "after_tick y"] sample_round [OF m1 snd y]
    by (simp add: sample_started_def set_devs_def)
  moreover have "user_step (?st (after_tick y)) ((?st z)\<lparr>switching := True\<rparr>)"
    using user_step.switch_out [of "?st (after_tick y)" _ 2 z] z by (simp add: idle_env_def)
  moreover have "user_step ((?st z)\<lparr>switching := True\<rparr>) (?st w)"
    using user_step.switch_in [of "(?st z)\<lparr>switching := True\<rparr>" _ w] w(1) by (simp add: idle_env_def)
  ultimately have r: "user_step\<^sup>*\<^sup>* sample_user (?st w)"
    by (meson rtranclp.rtrancl_refl rtranclp.rtrancl_into_rtrancl)
  from user_contexts_sound [OF sample_user_init r refl] w r show ?thesis by (intro exI [of _ "?st w"]) auto
qed

end
