(* ===== verification/CoffNoff.thy ===== *)
theory CoffNoff
  imports AddrSpace
begin

text \<open>
  bin/coff2noff.c with bin/coff.h and bin/noff.h: the tool that turns a MIPS COFF program into the format that
  \<open>AddrSpace\<close> loads,.  Files are byte lists with a position.  The host is a little-endian
  i386, where \<open>long\<close> has 4 bytes.  A read with a negative count is an error of the host; writing does not fail.  The usage message
  and the opening of the two files are left out, and so is \<open>printf\<close>; each \<open>exit(1)\<close> is a value of \<open>conv_error\<close>.
\<close>

section \<open>COFF headers\<close>

definition filehdr_bytes :: int where "filehdr_bytes = 20"
definition aouthdr_bytes :: int where "aouthdr_bytes = 56"
definition scnhdr_bytes :: nat where "scnhdr_bytes = 40"

definition MIPSELMAGIC :: int where "MIPSELMAGIC = 0x0162"
definition OMAGIC :: int where "OMAGIC = 0x0107"

record scnhdr =
  s_name :: "u8 list"
  s_paddr :: int
  s_size :: int
  s_scnptr :: int

definition ushort_at :: "nat \<Rightarrow> u8 list \<Rightarrow> int" where
  "ushort_at k bs = uint (bs ! k) + 256 * uint (bs ! Suc k)"

definition long_at :: "nat \<Rightarrow> u8 list \<Rightarrow> int" where
  "long_at k bs = sint (bytes_word (take 4 (drop k bs)))"

definition scnhdr_of_bytes :: "u8 list \<Rightarrow> scnhdr" where
  "scnhdr_of_bytes bs = \<lparr>s_name = take 8 bs, s_paddr = long_at 8 bs, s_size = long_at 16 bs, s_scnptr = long_at 20 bs\<rparr>"

definition scnhdrs :: "nat \<Rightarrow> u8 list \<Rightarrow> scnhdr list" where
  "scnhdrs n bs = map (\<lambda>k. scnhdr_of_bytes (take scnhdr_bytes (drop (scnhdr_bytes * k) bs))) [0 ..< n]"

text \<open>\<open>!strcmp(s_name, n)\<close> for an \<open>n\<close> shorter than the 8 characters of the field.\<close>

definition name_is :: "u8 list \<Rightarrow> scnhdr \<Rightarrow> bool" where
  "name_is n s \<longleftrightarrow> take (length n + 1) (s_name s) = n @ [0]"

definition is_text :: "scnhdr \<Rightarrow> bool" where "is_text s \<longleftrightarrow> name_is [46, 116, 101, 120, 116] s"

definition is_data :: "scnhdr \<Rightarrow> bool" where
  "is_data s \<longleftrightarrow> name_is [46, 100, 97, 116, 97] s \<or> name_is [46, 114, 100, 97, 116, 97] s"

definition is_bss :: "scnhdr \<Rightarrow> bool" where
  "is_bss s \<longleftrightarrow> name_is [46, 98, 115, 115] s \<or> name_is [46, 115, 98, 115, 115] s"

section \<open>Conversion\<close>

datatype conv_error = TooShort | NotMipsel | NotOmagic | TwoData | TwoBss | UnknownSegment | HostError

definition bindC :: "conv_error + 'a \<Rightarrow> ('a \<Rightarrow> conv_error + 'b) \<Rightarrow> conv_error + 'b" where
  "bindC m f = (case m of Inl e \<Rightarrow> Inl e | Inr x \<Rightarrow> f x)"

lemma bindC_simps [simp]: "bindC (Inl e) f = Inl e" "bindC (Inr x) f = f x"
  by (simp_all add: bindC_def)

lemma bindC_eq_Inr [simp]: "bindC m f = Inr y \<longleftrightarrow> (\<exists>x. m = Inr x \<and> f x = Inr y)"
  by (cases m) simp_all

text \<open>\<open>Read\<close>: n bytes and the new position.\<close>

definition conv_read :: "u8 list \<Rightarrow> int \<Rightarrow> int \<Rightarrow> conv_error + (u8 list \<times> int)" where
  "conv_read f n p = (let bs = take (nat n) (drop (nat p) f) in
     if n < 0 then Inl HostError else if int (length bs) \<noteq> n then Inl TooShort else Inr (bs, p + n))"

text \<open>\<open>lseek(fd, q, 0)\<close> fails on a negative \<open>q\<close>, and the position stays.\<close>

definition lseek_set :: "int \<Rightarrow> int \<Rightarrow> int" where "lseek_set q p = (if 0 \<le> q then q else p)"

definition int_add :: "int \<Rightarrow> int \<Rightarrow> int" where "int_add a b = sint (word_of_int (a + b) :: u32)"

record conv =
  inPos :: int
  outPos :: nat
  outFile :: "u8 list"
  noffH :: NoffHeader
  inNoffFile :: int

text \<open>\<open>Write\<close> at the position of \<open>fdOut\<close>; a gap before it reads as zeros.\<close>

definition conv_write :: "u8 list \<Rightarrow> conv \<Rightarrow> conv" where
  "conv_write bs c = (let p = outPos c in
     c\<lparr>outFile := overlay p bs (outFile c @ replicate (p + length bs - length (outFile c)) 0), outPos := p + length bs\<rparr>)"

definition copy_section :: "u8 list \<Rightarrow> scnhdr \<Rightarrow> conv \<Rightarrow> conv_error + conv" where
  "copy_section inp s c =
     bindC (conv_read inp (s_size s) (lseek_set (s_scnptr s) (inPos c))) (\<lambda>(bs, p).
     Inr ((conv_write bs c)\<lparr>inPos := p, inNoffFile := int_add (inNoffFile c) (s_size s)\<rparr>))"

definition copied_segment :: "scnhdr \<Rightarrow> conv \<Rightarrow> Segment" where
  "copied_segment s c = \<lparr>virtualAddr = s_paddr s, inFileAddr = inNoffFile c, seg_size = s_size s\<rparr>"

definition convert_bss :: "scnhdr \<Rightarrow> conv \<Rightarrow> conv_error + conv" where
  "convert_bss s c =
     (let u = uninitData (noffH c) in
      if seg_size u \<noteq> 0 then
        if s_paddr s = int_add (virtualAddr u) (seg_size u) then Inl TwoBss
        else Inr (c\<lparr>noffH := (noffH c)\<lparr>uninitData := u\<lparr>seg_size := int_add (seg_size u) (s_size s)\<rparr>\<rparr>\<rparr>)
      else Inr (c\<lparr>noffH := (noffH c)\<lparr>uninitData := u\<lparr>virtualAddr := s_paddr s, seg_size := s_size s\<rparr>\<rparr>\<rparr>))"

text \<open>One round of the loop over the sections.\<close>

definition convert_section :: "u8 list \<Rightarrow> scnhdr \<Rightarrow> conv \<Rightarrow> conv_error + conv" where
  "convert_section inp s c =
     (if s_size s = 0 then Inr c
      else if is_text s then copy_section inp s (c\<lparr>noffH := (noffH c)\<lparr>code := copied_segment s c\<rparr>\<rparr>)
      else if is_data s then
        if seg_size (initData (noffH c)) \<noteq> 0 then Inl TwoData
        else copy_section inp s (c\<lparr>noffH := (noffH c)\<lparr>initData := copied_segment s c\<rparr>\<rparr>)
      else if is_bss s then convert_bss s c
      else Inl UnknownSegment)"

fun convert_sections :: "u8 list \<Rightarrow> scnhdr list \<Rightarrow> conv \<Rightarrow> conv_error + conv" where
  "convert_sections inp [] c = Inr c"
| "convert_sections inp (s # ss) c = bindC (convert_section inp s c) (convert_sections inp ss)"

definition ints_of_segment :: "Segment \<Rightarrow> int list" where
  "ints_of_segment g = [virtualAddr g, inFileAddr g, seg_size g]"

definition ints_of_header :: "NoffHeader \<Rightarrow> int list" where
  "ints_of_header h = noffMagic h # ints_of_segment (code h) @ ints_of_segment (initData h) @ ints_of_segment (uninitData h)"

text \<open>The header before the loop; \<open>junk\<close> is what its memory on the stack holds.\<close>

definition empty_header :: "NoffHeader \<Rightarrow> NoffHeader" where
  "empty_header junk = \<lparr>noffMagic = NOFFMAGIC, code = (code junk)\<lparr>seg_size := 0\<rparr>,
     initData = (initData junk)\<lparr>seg_size := 0\<rparr>, uninitData = (uninitData junk)\<lparr>seg_size := 0\<rparr>\<rparr>"

text \<open>The section headers, or the error of the checks before them.\<close>

definition read_sections :: "u8 list \<Rightarrow> conv_error + (scnhdr list \<times> int)" where
  "read_sections inp =
     bindC (conv_read inp filehdr_bytes 0) (\<lambda>(fileh, p1).
     if ushort_at 0 fileh \<noteq> MIPSELMAGIC then Inl NotMipsel else
     bindC (conv_read inp aouthdr_bytes p1) (\<lambda>(systemh, p2).
     if ushort_at 0 systemh \<noteq> OMAGIC then Inl NotOmagic else
     let numsections = ushort_at 2 fileh in
     bindC (conv_read inp (numsections * int scnhdr_bytes) p2) (\<lambda>(bs, p3).
     Inr (scnhdrs (nat numsections) bs, p3))))"

definition coff2noff :: "NoffHeader \<Rightarrow> u8 list \<Rightarrow> conv_error + u8 list" where
  "coff2noff junk inp =
     bindC (read_sections inp) (\<lambda>(sections, p).
     bindC (convert_sections inp sections
        \<lparr>inPos = p, outPos = noff_header_bytes, outFile = [], noffH = empty_header junk, inNoffFile = int noff_header_bytes\<rparr>) (\<lambda>c.
     Inr (outFile (conv_write (encode_ints (ints_of_header (noffH c))) (c\<lparr>outPos := 0\<rparr>)))))"

section \<open>What the converted file holds\<close>

definition the_section :: "(scnhdr \<Rightarrow> bool) \<Rightarrow> scnhdr list \<Rightarrow> scnhdr option" where
  "the_section P ss = (let xs = filter (\<lambda>s. s_size s \<noteq> 0 \<and> P s) ss in if xs = [] then None else Some (last xs))"

definition section_bytes :: "u8 list \<Rightarrow> scnhdr \<Rightarrow> u8 list" where
  "section_bytes inp s = take (nat (s_size s)) (drop (nat (s_scnptr s)) inp)"

lemma the_section_Nil [simp]: "the_section P [] = None" by (simp add: the_section_def)

lemma the_section_snoc: "the_section P (ss @ [s]) = (if s_size s \<noteq> 0 \<and> P s then Some s else the_section P ss)"
  by (simp add: the_section_def Let_def)

text \<open>\<open>holds inp f g so\<close>: segment \<open>g\<close> of file \<open>f\<close> is section \<open>so\<close> of the input.\<close>

definition holds :: "u8 list \<Rightarrow> u8 list \<Rightarrow> Segment \<Rightarrow> scnhdr option \<Rightarrow> bool" where
  "holds inp f g so = (case so of None \<Rightarrow> seg_size g = 0
     | Some s \<Rightarrow> 0 < s_size s \<and> seg_size g = s_size s \<and> virtualAddr g = s_paddr s
         \<and> (\<exists>q \<ge> noff_header_bytes. inFileAddr g = sint (word_of_int (int q) :: u32) \<and> q + nat (s_size s) \<le> length f
              \<and> take (nat (s_size s)) (drop q f) = section_bytes inp s))"

text \<open>The file written so far: nothing, or 40 zeros and the copied sections.\<close>

definition conv_ok :: "u8 list \<Rightarrow> scnhdr list \<Rightarrow> conv \<Rightarrow> bool" where
  "conv_ok inp ds c \<longleftrightarrow> noff_header_bytes \<le> outPos c \<and> (outFile c = [] \<and> outPos c = noff_header_bytes \<or> length (outFile c) = outPos c)
     \<and> inNoffFile c = sint (word_of_int (int (outPos c)) :: u32) \<and> noffMagic (noffH c) = NOFFMAGIC
     \<and> list_all is_int32 (ints_of_header (noffH c))
     \<and> holds inp (outFile c) (code (noffH c)) (the_section is_text ds)
     \<and> holds inp (outFile c) (initData (noffH c)) (the_section is_data ds)"

lemma is_int32_sint: "is_int32 (sint (w :: u32))" using sint_greater_eq [of w] sint_less [of w] by (simp add: is_int32_def)

lemma NOFFMAGIC_int32 [simp]: "is_int32 NOFFMAGIC" by (simp add: is_int32_def NOFFMAGIC_def)

lemma int_add_int32: "is_int32 (int_add a b)" by (simp add: int_add_def is_int32_sint)

lemma int_add_wrap: "int_add (sint (word_of_int x :: u32)) y = sint (word_of_int (x + y) :: u32)"
proof -
  have "(word_of_int (sint (word_of_int x :: u32)) :: u32) = word_of_int x" by (rule bit_word_eqI) (simp add: bit_simps)
  then show ?thesis by (simp add: int_add_def wi_hom_add [symmetric])
qed

lemma holds_append: "holds inp f g so \<Longrightarrow> holds inp (f @ bs) g so"
  by (fastforce simp: holds_def split: option.splits)

lemma name_second: "name_is (a # b # n) s \<Longrightarrow> s_name s ! 1 = b"
  by (cases "s_name s"; cases "tl (s_name s)") (auto simp: name_is_def)

lemma text_data_names: "is_text s \<Longrightarrow> \<not> is_data s" "is_text s \<Longrightarrow> \<not> is_bss s" "is_data s \<Longrightarrow> \<not> is_bss s"
  by (auto simp: is_text_def is_data_def is_bss_def dest!: name_second)

lemma conv_write_end:
  assumes "noff_header_bytes \<le> outPos c" "outFile c = [] \<and> outPos c = noff_header_bytes \<or> length (outFile c) = outPos c"
  shows "outFile (conv_write bs c) = outFile c @ replicate (outPos c - length (outFile c)) 0 @ bs"
    "outPos (conv_write bs c) = outPos c + length bs" "noffH (conv_write bs c) = noffH c" "inNoffFile (conv_write bs c) = inNoffFile c"
    "length (outFile (conv_write bs c)) = outPos c + length bs"
  using assms by (auto simp: conv_write_def Let_def overlay_def)

text \<open>Copying one section: what was there stays, the new bytes are at the end.\<close>

lemma copy_section_ok:
  assumes "copy_section inp s c = Inr c'" "noff_header_bytes \<le> outPos c" "s_size s \<noteq> 0" "0 \<le> s_scnptr s"
    and "outFile c = [] \<and> outPos c = noff_header_bytes \<or> length (outFile c) = outPos c"
    and "inNoffFile c = sint (word_of_int (int (outPos c)) :: u32)"
  shows "\<exists>pad. outFile c' = outFile c @ pad" "length (outFile c') = outPos c'" "noff_header_bytes \<le> outPos c'" "noffH c' = noffH c"
    "inNoffFile c' = sint (word_of_int (int (outPos c')) :: u32)" "holds inp (outFile c') (copied_segment s c) (Some s)"
proof -
  let ?bs = "section_bytes inp s"
  have len: "0 < s_size s" "int (length ?bs) = s_size s" and c': "noffH c' = noffH (conv_write ?bs c)"
    "outFile c' = outFile (conv_write ?bs c)" "outPos c' = outPos (conv_write ?bs c)" "inNoffFile c' = int_add (inNoffFile c) (s_size s)"
    using assms(1,3,4) by (auto simp: copy_section_def conv_read_def Let_def lseek_set_def section_bytes_def conv_write_def split: if_splits)
  note w = conv_write_end [OF assms(2,5), of ?bs]
  show "\<exists>pad. outFile c' = outFile c @ pad" "length (outFile c') = outPos c'" "noff_header_bytes \<le> outPos c'" "noffH c' = noffH c"
    using c' w assms(2) by simp_all
  show "inNoffFile c' = sint (word_of_int (int (outPos c')) :: u32)"
    unfolding c' w assms(6) int_add_wrap using len(2) by simp
  have n: "nat (s_size s) = length ?bs" using len by simp
  have "drop (outPos c) (outFile c') = ?bs" using c'(2) w(1) assms(5) by auto
  then show "holds inp (outFile c') (copied_segment s c) (Some s)"
    using len w(5) c'(2) assms(2,6) by (auto simp: holds_def copied_segment_def n intro!: exI [of _ "outPos c"])
qed

lemma convert_section_ok:
  assumes "conv_ok inp ds c" "convert_section inp s c = Inr c'" "0 \<le> s_scnptr s" "is_int32 (s_paddr s)" "is_int32 (s_size s)"
  shows "conv_ok inp (ds @ [s]) c'"
proof (cases "s_size s \<noteq> 0 \<and> (is_text s \<or> is_data s)")
  case True
  note inv = assms(1) [unfolded conv_ok_def]
  obtain h where h: "copy_section inp s (c\<lparr>noffH := h\<rparr>) = Inr c'"
    "h = (if is_text s then (noffH c)\<lparr>code := copied_segment s c\<rparr> else (noffH c)\<lparr>initData := copied_segment s c\<rparr>)"
    using assms(2) True by (auto simp: convert_section_def split: if_splits)
  have pre: "noff_header_bytes \<le> outPos (c\<lparr>noffH := h\<rparr>)" "s_size s \<noteq> 0" "0 \<le> s_scnptr s"
    "outFile (c\<lparr>noffH := h\<rparr>) = [] \<and> outPos (c\<lparr>noffH := h\<rparr>) = noff_header_bytes \<or> length (outFile (c\<lparr>noffH := h\<rparr>)) = outPos (c\<lparr>noffH := h\<rparr>)"
    "inNoffFile (c\<lparr>noffH := h\<rparr>) = sint (word_of_int (int (outPos (c\<lparr>noffH := h\<rparr>))) :: u32)"
    using inv True assms(3) by simp_all
  note cp = copy_section_ok [OF h(1) pre]
  obtain pad where pad: "outFile c' = outFile c @ pad" using cp(1) by auto
  have seg: "copied_segment s (c\<lparr>noffH := h\<rparr>) = copied_segment s c" by (simp add: copied_segment_def)
  have i32: "list_all is_int32 (ints_of_segment (copied_segment s c))"
    using assms(4,5) inv by (simp add: ints_of_segment_def copied_segment_def is_int32_sint)
  show ?thesis
    using inv True text_data_names [of s] cp(2-6) h(2) i32 holds_append [of inp "outFile c" _ _ pad] unfolding seg
    by (cases "is_text s") (simp_all add: conv_ok_def the_section_snoc pad ints_of_header_def)
next
  case False
  note inv = assms(1) [unfolded conv_ok_def]
  have "outPos c' = outPos c \<and> outFile c' = outFile c \<and> inNoffFile c' = inNoffFile c \<and> noffMagic (noffH c') = noffMagic (noffH c)
    \<and> code (noffH c') = code (noffH c) \<and> initData (noffH c') = initData (noffH c) \<and> list_all is_int32 (ints_of_header (noffH c'))"
    using assms(2,4,5) False inv int_add_int32
    by (auto simp: convert_section_def convert_bss_def Let_def ints_of_header_def ints_of_segment_def split: if_splits)
  then show ?thesis using False inv by (auto simp: conv_ok_def the_section_snoc)
qed

definition sane :: "scnhdr \<Rightarrow> bool" where
  "sane s \<longleftrightarrow> 0 \<le> s_scnptr s \<and> is_int32 (s_paddr s) \<and> is_int32 (s_size s)"

lemma convert_sections_ok:
  "convert_sections inp ss c = Inr c' \<Longrightarrow> conv_ok inp ds c \<Longrightarrow> list_all sane ss \<Longrightarrow> conv_ok inp (ds @ ss) c'"
proof (induction ss arbitrary: ds c)
  case (Cons s ss)
  then obtain c1 where c1: "convert_section inp s c = Inr c1" "convert_sections inp ss c1 = Inr c'" by auto
  have "conv_ok inp (ds @ [s]) c1" using convert_section_ok [OF Cons.prems(2) c1(1)] Cons.prems(3) by (simp add: sane_def)
  then show ?case using Cons.IH [OF c1(2), of "ds @ [s]"] Cons.prems(3) by simp
qed simp

lemma header_of_ints_of_header: "header_of_ints (ints_of_header h) = h"
  by (cases h; cases "code h"; cases "initData h"; cases "uninitData h") (simp add: header_of_ints_def ints_of_header_def ints_of_segment_def)

lemma length_ints_of_header [simp]: "length (ints_of_header h) = 10"
  by (simp add: ints_of_header_def ints_of_segment_def)

text \<open>Writing the header over the first 40 bytes.\<close>

lemma holds_header:
  assumes "holds inp f g so" "length hb = noff_header_bytes"
  shows "holds inp (hb @ drop noff_header_bytes f) g so"
proof -
  have "drop q (hb @ drop noff_header_bytes f) = drop q f" if "noff_header_bytes \<le> q" for q
    using assms(2) that by simp
  then show ?thesis using assms by (fastforce simp: holds_def split: option.splits)
qed

lemma scnhdrs_sane: "list_all (\<lambda>s. 0 \<le> s_scnptr s) (scnhdrs n bs) \<Longrightarrow> list_all sane (scnhdrs n bs)"
  by (auto simp: list_all_iff scnhdrs_def sane_def scnhdr_of_bytes_def long_at_def is_int32_sint)

lemma coff2noff_image:
  assumes "coff2noff junk inp = Inr out" "read_sections inp = Inr (ss, p)" "list_all (\<lambda>s. 0 \<le> s_scnptr s) ss"
    and "list_all is_int32 (ints_of_header junk)"
  shows "\<exists>h. header_of_ints (decode_ints (take noff_header_bytes out)) = h \<and> noffMagic h = NOFFMAGIC \<and> noff_header_bytes \<le> length out
    \<and> holds inp out (code h) (the_section is_text ss) \<and> holds inp out (initData h) (the_section is_data ss)"
proof -
  let ?c0 = "\<lparr>inPos = p, outPos = noff_header_bytes, outFile = [], noffH = empty_header junk, inNoffFile = int noff_header_bytes\<rparr>"
  obtain c where c: "convert_sections inp ss ?c0 = Inr c"
    and out: "out = outFile (conv_write (encode_ints (ints_of_header (noffH c))) (c\<lparr>outPos := 0\<rparr>))"
    using assms(1,2) by (auto simp: coff2noff_def)
  have "list_all sane ss"
    using assms(2,3) scnhdrs_sane by (auto simp: read_sections_def Let_def split: if_splits)
  moreover have "conv_ok inp [] ?c0"
    using assms(4) by (simp add: conv_ok_def holds_def empty_header_def ints_of_header_def ints_of_segment_def noff_header_bytes_def is_int32_def NOFFMAGIC_def)
  ultimately have ok: "conv_ok inp ss c" using convert_sections_ok [OF c] by fastforce
  let ?h = "noffH c" and ?hd = "encode_ints (ints_of_header (noffH c))"
  have l: "length ?hd = noff_header_bytes" by (simp add: noff_header_bytes_def)
  have o: "out = ?hd @ drop noff_header_bytes (outFile c)"
    using ok l by (auto simp: out conv_write_def Let_def overlay_def conv_ok_def)
  have "take noff_header_bytes out = ?hd @ []" using l by (simp add: o)
  then have "header_of_ints (decode_ints (take noff_header_bytes out)) = ?h"
    using decode_encode_ints [of "ints_of_header ?h" "[]"] ok by (simp add: conv_ok_def header_of_ints_of_header)
  then show ?thesis
    using ok l holds_header [OF _ l] by (auto simp: o conv_ok_def)
qed

section \<open>From the COFF file to memory\<close>

definition program_fits :: "NoffHeader \<Rightarrow> bool" where
  "program_fits h \<longleftrightarrow> list_all (\<lambda>g. 0 < seg_size g \<longrightarrow> 0 \<le> virtualAddr g \<and> virtualAddr g + seg_size g \<le> 4096) [code h, initData h]
     \<and> 0 \<le> seg_size (uninitData h)
     \<and> seg_size (code h) + seg_size (initData h) + seg_size (uninitData h) + UserStackSize \<le> MemorySize"

definition place_section :: "u8 list \<Rightarrow> scnhdr option \<Rightarrow> u8 list \<Rightarrow> u8 list" where
  "place_section inp so mem = (case so of None \<Rightarrow> mem | Some s \<Rightarrow> overlay (nat (s_paddr s)) (section_bytes inp s) mem)"

lemma holds_segment:
  assumes "holds inp f g so" "length f < 2147483648" "0 < seg_size g \<longrightarrow> 0 \<le> virtualAddr g \<and> virtualAddr g + seg_size g \<le> 4096"
  shows "segment_ok g f" "put_segment g f mem = place_section inp so mem"
proof -
  have "segment_ok g f \<and> put_segment g f mem = place_section inp so mem"
  proof (cases so)
    case None
    then show ?thesis using assms by (simp add: holds_def segment_ok_def put_segment_def place_section_def)
  next
    case (Some s)
    then obtain q where q: "inFileAddr g = sint (word_of_int (int q) :: u32)" "q + nat (s_size s) \<le> length f"
      "take (nat (s_size s)) (drop q f) = section_bytes inp s" "0 < s_size s" "seg_size g = s_size s" "virtualAddr g = s_paddr s"
      using assms(1) by (auto simp: holds_def)
    have "is_int32 (int q)" using q(2) assms(2) by (simp add: is_int32_def)
    then have "inFileAddr g = int q" using q(1) sint_of_int32 [of "int q"] by (simp only:)
    then show ?thesis using q assms(3) Some by (simp add: segment_ok_def put_segment_def place_section_def)
  qed
  then show "segment_ok g f" "put_segment g f mem = place_section inp so mem" by simp_all
qed

text \<open>C37: from a COFF program to memory.  The file that \<open>coff2noff\<close> writes is accepted by the
  loader, and after loading it (in a build with \<open>USE_SWAP\<close>, on an empty machine) the last non-empty \<open>.text\<close> section and the
  \<open>.data\<close> or \<open>.rdata\<close> section lie at their addresses with the bytes that the COFF file has for them, whatever other sections there
  are and in whatever order.\<close>

theorem coff_program_loaded:
  assumes "coff2noff junk inp = Inr out" "read_sections inp = Inr (ss, p)" "list_all (\<lambda>s. 0 \<le> s_scnptr s) ss"
    and "list_all is_int32 (ints_of_header junk)" "length out < 2147483648"
    and "h = header_of_ints (decode_ints (take noff_header_bytes out))" "program_fits h"
    and "length jb = noff_header_bytes" "wf_bitmap (phys_map (mach s))" "marked (phys_map (mach s)) = {}"
    and "NumPhysPages \<le> numBits (phys_map (mach s))" "lastVpn s = 0" "length (mainMemory (mach s)) = 4096"
    and "zeroed = overlay 0 (replicate (nat (divRoundUp (program_size h) PageSize) * 128) 0) (mainMemory (mach s))"
  shows "\<exists>sp s1. new_AddrSpace True jb junkE junkP out s = Inr (sp, s1)
    \<and> mainMemory (mach s1) = place_section inp (the_section is_data ss) (place_section inp (the_section is_text ss) zeroed)"
proof -
  have im: "noffMagic h = NOFFMAGIC" "noff_header_bytes \<le> length out" "holds inp out (code h) (the_section is_text ss)"
    "holds inp out (initData h) (the_section is_data ss)"
    using coff2noff_image [OF assms(1-4)] assms(6) by auto
  have fits: "0 < seg_size (code h) \<longrightarrow> 0 \<le> virtualAddr (code h) \<and> virtualAddr (code h) + seg_size (code h) \<le> 4096"
    "0 < seg_size (initData h) \<longrightarrow> 0 \<le> virtualAddr (initData h) \<and> virtualAddr (initData h) + seg_size (initData h) \<le> 4096"
    using assms(7) by (simp_all add: program_fits_def)
  note g = holds_segment [OF im(3) assms(5) fits(1)] holds_segment [OF im(4) assms(5) fits(2)]
  have "program_ok h out" using im g(1,3) assms(6,7) by (simp add: program_ok_def program_fits_def)
  from new_AddrSpace_first [OF this assms(8-13) refl assms(14), of True junkE junkP] show ?thesis by (auto simp: g(2,4))
qed

text \<open>A COFF file with a \<open>.bss\<close> section of 16 bytes and a \<open>.text\<close> section of 4.\<close>

definition sample_coff :: "u8 list" where
  "sample_coff = [0x62, 1, 2, 0] @ replicate 16 0 @ [7, 1] @ replicate 54 0
     @ [46, 98, 115, 115, 0, 0, 0, 0] @ [8, 0, 0, 0] @ replicate 4 0 @ [16, 0, 0, 0] @ replicate 20 0
     @ [46, 116, 101, 120, 116, 0, 0, 0] @ replicate 8 0 @ [4, 0, 0, 0] @ [156, 0, 0, 0] @ replicate 16 0 @ [1, 2, 3, 4]"

definition zero_header :: NoffHeader where
  "zero_header = header_of_ints (replicate 10 0)"

definition sample_sections :: "scnhdr list" where
  "sample_sections = [\<lparr>s_name = [46, 98, 115, 115, 0, 0, 0, 0], s_paddr = 8, s_size = 16, s_scnptr = 0\<rparr>,
     \<lparr>s_name = [46, 116, 101, 120, 116, 0, 0, 0], s_paddr = 0, s_size = 4, s_scnptr = 156\<rparr>]"

lemma sample_conversion:
  "coff2noff zero_header sample_coff = Inr (encode_ints [NOFFMAGIC, 0, 40, 4, 0, 0, 0, 8, 0, 16] @ [1, 2, 3, 4])"
  "read_sections sample_coff = Inr (sample_sections, 156)"
  by code_simp+

theorem coff_program_loaded_witness:
  "\<exists>sp s1. new_AddrSpace True (replicate 40 0) (\<lambda>_. sample_entry 0 False) 0
      (encode_ints [NOFFMAGIC, 0, 40, 4, 0, 0, 0, 8, 0, 16] @ [1, 2, 3, 4]) sample_loader = Inr (sp, s1)
    \<and> take 4 (mainMemory (mach s1)) = [1, 2, 3, 4]"
proof -
  let ?xs = "[NOFFMAGIC, 0, 40, 4, 0, 0, 0, 8, 0, 16]"
  let ?out = "encode_ints ?xs @ [1, 2, 3, 4]"
  let ?h = "header_of_ints ?xs"
  have "decode_ints (encode_ints ?xs @ []) = ?xs @ decode_ints []"
    by (rule decode_encode_ints) (simp add: is_int32_def NOFFMAGIC_def)
  then have h: "?h = header_of_ints (decode_ints (take noff_header_bytes ?out))"
    by (simp add: noff_header_bytes_def del: encode_ints_simps)
  have fit: "program_fits ?h"
    by (simp add: program_fits_def header_of_ints_def UserStackSize_def machine_consts)
  have sec: "list_all (\<lambda>s. 0 \<le> s_scnptr s) sample_sections" "the_section is_data sample_sections = None"
    "the_section is_text sample_sections = Some (sample_sections ! Suc 0)"
    by code_simp+
  have junk: "list_all is_int32 (ints_of_header zero_header)"
    by (simp add: zero_header_def header_of_ints_def ints_of_header_def ints_of_segment_def is_int32_def numeral_eq_Suc)
  have put: "take 4 (place_section sample_coff None (place_section sample_coff (Some (sample_sections ! Suc 0)) mem)) = [1, 2, 3, 4]" for mem
    by (simp add: place_section_def sample_sections_def section_bytes_def overlay_def sample_coff_def)
  have l: "length ?out < 2147483648" "length (replicate 40 (0 :: u8)) = noff_header_bytes" by (simp_all add: noff_header_bytes_def)
  have z: "lastVpn sample_loader = 0" "length (mainMemory (mach sample_loader)) = 4096"
    by (simp_all add: sample_loader_def sample_machine_def)
  from coff_program_loaded [OF sample_conversion sec(1) junk l(1) h fit l(2) sample_loader_map z refl, of "\<lambda>_. sample_entry 0 False" 0]
  show ?thesis unfolding sec by (auto simp: put)
qed

text \<open>Two non-empty \<open>.bss\<close> or \<open>.sbss\<close> sections, of which the comment says that they must be contiguous: they are refused exactly
  when they are, and otherwise the header describes one block of both sizes at the address of the first.\<close>

theorem bss_contiguity_inverted:
  assumes "is_bss s1" "is_bss s2" "s_size s1 \<noteq> 0" "s_size s2 \<noteq> 0" "seg_size (uninitData (noffH c)) = 0"
  shows "convert_sections inp [s1, s2] c =
    (if s_paddr s2 = int_add (s_paddr s1) (s_size s1) then Inl TwoBss
     else Inr (c\<lparr>noffH := (noffH c)\<lparr>uninitData := (uninitData (noffH c))\<lparr>virtualAddr := s_paddr s1,
       seg_size := int_add (s_size s1) (s_size s2)\<rparr>\<rparr>\<rparr>))"
  using assms text_data_names [of s1] text_data_names [of s2]
  by (auto simp: convert_section_def convert_bss_def Let_def)

theorem bss_contiguity_inverted_witness:
  "convert_sections [] [\<lparr>s_name = [46, 98, 115, 115, 0, 0, 0, 0], s_paddr = 8, s_size = 16, s_scnptr = 0\<rparr>,
       \<lparr>s_name = [46, 115, 98, 115, 115, 0, 0, 0], s_paddr = 24, s_size = 4, s_scnptr = 0\<rparr>]
     \<lparr>inPos = 0, outPos = 40, outFile = [], noffH = zero_header, inNoffFile = 40\<rparr> = Inl TwoBss"
proof -
  let ?s1 = "\<lparr>s_name = [46, 98, 115, 115, 0, 0, 0, 0], s_paddr = 8, s_size = 16, s_scnptr = 0\<rparr>"
  let ?s2 = "\<lparr>s_name = [46, 115, 98, 115, 115, 0, 0, 0], s_paddr = 24, s_size = 4, s_scnptr = 0\<rparr>"
  have "is_bss ?s1" "is_bss ?s2" "int_add 8 16 = 24" by code_simp+
  moreover have "seg_size (uninitData zero_header) = 0" by (simp add: zero_header_def header_of_ints_def numeral_eq_Suc)
  ultimately show ?thesis
    using bss_contiguity_inverted [of ?s1 ?s2 "\<lparr>inPos = 0, outPos = 40, outFile = [], noffH = zero_header, inNoffFile = 40\<rparr>" "[]"] by simp
qed

end
