(* ===== verification/NetPost.thy ===== *)
theory NetPost
  imports Complex_Main Interrupts Synch
begin

text \<open>
  machine/network.cc and network/post.cc: the network device of a machine and the post office on top of
  it.  The UNIX socket of a machine is the queue of the packets that were sent to it; headers and data go
  through the bytes of a packet as in the code.  An operation returns the interrupts it schedules; the
  code between two points where a thread can wait is one function, as in \<open>Synch\<close>.  The step relation at
  the end runs any number of machines, every interrupt and thread in any order.
\<close>

section \<open>Packets\<close>

definition NetworkTime :: int where "NetworkTime = 100"

record PacketHeader =
  pkt_to :: int
  pkt_from :: int
  pkt_length :: u32

record MailHeader =
  mail_to :: int
  mail_from :: int
  mail_length :: u32

definition header_size :: nat where "header_size = 12"   \<comment> \<open>\<open>sizeof\<close> of either header\<close>
definition MaxWireSize :: nat where "MaxWireSize = 64"
definition MaxPacketSize :: nat where "MaxPacketSize = MaxWireSize - header_size"
definition MaxMailSize :: nat where "MaxMailSize = MaxPacketSize - header_size"

lemmas wire_consts = header_size_def MaxWireSize_def MaxPacketSize_def MaxMailSize_def

text \<open>The 12 bytes of a header in memory.\<close>

definition net_header_bytes :: "int \<Rightarrow> int \<Rightarrow> u32 \<Rightarrow> u8 list" where
  "net_header_bytes a b n = word_bytes (word_of_int a) @ word_bytes (word_of_int b) @ word_bytes n"

definition header_int :: "nat \<Rightarrow> u8 list \<Rightarrow> u32" where
  "header_int k bs = bytes_word (take 4 (drop k bs))"

definition packet_header_of :: "u8 list \<Rightarrow> PacketHeader" where
  "packet_header_of bs = \<lparr>pkt_to = sint (header_int 0 bs), pkt_from = sint (header_int 4 bs), pkt_length = header_int 8 bs\<rparr>"

definition mail_header_of :: "u8 list \<Rightarrow> MailHeader" where
  "mail_header_of bs = \<lparr>mail_to = sint (header_int 0 bs), mail_from = sint (header_int 4 bs), mail_length = header_int 8 bs\<rparr>"

section \<open>The network device\<close>

record Network =
  ident :: int
  chanceToWork :: real
  sendBusy :: bool
  inHdr :: PacketHeader
  inbox :: "u8 list"

datatype net_handler = NetworkReadPoll | NetworkSendDone

type_synonym request = "net_handler \<times> int \<times> IntType"

text \<open>\<open>junkH\<close> and \<open>junkB\<close> are what the members without a value hold.\<close>

definition new_Network :: "PacketHeader \<Rightarrow> u8 list \<Rightarrow> int \<Rightarrow> real \<Rightarrow> request list \<times> Network" where
  "new_Network junkH junkB addr reliability =
     ([(NetworkReadPoll, NetworkTime, NetworkRecvInt)],
      \<lparr>ident = addr, chanceToWork = (if reliability < 0 then 0 else if reliability > 1 then 1 else reliability),
       sendBusy = False, inHdr = junkH\<lparr>pkt_length := 0\<rparr>, inbox = junkB\<rparr>)"

text \<open>\<open>True\<close> when it calls the handler for an arrived packet.\<close>

definition CheckPktAvail :: "Network \<Rightarrow> u8 list list \<Rightarrow> Statistics \<Rightarrow>
    (request list \<times> bool \<times> Network \<times> u8 list list \<times> Statistics) res" where
  "CheckPktAvail n sock st =
     (let rq = [(NetworkReadPoll, NetworkTime, NetworkRecvInt)] in
      if pkt_length (inHdr n) \<noteq> 0 then Inr (rq, False, n, sock, st)
      else case sock of
        [] \<Rightarrow> Inr (rq, False, n, sock, st)
      | p # ps \<Rightarrow>
          if length p < MaxWireSize then Inl AssertFail
          else
            let h = packet_header_of p; len = unat (pkt_length h) in
            if pkt_to h = ident n \<and> len \<le> MaxPacketSize
            then Inr (rq, True, n\<lparr>inHdr := h, inbox := overlay 0 (take len (drop header_size p)) (inbox n)\<rparr>, ps,
                      st\<lparr>numPacketsRecvd := numPacketsRecvd st + 1\<rparr>)
            else Inl AssertFail)"

definition SendDone :: "Network \<Rightarrow> Statistics \<Rightarrow> Network \<times> Statistics" where
  "SendDone n st = (n\<lparr>sendBusy := False\<rparr>, st\<lparr>numPacketsSent := numPacketsSent st + 1\<rparr>)"

text \<open>The packet that goes out, \<open>None\<close> when it is lost; \<open>random\<close> is the result of \<open>Random()\<close>.\<close>

definition Network_Send :: "u8 list \<Rightarrow> int \<Rightarrow> PacketHeader \<Rightarrow> u8 list \<Rightarrow> Network \<Rightarrow> (request list \<times> u8 list option) res" where
  "Network_Send junk random hdr data n =
     (let len = unat (pkt_length hdr) in
      if \<not> (\<not> sendBusy n \<and> 0 < len \<and> len \<le> MaxPacketSize \<and> pkt_from hdr = ident n) then Inl AssertFail
      else
        let rq = [(NetworkSendDone, NetworkTime, NetworkSendInt)] in
        if real_of_int (random smod 100) \<ge> chanceToWork n * 100 then Inr (rq, None)
        else if length data < len then Inl BadAccess
        else Inr (rq, Some (take MaxWireSize
               (overlay header_size (take len data) (overlay 0 (net_header_bytes (pkt_to hdr) (pkt_from hdr) (pkt_length hdr)) junk)))))"

text \<open>The header and the caller's buffer.\<close>

definition Network_Receive :: "u8 list \<Rightarrow> Network \<Rightarrow> PacketHeader \<times> u8 list \<times> Network" where
  "Network_Receive data n =
     (let hdr = inHdr n; n1 = n\<lparr>inHdr := hdr\<lparr>pkt_length := 0\<rparr>\<rparr>; len = unat (pkt_length hdr) in
      (hdr, if len \<noteq> 0 then overlay 0 (take len (inbox n)) data else data, n1))"

section \<open>Mail boxes\<close>

text \<open>Only the first \<open>mail_length\<close> bytes of \<open>data\<close> are ever written or read.\<close>

record Mail =
  pktHdr :: PacketHeader
  mailHdr :: MailHeader
  mail_data :: "u8 list"

type_synonym MailBox = "Mail SynchList"

definition new_Mail :: "PacketHeader \<Rightarrow> MailHeader \<Rightarrow> u8 list \<Rightarrow> Mail res" where
  "new_Mail pktH mailH msgData =
     (let len = unat (mail_length mailH) in
      if len > MaxMailSize then Inl AssertFail
      else if length msgData < len then Inl BadAccess
      else Inr \<lparr>pktHdr = pktH, mailHdr = mailH, mail_data = take len msgData\<rparr>)"

text \<open>\<open>None\<close> when the thread has to wait, for the lock of the list or for a message; it then calls again.\<close>

definition MailBox_Put :: "nat \<Rightarrow> PacketHeader \<Rightarrow> MailHeader \<Rightarrow> u8 list \<Rightarrow> MailBox \<Rightarrow> (nat list option \<times> MailBox) res" where
  "MailBox_Put t pktH mailH data b =
     bindR (new_Mail pktH mailH data) (\<lambda>mail.
     let (got, l) = Acquire t (sl_lock b) in
     if \<not> got then Inr (None, b\<lparr>sl_lock := l\<rparr>)
     else bindR (SynchList_Append t mail (b\<lparr>sl_lock := l\<rparr>)) (\<lambda>(ws, b1). Inr (Some ws, b1)))"

definition MailBox_Get :: "nat \<Rightarrow> MailBox \<Rightarrow> (Mail option \<times> MailBox) res" where
  "MailBox_Get t b =
     (let (got, l) = Acquire t (sl_lock b) in
      if \<not> got then Inr (None, b\<lparr>sl_lock := l\<rparr>)
      else bindR (SynchList_Remove t (b\<lparr>sl_lock := l\<rparr>)) (\<lambda>(mail, ws, b1). Inr (mail, b1)))"

section \<open>The post office\<close>

record PostOffice =
  network :: Network
  netAddr :: int
  numBoxes :: int
  boxes :: "MailBox list"
  messageAvailable :: Semaphore
  messageSent :: Semaphore
  sendLock :: Lock

definition new_PostOffice :: "PacketHeader \<Rightarrow> u8 list \<Rightarrow> int \<Rightarrow> real \<Rightarrow> int \<Rightarrow> PostOffice" where
  "new_PostOffice junkH junkB addr reliability nBoxes =
     \<lparr>network = snd (new_Network junkH junkB addr reliability), netAddr = addr, numBoxes = nBoxes,
      boxes = replicate (nat nBoxes) new_SynchList, messageAvailable = new_Semaphore 0, messageSent = new_Semaphore 0,
      sendLock = new_Lock 0\<rparr>"

text \<open>\<open>PostOffice::Send\<close> up to \<open>messageSent->P()\<close>: \<open>None\<close> when it waits for the lock, otherwise the requests,
  the header and the packet.\<close>

definition PostOffice_Send :: "nat \<Rightarrow> u8 list \<Rightarrow> u8 list \<Rightarrow> int \<Rightarrow> PacketHeader \<Rightarrow> MailHeader \<Rightarrow> u8 list \<Rightarrow> PostOffice \<Rightarrow>
    ((request list \<times> PacketHeader \<times> u8 list option) option \<times> PostOffice) res" where
  "PostOffice_Send t junk wire random pktH mailH data po =
     (let len = unat (mail_length mailH) in
      if \<not> (len \<le> MaxMailSize \<and> 0 \<le> mail_to mailH \<and> mail_to mailH < numBoxes po) then Inl AssertFail
      else if length data < len then Inl BadAccess
      else
        let h = pktH\<lparr>pkt_from := netAddr po, pkt_length := mail_length mailH + of_nat header_size\<rparr>;
            buffer = overlay header_size (take len data)
              (overlay 0 (net_header_bytes (mail_to mailH) (mail_from mailH) (mail_length mailH)) junk);
            (got, l) = Acquire t (sendLock po)
        in
        if \<not> got then Inr (None, po\<lparr>sendLock := l\<rparr>)
        else bindR (Network_Send wire random h buffer (network po)) (\<lambda>(rq, p). Inr (Some (rq, h, p), po\<lparr>sendLock := l\<rparr>)))"

text \<open>The rest of it, from \<open>messageSent->P()\<close>: whether it came through.\<close>

definition PostOffice_Send_end :: "nat \<Rightarrow> PostOffice \<Rightarrow> (bool \<times> PostOffice) res" where
  "PostOffice_Send_end t po =
     (let (got, x) = P t (messageSent po) in
      if \<not> got then Inr (False, po\<lparr>messageSent := x\<rparr>)
      else bindR (Release t (sendLock po)) (\<lambda>(ws, l). Inr (True, po\<lparr>messageSent := x, sendLock := l\<rparr>)))"

definition PostOffice_Receive :: "nat \<Rightarrow> int \<Rightarrow> u8 list \<Rightarrow> PostOffice \<Rightarrow>
    ((PacketHeader \<times> MailHeader \<times> u8 list) option \<times> PostOffice) res" where
  "PostOffice_Receive t box data po =
     (if \<not> (0 \<le> box \<and> box < numBoxes po) then Inl AssertFail
      else bindR (MailBox_Get t (boxes po ! nat box)) (\<lambda>(m, b).
        let po1 = po\<lparr>boxes := (boxes po)[nat box := b]\<rparr> in
        case m of None \<Rightarrow> Inr (None, po1)
        | Some mail \<Rightarrow>
            if unat (mail_length (mailHdr mail)) \<le> MaxMailSize
            then Inr (Some (pktHdr mail, mailHdr mail, overlay 0 (mail_data mail) data), po1)
            else Inl AssertFail))"

definition IncomingPacket :: "PostOffice \<Rightarrow> PostOffice" where
  "IncomingPacket po = po\<lparr>messageAvailable := snd (V (messageAvailable po))\<rparr>"

definition PacketSent :: "PostOffice \<Rightarrow> PostOffice" where
  "PacketSent po = po\<lparr>messageSent := snd (V (messageSent po))\<rparr>"

text \<open>The loop of \<open>PostalDelivery\<close> in three pieces: \<open>messageAvailable->P()\<close>, fetching the packet, and the call of
  \<open>Put\<close>, which can wait for the lock of the box.\<close>

definition PostalDelivery_wait :: "nat \<Rightarrow> PostOffice \<Rightarrow> bool \<times> PostOffice" where
  "PostalDelivery_wait t po = (let (got, x) = P t (messageAvailable po) in (got, po\<lparr>messageAvailable := x\<rparr>))"

definition PostalDelivery_fetch :: "u8 list \<Rightarrow> PostOffice \<Rightarrow> ((PacketHeader \<times> MailHeader \<times> u8 list) \<times> PostOffice) res" where
  "PostalDelivery_fetch buffer po =
     (let (h, buf, n) = Network_Receive buffer (network po); mh = mail_header_of buf in
      if 0 \<le> mail_to mh \<and> mail_to mh < numBoxes po \<and> unat (mail_length mh) \<le> MaxMailSize
      then Inr ((h, mh, drop header_size buf), po\<lparr>network := n\<rparr>) else Inl AssertFail)"

definition PostalDelivery_put :: "nat \<Rightarrow> PacketHeader \<times> MailHeader \<times> u8 list \<Rightarrow> PostOffice \<Rightarrow> (bool \<times> PostOffice) res" where
  "PostalDelivery_put t x po = (case x of (h, mh, data) \<Rightarrow>
     bindR (MailBox_Put t h mh data (boxes po ! nat (mail_to mh))) (\<lambda>(done, b).
       Inr (done \<noteq> None, po\<lparr>boxes := (boxes po)[nat (mail_to mh) := b]\<rparr>)))"


section \<open>Machines on a network\<close>

datatype worker_pc = WaitingForMail | HasToken | HasMail "PacketHeader \<times> MailHeader \<times> u8 list"

text \<open>\<open>sending\<close> counts the \<open>NetworkSendDone\<close> interrupts that are pending.\<close>

record machine_node =
  post :: PostOffice
  socket :: "u8 list list"
  node_stats :: Statistics
  worker :: worker_pc
  sending :: nat

text \<open>The machines by address, and what happened so far: the mails that went out to an address, those that
  the network lost, and those that were received from a box.\<close>

record post_world =
  node :: "int \<Rightarrow> machine_node option"
  carried :: "int \<Rightarrow> Mail list"
  lost :: "Mail list"
  fetched :: "int \<Rightarrow> int \<Rightarrow> Mail list"

definition sent_mail :: "PacketHeader \<Rightarrow> MailHeader \<Rightarrow> u8 list \<Rightarrow> Mail" where
  "sent_mail h mh data = \<lparr>pktHdr = h, mailHdr = mh, mail_data = take (unat (mail_length mh)) data\<rparr>"

definition put_node :: "int \<Rightarrow> machine_node \<Rightarrow> post_world \<Rightarrow> post_world" where
  "put_node a n w = w\<lparr>node := (node w)(a \<mapsto> n)\<rparr>"

definition put_packet :: "int \<Rightarrow> u8 list \<Rightarrow> Mail \<Rightarrow> post_world \<Rightarrow> post_world option" where
  "put_packet a p m w = (case node w a of None \<Rightarrow> None
     | Some n \<Rightarrow> Some ((put_node a (n\<lparr>socket := socket n @ [p]\<rparr>) w)\<lparr>carried := (carried w)(a := carried w a @ [m])\<rparr>))"

inductive post_step :: "post_world \<Rightarrow> post_world \<Rightarrow> bool" where
  send: "node w a = Some n \<Longrightarrow> is_int32 (pkt_to ph) \<Longrightarrow> is_int32 (mail_to mh) \<Longrightarrow> is_int32 (mail_from mh) \<Longrightarrow>
     length junk = MaxPacketSize \<Longrightarrow> length wire = MaxWireSize \<Longrightarrow>
     PostOffice_Send t junk wire r ph mh data (post n) = Inr (Some (rq, h, Some p), po) \<Longrightarrow>
     put_packet (pkt_to h) p (sent_mail h mh data) (put_node a (n\<lparr>post := po, sending := sending n + 1\<rparr>) w) = Some w' \<Longrightarrow>
     post_step w w'"
| send_lost: "node w a = Some n \<Longrightarrow>
     PostOffice_Send t junk wire r ph mh data (post n) = Inr (Some (rq, h, None), po) \<Longrightarrow>
     post_step w ((put_node a (n\<lparr>post := po, sending := sending n + 1\<rparr>) w)\<lparr>lost := lost w @ [sent_mail h mh data]\<rparr>)"
| send_wait: "node w a = Some n \<Longrightarrow> PostOffice_Send t junk wire r ph mh data (post n) = Inr (None, po) \<Longrightarrow>
     post_step w (put_node a (n\<lparr>post := po\<rparr>) w)"
| send_done: "node w a = Some n \<Longrightarrow> 0 < sending n \<Longrightarrow> SendDone (network (post n)) (node_stats n) = (nw, st) \<Longrightarrow>
     post_step w (put_node a (n\<lparr>post := PacketSent ((post n)\<lparr>network := nw\<rparr>), node_stats := st, sending := sending n - 1\<rparr>) w)"
| send_end: "node w a = Some n \<Longrightarrow> PostOffice_Send_end t (post n) = Inr (got, po) \<Longrightarrow>
     post_step w (put_node a (n\<lparr>post := po\<rparr>) w)"
| poll: "node w a = Some n \<Longrightarrow> CheckPktAvail (network (post n)) (socket n) (node_stats n) = Inr (rq, called, nw, sock, st) \<Longrightarrow>
     po = (post n)\<lparr>network := nw\<rparr> \<Longrightarrow>
     post_step w (put_node a (n\<lparr>post := if called then IncomingPacket po else po, socket := sock, node_stats := st\<rparr>) w)"
| token: "node w a = Some n \<Longrightarrow> worker n = WaitingForMail \<Longrightarrow> PostalDelivery_wait t (post n) = (got, po) \<Longrightarrow>
     post_step w (put_node a (n\<lparr>post := po, worker := if got then HasToken else WaitingForMail\<rparr>) w)"
| fetch: "node w a = Some n \<Longrightarrow> worker n = HasToken \<Longrightarrow> length buffer = MaxPacketSize \<Longrightarrow>
     PostalDelivery_fetch buffer (post n) = Inr (x, po) \<Longrightarrow>
     post_step w (put_node a (n\<lparr>post := po, worker := HasMail x\<rparr>) w)"
| deliver: "node w a = Some n \<Longrightarrow> worker n = HasMail x \<Longrightarrow> PostalDelivery_put t x (post n) = Inr (done, po) \<Longrightarrow>
     post_step w (put_node a (n\<lparr>post := po, worker := if done then WaitingForMail else HasMail x\<rparr>) w)"
| receive: "node w a = Some n \<Longrightarrow> PostOffice_Receive t box data (post n) = Inr (Some (h, mh, buf), po) \<Longrightarrow>
     post_step w ((put_node a (n\<lparr>post := po\<rparr>) w)\<lparr>fetched := (fetched w)(a := (fetched w a)(box := fetched w a box @ [sent_mail h mh buf]))\<rparr>)"
| receive_wait: "node w a = Some n \<Longrightarrow> PostOffice_Receive t box data (post n) = Inr (None, po) \<Longrightarrow>
     post_step w (put_node a (n\<lparr>post := po\<rparr>) w)"

text \<open>Any number of machines, each with a new post office.\<close>

definition post_init :: "post_world \<Rightarrow> bool" where
  "post_init w \<longleftrightarrow> (\<forall>a. carried w a = []) \<and> lost w = [] \<and> (\<forall>a k. fetched w a k = []) \<and>
     (\<forall>a n. node w a = Some n \<longrightarrow> is_int32 a \<and> socket n = [] \<and> worker n = WaitingForMail \<and> sending n = 0
        \<and> (\<exists>junkH junkB reliability nBoxes. length junkB = MaxPacketSize \<and>
             post n = new_PostOffice junkH junkB a reliability nBoxes))"

section \<open>What is in transit\<close>

definition payload_mail :: "PacketHeader \<Rightarrow> u8 list \<Rightarrow> Mail" where
  "payload_mail h bs = sent_mail h (mail_header_of bs) (drop header_size bs)"

definition payload_ok :: "int \<Rightarrow> PacketHeader \<Rightarrow> u8 list \<Rightarrow> bool" where
  "payload_ok a h bs \<longleftrightarrow> pkt_to h = a \<and> unat (mail_length (mail_header_of bs)) \<le> MaxMailSize
     \<and> pkt_length h = mail_length (mail_header_of bs) + of_nat header_size"

definition packet_mail :: "u8 list \<Rightarrow> Mail" where
  "packet_mail p = payload_mail (packet_header_of p) (drop header_size p)"

definition packet_ok :: "int \<Rightarrow> u8 list \<Rightarrow> bool" where
  "packet_ok a p \<longleftrightarrow> length p = MaxWireSize \<and> payload_ok a (packet_header_of p) (drop header_size p)"

definition worker_mails :: "worker_pc \<Rightarrow> Mail list" where
  "worker_mails wk = (case wk of HasMail (h, mh, data) \<Rightarrow> [sent_mail h mh data] | _ \<Rightarrow> [])"

definition inbox_mails :: "Network \<Rightarrow> Mail list" where
  "inbox_mails n = (if pkt_length (inHdr n) = 0 then [] else [payload_mail (inHdr n) (inbox n)])"

definition in_transit :: "machine_node \<Rightarrow> Mail list" where
  "in_transit n = worker_mails (worker n) @ inbox_mails (network (post n)) @ map packet_mail (socket n)"

definition for_box :: "int \<Rightarrow> Mail list \<Rightarrow> Mail list" where
  "for_box k ms = filter (\<lambda>m. mail_to (mailHdr m) = k) ms"

definition in_box :: "PostOffice \<Rightarrow> int \<Rightarrow> Mail list" where
  "in_box po k = (if 0 \<le> k \<and> k < numBoxes po then sl_list (boxes po ! nat k) else [])"

definition box_ok :: "MailBox \<Rightarrow> bool" where
  "box_ok b \<longleftrightarrow> sem_value (locked (sl_lock b)) = 1 \<and> (\<forall>m \<in> set (sl_list b). length (mail_data m) = unat (mail_length (mailHdr m)))
     \<and> (\<forall>m \<in> set (sl_list b). unat (mail_length (mailHdr m)) \<le> MaxMailSize)
     \<and> (wait_cond_queue (listEmpty b) \<noteq> [] \<longrightarrow> cond_lock (listEmpty b) = Some (lock_id (sl_lock b)))"

definition post_ok :: "int \<Rightarrow> machine_node \<Rightarrow> bool" where
  "post_ok a n \<longleftrightarrow> is_int32 a \<and> netAddr (post n) = a \<and> ident (network (post n)) = a \<and> \<not> sendBusy (network (post n))
     \<and> length (boxes (post n)) = nat (numBoxes (post n)) \<and> (\<forall>b \<in> set (boxes (post n)). box_ok b)
     \<and> sem_value (locked (sendLock (post n))) + int (sending n) + sem_value (messageSent (post n)) = 1
     \<and> sem_value (locked (sendLock (post n))) \<ge> 0 \<and> sem_value (messageSent (post n)) \<ge> 0"

definition worker_ok :: "int \<Rightarrow> worker_pc \<Rightarrow> bool" where
  "worker_ok nBoxes wk = (case wk of HasMail (h, mh, data) \<Rightarrow> 0 \<le> mail_to mh \<and> mail_to mh < nBoxes
       \<and> unat (mail_length mh) \<le> MaxMailSize \<and> unat (mail_length mh) \<le> length data | _ \<Rightarrow> True)"

definition arrivals_ok :: "int \<Rightarrow> machine_node \<Rightarrow> bool" where
  "arrivals_ok a n \<longleftrightarrow> length (inbox (network (post n))) = MaxPacketSize \<and> (\<forall>p \<in> set (socket n). packet_ok a p)
     \<and> (pkt_length (inHdr (network (post n))) \<noteq> 0 \<longrightarrow> payload_ok a (inHdr (network (post n))) (inbox (network (post n))))
     \<and> (worker n = HasToken \<longrightarrow> pkt_length (inHdr (network (post n))) \<noteq> 0)
     \<and> sem_value (messageAvailable (post n)) = (if pkt_length (inHdr (network (post n))) = 0 \<or> worker n = HasToken then 0 else 1)
     \<and> worker_ok (numBoxes (post n)) (worker n)"

definition accounted :: "post_world \<Rightarrow> int \<Rightarrow> machine_node \<Rightarrow> bool" where
  "accounted w a n \<longleftrightarrow> (\<forall>k. for_box k (carried w a) = fetched w a k @ in_box (post n) k @ for_box k (in_transit n))"

definition post_inv :: "post_world \<Rightarrow> bool" where
  "post_inv w \<longleftrightarrow> (\<forall>a n. node w a = Some n \<longrightarrow> post_ok a n \<and> arrivals_ok a n \<and> accounted w a n)"

section \<open>Headers and packets\<close>

lemma header_int_take: "k + 4 \<le> n \<Longrightarrow> header_int k (take n bs) = header_int k bs"
  by (simp add: header_int_def drop_take)

lemma mail_header_of_take: "mail_header_of (take header_size bs) = mail_header_of bs"
  by (simp add: mail_header_of_def header_int_take header_size_def)

lemma header_int_bytes [simp]:
  "header_int 0 (net_header_bytes a b n @ xs) = word_of_int a"
  "header_int 4 (net_header_bytes a b n @ xs) = word_of_int b"
  "header_int 8 (net_header_bytes a b n @ xs) = n"
  by (simp_all add: header_int_def net_header_bytes_def)

lemma length_header_bytes [simp]: "length (net_header_bytes a b n) = header_size"
  by (simp add: net_header_bytes_def header_size_def)

lemma packet_header_of_bytes:
  "is_int32 (pkt_to h) \<Longrightarrow> is_int32 (pkt_from h) \<Longrightarrow>
     packet_header_of (net_header_bytes (pkt_to h) (pkt_from h) (pkt_length h) @ xs) = h"
  by (simp add: packet_header_of_def sint_of_int32)

lemma mail_header_of_bytes:
  "is_int32 (mail_to h) \<Longrightarrow> is_int32 (mail_from h) \<Longrightarrow>
     mail_header_of (net_header_bytes (mail_to h) (mail_from h) (mail_length h) @ xs) = h"
  by (simp add: mail_header_of_def sint_of_int32)

lemma unat_add_header: "unat n \<le> MaxMailSize \<Longrightarrow> unat (n + of_nat header_size :: u32) = unat n + header_size"
  by (simp add: wire_consts unat_word_ariths)

lemma overlay_at: "length ys = k \<Longrightarrow> overlay k xs (ys @ zs) = ys @ xs @ drop (length xs) zs"
  by (simp add: overlay_def)

lemma overlay_front: "overlay 0 xs ys = xs @ drop (length xs) ys"
  by (simp add: overlay_def)

lemma payload_length:
  assumes "payload_ok a h bs"
  shows "unat (pkt_length h) = unat (mail_length (mail_header_of bs)) + header_size" "unat (pkt_length h) \<le> MaxPacketSize"
proof -
  show eq: "unat (pkt_length h) = unat (mail_length (mail_header_of bs)) + header_size"
    using assms by (simp add: payload_ok_def unat_add_header)
  show "unat (pkt_length h) \<le> MaxPacketSize"
    using assms unfolding eq by (simp add: payload_ok_def wire_consts)
qed

text \<open>The payload of a message survives a copy of as many bytes as the header says.\<close>

lemma payload_mail_copy:
  assumes "payload_ok a h bs" "n = unat (pkt_length h)" "n \<le> length bs"
  shows "payload_mail h (take n bs @ xs) = payload_mail h bs" "mail_header_of (take n bs @ xs) = mail_header_of bs"
proof -
  have n: "n = unat (mail_length (mail_header_of bs)) + header_size"
    using assms(1,2) by (simp add: payload_ok_def unat_add_header)
  then have t: "take header_size (take n bs @ xs) = take header_size bs" using assms(3) by (simp add: min_def)
  show m: "mail_header_of (take n bs @ xs) = mail_header_of bs"
    using mail_header_of_take [of "take n bs @ xs"] mail_header_of_take [of bs] unfolding t by simp
  show "payload_mail h (take n bs @ xs) = payload_mail h bs"
  proof -
    let ?k = "unat (mail_length (mail_header_of bs))"
    have "take ?k (drop header_size (take n bs @ xs)) = take ?k (drop header_size bs)"
      using assms(3) n by (simp add: drop_take)
    then show ?thesis unfolding payload_mail_def sent_mail_def m by simp
  qed
qed

lemma payload_ok_copy:
  assumes "payload_ok a h bs" "n = unat (pkt_length h)" "n \<le> length bs"
  shows "payload_ok a h (take n bs @ xs)"
  using assms(1) payload_mail_copy(2) [OF assms] by (simp add: payload_ok_def)

text \<open>Sending: the bytes on the wire are a packet for the machine it is addressed to, with the mail as its contents.\<close>

lemma sent_packet:
  assumes "PostOffice_Send t junk wire r ph mh data po = Inr (Some (rq, h, Some p), po1)"
    and "is_int32 (pkt_to ph)" "is_int32 (netAddr po)" "is_int32 (mail_to mh)" "is_int32 (mail_from mh)"
    and "length junk = MaxPacketSize" "length wire = MaxWireSize"
  shows "packet_ok (pkt_to h) p \<and> packet_mail p = sent_mail h mh data"
proof -
  define ml where "ml = unat (mail_length mh)"
  define hb where "hb = net_header_bytes (mail_to mh) (mail_from mh) (mail_length mh)"
  define rest where "rest = drop (header_size + (ml + header_size)) wire"
  have c: "ml \<le> MaxMailSize" "ml \<le> length data" and h: "h = ph\<lparr>pkt_from := netAddr po, pkt_length := mail_length mh + of_nat header_size\<rparr>"
    using assms(1) by (auto simp: PostOffice_Send_def Let_def ml_def split: if_splits prod.splits)
  have len: "unat (pkt_length h) = ml + header_size" using c(1) by (simp add: h ml_def unat_add_header)
  have buf: "overlay header_size (take ml data) (overlay 0 hb junk) = hb @ take ml data @ drop (header_size + ml) junk"
    using c(2) by (simp add: overlay_front overlay_at hb_def add.commute)
  have "p = take MaxWireSize (overlay header_size (take (ml + header_size) (hb @ take ml data @ drop (header_size + ml) junk))
      (overlay 0 (net_header_bytes (pkt_to h) (pkt_from h) (pkt_length h)) wire))"
    using assms(1) len buf unfolding h
    by (auto simp: PostOffice_Send_def Network_Send_def Let_def ml_def hb_def split: if_splits prod.splits)
  moreover have "take (ml + header_size) (hb @ take ml data @ drop (header_size + ml) junk) = hb @ take ml data"
    using c(2) by (simp add: hb_def)
  ultimately have "p = take MaxWireSize (net_header_bytes (pkt_to h) (pkt_from h) (pkt_length h) @ hb @ take ml data @ rest)"
    using c(2) by (simp add: overlay_front overlay_at hb_def rest_def add.commute add.left_commute)
  moreover have l: "length (net_header_bytes (pkt_to h) (pkt_from h) (pkt_length h) @ hb @ take ml data @ rest) = MaxWireSize"
    using c assms(7) by (simp add: hb_def rest_def wire_consts)
  moreover note take_all [OF eq_imp_le [OF l]]
  ultimately have p: "p = net_header_bytes (pkt_to h) (pkt_from h) (pkt_length h) @ hb @ take ml data @ rest" by argo
  have ph: "packet_header_of p = h" unfolding p using assms(2,3) h by (intro packet_header_of_bytes) simp_all
  have mh: "mail_header_of (hb @ xs) = mh" for xs unfolding hb_def by (rule mail_header_of_bytes [OF assms(4,5)])
  have d: "drop header_size p = hb @ take ml data @ rest" unfolding p by simp
  have "length p = MaxWireSize" using l p by simp
  then show ?thesis
    using c unfolding packet_ok_def packet_mail_def payload_ok_def payload_mail_def sent_mail_def ph d mh
    by (simp add: hb_def h ml_def)
qed

section \<open>One operation at a time\<close>

lemma Acquire_free: "sem_value (locked l) = 1 \<Longrightarrow>
    Acquire t l = (True, l\<lparr>locked := (locked l)\<lparr>sem_value := 0\<rparr>, holder := Some t\<rparr>)"
  by (simp add: Acquire_def P_def)

lemma Release_held: "holder l = Some t \<Longrightarrow>
    Release t l = Inr (fst (V (locked l)), l\<lparr>holder := None, locked := snd (V (locked l))\<rparr>)"
  by (simp add: Release_def split: prod.split)

lemma new_Mail_ok:
  "unat (mail_length mh) \<le> MaxMailSize \<Longrightarrow> unat (mail_length mh) \<le> length data \<Longrightarrow> new_Mail h mh data = Inr (sent_mail h mh data)"
  by (simp add: new_Mail_def sent_mail_def Let_def)

lemma box_ok_new: "box_ok new_SynchList"
  by (simp add: box_ok_def new_SynchList_def new_Lock_def new_Semaphore_def new_Condition_def)

lemma MailBox_Put_ok:
  assumes "box_ok b" "unat (mail_length mh) \<le> MaxMailSize" "unat (mail_length mh) \<le> length data"
  shows "\<exists>ws b1. MailBox_Put t h mh data b = Inr (Some ws, b1) \<and> sl_list b1 = sl_list b @ [sent_mail h mh data] \<and> box_ok b1"
  using assms
  by (cases "wait_cond_queue (listEmpty b)")
    (auto simp: MailBox_Put_def new_Mail_ok box_ok_def Acquire_free SynchList_Append_def Signal_def isHeldByCurrentThread_def
       Release_held sent_mail_def)

lemma MailBox_Get_ok:
  assumes "box_ok b"
  shows "\<exists>b1. MailBox_Get t b = Inr (case sl_list b of [] \<Rightarrow> None | m # _ \<Rightarrow> Some m, b1) \<and> sl_list b1 = tl (sl_list b) \<and> box_ok b1"
  using assms
  by (cases "sl_list b")
    (auto simp: MailBox_Get_def box_ok_def Acquire_free SynchList_Remove_def Wait_def isHeldByCurrentThread_def
       Release_held Let_def)

text \<open>Polling moves the oldest packet of the socket to the inbox, when that is empty.\<close>

lemma CheckPktAvail_cases:
  assumes "CheckPktAvail n sock st = Inr (rq, called, n1, sock1, st1)" "\<forall>p \<in> set sock. packet_ok (ident n) p"
    and "length (inbox n) = MaxPacketSize"
  obtains "\<not> called" "n1 = n" "sock1 = sock"
  | p where "called" "sock = p # sock1" "pkt_length (inHdr n) = 0" "pkt_length (inHdr n1) \<noteq> 0" "inbox_mails n1 = [packet_mail p]"
    "payload_ok (ident n) (inHdr n1) (inbox n1)" "length (inbox n1) = MaxPacketSize" "ident n1 = ident n" "sendBusy n1 = sendBusy n"
    "chanceToWork n1 = chanceToWork n"
proof (cases "pkt_length (inHdr n) \<noteq> 0 \<or> sock = []")
  case True
  then show ?thesis using assms(1) that(1) by (auto simp: CheckPktAvail_def Let_def split: if_splits)
next
  case False
  then obtain p ps where s: "sock = p # ps" by (cases sock) auto
  let ?h = "packet_header_of p" and ?bs = "drop header_size p"
  let ?len = "unat (pkt_length ?h)"
  have ok: "length p = MaxWireSize" "payload_ok (ident n) ?h ?bs" using assms(2) s by (auto simp: packet_ok_def)
  have ml: "?len = unat (mail_length (mail_header_of ?bs)) + header_size" "?len \<le> MaxPacketSize"
    using payload_length [OF ok(2)] by simp_all
  have nz: "pkt_length ?h \<noteq> 0" using ml(1) by (auto simp: header_size_def simp flip: unat_eq_0)
  let ?n1 = "n\<lparr>inHdr := ?h, inbox := overlay 0 (take ?len ?bs) (inbox n)\<rparr>"
  have r: "called" "n1 = ?n1" "sock1 = ps"
    using assms(1) s False ok(1) by (auto simp: CheckPktAvail_def Let_def split: if_splits)
  have le: "?len \<le> length ?bs" using ml(2) ok(1) by (simp add: wire_consts)
  have ib: "inbox ?n1 = take ?len ?bs @ drop ?len (inbox n)" using le by (simp add: overlay_front)
  have m: "payload_mail ?h (inbox ?n1) = packet_mail p"
    unfolding ib packet_mail_def by (rule payload_mail_copy(1) [OF ok(2) refl le])
  have "payload_ok (ident n) ?h (inbox ?n1)" unfolding ib by (rule payload_ok_copy [OF ok(2) refl le])
  moreover have "length (inbox ?n1) = MaxPacketSize" unfolding ib using le ml(2) assms(3) by simp
  ultimately show ?thesis using that(2) [of p] r s False nz m by (simp add: inbox_mails_def)
qed

text \<open>The postal worker takes the packet out of the inbox.\<close>

lemma PostalDelivery_fetch_ok:
  assumes "payload_ok a (inHdr (network po)) (inbox (network po))" "pkt_length (inHdr (network po)) \<noteq> 0"
    and "length (inbox (network po)) = MaxPacketSize" "length buffer = MaxPacketSize"
    and "PostalDelivery_fetch buffer po = Inr (x, po1)"
  shows "worker_mails (HasMail x) = inbox_mails (network po)"
    "po1 = po\<lparr>network := (network po)\<lparr>inHdr := (inHdr (network po))\<lparr>pkt_length := 0\<rparr>\<rparr>\<rparr>"
    "worker_ok (numBoxes po) (HasMail x)"
proof -
  let ?h = "inHdr (network po)" and ?bs = "inbox (network po)"
  let ?len = "unat (pkt_length ?h)"
  have ml: "?len = unat (mail_length (mail_header_of ?bs)) + header_size" "?len \<le> MaxPacketSize"
    using payload_length [OF assms(1)] by simp_all
  have le: "?len \<le> length ?bs" using ml(2) assms(3) by simp
  define buf where "buf = take ?len ?bs @ drop ?len buffer"
  have m: "mail_header_of buf = mail_header_of ?bs" "payload_mail ?h buf = payload_mail ?h ?bs"
    unfolding buf_def using payload_mail_copy [OF assms(1) refl le] by simp_all
  have "Network_Receive buffer (network po) = (?h, buf, (network po)\<lparr>inHdr := ?h\<lparr>pkt_length := 0\<rparr>\<rparr>)"
    using assms(2) le by (simp add: Network_Receive_def Let_def overlay_front buf_def unat_eq_0)
  then have x: "x = (?h, mail_header_of ?bs, drop header_size buf)"
    and po1: "po1 = po\<lparr>network := (network po)\<lparr>inHdr := (inHdr (network po))\<lparr>pkt_length := 0\<rparr>\<rparr>\<rparr>"
    and g: "0 \<le> mail_to (mail_header_of ?bs)" "mail_to (mail_header_of ?bs) < numBoxes po" "unat (mail_length (mail_header_of ?bs)) \<le> MaxMailSize"
    using assms(5) m(1) by (auto simp: PostalDelivery_fetch_def Let_def split: if_splits)
  show "po1 = po\<lparr>network := (network po)\<lparr>inHdr := (inHdr (network po))\<lparr>pkt_length := 0\<rparr>\<rparr>\<rparr>" by (rule po1)
  show "worker_mails (HasMail x) = inbox_mails (network po)"
    using m assms(2) by (simp add: x worker_mails_def inbox_mails_def payload_mail_def)
  have "length buf = MaxPacketSize" using le ml(2) assms(4) by (simp add: buf_def)
  then show "worker_ok (numBoxes po) (HasMail x)"
    using g ml by (simp add: worker_ok_def x wire_consts)
qed

text \<open>The lock of the sender.\<close>

lemma PostOffice_Send_lock:
  assumes "PostOffice_Send t junk wire r ph mh data po = Inr (x, po1)"
  shows "\<exists>l. po1 = po\<lparr>sendLock := l\<rparr> \<and> (case x of
      None \<Rightarrow> sem_value (locked l) = sem_value (locked (sendLock po))
    | Some (rq, h, p) \<Rightarrow> sem_value (locked (sendLock po)) \<noteq> 0 \<and> sem_value (locked l) = sem_value (locked (sendLock po)) - 1
        \<and> pkt_to h = pkt_to ph)"
  using assms
  by (auto simp: PostOffice_Send_def Let_def Acquire_def P_def split: if_splits)

lemma PostOffice_Send_end_lock:
  assumes "PostOffice_Send_end t po = Inr (got, po1)"
  shows "\<exists>x l. po1 = po\<lparr>messageSent := x, sendLock := l\<rparr> \<and>
     (if got then sem_value (messageSent po) \<noteq> 0 \<and> sem_value x = sem_value (messageSent po) - 1
             \<and> sem_value (locked l) = sem_value (locked (sendLock po)) + 1
      else sem_value x = sem_value (messageSent po) \<and> l = sendLock po)"
proof (cases "sem_value (messageSent po) = 0")
  case True
  then have "got = False" "po1 = po\<lparr>messageSent := (messageSent po)\<lparr>sem_queue := sem_queue (messageSent po) @ [t]\<rparr>\<rparr>"
    using assms by (auto simp: PostOffice_Send_end_def P_def)
  then show ?thesis by (intro exI [of _ "(messageSent po)\<lparr>sem_queue := sem_queue (messageSent po) @ [t]\<rparr>"] exI [of _ "sendLock po"]) simp
next
  case False
  then have "holder (sendLock po) = Some t"
    using assms by (auto simp: PostOffice_Send_end_def P_def Release_def split: if_splits)
  then have "got" "po1 = po\<lparr>messageSent := (messageSent po)\<lparr>sem_value := sem_value (messageSent po) - 1\<rparr>,
      sendLock := (sendLock po)\<lparr>holder := None, locked := snd (V (locked (sendLock po)))\<rparr>\<rparr>"
    using assms False by (auto simp: PostOffice_Send_end_def P_def Release_held)
  then show ?thesis
    using False by (intro exI [of _ "(messageSent po)\<lparr>sem_value := sem_value (messageSent po) - 1\<rparr>"]
      exI [of _ "(sendLock po)\<lparr>holder := None, locked := snd (V (locked (sendLock po)))\<rparr>"]) simp
qed

section \<open>The invariant\<close>

lemma post_inv_frame:
  assumes "post_inv w" "post_ok a n" "arrivals_ok a n" "accounted w1 a n" "node w1 = (node w)(a \<mapsto> n)"
    and "\<And>b. b \<noteq> a \<Longrightarrow> carried w1 b = carried w b" "\<And>b. b \<noteq> a \<Longrightarrow> fetched w1 b = fetched w b"
  shows "post_inv w1"
  using assms by (auto simp: post_inv_def accounted_def split: if_splits)

text \<open>A step of one machine that puts no mail into another place of the sequence.\<close>

lemma post_inv_local:
  assumes "post_inv w" "node w a = Some n" "post_ok a n1" "arrivals_ok a n1"
    and "\<And>k. in_box (post n1) k @ for_box k (in_transit n1) = in_box (post n) k @ for_box k (in_transit n)"
  shows "post_inv (put_node a n1 w)"
proof (rule post_inv_frame [OF assms(1,3,4)])
  have "accounted w a n" using assms(1,2) by (simp add: post_inv_def)
  then show "accounted (put_node a n1 w) a n1" by (simp add: accounted_def put_node_def assms(5))
qed (simp_all add: put_node_def)

lemma for_box_nil [simp]: "for_box k [] = []"
  by (simp add: for_box_def)

lemma for_box_append [simp]: "for_box k (xs @ ys) = for_box k xs @ for_box k ys"
  by (simp add: for_box_def)

lemma post_inv_packet:
  assumes "post_inv w" "put_packet a p m w = Some w1" "packet_ok a p" "packet_mail p = m"
  shows "post_inv w1"
proof -
  obtain n where n: "node w a = Some n"
    and w1: "w1 = (put_node a (n\<lparr>socket := socket n @ [p]\<rparr>) w)\<lparr>carried := (carried w)(a := carried w a @ [m])\<rparr>"
    using assms(2) by (auto simp: put_packet_def put_node_def split: option.splits)
  have i: "post_ok a n" "arrivals_ok a n" "accounted w a n" using assms(1) n by (simp_all add: post_inv_def)
  show ?thesis
  proof (rule post_inv_frame [OF assms(1)])
    show "post_ok a (n\<lparr>socket := socket n @ [p]\<rparr>)" using i(1) by (simp add: post_ok_def)
    show "arrivals_ok a (n\<lparr>socket := socket n @ [p]\<rparr>)" using i(2) assms(3) by (auto simp: arrivals_ok_def)
    show "accounted w1 a (n\<lparr>socket := socket n @ [p]\<rparr>)"
      using i(3) assms(4) by (simp add: w1 accounted_def put_node_def in_transit_def)
  qed (simp_all add: w1 put_node_def)
qed

lemmas node_defs = post_ok_def arrivals_ok_def in_box_def in_transit_def

lemma post_inv_send_lock:
  assumes "post_inv w" "node w a = Some n" "PostOffice_Send t junk wire r ph mh data (post n) = Inr (x, po)"
    and "k = (if x = None then sending n else sending n + 1)"
  shows "post_inv (put_node a (n\<lparr>post := po, sending := k\<rparr>) w)"
proof -
  obtain l where l: "po = (post n)\<lparr>sendLock := l\<rparr>" and c: "case x of
      None \<Rightarrow> sem_value (locked l) = sem_value (locked (sendLock (post n)))
    | Some (rq, h, p) \<Rightarrow> sem_value (locked (sendLock (post n))) \<noteq> 0 \<and> sem_value (locked l) = sem_value (locked (sendLock (post n))) - 1
        \<and> pkt_to h = pkt_to ph"
    using PostOffice_Send_lock [OF assms(3)] by blast
  have i: "post_ok a n" "arrivals_ok a n" using assms(1,2) by (simp_all add: post_inv_def)
  show ?thesis
  proof (rule post_inv_local [OF assms(1,2)])
    show "post_ok a (n\<lparr>post := po, sending := k\<rparr>)"
      using i(1) c assms(4) by (cases x) (auto simp: post_ok_def l)
    show "arrivals_ok a (n\<lparr>post := po, sending := k\<rparr>)"
      using i(2) unfolding arrivals_ok_def l by simp
  qed (simp add: in_box_def in_transit_def l)
qed

lemma in_box_put:
  assumes "0 \<le> j" "j < numBoxes po" "length (boxes po) = nat (numBoxes po)"
  shows "in_box (po\<lparr>boxes := (boxes po)[nat j := b]\<rparr>) k = (if k = j then sl_list b else in_box po k)"
  using assms by (auto simp: in_box_def nth_list_update)

lemma post_inv_poll:
  assumes "post_inv w" "node w a = Some n"
    and "CheckPktAvail (network (post n)) (socket n) (node_stats n) = Inr (rq, called, nw, sock, st)" "po = (post n)\<lparr>network := nw\<rparr>"
  shows "post_inv (put_node a (n\<lparr>post := if called then IncomingPacket po else po, socket := sock, node_stats := st\<rparr>) w)"
proof -
  have i: "post_ok a n" "arrivals_ok a n" using assms(1,2) by (simp_all add: post_inv_def)
  have id: "ident (network (post n)) = a" using i(1) by (simp add: post_ok_def)
  have s: "\<forall>p \<in> set (socket n). packet_ok (ident (network (post n))) p" "length (inbox (network (post n))) = MaxPacketSize"
    using i id by (auto simp: arrivals_ok_def)
  show ?thesis using assms(3) s
  proof (cases rule: CheckPktAvail_cases)
    case 1
    show ?thesis
    proof (rule post_inv_local [OF assms(1,2)])
      show "post_ok a (n\<lparr>post := if called then IncomingPacket po else po, socket := sock, node_stats := st\<rparr>)"
        using i(1) 1 by (simp add: post_ok_def assms(4))
      show "arrivals_ok a (n\<lparr>post := if called then IncomingPacket po else po, socket := sock, node_stats := st\<rparr>)"
        using i(2) 1 by (simp add: arrivals_ok_def assms(4))
    qed (simp add: in_box_def in_transit_def assms(4) 1)
  next
    case (2 p)
    have t: "worker n \<noteq> HasToken" using i(2) 2(3) by (auto simp: arrivals_ok_def)
    show ?thesis
    proof (rule post_inv_local [OF assms(1,2)])
      show "post_ok a (n\<lparr>post := if called then IncomingPacket po else po, socket := sock, node_stats := st\<rparr>)"
        using i(1) 2 id by (simp add: post_ok_def assms(4) IncomingPacket_def)
      show "arrivals_ok a (n\<lparr>post := if called then IncomingPacket po else po, socket := sock, node_stats := st\<rparr>)"
        using i(2) 2 id t by (simp add: arrivals_ok_def assms(4) IncomingPacket_def)
    next
      fix k
      have "in_transit (n\<lparr>post := if called then IncomingPacket po else po, socket := sock, node_stats := st\<rparr>) = in_transit n"
        using 2(1,2,3,5) by (simp add: in_transit_def assms(4) IncomingPacket_def inbox_mails_def)
      moreover have "in_box (post (n\<lparr>post := if called then IncomingPacket po else po, socket := sock, node_stats := st\<rparr>)) k = in_box (post n) k"
        by (auto simp: in_box_def assms(4) IncomingPacket_def)
      ultimately show "in_box (post (n\<lparr>post := if called then IncomingPacket po else po, socket := sock, node_stats := st\<rparr>)) k @
          for_box k (in_transit (n\<lparr>post := if called then IncomingPacket po else po, socket := sock, node_stats := st\<rparr>))
        = in_box (post n) k @ for_box k (in_transit n)"
        by (simp only:)
    qed
  qed
qed

lemma post_inv_token:
  assumes "post_inv w" "node w a = Some n" "worker n = WaitingForMail" "PostalDelivery_wait t (post n) = (got, po)"
  shows "post_inv (put_node a (n\<lparr>post := po, worker := if got then HasToken else WaitingForMail\<rparr>) w)"
proof -
  have i: "post_ok a n" "arrivals_ok a n" using assms(1,2) by (simp_all add: post_inv_def)
  obtain x where x: "po = (post n)\<lparr>messageAvailable := x\<rparr>"
    and v: "if got then sem_value (messageAvailable (post n)) \<noteq> 0 \<and> sem_value x = sem_value (messageAvailable (post n)) - 1
       else sem_value x = sem_value (messageAvailable (post n))"
    using assms(4) by (auto simp: PostalDelivery_wait_def P_def split: if_splits)
  show ?thesis
  proof (rule post_inv_local [OF assms(1,2)])
    show "post_ok a (n\<lparr>post := po, worker := if got then HasToken else WaitingForMail\<rparr>)" using i(1) by (simp add: post_ok_def x)
    show "arrivals_ok a (n\<lparr>post := po, worker := if got then HasToken else WaitingForMail\<rparr>)"
      using i(2) v assms(3) by (auto simp: arrivals_ok_def worker_ok_def x split: if_splits)
  qed (simp add: in_box_def in_transit_def worker_mails_def x assms(3))
qed

lemma post_inv_fetch:
  assumes "post_inv w" "node w a = Some n" "worker n = HasToken" "length buffer = MaxPacketSize"
    and "PostalDelivery_fetch buffer (post n) = Inr (x, po)"
  shows "post_inv (put_node a (n\<lparr>post := po, worker := HasMail x\<rparr>) w)"
proof -
  have i: "post_ok a n" "arrivals_ok a n" using assms(1,2) by (simp_all add: post_inv_def)
  have p: "payload_ok a (inHdr (network (post n))) (inbox (network (post n)))" "pkt_length (inHdr (network (post n))) \<noteq> 0"
    "length (inbox (network (post n))) = MaxPacketSize"
    using i(2) assms(3) by (auto simp: arrivals_ok_def)
  note f = PostalDelivery_fetch_ok [OF p assms(4,5)]
  show ?thesis
  proof (rule post_inv_local [OF assms(1,2)])
    show "post_ok a (n\<lparr>post := po, worker := HasMail x\<rparr>)" using i(1) by (simp add: post_ok_def f(2))
    show "arrivals_ok a (n\<lparr>post := po, worker := HasMail x\<rparr>)"
      using i(2) f(3) assms(3) by (simp add: arrivals_ok_def f(2))
    show "in_box (post (n\<lparr>post := po, worker := HasMail x\<rparr>)) k @ for_box k (in_transit (n\<lparr>post := po, worker := HasMail x\<rparr>))
      = in_box (post n) k @ for_box k (in_transit n)" for k
      using f(1) by (simp add: in_box_def in_transit_def assms(3) f(2)) (auto simp: inbox_mails_def worker_mails_def)
  qed
qed

lemma for_box_one: "for_box k [m] = (if mail_to (mailHdr m) = k then [m] else [])"
  by (simp add: for_box_def)

lemma post_inv_deliver:
  assumes "post_inv w" "node w a = Some n" "worker n = HasMail x" "PostalDelivery_put t x (post n) = Inr (done, po)"
  shows "post_inv (put_node a (n\<lparr>post := po, worker := if done then WaitingForMail else HasMail x\<rparr>) w)"
proof -
  have i: "post_ok a n" "arrivals_ok a n" using assms(1,2) by (simp_all add: post_inv_def)
  obtain h mh data where x: "x = (h, mh, data)" by (cases x) auto
  have g: "0 \<le> mail_to mh" "mail_to mh < numBoxes (post n)" "unat (mail_length mh) \<le> MaxMailSize"
    "unat (mail_length mh) \<le> length data"
    using i(2) assms(3) x by (simp_all add: arrivals_ok_def worker_ok_def)
  have len: "length (boxes (post n)) = nat (numBoxes (post n))" using i(1) by (simp add: post_ok_def)
  have ok: "box_ok (boxes (post n) ! nat (mail_to mh))" using i(1) g(1,2) len by (simp add: post_ok_def)
  obtain ws b where b: "MailBox_Put t h mh data (boxes (post n) ! nat (mail_to mh)) = Inr (Some ws, b)"
    "sl_list b = sl_list (boxes (post n) ! nat (mail_to mh)) @ [sent_mail h mh data]" "box_ok b"
    using MailBox_Put_ok [OF ok g(3,4)] by blast
  have r: "done" "po = (post n)\<lparr>boxes := (boxes (post n))[nat (mail_to mh) := b]\<rparr>"
    using assms(4) b(1) by (auto simp: PostalDelivery_put_def x)
  show ?thesis
  proof (rule post_inv_local [OF assms(1,2)])
    show "post_ok a (n\<lparr>post := po, worker := if done then WaitingForMail else HasMail x\<rparr>)"
      using i(1) b(3) by (auto simp: post_ok_def r(2) dest: set_update_subset_insert [THEN subsetD])
    show "arrivals_ok a (n\<lparr>post := po, worker := if done then WaitingForMail else HasMail x\<rparr>)"
      using i(2) assms(3) by (simp add: arrivals_ok_def r worker_ok_def)
    show "in_box (post (n\<lparr>post := po, worker := if done then WaitingForMail else HasMail x\<rparr>)) k @
        for_box k (in_transit (n\<lparr>post := po, worker := if done then WaitingForMail else HasMail x\<rparr>))
      = in_box (post n) k @ for_box k (in_transit n)" for k
      using g b(2) in_box_put [OF g(1,2) len, of b k]
      by (simp add: in_transit_def r assms(3) worker_mails_def x for_box_one sent_mail_def) (simp add: in_box_def for_box_def)
  qed
qed

lemma PostOffice_Receive_ok:
  assumes "post_ok a n" "PostOffice_Receive t box data (post n) = Inr (x, po)"
  shows "0 \<le> box \<and> box < numBoxes (post n) \<and> (\<exists>b. po = (post n)\<lparr>boxes := (boxes (post n))[nat box := b]\<rparr> \<and> box_ok b
    \<and> (case x of None \<Rightarrow> sl_list b = in_box (post n) box | Some (h, mh, buf) \<Rightarrow> in_box (post n) box = sent_mail h mh buf # sl_list b))"
proof -
  have g: "0 \<le> box" "box < numBoxes (post n)" using assms(2) by (auto simp: PostOffice_Receive_def split: if_splits)
  let ?b = "boxes (post n) ! nat box"
  have ok: "box_ok ?b" using assms(1) g by (simp add: post_ok_def)
  obtain b where b: "MailBox_Get t ?b = Inr (case sl_list ?b of [] \<Rightarrow> None | m # _ \<Rightarrow> Some m, b)" "sl_list b = tl (sl_list ?b)" "box_ok b"
    using MailBox_Get_ok [OF ok] by blast
  have i: "in_box (post n) box = sl_list ?b" using g by (simp add: in_box_def)
  have po: "po = (post n)\<lparr>boxes := (boxes (post n))[nat box := b]\<rparr>"
    using assms(2) g b(1) by (auto simp: PostOffice_Receive_def split: list.splits if_splits)
  show ?thesis
  proof (cases "sl_list ?b")
    case Nil
    then have "x = None" using assms(2) g b(1) by (simp add: PostOffice_Receive_def)
    then show ?thesis using g po b Nil i by auto
  next
    case (Cons m ms)
    have "unat (mail_length (mailHdr m)) \<le> MaxMailSize" "length (mail_data m) = unat (mail_length (mailHdr m))"
      using ok Cons by (simp_all add: box_ok_def)
    moreover from this have "x = Some (pktHdr m, mailHdr m, overlay 0 (mail_data m) data)"
      using assms(2) g b(1) Cons by (simp add: PostOffice_Receive_def)
    ultimately show ?thesis using g po b Cons i by (auto simp: sent_mail_def overlay_front)
  qed
qed

lemma post_inv_receive:
  assumes "post_inv w" "node w a = Some n" "PostOffice_Receive t box data (post n) = Inr (x, po)"
    and "w1 = (case x of None \<Rightarrow> put_node a (n\<lparr>post := po\<rparr>) w
      | Some (h, mh, buf) \<Rightarrow> (put_node a (n\<lparr>post := po\<rparr>) w)\<lparr>fetched :=
          (fetched w)(a := (fetched w a)(box := fetched w a box @ [sent_mail h mh buf]))\<rparr>)"
  shows "post_inv w1"
proof -
  have i: "post_ok a n" "arrivals_ok a n" "accounted w a n" using assms(1,2) by (simp_all add: post_inv_def)
  obtain b where g: "0 \<le> box" "box < numBoxes (post n)" and po: "po = (post n)\<lparr>boxes := (boxes (post n))[nat box := b]\<rparr>"
    and b: "box_ok b" "case x of None \<Rightarrow> sl_list b = in_box (post n) box
      | Some (h, mh, buf) \<Rightarrow> in_box (post n) box = sent_mail h mh buf # sl_list b"
    using PostOffice_Receive_ok [OF i(1) assms(3)] by blast
  have len: "length (boxes (post n)) = nat (numBoxes (post n))" using i(1) by (simp add: post_ok_def)
  note ib = in_box_put [OF g len, of b]
  show ?thesis
  proof (rule post_inv_frame [OF assms(1)])
    show "post_ok a (n\<lparr>post := po\<rparr>)"
      using i(1) b(1) by (auto simp: post_ok_def po dest: set_update_subset_insert [THEN subsetD])
    show "arrivals_ok a (n\<lparr>post := po\<rparr>)" using i(2) by (simp add: arrivals_ok_def po)
    show "accounted w1 a (n\<lparr>post := po\<rparr>)"
      using i(3) b(2) ib assms(4) by (auto simp: accounted_def put_node_def in_transit_def po split: option.splits)
  qed (auto simp: assms(4) put_node_def split: option.splits)
qed

lemma post_inv_step:
  assumes "post_inv w" "post_step w w1"
  shows "post_inv w1"
  using assms(2)
proof cases
  case (send a n ph mh junk wire t r data rq h p po)
  have "is_int32 (netAddr (post n))" using assms(1) send(1) by (auto simp: post_inv_def post_ok_def)
  then have "packet_ok (pkt_to h) p \<and> packet_mail p = sent_mail h mh data" using sent_packet send(2-7) by blast
  moreover have "post_inv (put_node a (n\<lparr>post := po, sending := sending n + 1\<rparr>) w)"
    by (rule post_inv_send_lock [OF assms(1) send(1) send(7)]) simp
  ultimately show ?thesis using post_inv_packet send(8) by blast
next
  case (send_lost a n t junk wire r ph mh data rq h po)
  have "post_inv (put_node a (n\<lparr>post := po, sending := sending n + 1\<rparr>) w)"
    by (rule post_inv_send_lock [OF assms(1) send_lost(2,3)]) simp
  then show ?thesis unfolding send_lost(1) by (simp add: post_inv_def accounted_def put_node_def)
next
  case (send_wait a n t junk wire r ph mh data po)
  have "post_inv (put_node a (n\<lparr>post := po, sending := sending n\<rparr>) w)"
    by (rule post_inv_send_lock [OF assms(1) send_wait(2,3)]) simp
  then show ?thesis unfolding send_wait(1) by simp
next
  case (send_done a n nw st)
  have i: "post_ok a n" "arrivals_ok a n" using assms(1) send_done(2) by (simp_all add: post_inv_def)
  have nw: "nw = (network (post n))\<lparr>sendBusy := False\<rparr>" using send_done(4) by (simp add: SendDone_def)
  show ?thesis unfolding send_done(1)
  proof (rule post_inv_local [OF assms(1) send_done(2)])
    show "post_ok a (n\<lparr>post := PacketSent ((post n)\<lparr>network := nw\<rparr>), node_stats := st, sending := sending n - 1\<rparr>)"
      using i(1) send_done(3) by (simp add: post_ok_def PacketSent_def nw)
    show "arrivals_ok a (n\<lparr>post := PacketSent ((post n)\<lparr>network := nw\<rparr>), node_stats := st, sending := sending n - 1\<rparr>)"
      using i(2) by (simp add: arrivals_ok_def PacketSent_def nw)
  qed (simp add: in_box_def in_transit_def PacketSent_def inbox_mails_def nw)
next
  case (send_end a n t got po)
  have i: "post_ok a n" "arrivals_ok a n" using assms(1) send_end(2) by (simp_all add: post_inv_def)
  obtain x l where x: "po = (post n)\<lparr>messageSent := x, sendLock := l\<rparr>"
    "if got then sem_value (messageSent (post n)) \<noteq> 0 \<and> sem_value x = sem_value (messageSent (post n)) - 1
       \<and> sem_value (locked l) = sem_value (locked (sendLock (post n))) + 1
     else sem_value x = sem_value (messageSent (post n)) \<and> l = sendLock (post n)"
    using PostOffice_Send_end_lock [OF send_end(3)] by blast
  show ?thesis unfolding send_end(1)
  proof (rule post_inv_local [OF assms(1) send_end(2)])
    show "post_ok a (n\<lparr>post := po\<rparr>)" using i(1) x(2) by (auto simp: post_ok_def x(1) split: if_splits)
    show "arrivals_ok a (n\<lparr>post := po\<rparr>)" using i(2) by (simp add: arrivals_ok_def x(1))
  qed (simp add: in_box_def in_transit_def x(1))
next
  case (poll a n rq called nw sock st po)
  then show ?thesis using post_inv_poll assms(1) by blast
next
  case (token a n t got po)
  then show ?thesis using post_inv_token assms(1) by blast
next
  case (fetch a n buffer x po)
  then show ?thesis using post_inv_fetch assms(1) by blast
next
  case (deliver a n x t fin po)
  then show ?thesis using post_inv_deliver assms(1) by blast
next
  case (receive a n t box data h mh buf po)
  show ?thesis by (rule post_inv_receive [OF assms(1) receive(2,3)]) (simp add: receive(1))
next
  case (receive_wait a n t box data po)
  show ?thesis by (rule post_inv_receive [OF assms(1) receive_wait(2,3)]) (simp add: receive_wait(1))
qed

lemma post_inv_init:
  assumes "post_init w"
  shows "post_inv w"
  unfolding post_inv_def
proof (intro allI impI)
  fix a n assume n: "node w a = Some n"
  then obtain junkH junkB reliability nBoxes where p: "post n = new_PostOffice junkH junkB a reliability nBoxes"
    "length junkB = MaxPacketSize" and s: "is_int32 a" "socket n = []" "worker n = WaitingForMail" "sending n = 0"
    using assms unfolding post_init_def by blast
  have l: "carried w a = []" "fetched w a k = []" for k using assms by (simp_all add: post_init_def)
  note new = p(1) new_PostOffice_def new_Network_def new_Lock_def new_Semaphore_def
  have "in_box (post n) k = []" for k by (simp add: in_box_def new new_SynchList_def)
  then have "accounted w a n" using l s by (simp add: accounted_def in_transit_def new worker_mails_def inbox_mails_def)
  moreover have "post_ok a n" using s box_ok_new by (simp add: post_ok_def new)
  moreover have "arrivals_ok a n" using s p(2) by (simp add: arrivals_ok_def worker_ok_def new)
  ultimately show "post_ok a n \<and> arrivals_ok a n \<and> accounted w a n" by simp
qed

interpretation post_net: step_system post_init post_step post_inv
  by unfold_locales (fact post_inv_init post_inv_step)+

section \<open>Properties\<close>

text \<open>C35: post offices deliver in order, exactly once and unchanged.  In every reachable state, the mails that went out
  to a box of a machine are, in the order in which they were sent, those received from the box, those waiting in it, and those in the
  hands of the worker, in the inbox of the device and in the socket.  Meanwhile a machine never has more than one packet
  going out, although \<open>sendBusy\<close> is never set.\<close>

theorem mail_in_order:
  assumes "post_init w0" "post_step\<^sup>*\<^sup>* w0 w" "node w a = Some n"
  shows "for_box k (carried w a) = fetched w a k @ in_box (post n) k @ for_box k (in_transit n)
    \<and> sending n \<le> 1 \<and> \<not> sendBusy (network (post n))"
proof -
  have "post_inv w" by (rule post_net.inv_reachable [OF assms(1,2)])
  then have "post_ok a n" "accounted w a n" using assms(3) by (simp_all add: post_inv_def)
  then show ?thesis by (auto simp: accounted_def post_ok_def)
qed

lemma CheckPktAvail_total:
  assumes "\<forall>p \<in> set sock. packet_ok (ident n) p"
  shows "\<exists>r. CheckPktAvail n sock st = Inr r"
  using assms payload_length(2)
  by (cases sock) (auto simp: CheckPktAvail_def packet_ok_def payload_ok_def Let_def)

lemma PostalDelivery_put_total:
  assumes "post_ok a n" "worker_ok (numBoxes (post n)) (HasMail x)"
  shows "\<exists>po. PostalDelivery_put t x (post n) = Inr (True, po)"
proof -
  obtain h mh data where x: "x = (h, mh, data)" by (cases x) auto
  have "box_ok (boxes (post n) ! nat (mail_to mh))" using assms by (simp add: post_ok_def worker_ok_def x)
  from MailBox_Put_ok [OF this] show ?thesis
    using assms(2) by (fastforce simp: PostalDelivery_put_def worker_ok_def x)
qed

lemma PostOffice_Receive_total:
  assumes "post_ok a n" "0 \<le> box" "box < numBoxes (post n)"
  shows "\<exists>r. PostOffice_Receive t box data (post n) = Inr r"
proof -
  let ?b = "boxes (post n) ! nat box"
  have ok: "box_ok ?b" using assms by (simp add: post_ok_def)
  obtain b where b: "MailBox_Get t ?b = Inr (case sl_list ?b of [] \<Rightarrow> None | m # _ \<Rightarrow> Some m, b)"
    using MailBox_Get_ok [OF ok] by blast
  show ?thesis using ok assms(2,3) b by (cases "sl_list ?b") (auto simp: PostOffice_Receive_def box_ok_def)
qed

lemma PostalDelivery_fetch_fails:
  assumes "payload_ok a (inHdr (network po)) (inbox (network po))" "pkt_length (inHdr (network po)) \<noteq> 0"
    and "length (inbox (network po)) = MaxPacketSize" "inbox_mails (network po) = [m]"
  shows "PostalDelivery_fetch buffer po = Inl AssertFail \<longleftrightarrow> \<not> (0 \<le> mail_to (mailHdr m) \<and> mail_to (mailHdr m) < numBoxes po)"
proof -
  let ?h = "inHdr (network po)" and ?bs = "inbox (network po)"
  have le: "unat (pkt_length ?h) \<le> length ?bs" using payload_length(2) [OF assms(1)] assms(3) by simp
  have "Network_Receive buffer (network po) = (?h, take (unat (pkt_length ?h)) ?bs @ drop (unat (pkt_length ?h)) buffer,
      (network po)\<lparr>inHdr := ?h\<lparr>pkt_length := 0\<rparr>\<rparr>)"
    using assms(2) le by (simp add: Network_Receive_def Let_def overlay_front unat_eq_0)
  moreover have "mailHdr m = mail_header_of ?bs" using assms(2,4) by (auto simp: inbox_mails_def payload_mail_def sent_mail_def)
  moreover have "unat (mail_length (mail_header_of ?bs)) \<le> MaxMailSize" using assms(1) by (simp add: payload_ok_def)
  ultimately show ?thesis
    using payload_mail_copy(2) [OF assms(1) refl le] by (simp add: PostalDelivery_fetch_def Let_def)
qed

text \<open>C36: what can fail on the receiving side.  In a reachable state the interrupt handler that polls the device and the
  call of \<open>Put\<close> never fail, and \<open>Receive\<close> fails only for a box that does not exist.  The postal worker fails
  exactly on a mail for a box that its machine does not have; the sender compares the box with the number of
  boxes of its own machine.\<close>

theorem post_office_failures:
  assumes "post_init w0" "post_step\<^sup>*\<^sup>* w0 w" "node w a = Some n"
  shows "(\<exists>r. CheckPktAvail (network (post n)) (socket n) (node_stats n) = Inr r)
    \<and> (\<forall>x. worker n = HasMail x \<longrightarrow> (\<exists>po. PostalDelivery_put t x (post n) = Inr (True, po)))
    \<and> (0 \<le> box \<and> box < numBoxes (post n) \<longrightarrow> (\<exists>r. PostOffice_Receive t box data (post n) = Inr r))
    \<and> (worker n = HasToken \<longrightarrow> (\<exists>m. inbox_mails (network (post n)) = [m] \<and>
        (PostalDelivery_fetch buffer (post n) = Inl AssertFail \<longleftrightarrow>
          \<not> (0 \<le> mail_to (mailHdr m) \<and> mail_to (mailHdr m) < numBoxes (post n)))))"
proof -
  have "post_inv w" by (rule post_net.inv_reachable [OF assms(1,2)])
  then have i: "post_ok a n" "arrivals_ok a n" using assms(3) by (simp_all add: post_inv_def)
  have id: "\<forall>p \<in> set (socket n). packet_ok (ident (network (post n))) p" using i by (auto simp: post_ok_def arrivals_ok_def)
  have d: "\<exists>po. PostalDelivery_put t x (post n) = Inr (True, po)" if "worker n = HasMail x" for x
    using PostalDelivery_put_total [OF i(1)] i(2) that by (simp add: arrivals_ok_def)
  have f: "\<exists>m. inbox_mails (network (post n)) = [m] \<and> (PostalDelivery_fetch buffer (post n) = Inl AssertFail \<longleftrightarrow>
          \<not> (0 \<le> mail_to (mailHdr m) \<and> mail_to (mailHdr m) < numBoxes (post n)))" if "worker n = HasToken"
    using PostalDelivery_fetch_fails [of a "post n"] i(2) that by (simp add: arrivals_ok_def inbox_mails_def)
  show ?thesis using CheckPktAvail_total [OF id] d f PostOffice_Receive_total [OF i(1)] by blast
qed

text \<open>A machine that sends three bytes to its own box 0.\<close>

definition sample_world :: post_world where
  "sample_world = \<lparr>node = [1 \<mapsto> \<lparr>post = new_PostOffice \<lparr>pkt_to = 0, pkt_from = 0, pkt_length = 0\<rparr> (replicate 52 0) 1 1 2,
     socket = [], node_stats = new_Statistics, worker = WaitingForMail, sending = 0\<rparr>],
     carried = (\<lambda>_. []), lost = [], fetched = (\<lambda>_ _. [])\<rparr>"

lemma sample_world_init: "post_init sample_world"
proof -
  have "\<exists>junkH junkB reliability nBoxes. length junkB = MaxPacketSize \<and>
      new_PostOffice \<lparr>pkt_to = 0, pkt_from = 0, pkt_length = 0\<rparr> (replicate 52 0) 1 1 2 = new_PostOffice junkH junkB 1 reliability nBoxes"
    by (intro exI [of _ "\<lparr>pkt_to = 0, pkt_from = 0, pkt_length = 0\<rparr>"] exI [of _ "replicate 52 0"] exI [of _ "1::real"] exI [of _ "2::int"])
      (simp add: wire_consts)
  then show ?thesis by (simp add: post_init_def sample_world_def is_int32_def)
qed

lemma sample_world_sends:
  "\<exists>w n. post_step\<^sup>*\<^sup>* sample_world w \<and> node w 1 = Some n \<and> map mail_data (for_box 0 (carried w 1)) = [[7, 8, 9]]
     \<and> fetched w 1 0 = [] \<and> in_box (post n) 0 = [] \<and> numBoxes (post n) = 2"
proof -
  let ?n = "the (node sample_world 1)" and ?ph = "\<lparr>pkt_to = 1, pkt_from = 0, pkt_length = 0\<rparr>"
  let ?mh = "\<lparr>mail_to = 0, mail_from = 1, mail_length = 3\<rparr>"
  have n: "node sample_world 1 = Some ?n" by (simp add: sample_world_def)
  let ?send = "PostOffice_Send 0 (replicate 52 0) (replicate 64 0) 0 ?ph ?mh [7, 8, 9] (post ?n)"
  have "\<exists>rq h p po. ?send = Inr (Some (rq, h, Some p), po) \<and> pkt_to h = 1 \<and> boxes po = boxes (post ?n) \<and> numBoxes po = 2"
    by (simp add: sample_world_def PostOffice_Send_def new_PostOffice_def new_Network_def new_Lock_def new_Semaphore_def
      Acquire_def P_def Network_Send_def wire_consts overlay_def Let_def)
  then obtain rq h p po where s: "?send = Inr (Some (rq, h, Some p), po)" "pkt_to h = 1" "boxes po = boxes (post ?n)" "numBoxes po = 2"
    by blast
  let ?w1 = "put_node 1 (?n\<lparr>post := po, sending := sending ?n + 1\<rparr>) sample_world"
  let ?m = "sent_mail h ?mh [7, 8, 9]"
  obtain w n where w: "put_packet 1 p ?m ?w1 = Some w" "node w 1 = Some n" "post n = po" "carried w 1 = [?m]" "fetched w 1 = (\<lambda>_. [])"
    by (simp add: put_packet_def put_node_def) (simp add: sample_world_def)
  have "post_step sample_world w"
    by (rule post_step.send [where ph = ?ph and mh = ?mh, OF n _ _ _ _ _ s(1)])
      (use w(1) s(2) in \<open>simp_all add: is_int32_def wire_consts\<close>)
  moreover have "in_box po 0 = []"
    using s(3,4) by (simp add: in_box_def sample_world_def new_PostOffice_def new_SynchList_def)
  ultimately show ?thesis using w s(4) by (intro exI [of _ w] exI [of _ n]) (auto simp: for_box_def sent_mail_def)
qed

theorem mail_in_order_witness:
  "\<exists>w n. post_step\<^sup>*\<^sup>* sample_world w \<and> node w 1 = Some n \<and> map mail_data (for_box 0 (in_transit n)) = [[7, 8, 9]] \<and> sending n \<le> 1"
proof -
  obtain w n where w: "post_step\<^sup>*\<^sup>* sample_world w" "node w 1 = Some n" "map mail_data (for_box 0 (carried w 1)) = [[7, 8, 9]]"
    "fetched w 1 0 = []" "in_box (post n) 0 = []"
    using sample_world_sends by (elim exE conjE) (rule that)
  note m = mail_in_order [OF sample_world_init w(1,2), of 0, unfolded w(4,5)]
  have e: "for_box 0 (carried w 1) = for_box 0 (in_transit n)" using conjunct1 [OF m] unfolding append_Nil .
  show ?thesis
    by (intro exI [of _ w] exI [of _ n] conjI) (fact w(1) w(2) w(3) [unfolded e] conjunct1 [OF conjunct2 [OF m]])+
qed

theorem post_office_failures_witness:
  "\<exists>w n r. post_step\<^sup>*\<^sup>* sample_world w \<and> node w 1 = Some n \<and> map mail_data (for_box 0 (carried w 1)) = [[7, 8, 9]]
     \<and> CheckPktAvail (network (post n)) (socket n) (node_stats n) = Inr r \<and> PostOffice_Receive 0 1 [] (post n) \<noteq> Inl AssertFail"
proof -
  obtain w n where w: "post_step\<^sup>*\<^sup>* sample_world w" "node w 1 = Some n" "map mail_data (for_box 0 (carried w 1)) = [[7, 8, 9]]"
    "numBoxes (post n) = 2"
    using sample_world_sends by (elim exE conjE) (rule that)
  note f = post_office_failures [OF sample_world_init w(1,2), of 0 1 "[]" "[]"]
  obtain r where r: "CheckPktAvail (network (post n)) (socket n) (node_stats n) = Inr r" using f by blast
  have "0 \<le> (1::int) \<and> 1 < numBoxes (post n)" by (simp add: w(4))
  then obtain q where "PostOffice_Receive 0 1 [] (post n) = Inr q" using f by blast
  then have q: "PostOffice_Receive 0 1 [] (post n) \<noteq> Inl AssertFail" by simp
  show ?thesis by (intro exI [of _ w] exI [of _ n] exI [of _ r] conjI) (fact w(1) w(2) w(3) r q)+
qed

end
