(* ===== verification/Console.thy ===== *)
theory Console
  imports Nachos_Prelude
begin

text \<open>
  machine/console.cc and the console test of userprog/progtest.cc.  The UNIX files behind the keyboard and the display are
  the bytes not yet read and the bytes written.  \<open>scheduled\<close> is what the console has handed to \<open>Interrupt::Schedule\<close> and has not
  been fired yet, all due after \<open>ConsoleTime\<close>; the theory \<open>Interrupts\<close> says in which order they fire, and here they
  fire in any order.  \<open>char\<close> is signed, so that the character 0xFF is \<open>EOF\<close>.  A handler of the console is called where an operation
  returns \<open>True\<close>.
\<close>

section \<open>The device\<close>

datatype console_int = ConsoleReadPoll | ConsoleWriteDone

record console =
  readFile :: "u8 list"
  writeFile :: "u8 list"
  putBusy :: bool
  incoming :: u8
  scheduled :: "console_int list"
  numConsoleCharsRead :: nat
  numConsoleCharsWritten :: nat

definition EOF :: u8 where "EOF = - 1"


text \<open>\<open>avail\<close> is what \<open>PollFile\<close> returns: at the end of a file it is true, and then \<open>Read\<close> gets no byte and
  its \<open>ASSERT\<close> fails.\<close>

definition CheckCharAvail :: "bool \<Rightarrow> console \<Rightarrow> (bool \<times> console) res" where
  "CheckCharAvail avail c =
     (let c1 = c\<lparr>scheduled := scheduled c @ [ConsoleReadPoll]\<rparr> in
      if incoming c \<noteq> EOF \<or> \<not> avail then Inr (False, c1)
      else case readFile c of [] \<Rightarrow> Inl AssertFail
        | ch # rest \<Rightarrow> Inr (True, c1\<lparr>readFile := rest, incoming := ch, numConsoleCharsRead := numConsoleCharsRead c + 1\<rparr>))"


definition GetChar :: "console \<Rightarrow> u8 \<times> console" where
  "GetChar c = (incoming c, c\<lparr>incoming := EOF\<rparr>)"



section \<open>The echo program\<close>

text \<open>The lines of the loop in \<open>ConsoleTest\<close>, and the values of its two semaphores.  \<open>Aborted\<close>: the \<open>ASSERT\<close> in \<open>Read\<close> has
  failed in the interrupt handler and has ended the process.\<close>

datatype echo_line = WaitRead | Get | Put | WaitWrite | Returned | Aborted

record echo =
  dev :: console
  readAvail :: nat
  writeDone :: nat
  line :: echo_line
  ch :: u8






section \<open>Invariant\<close>









lemma in_remove1 [simp]: "x \<noteq> y \<Longrightarrow> x \<in> set (remove1 y xs) \<longleftrightarrow> x \<in> set xs"
  by simp










section \<open>Progress\<close>







section \<open>Properties\<close>




text \<open>The character 0xFF looks like an empty buffer: the next poll overwrites it, and at the end of the input file the console aborts.\<close>

lemma character_FF_is_lost:
  assumes "incoming c = EOF" "readFile c = EOF # x # rest"
  shows "\<exists>c1 c2. CheckCharAvail True c = Inr (True, c1) \<and> CheckCharAvail True c1 = Inr (True, c2) \<and> fst (GetChar c2) = x"
  using assms by (simp add: CheckCharAvail_def GetChar_def)

lemma end_of_file_aborts: "incoming c = EOF \<Longrightarrow> readFile c = [] \<Longrightarrow> CheckCharAvail True c = Inl AssertFail"
  by (simp add: CheckCharAvail_def)

end
