(* ===== verification/Spec2Isabelle.thy ===== *)
theory Spec2Isabelle
  imports FsTest ChangeSize Disasm Sched BufferTest BarrierSteps SynchListSteps SynchDiskSteps UserSteps CoffNoff NetPost Console
begin

text \<open>
  A verification library for Nachos as it stands under src/try/code: an instructional operating system
  that runs as a UNIX process on top of a simulated machine.

  \<^bold>\<open>The program.\<close>  machine/ simulates the hardware: a MIPS processor with a TLB, a disk, a timer, a network device and a
  clock that fires interrupts.  threads/ is the kernel's core: threads, a scheduler with several policies, semaphores,
  locks, conditions, a readers-writers lock and a barrier.  filesys/ builds files on the disk through the synchronous disk,
  userprog/ loads programs and handles their page faults, network/ is a post office on the network device.
  Calls go from the kernel down to the devices; a device answers by an interrupt that it schedules, whose
  handler wakes a thread by a semaphore.

  \<^bold>\<open>Theories and sources.\<close>
  \<^item> \<open>Nachos_Prelude\<close>: faults as values, C integers and bytes (threads/utility.h), C strings, systems with steps.
  \<^item> \<open>Bitmap\<close>: userprog/bitmap.cc.  \<open>Disk\<close>: machine/stats.cc, machine/disk.cc, filesys/synchdisk.cc.
  \<^item> \<open>FileHdr\<close>, \<open>OpenFile\<close>, \<open>Directory\<close>, \<open>FileSystem\<close>: the files of these names in filesys/, bottom up.
    \<open>FsTest\<close>: filesys/fstest.cc, the commands on top of them.  \<open>ChangeSize\<close>: the routine of this name in src/try/filesys/filehdr.cc.
  \<^item> \<open>Machine\<close>: machine/machine.cc, machine/translate.cc, userprog/exception.cc, and the replacement of pages in
    userprog/addrspace.cc.  \<open>AddrSpace\<close>: the rest of addrspace.cc, and StartProcess.
  \<^item> \<open>MipsDecode\<close>, \<open>MipsMult\<close>, \<open>MipsSim\<close>: machine/mipssim.cc and mipssim.h.
  \<^item> \<open>NachosList\<close>: threads/list.cc and mylist.h.  \<open>Interrupts\<close>: machine/interrupt.cc and timer.cc.
  \<^item> \<open>Sched\<close>: threads/thread.cc, scheduler.cc and the thread tables of system.cc.
  \<^item> \<open>Devices\<close>: the interrupt handlers of the timers, the scheduler and the disk (timer.cc, system.cc, scheduler.cc, synchdisk.cc) on
    the state of \<open>Sched\<close>.  \<open>UserSteps\<close>: the loop of \<open>Machine::Run\<close>, the user half of \<open>Scheduler::Run\<close> and any number of
    threads with programs on the one processor.
  \<^item> \<open>Synch\<close>: threads/synch.cc and synchlist.cc, the code between two context switches.  \<open>Monitor\<close>: any threads on an object
    behind a lock and its conditions.  \<open>SynchSteps\<close> (semaphore, \<open>RWLock\<close>), \<open>BarrierSteps\<close>, \<open>SynchListSteps\<close>: all
    interleavings on one of these objects.  \<open>ProdCons\<close>, \<open>BufferTest\<close>: \<open>SemTest\<close> and \<open>CondTest\<close> of threads/synchtest.cc.
    \<open>SynchDiskSteps\<close>: any threads on the synchronous disk.
  \<^item> \<open>NetPost\<close>: machine/network.cc and network/post.cc.  \<open>Console\<close>: machine/console.cc and the console test of userprog/progtest.cc.
  \<^item> \<open>CoffNoff\<close>: bin/coff2noff.c and coff.h, the tool that makes the programs which \<open>AddrSpace\<close> loads.
  \<^item> \<open>MipsInterp\<close>: bin/execute.c with encode.h, instr.h and int.h, a second interpreter of the MIPS, apart from the machine.
    \<open>Disasm\<close>: bin/d.c with opstrings.c, the disassembler, and the printed trace of machine/mipssim.cc.

  A class is a record with the same members, an operation is a definition with the name of the method (with
  the class in front where two classes share it), a global that an operation uses is an argument or a member of its state.
  An operation that can abort returns a sum, \<open>Inl\<close> of a \<open>fault\<close>.  Memory that the code reads without having
  written it is an argument (\<open>junk\<close>), for which the theorems hold whatever it is.

  \<^bold>\<open>What the lemmas show.\<close>
  \<^item> File system: allocation lays out a file over fresh sectors and deallocation gives them back; \<open>ChangeSize\<close> appends
    fresh sectors, as far as the direct pointers go; \<open>ReadAt\<close> and
    \<open>WriteAt\<close> read and change the byte string of a file and nothing else; the directory is a finite map; formatting establishes, and
    creating, opening and removing files keep, an invariant of the disk (every sector belongs to one file).
    Copying a file in and printing it gives its bytes.
  \<^item> Machine: translation, TLB refill, page replacement; loads after stores; the multiplication loop against 64-bit
    arithmetic; decoding against the instruction formats.
    Across instructions, interrupts and context switches the processor and every saved context stay sound, and a thread finds
    its registers again.
  \<^item> Kernel: linked lists against sequences, in two orders; due interrupts fire in order, with the kernel's own handlers, none
    of which fails, and the loop ends; what a scheduling decision does to the ready list; thread numbers.
  \<^item> Synchronization: invariants of every interleaving on a semaphore, the readers-writers lock (exclusion, no lost
    wake-up), a barrier (nobody passes before the last one, once) and a synchronized list (first in, first out, no lost item);
    a bounded buffer on three semaphores, and one on a lock with two conditions, of which every run ends.
    The threads on the synchronous disk act like one plain operation after the other, which is what the file system is built on.
  \<^item> Network: mail arrives in order, once and unchanged, in every interleaving of machines, interrupts and threads.
  \<^item> Console: an echo program shows what is typed, whenever the interrupts fire; it returns after the first q, and the
    device aborts behind the end of an input without one.
  \<^item> Tools: a converted program, loaded, has the bytes of its sections at their addresses; the two simulators of the MIPS
    agree on an instruction under a sufficient condition on it and its operands, and so do the disassembler and the trace; the interpreter stays inside its memory.

  Interfaces are locales, each interpreted on the model: \<open>bit_allocator\<close> (the bitmap), \<open>sector_device\<close> (the synchronous
  disk), \<open>byte_file\<close> (the open file), \<open>keyed_queue\<close> (the two sorted lists), \<open>interrupt_handlers\<close> (what
  the loop that fires interrupts needs of a handler; met by those in \<open>Devices\<close>), \<open>step_system\<close> (the step relations),
  \<open>monitor\<close> (an object behind a lock: each piece of code keeps the invariant that ties it to the places of the threads;
  the lock, exclusion and the absence of a lost wake-up at the lock follow), which extends to \<open>step_system\<close> by \<open>sublocale\<close>.

  \<^bold>\<open>Loops.\<close>  Loops with a bound are functions with a termination proof.  Those that may run forever are
  \<open>partial_function (option)\<close>, with \<open>None\<close> for not returning: walking a list whose links may form a cycle, firing
  interrupts whose handlers schedule more, yielding and waiting for a thread.  That they end where the code relies on it is
  proved in \<open>Interrupts\<close>, \<open>Devices\<close> and \<open>NachosList\<close>.  \<open>Machine::Run\<close> has no end: \<open>Run_round\<close> is one round
  of it, and its runs are sequences of steps.  No definition uses fuel.

  \<^bold>\<open>Parameters.\<close>  \<open>SWITCH\<close> is assembly: what happens between giving up the processor and getting it back is
  an argument of \<open>Sched\<close>.  A handler is a function pointer, so the effect of calling it is an argument of \<open>Interrupts\<close>;
  \<open>Devices\<close> gives it the code of the kernel's handlers.  The user half of a context switch is an argument of \<open>Sched\<close>, with its code in
  \<open>UserSteps\<close>.  The values of \<open>Random()\<close> are a sequence in the state of \<open>Devices\<close>, assumed not negative as those of the host's \<open>rand\<close> are.
  What a system call of the stand-alone interpreter does is an argument of \<open>MipsInterp\<close>.  The result of \<open>Random()\<close> is an argument of \<open>Network_Send\<close>.

  \<^bold>\<open>Not modelled.\<close>  Output to the console (Print, List, DumpState, DEBUG), argument parsing and the UNIX calls
  (threads/main.cc, machine/sysdep.cc), the other test drivers, the debugger of the simulator; threads/tcb.cc, a class with
  empty bodies that no file uses; the rest of src/try/filesys, a second copy of filesys/ that no makefile builds
  (the same text, but \<open>ChangeSize\<close> is inside a comment in the first; a brace is missing in front of it, so the copy does not compile); the
  headers of the cross compiler; in bin/ the programs around the disassembler, the statistics and the system calls of the stand-alone interpreter (output and calls of the
  host's UNIX) and coff2flat.c, which needs headers that are not in the repository.  Sums of positions, sizes and ticks are taken not to overflow an
  \<open>int\<close>; where a sum of the tools in bin/ can, it wraps.
\<close>

end
